(* ===== verification/XB_Prelude.thy ===== *)
theory XB_Prelude
  imports Main "HOL-Library.Word" "HOL-Library.List_Lexorder" "HOL-Library.Char_ord"
    "HOL-Library.Multiset"
begin

text \<open>
  Shared material of the development: the names of the machine types, the result type, the
  parts of the Rust standard library the sources use on slices (comparators and the stable
  \<open>sort_by\<close>, \<open>windows(2)\<close>, \<open>split_once\<close>, \<open>strip_suffix\<close>), association lists that stand for a
  \<open>BTreeMap\<close>, and the interface of a comparator with the facts every client of a sort uses.
\<close>

section \<open>Collections and type names\<close>

named_theorems xb_simps \<open>characteristic equations of the components' operations\<close>
named_theorems xb_splits \<open>case splits over the components' data\<close>

type_synonym u8 = "8 word"
type_synonym u32 = "32 word"
type_synonym u64 = "64 word"
type_synonym bytes = "u8 list"

text \<open>A fallible operation returns \<open>Inl\<close> of its error or \<open>Inr\<close> of its value.\<close>

type_synonym ('e, 'a) result = "'e + 'a"

definition bind_res :: "('e + 'a) \<Rightarrow> ('a \<Rightarrow> 'e + 'b) \<Rightarrow> 'e + 'b" where
  "bind_res r f = (case r of Inl e \<Rightarrow> Inl e | Inr x \<Rightarrow> f x)"

lemma bind_res_simps [simp]:
  "bind_res (Inl e) f = Inl e" "bind_res (Inr x) f = f x"
  by (simp_all add: bind_res_def)

lemma bind_res_Inr_iff: "bind_res r f = Inr y \<longleftrightarrow> (\<exists>x. r = Inr x \<and> f x = Inr y)"
  by (cases r) auto

lemma bind_res_Inl_iff:
  "bind_res r f = Inl e \<longleftrightarrow> r = Inl e \<or> (\<exists>x. r = Inr x \<and> f x = Inl e)"
  by (cases r) auto

text \<open>The \<open>?\<close> operator over a list: the first error wins, otherwise all values in order.\<close>

fun collect_res :: "('a \<Rightarrow> 'e + 'b) \<Rightarrow> 'a list \<Rightarrow> 'e + 'b list" where
  "collect_res f [] = Inr []"
| "collect_res f (x # xs) =
     bind_res (f x) (\<lambda>y. bind_res (collect_res f xs) (\<lambda>ys. Inr (y # ys)))"

section \<open>Orderings and comparators\<close>

text \<open>\<open>std::cmp::Ordering\<close>, with \<open>then\<close> and the comparison of a total order.\<close>

datatype ordering = Less | Equal | Greater

fun then_cmp :: "ordering \<Rightarrow> ordering \<Rightarrow> ordering" where
  "then_cmp Equal o2 = o2"
| "then_cmp o1 o2 = o1"

definition cmp :: "'a::linorder \<Rightarrow> 'a \<Rightarrow> ordering" where
  "cmp a b = (if a < b then Less else if a = b then Equal else Greater)"

lemma cmp_simps [simp]:
  "cmp a b = Less \<longleftrightarrow> a < b"
  "cmp a b = Equal \<longleftrightarrow> a = b"
  "cmp a b = Greater \<longleftrightarrow> b < a"
  by (auto simp: cmp_def)

lemma then_cmp_simps [simp]:
  "then_cmp o1 o2 = Less \<longleftrightarrow> o1 = Less \<or> o1 = Equal \<and> o2 = Less"
  "then_cmp o1 o2 = Equal \<longleftrightarrow> o1 = Equal \<and> o2 = Equal"
  "then_cmp o1 o2 = Greater \<longleftrightarrow> o1 = Greater \<or> o1 = Equal \<and> o2 = Greater"
  by (cases o1; simp)+

text \<open>
  \<open>slice::sort_by\<close> is a stable sort by a comparator. The model is insertion from the right:
  an element goes before the first one it does not compare \<open>Greater\<close> to, so equal elements
  keep their order.
\<close>

fun insert_by :: "('a \<Rightarrow> 'a \<Rightarrow> ordering) \<Rightarrow> 'a \<Rightarrow> 'a list \<Rightarrow> 'a list" where
  "insert_by c x [] = [x]"
| "insert_by c x (y # ys) = (if c x y = Greater then y # insert_by c x ys else x # y # ys)"

fun sort_by :: "('a \<Rightarrow> 'a \<Rightarrow> ordering) \<Rightarrow> 'a list \<Rightarrow> 'a list" where
  "sort_by c [] = []"
| "sort_by c (x # xs) = insert_by c x (sort_by c xs)"

lemma mset_insert_by [simp]: "mset (insert_by c x xs) = add_mset x (mset xs)"
  by (induction xs) auto

lemma mset_sort_by [simp]: "mset (sort_by c xs) = mset xs"
  by (induction xs) auto

lemma set_insert_by [simp]: "set (insert_by c x xs) = insert x (set xs)"
  by (induction xs) auto

lemma set_sort_by [simp]: "set (sort_by c xs) = set xs"
  by (induction xs) auto

lemma length_sort_by [simp]: "length (sort_by c xs) = length xs"
  using mset_sort_by mset_eq_length by blast

lemma sort_by_Nil_iff [simp]: "sort_by c xs = [] \<longleftrightarrow> xs = []"
  by (metis length_0_conv length_sort_by)

lemma distinct_map_sort_by [simp]:
  "distinct (map f (sort_by c xs)) \<longleftrightarrow> distinct (map f xs)"
  by (metis mset_map mset_sort_by mset_eq_imp_distinct_iff)

text \<open>
  The interface of a comparator: what a client of \<open>sort_by\<close> relies on. Each comparator of the
  code interprets it in the theory that defines it.
\<close>

locale comparator =
  fixes c :: "'a \<Rightarrow> 'a \<Rightarrow> ordering"
  assumes flip: "c x y = Greater \<longleftrightarrow> c y x = Less"
    and trans: "c x y \<noteq> Greater \<Longrightarrow> c y z \<noteq> Greater \<Longrightarrow> c x z \<noteq> Greater"
begin

lemma refl: "c x x \<noteq> Greater"
  using flip by force

lemma insert_by_sorted:
  "sorted_wrt (\<lambda>x y. c x y \<noteq> Greater) xs \<Longrightarrow>
   sorted_wrt (\<lambda>x y. c x y \<noteq> Greater) (insert_by c x xs)"
proof (induction xs)
  case Nil
  then show ?case by simp
next
  case (Cons y ys)
  then have "c x y = Greater \<Longrightarrow> c y x \<noteq> Greater"
    by (simp add: flip)
  with Cons show ?case
    by (auto dest: trans)
qed

lemma sort_by_sorted: "sorted_wrt (\<lambda>x y. c x y \<noteq> Greater) (sort_by c xs)"
  by (induction xs) (simp_all add: insert_by_sorted)

lemma insert_by_min:
  assumes "\<And>y. y \<in> set xs \<Longrightarrow> c x y \<noteq> Greater"
  shows "insert_by c x xs = x # xs"
  using assms by (cases xs) auto

lemma sort_by_id: "sorted_wrt (\<lambda>x y. c x y \<noteq> Greater) xs \<Longrightarrow> sort_by c xs = xs"
  by (induction xs) (auto simp: insert_by_min)

lemma insert_by_snoc:
  "c x y = Less \<Longrightarrow> insert_by c x (xs @ [y]) = insert_by c x xs @ [y]"
  by (induction xs) auto

text \<open>Appending a strict maximum before sorting appends it after sorting.\<close>

lemma sort_by_snoc:
  assumes "\<And>x. x \<in> set xs \<Longrightarrow> c x y = Less"
  shows "sort_by c (xs @ [y]) = sort_by c xs @ [y]"
  using assms by (induction xs) (auto simp: insert_by_snoc)

text \<open>
  Where \<open>Equal\<close> means equality, the sorted list is determined by the elements, whatever the
  order in which they came.
\<close>

lemma sorted_unique:
  assumes "mset xs = mset ys"
    and "sorted_wrt (\<lambda>x y. c x y \<noteq> Greater) xs" and "sorted_wrt (\<lambda>x y. c x y \<noteq> Greater) ys"
    and "\<And>x y. x \<in> set xs \<Longrightarrow> y \<in> set xs \<Longrightarrow> c x y = Equal \<Longrightarrow> x = y"
  shows "xs = ys"
  using assms
proof (induction xs arbitrary: ys)
  case Nil
  then show ?case by simp
next
  case (Cons x xs)
  then obtain y ys' where ys: "ys = y # ys'"
    by (cases ys) auto
  have mem: "x \<in> set ys" "y \<in> set (x # xs)"
    using Cons.prems(1) ys by (metis list.set_intros(1) mset_eq_setD)+
  have "x = y"
  proof (rule ccontr)
    assume ne: "x \<noteq> y"
    with mem ys Cons.prems(2,3) have "c x y \<noteq> Greater" "c y x \<noteq> Greater"
      by auto
    then have "c x y = Equal"
      using flip [of y x] by (cases "c x y") auto
    with Cons.prems(4) mem(2) ne show False
      by auto
  qed
  moreover have "xs = ys'"
    using Cons.prems ys \<open>x = y\<close> by (intro Cons.IH) auto
  ultimately show ?case
    using ys by simp
qed

lemma sort_by_cong_mset:
  assumes "mset xs = mset ys"
    and "\<And>x y. x \<in> set xs \<Longrightarrow> y \<in> set xs \<Longrightarrow> c x y = Equal \<Longrightarrow> x = y"
  shows "sort_by c xs = sort_by c ys"
  by (rule sorted_unique) (simp_all add: assms sort_by_sorted)

end

interpretation cmp_linorder: comparator "cmp :: 'a::linorder \<Rightarrow> 'a \<Rightarrow> ordering"
  by unfold_locales auto

section \<open>Windows, maxima and lookups on lists\<close>

text \<open>\<open>slice::windows(2)\<close>.\<close>

definition windows2 :: "'a list \<Rightarrow> ('a \<times> 'a) list" where
  "windows2 xs = zip xs (tl xs)"

lemma windows2_simps [simp]:
  "windows2 [] = []" "windows2 [x] = []"
  "windows2 (x # y # zs) = (x, y) # windows2 (y # zs)"
  by (simp_all add: windows2_def)

lemma windows2_snoc: "windows2 (xs @ [y, z]) = windows2 (xs @ [y]) @ [(y, z)]"
  by (induction xs rule: induct_list012) auto

lemma windows2_append1:
  "xs \<noteq> [] \<Longrightarrow> windows2 (xs @ [z]) = windows2 xs @ [(last xs, z)]"
  by (cases xs rule: rev_cases) (auto simp: windows2_snoc)

text \<open>\<open>Iterator::max\<close> over integers and \<open>Iterator::position\<close>.\<close>

definition max_opt :: "int list \<Rightarrow> int option" where
  "max_opt xs = (if xs = [] then None else Some (Max (set xs)))"

fun position :: "('a \<Rightarrow> bool) \<Rightarrow> 'a list \<Rightarrow> nat option" where
  "position p [] = None"
| "position p (x # xs) = (if p x then Some 0 else map_option Suc (position p xs))"

lemma position_None_iff: "position p xs = None \<longleftrightarrow> (\<forall>x \<in> set xs. \<not> p x)"
  by (induction xs) auto

lemma position_SomeD:
  "position p xs = Some i \<Longrightarrow> i < length xs \<and> p (xs ! i) \<and> (\<forall>j < i. \<not> p (xs ! j))"
proof (induction xs arbitrary: i)
  case Nil
  then show ?case by simp
next
  case (Cons x xs)
  show ?case
  proof (cases "p x")
    case True
    with Cons.prems show ?thesis by simp
  next
    case False
    with Cons.prems obtain k where k: "position p xs = Some k" "i = Suc k"
      by auto
    from Cons.IH [OF k(1)] False k(2) show ?thesis
      by (auto simp: nth_Cons split: nat.splits)
  qed
qed

lemma position_eqI:
  "k < length xs \<Longrightarrow> p (xs ! k) \<Longrightarrow> (\<And>j. j < k \<Longrightarrow> \<not> p (xs ! j)) \<Longrightarrow> position p xs = Some k"
proof (induction xs arbitrary: k)
  case (Cons x xs)
  show ?case
  proof (cases k)
    case 0
    with Cons.prems show ?thesis by simp
  next
    case (Suc j)
    have "position p xs = Some j"
      using Cons.prems(1,2) Suc Cons.prems(3) [of "Suc i" for i] by (intro Cons.IH) auto
    with Suc Cons.prems(3) [of 0] show ?thesis by simp
  qed
qed simp

lemma member_concat_subset: "xs \<in> set xss \<Longrightarrow> set xs \<subseteq> set (concat xss)"
  by auto

lemma distinct_concat_map:
  assumes "distinct ts" and "\<And>t. t \<in> set ts \<Longrightarrow> distinct (g t)"
    and "\<And>t u. t \<in> set ts \<Longrightarrow> u \<in> set ts \<Longrightarrow> t \<noteq> u \<Longrightarrow> set (g t) \<inter> set (g u) = {}"
  shows "distinct (concat (map g ts))"
  using assms
proof (induction ts)
  case (Cons t ts)
  have "set (g t) \<inter> set (g u) = {}" if "u \<in> set ts" for u
    using Cons.prems(1,3) that by auto
  with Cons show ?case by auto
qed simp

lemma find_Some_distinct:
  assumes "distinct (map f xs)" and "x \<in> set xs"
  shows "List.find (\<lambda>y. f y = f x) xs = Some x"
  using assms by (induction xs) (auto simp: image_iff)

lemma find_None_iff_image: "List.find (\<lambda>y. f y = k) xs = None \<longleftrightarrow> k \<notin> f ` set xs"
  by (auto simp: find_None_iff)

lemma find_SomeD: "List.find p xs = Some x \<Longrightarrow> x \<in> set xs \<and> p x"
  by (induction xs) (auto split: if_splits)

lemma find_append:
  "List.find p (xs @ ys) = (case List.find p xs of Some x \<Rightarrow> Some x | None \<Rightarrow> List.find p ys)"
  by (induction xs) auto

lemma set_map_filter: "set (List.map_filter f xs) = {y. \<exists>x \<in> set xs. f x = Some y}"
  by (induction xs) (auto simp: List.map_filter_simps split: option.split)

section \<open>Strings\<close>

text \<open>
  \<open>str::split_once\<close> on one character and \<open>str::strip_suffix\<close>. A string is the list of its
  UTF-8 bytes, as a Rust \<open>String\<close> is.
\<close>

fun split_once :: "char \<Rightarrow> string \<Rightarrow> (string \<times> string) option" where
  "split_once d [] = None"
| "split_once d (x # xs) =
     (if x = d then Some ([], xs)
      else map_option (\<lambda>(a, b). (x # a, b)) (split_once d xs))"

lemma split_once_Some: "split_once d s = Some (a, b) \<Longrightarrow> s = a @ d # b \<and> d \<notin> set a"
  by (induction s arbitrary: a) (auto split: if_splits)

lemma split_once_None: "split_once d s = None \<longleftrightarrow> d \<notin> set s"
  by (induction s) auto

lemma split_once_append: "d \<notin> set a \<Longrightarrow> split_once d (a @ d # b) = Some (a, b)"
  by (induction a) auto

text \<open>\<open>str::split(char)\<close>: always at least one part.\<close>

fun split_on :: "char \<Rightarrow> string \<Rightarrow> string list" where
  "split_on d [] = [[]]"
| "split_on d (x # xs) =
     (if x = d then [] # split_on d xs
      else (case split_on d xs of [] \<Rightarrow> [[x]] | p # ps \<Rightarrow> (x # p) # ps))"

lemma split_on_nonempty [simp]: "split_on d s \<noteq> []"
  by (cases s) (auto split: list.splits)

text \<open>
  \<open>char::is_whitespace\<close> on ASCII, \<open>str::trim\<close> and \<open>str::split_whitespace\<close>. The strings the program
  reads here are ASCII; the wider Unicode spaces are not distinguished from letters.
\<close>

definition is_whitespace :: "char \<Rightarrow> bool" where
  "is_whitespace ch \<longleftrightarrow>
     ch = CHR '' '' \<or> (9 \<le> (of_char ch :: nat) \<and> (of_char ch :: nat) \<le> 13)"

definition trim :: "string \<Rightarrow> string" where
  "trim s = rev (dropWhile is_whitespace (rev (dropWhile is_whitespace s)))"

fun split_pred :: "('a \<Rightarrow> bool) \<Rightarrow> 'a list \<Rightarrow> 'a list list" where
  "split_pred p [] = [[]]"
| "split_pred p (x # xs) =
     (if p x then [] # split_pred p xs
      else (case split_pred p xs of [] \<Rightarrow> [[x]] | w # ws \<Rightarrow> (x # w) # ws))"

definition split_whitespace :: "string \<Rightarrow> string list" where
  "split_whitespace s = filter (\<lambda>w. w \<noteq> []) (split_pred is_whitespace s)"

fun join_with :: "'a list \<Rightarrow> 'a list list \<Rightarrow> 'a list" where
  "join_with sep [] = []"
| "join_with sep [w] = w"
| "join_with sep (w # ws) = w @ sep @ join_with sep ws"

lemma split_on_append: "split_on d (a @ d # b) = split_on d a @ split_on d b"
  by (induction a) (auto split: list.splits)

lemma split_on_word: "d \<notin> set s \<Longrightarrow> split_on d s = [s]"
  by (induction s) auto

lemma split_pred_nonempty [simp]: "split_pred p s \<noteq> []"
  by (cases s) (auto split: list.splits)

lemma split_pred_length: "sum_list (map length (split_pred p s)) + length (split_pred p s) = Suc (length s)"
  by (induction s) (auto split: list.split)

lemma split_pred_words: "w \<in> set (split_pred p s) \<Longrightarrow> x \<in> set w \<Longrightarrow> \<not> p x"
proof (induction s arbitrary: w)
  case (Cons c s)
  obtain v vs where v: "split_pred p s = v # vs"
    by (cases "split_pred p s") auto
  from Cons.IH [of v] v have "x \<in> set v \<Longrightarrow> \<not> p x"
    by simp
  with Cons v show ?case
    by (cases "p c") auto
qed simp

lemma split_pred_word: "\<forall>x \<in> set w. \<not> p x \<Longrightarrow> split_pred p w = [w]"
  by (induction w) auto

lemma split_pred_word_sep:
  "\<forall>x \<in> set w. \<not> p x \<Longrightarrow> p c \<Longrightarrow> split_pred p (w @ c # s) = w # split_pred p s"
  by (induction w) auto

lemma split_pred_join:
  "ws \<noteq> [] \<Longrightarrow> \<forall>w \<in> set ws. \<forall>x \<in> set w. \<not> p x \<Longrightarrow> p c \<Longrightarrow> split_pred p (join_with [c] ws) = ws"
  by (induction "[c]" ws rule: join_with.induct) (auto simp: split_pred_word split_pred_word_sep)

definition strip_suffix :: "string \<Rightarrow> string \<Rightarrow> string option" where
  "strip_suffix suf s =
     (if length suf \<le> length s \<and> drop (length s - length suf) s = suf
      then Some (take (length s - length suf) s) else None)"

lemma strip_suffix_append [simp]: "strip_suffix suf (s @ suf) = Some s"
  by (simp add: strip_suffix_def)

lemma strip_suffix_Some: "strip_suffix suf s = Some r \<longleftrightarrow> s = r @ suf"
  by (auto simp: strip_suffix_def) (metis append_take_drop_id)

definition is_ascii_digit :: "char \<Rightarrow> bool" where
  "is_ascii_digit ch \<longleftrightarrow> 48 \<le> (of_char ch :: nat) \<and> (of_char ch :: nat) \<le> 57"

definition ascii_lower :: "char \<Rightarrow> char" where
  "ascii_lower ch = (let n = (of_char ch :: nat) in if 65 \<le> n \<and> n \<le> 90 then char_of (n + 32) else ch)"

text \<open>Decimal printing, as \<open>Display\<close> of the integer types.\<close>

fun show_nat :: "nat \<Rightarrow> string" where
  "show_nat n = (if n < 10 then [char_of (48 + n)]
     else show_nat (n div 10) @ [char_of (48 + n mod 10)])"

declare show_nat.simps [simp del]

definition show_int :: "int \<Rightarrow> string" where
  "show_int i = (if i < 0 then CHR ''-'' # show_nat (nat (- i)) else show_nat (nat i))"

section \<open>Sorted, duplicate-free lists\<close>

text \<open>\<open>Vec::dedup\<close> on adjacent equal elements; after \<open>sort\<close> it is the sorted set.\<close>

definition sort_dedup :: "'a::linorder list \<Rightarrow> 'a list" where
  "sort_dedup xs = remdups_adj (sort xs)"

lemma set_sort_dedup [simp]: "set (sort_dedup xs) = set xs"
  by (simp add: sort_dedup_def)

lemma sorted_sort_dedup [simp]: "sorted (sort_dedup xs)"
  by (simp add: sort_dedup_def sorted_remdups_adj)

lemma distinct_sort_dedup [simp]: "distinct (sort_dedup xs)"
proof -
  have "sorted_wrt (<) (remdups_adj ys)" if "sorted ys" for ys :: "'a list"
    using that
  proof (induction ys rule: remdups_adj.induct)
    case (3 x y ys)
    then show ?case
      by (auto simp: less_le)
  qed auto
  then show ?thesis
    by (simp add: sort_dedup_def strict_sorted_iff)
qed

section \<open>Association lists in key order\<close>

text \<open>
  A \<open>BTreeMap\<close> is the list of its entries in strictly increasing key order: iteration is the
  list, \<open>get\<close> is \<open>map_of\<close>, \<open>insert\<close> keeps the order and replaces an equal key.
\<close>

fun bt_insert :: "'k::linorder \<Rightarrow> 'v \<Rightarrow> ('k \<times> 'v) list \<Rightarrow> ('k \<times> 'v) list" where
  "bt_insert k v [] = [(k, v)]"
| "bt_insert k v ((a, b) # ps) =
     (if k < a then (k, v) # (a, b) # ps
      else if k = a then (k, v) # ps
      else (a, b) # bt_insert k v ps)"

definition bt_remove :: "'k \<Rightarrow> ('k \<times> 'v) list \<Rightarrow> ('k \<times> 'v) list" where
  "bt_remove k ps = filter (\<lambda>p. fst p \<noteq> k) ps"

definition bt_ok :: "('k::linorder \<times> 'v) list \<Rightarrow> bool" where
  "bt_ok ps \<longleftrightarrow> sorted_wrt (<) (map fst ps)"

lemma bt_ok_Nil [simp]: "bt_ok []"
  by (simp add: bt_ok_def)

lemma bt_ok_Cons: "bt_ok ((a, b) # ps) \<longleftrightarrow> (\<forall>p \<in> set ps. a < fst p) \<and> bt_ok ps"
  by (simp add: bt_ok_def)

lemma bt_ok_distinct: "bt_ok ps \<Longrightarrow> distinct (map fst ps)"
  by (simp add: bt_ok_def strict_sorted_iff)

lemma keys_bt_insert [simp]: "fst ` set (bt_insert k v ps) = insert k (fst ` set ps)"
  by (induction k v ps rule: bt_insert.induct) (simp_all add: insert_commute)

lemma bt_insert_keyD: "p \<in> set (bt_insert k v ps) \<Longrightarrow> fst p = k \<or> p \<in> set ps"
  by (induction ps) (auto split: if_splits)

lemma bt_ok_insert [simp]: "bt_ok ps \<Longrightarrow> bt_ok (bt_insert k v ps)"
  by (induction ps) (fastforce simp: bt_ok_Cons dest: bt_insert_keyD)+

lemma map_of_bt_insert [simp]: "bt_ok ps \<Longrightarrow> map_of (bt_insert k v ps) = (map_of ps)(k \<mapsto> v)"
proof (induction ps)
  case Nil
  then show ?case by auto
next
  case (Cons p ps)
  then show ?case by (cases p) (auto simp: bt_ok_Cons fun_eq_iff)
qed

lemma map_of_bt_remove [simp]: "map_of (bt_remove k ps) = (map_of ps)(k := None)"
  by (induction ps) (auto simp: bt_remove_def)

lemma bt_ok_remove [simp]: "bt_ok ps \<Longrightarrow> bt_ok (bt_remove k ps)"
  unfolding bt_ok_def bt_remove_def
  by (induction ps) auto

text \<open>Two maps in key order with the same lookups are the same list.\<close>

lemma bt_ext:
  assumes "bt_ok ps" and "bt_ok qs" and "map_of ps = map_of qs"
  shows "ps = qs"
proof -
  have s: "set ps = set qs"
    using assms by (metis bt_ok_distinct map_of_eq_Some_iff subrelI subset_antisym)
  have "sorted_wrt (\<lambda>p q. fst p < fst q) ps" "sorted_wrt (\<lambda>p q. fst p < fst q) qs"
    using assms by (simp_all add: bt_ok_def sorted_wrt_map)
  then show ?thesis
    using s
  proof (induction ps arbitrary: qs)
    case Nil
    then show ?case by simp
  next
    case (Cons p ps)
    then obtain q qs' where qs: "qs = q # qs'"
      by (cases qs) auto
    from Cons.prems qs have pq: "p = q"
      by (metis insert_iff list.simps(15) order.asym sorted_wrt.simps(2))
    from Cons.prems qs pq have "p \<notin> set ps" "p \<notin> set qs'"
      by auto
    with Cons.prems qs pq have "set ps = set qs'"
      by (simp add: insert_ident)
    with Cons qs pq show ?case by auto
  qed
qed

end
