(* ===== verification/XB_Errors.thy ===== *)
theory XB_Errors
  imports XB_Prelude
begin

text \<open>
  The exit-code contract of the program (\<open>error.rs\<close>) and what the web console makes of a
  child's exit (\<open>web/job/runner.rs\<close>, \<open>web/job/exit.rs\<close>). The command line maps each error to one
  of six codes; the console reads the child's status back, labels it for the job history and
  derives the level of the badge from the label alone.
\<close>

section \<open>Errors and exit codes\<close>

text \<open>\<open>XBackupError\<close>; the message of \<open>Io\<close> stands for the \<open>std::io::Error\<close>.\<close>

datatype XBackupError =
    Failure string
  | Io string
  | StorageUpload string
  | StorageDownload string
  | Usage string
  | Config string
  | PrecheckFailed string
  | Warning string
  | VerifyWarning string
  | LockConflict string

definition SUCCESS :: u8 where "SUCCESS = 0"
definition FAILURE :: u8 where "FAILURE = 1"
definition USAGE :: u8 where "USAGE = 2"
definition PRECHECK :: u8 where "PRECHECK = 3"
definition WARNING :: u8 where "WARNING = 4"
definition LOCK_CONFLICT :: u8 where "LOCK_CONFLICT = 5"

lemmas exit_codes_def = SUCCESS_def FAILURE_def USAGE_def PRECHECK_def WARNING_def
  LOCK_CONFLICT_def

fun exit_code :: "XBackupError \<Rightarrow> u8" where
  "exit_code (Failure _) = FAILURE"
| "exit_code (Io _) = FAILURE"
| "exit_code (StorageUpload _) = FAILURE"
| "exit_code (StorageDownload _) = FAILURE"
| "exit_code (Usage _) = USAGE"
| "exit_code (Config _) = USAGE"
| "exit_code (PrecheckFailed _) = PRECHECK"
| "exit_code (Warning _) = WARNING"
| "exit_code (VerifyWarning _) = WARNING"
| "exit_code (LockConflict _) = LOCK_CONFLICT"

definition is_warning :: "XBackupError \<Rightarrow> bool" where
  "is_warning e \<longleftrightarrow> exit_code e = WARNING"

text \<open>\<open>kind_label\<close> with the English wording (\<open>Lang::En\<close>).\<close>

fun kind_label :: "XBackupError \<Rightarrow> string" where
  "kind_label (Failure _) = ''failed''"
| "kind_label (Io _) = ''I/O error''"
| "kind_label (StorageUpload _) = ''storage upload failed''"
| "kind_label (StorageDownload _) = ''storage read failed''"
| "kind_label (Usage _) = ''usage error''"
| "kind_label (Config _) = ''config error''"
| "kind_label (PrecheckFailed _) = ''precheck failed''"
| "kind_label (Warning _) = ''warning''"
| "kind_label (VerifyWarning _) = ''verify warning''"
| "kind_label (LockConflict _) = ''lock conflict''"

section \<open>Outcomes of a job\<close>

text \<open>
  \<open>std::process::ExitStatus\<close> as the code reads it: the code when the process exited, the
  signal when it was killed.
\<close>

record exit_status =
  es_code :: "int option"
  es_signal :: "int option"

datatype JobOutcome =
    Succeeded
  | Failed
  | Rejected
  | PrecheckFail
  | SucceededWithWarnings
  | LockConflicted
  | UnexpectedExit int
  | Signaled int
  | Unknown

definition try_u8 :: "int \<Rightarrow> u8 option" where
  "try_u8 n = (if 0 \<le> n \<and> n < 256 then Some (word_of_int n) else None)"

definition from_status :: "exit_status \<Rightarrow> JobOutcome" where
  "from_status st = (case es_code st of
     Some code \<Rightarrow>
       (if try_u8 code = Some SUCCESS then Succeeded
        else if try_u8 code = Some FAILURE then Failed
        else if try_u8 code = Some USAGE then Rejected
        else if try_u8 code = Some PRECHECK then PrecheckFail
        else if try_u8 code = Some WARNING then SucceededWithWarnings
        else if try_u8 code = Some LOCK_CONFLICT then LockConflicted
        else UnexpectedExit code)
   | None \<Rightarrow>
       (case es_signal st of Some signal \<Rightarrow> Signaled signal | None \<Rightarrow> Unknown))"

fun outcome_exit_code :: "JobOutcome \<Rightarrow> int option" where
  "outcome_exit_code Succeeded = Some (uint SUCCESS)"
| "outcome_exit_code Failed = Some (uint FAILURE)"
| "outcome_exit_code Rejected = Some (uint USAGE)"
| "outcome_exit_code PrecheckFail = Some (uint PRECHECK)"
| "outcome_exit_code SucceededWithWarnings = Some (uint WARNING)"
| "outcome_exit_code LockConflicted = Some (uint LOCK_CONFLICT)"
| "outcome_exit_code (UnexpectedExit code) = Some code"
| "outcome_exit_code (Signaled _) = None"
| "outcome_exit_code Unknown = None"

definition is_success :: "JobOutcome \<Rightarrow> bool" where
  "is_success j \<longleftrightarrow> (case j of Succeeded \<Rightarrow> True | SucceededWithWarnings \<Rightarrow> True | _ \<Rightarrow> False)"

definition started :: "JobOutcome \<Rightarrow> bool" where
  "started j \<longleftrightarrow>
     \<not> (case j of Rejected \<Rightarrow> True | PrecheckFail \<Rightarrow> True | LockConflicted \<Rightarrow> True | _ \<Rightarrow> False)"

definition retryable :: "JobOutcome \<Rightarrow> bool" where
  "retryable j \<longleftrightarrow> (case j of LockConflicted \<Rightarrow> True | _ \<Rightarrow> False)"

fun label :: "JobOutcome \<Rightarrow> string" where
  "label Succeeded = ''succeeded''"
| "label Failed = ''failed''"
| "label Rejected = ''rejected''"
| "label PrecheckFail = ''precheck-failed''"
| "label SucceededWithWarnings = ''succeeded-with-warnings''"
| "label LockConflicted = ''lock-conflict''"
| "label (UnexpectedExit _) = ''unexpected-exit''"
| "label (Signaled _) = ''signaled''"
| "label Unknown = ''unknown''"

datatype AuditOutcome = Requested | AuditSuccess | AuditFailure

definition audit_outcome :: "JobOutcome \<Rightarrow> AuditOutcome" where
  "audit_outcome j = (if is_success j then AuditSuccess else AuditFailure)"

section \<open>Levels of the console\<close>

datatype level = LvOk | LvWarn | LvFail | LvError

definition level_for_label :: "string \<Rightarrow> level" where
  "level_for_label s =
     (if s = ''succeeded'' then LvOk
      else if s = ''succeeded-with-warnings'' then LvWarn
      else if s = ''lock-conflict'' then LvWarn
      else if s = ''failed'' then LvFail
      else if s = ''precheck-failed'' then LvFail
      else if s = ''rejected'' then LvError
      else if s = ''unexpected-exit'' then LvError
      else if s = ''signaled'' \<or> s = ''unknown'' then LvError
      else LvError)"

section \<open>The child as the parent sees it\<close>

text \<open>
  \<open>main\<close> ends with the code of the error, or with success; a process that exits leaves a code
  and no signal.
\<close>

definition child_status :: "(XBackupError, unit) result \<Rightarrow> exit_status" where
  "child_status r = \<lparr>es_code = Some (case r of Inl e \<Rightarrow> uint (exit_code e) | Inr _ \<Rightarrow> uint SUCCESS),
     es_signal = None\<rparr>"

text \<open>What each error class means for the operator, stated without the codes.\<close>

fun outcome_of :: "(XBackupError, unit) result \<Rightarrow> JobOutcome" where
  "outcome_of (Inr _) = Succeeded"
| "outcome_of (Inl (Failure _)) = Failed"
| "outcome_of (Inl (Io _)) = Failed"
| "outcome_of (Inl (StorageUpload _)) = Failed"
| "outcome_of (Inl (StorageDownload _)) = Failed"
| "outcome_of (Inl (Usage _)) = Rejected"
| "outcome_of (Inl (Config _)) = Rejected"
| "outcome_of (Inl (PrecheckFailed _)) = PrecheckFail"
| "outcome_of (Inl (Warning _)) = SucceededWithWarnings"
| "outcome_of (Inl (VerifyWarning _)) = SucceededWithWarnings"
| "outcome_of (Inl (LockConflict _)) = LockConflicted"

lemma from_status_child: "from_status (child_status r) = outcome_of r"
proof (cases r)
  case (Inl e)
  then show ?thesis
    by (cases e)
      (simp_all add: from_status_def child_status_def try_u8_def exit_codes_def)
next
  case (Inr u)
  then show ?thesis
    by (simp add: from_status_def child_status_def try_u8_def exit_codes_def)
qed

lemma try_u8_inj: "try_u8 n = Some w \<Longrightarrow> uint w = n"
  by (auto simp: try_u8_def unsigned_of_int take_bit_int_eq_self split: if_splits)

lemma outcome_exit_code_from_status:
  "es_code st = Some n \<Longrightarrow> outcome_exit_code (from_status st) = Some n"
  by (auto simp: from_status_def dest!: try_u8_inj)

lemma outcome_exit_code_from_status_None:
  "es_code st = None \<Longrightarrow> outcome_exit_code (from_status st) = None"
  by (simp add: from_status_def split: option.splits)

text \<open>
  The outcome keeps the numeric code of every exited child, whatever the code is, and has none
  exactly for a child that has none.
\<close>

text \<open>for every exit status the parent can observe, the exit code read back from the
  outcome is the code of the status: unknown codes are kept, and a signal or an unknown status
  has no code.\<close>

theorem outcome_keeps_code: "outcome_exit_code (from_status st) = es_code st"
  by (cases "es_code st")
    (simp_all add: outcome_exit_code_from_status outcome_exit_code_from_status_None)

text \<open>the console's level for the label of a job, and what it says of the job: a green or
  yellow badge is shown exactly for a job that succeeded or may simply be retried, green only
  for a clean success, and a job that never started is never shown as a success.\<close>

theorem level_sound:
  "(level_for_label (label j) = LvOk \<longleftrightarrow> j = Succeeded) \<and>
   (level_for_label (label j) \<in> {LvOk, LvWarn} \<longleftrightarrow> is_success j \<or> retryable j) \<and>
   \<not> (is_success j \<and> \<not> started j) \<and> \<not> (retryable j \<and> started j) \<and>
   (audit_outcome j = AuditSuccess \<longleftrightarrow> is_success j)"
  by (cases j)
    (simp_all add: level_for_label_def is_success_def retryable_def started_def audit_outcome_def)

text \<open>a label that is not one of the nine the program writes is shown as an error.\<close>

theorem level_unknown_label:
  assumes "s \<notin> range label"
  shows "level_for_label s = LvError"
proof -
  have "s \<noteq> label j" for j
    using assms by blast
  from this [of Succeeded] this [of SucceededWithWarnings] this [of LockConflicted]
    this [of Failed] this [of PrecheckFail]
  show ?thesis
    by (simp add: level_for_label_def)
qed

text \<open>C36: the exit-code contract end to end: the outcome the console reads from the child's
  exit status is the one its error class stands for, and it is counted as a success exactly when
  the child returned no error or only a warning.\<close>

theorem exit_contract:
  "from_status (child_status r) = outcome_of r \<and>
   (is_success (from_status (child_status r)) \<longleftrightarrow>
     (case r of Inl e \<Rightarrow> is_warning e | Inr _ \<Rightarrow> True))"
proof (cases r)
  case (Inl e)
  then show ?thesis
    by (cases e) (simp_all add: from_status_child is_success_def is_warning_def exit_codes_def)
next
  case (Inr u)
  then show ?thesis
    by (simp add: from_status_child is_success_def)
qed

end
