(* ===== verification/XB_Manifest.thy ===== *)
theory XB_Manifest
  imports XB_Prelude
begin

text \<open>
  The sidecar manifest of a backup (\<open>manifest/schema.rs\<close>): the oplog timestamp with its
  order, the interval a backup covers, and the record that every other component reads. Optional
  fields of the source are options; a \<open>BTreeMap\<close> is the list of its entries in key order.
\<close>

section \<open>Oplog timestamps\<close>

datatype OplogTimestamp = OplogTs (ts_t: u32) (ts_i: u32)

text \<open>\<open>bson::Timestamp\<close> has the same two fields under other names.\<close>

record bson_timestamp =
  bs_time :: u32
  bs_increment :: u32

definition from_bson :: "bson_timestamp \<Rightarrow> OplogTimestamp" where
  "from_bson ts = OplogTs (bs_time ts) (bs_increment ts)"

definition to_bson :: "OplogTimestamp \<Rightarrow> bson_timestamp" where
  "to_bson ts = \<lparr>bs_time = ts_t ts, bs_increment = ts_i ts\<rparr>"

lemma from_to_bson [simp]: "from_bson (to_bson ts) = ts"
  by (simp add: from_bson_def to_bson_def)

lemma to_from_bson [simp]: "to_bson (from_bson b) = b"
  by (simp add: from_bson_def to_bson_def)

text \<open>\<open>Ord::cmp\<close>: the second first, the increment within it.\<close>

definition ts_cmp :: "OplogTimestamp \<Rightarrow> OplogTimestamp \<Rightarrow> ordering" where
  "ts_cmp a b = then_cmp (cmp (ts_t a) (ts_t b)) (cmp (ts_i a) (ts_i b))"

instantiation OplogTimestamp :: linorder
begin

definition less_eq_OplogTimestamp :: "OplogTimestamp \<Rightarrow> OplogTimestamp \<Rightarrow> bool" where
  "less_eq_OplogTimestamp a b \<longleftrightarrow> ts_cmp a b \<noteq> Greater"

definition less_OplogTimestamp :: "OplogTimestamp \<Rightarrow> OplogTimestamp \<Rightarrow> bool" where
  "less_OplogTimestamp a b \<longleftrightarrow> ts_cmp a b = Less"

instance
proof
  fix x y z :: OplogTimestamp
  show "(x < y) = (x \<le> y \<and> \<not> y \<le> x)"
    by (auto simp: less_eq_OplogTimestamp_def less_OplogTimestamp_def ts_cmp_def)
  show "x \<le> x"
    by (simp add: less_eq_OplogTimestamp_def ts_cmp_def)
  show "x \<le> y \<Longrightarrow> y \<le> z \<Longrightarrow> x \<le> z"
    by (auto simp: less_eq_OplogTimestamp_def ts_cmp_def)
  show "x \<le> y \<Longrightarrow> y \<le> x \<Longrightarrow> x = y"
    by (cases x; cases y) (auto simp: less_eq_OplogTimestamp_def ts_cmp_def)
  show "x \<le> y \<or> y \<le> x"
    by (auto simp: less_eq_OplogTimestamp_def ts_cmp_def)
qed

end

lemma ts_le_iff: "a \<le> b \<longleftrightarrow> ts_t a < ts_t b \<or> ts_t a = ts_t b \<and> ts_i a \<le> ts_i b"
  by (auto simp: less_eq_OplogTimestamp_def ts_cmp_def)

lemma ts_less_iff: "a < b \<longleftrightarrow> ts_t a < ts_t b \<or> ts_t a = ts_t b \<and> ts_i a < ts_i b"
  by (auto simp: less_OplogTimestamp_def ts_cmp_def)

lemma ts_cmp_eq: "ts_cmp a b = cmp a b"
  by (cases a; cases b) (auto simp: ts_cmp_def cmp_def ts_less_iff)

section \<open>The manifest\<close>

record OplogRange =
  start_ts :: OplogTimestamp
  end_ts :: OplogTimestamp

datatype BackupType = Full | Incremental

datatype Topology = ReplicaSet | Standalone

datatype BackupStatus = Complete | Incomplete

record CompressionMeta =
  c_algorithm :: string
  c_level :: int

record EncryptionMeta =
  e_algorithm :: string
  e_key_id :: "string option"

record MysqlBinlogCoords =
  binlog_file :: string
  binlog_position :: u64
  gtid_executed :: string

record ToolVersions =
  mongodump :: "string option"
  archive_format :: "string option"

record ContentDigests =
  d_algorithm :: string
  d_tables :: "(string \<times> string) list"

definition FORMAT_VERSION :: u32 where
  "FORMAT_VERSION = 1"

record BackupManifest =
  m_format_version :: u32
  m_id :: string
  m_created_at :: string
  m_backup_type :: BackupType
  m_base_id :: "string option"
  m_topology :: Topology
  m_server_version :: string
  m_tool_versions :: ToolVersions
  m_selective :: bool
  m_original_size_bytes :: u64
  m_stored_size_bytes :: u64
  m_compression :: "CompressionMeta option"
  m_encryption :: "EncryptionMeta option"
  m_checksum_sha256 :: string
  m_oplog_range :: "OplogRange option"
  m_oplog_count :: "u64 option"
  m_promoted_from_gap :: bool
  m_mysql_binlog :: "MysqlBinlogCoords option"
  m_table_rows :: "(string \<times> u64) list option"
  m_table_digests :: "ContentDigests option"
  m_status :: BackupStatus

section \<open>The engine a backup belongs to\<close>

text \<open>\<open>DbKind\<close> of \<open>engine/mod.rs\<close>, read off the archive format by its prefix.\<close>

datatype DbKind = Mongo | Postgres | Mysql | File

definition starts_with :: "string \<Rightarrow> string \<Rightarrow> bool" where
  "starts_with p s \<longleftrightarrow> take (length p) s = p"

definition from_archive_format :: "string option \<Rightarrow> DbKind" where
  "from_archive_format fmt = (case fmt of
     Some f \<Rightarrow> (if starts_with ''xb-pg'' f then Postgres
               else if starts_with ''xb-mysql'' f then Mysql
               else if starts_with ''xb-file'' f then File
               else Mongo)
   | None \<Rightarrow> Mongo)"

definition kind_of :: "BackupManifest \<Rightarrow> DbKind" where
  "kind_of m = from_archive_format (archive_format (m_tool_versions m))"

section \<open>A sample\<close>

text \<open>The manifest of a plain full backup, the starting point of the concrete examples.\<close>

definition sample_manifest :: BackupManifest where
  "sample_manifest = \<lparr>
     m_format_version = FORMAT_VERSION,
     m_id = ''full-1'',
     m_created_at = ''2026-06-12T13:00:00Z'',
     m_backup_type = Full,
     m_base_id = None,
     m_topology = ReplicaSet,
     m_server_version = ''7.0.0'',
     m_tool_versions = \<lparr>mongodump = None, archive_format = None\<rparr>,
     m_selective = False,
     m_original_size_bytes = 10,
     m_stored_size_bytes = 10,
     m_compression = None,
     m_encryption = None,
     m_checksum_sha256 = [],
     m_oplog_range = Some \<lparr>start_ts = OplogTs 1 1, end_ts = OplogTs 2 1\<rparr>,
     m_oplog_count = None,
     m_promoted_from_gap = False,
     m_mysql_binlog = None,
     m_table_rows = None,
     m_table_digests = None,
     m_status = Complete\<rparr>"

end
