(* ===== verification/XB_Chain.thy ===== *)
theory XB_Chain
  imports XB_Manifest
begin

text \<open>
  Continuity of an incremental chain (\<open>manifest/chain.rs\<close>): \<open>verify_chain\<close>, which judges one
  target, and \<open>ChainVerifier\<close>, which indexes the nodes once and caches the report of each base.
  The lemmas show what a continuous report promises (every timestamp after the base is covered
  by exactly one slice), that the report does not depend on the order in which the storage lists
  the backups, and that the cached verifier returns the same reports.
\<close>

section \<open>Data\<close>

record ChainNode =
  cn_id :: string
  cn_backup_type :: BackupType
  cn_base_id :: "string option"
  cn_oplog_range :: "(OplogTimestamp \<times> OplogTimestamp) option"
  cn_is_empty_slice :: bool
  cn_selective :: bool
  cn_status :: BackupStatus

definition from_manifest :: "BackupManifest \<Rightarrow> ChainNode" where
  "from_manifest m = \<lparr>
     cn_id = m_id m,
     cn_backup_type = m_backup_type m,
     cn_base_id = m_base_id m,
     cn_oplog_range = map_option (\<lambda>r. (start_ts r, end_ts r)) (m_oplog_range m),
     cn_is_empty_slice = (m_oplog_count m = Some 0),
     cn_selective = m_selective m,
     cn_status = m_status m\<rparr>"

definition node_start_ts :: "ChainNode \<Rightarrow> OplogTimestamp option" where
  "node_start_ts n = map_option fst (cn_oplog_range n)"

definition node_end_ts :: "ChainNode \<Rightarrow> OplogTimestamp option" where
  "node_end_ts n = map_option snd (cn_oplog_range n)"

definition is_incomplete :: "ChainNode \<Rightarrow> bool" where
  "is_incomplete n \<longleftrightarrow> cn_status n = Incomplete"

text \<open>
  The texts of the two ineligibility reasons are Korean sentences; a constructor names each. The
  identifier in \<open>MissingBase\<close> is a message for an incremental without a base, which has a
  constructor of its own.
\<close>

datatype base_reason = BaseNotFull | BaseSelective

datatype missing_id = BaseId string | NoBaseIdOf string

datatype ChainBreak =
    MissingBase missing_id
  | IneligibleBase string base_reason
  | IncompleteMember string
  | MissingOplogRange string
  | Discontinuity string string OplogTimestamp OplogTimestamp
  | BaseJoinGap string string OplogTimestamp OplogTimestamp

datatype ChainWarning = BaseHasNoOplogRange string

record ChainReport =
  cr_base_id :: string
  cr_incremental_ids :: "string list"
  cr_breaks :: "ChainBreak list"
  cr_warnings :: "ChainWarning list"

definition report_is_continuous :: "ChainReport \<Rightarrow> bool" where
  "report_is_continuous r \<longleftrightarrow> cr_breaks r = []"

section \<open>The order of the slices\<close>

text \<open>\<open>(start_ts, id)\<close>, slices without a range last.\<close>

definition incr_cmp :: "ChainNode \<Rightarrow> ChainNode \<Rightarrow> ordering" where
  "incr_cmp a b = (case (node_start_ts a, node_start_ts b) of
     (Some sa, Some sb) \<Rightarrow> then_cmp (ts_cmp sa sb) (cmp (cn_id a) (cn_id b))
   | (Some _, None) \<Rightarrow> Less
   | (None, Some _) \<Rightarrow> Greater
   | (None, None) \<Rightarrow> cmp (cn_id a) (cn_id b))"

interpretation incr: comparator incr_cmp
proof
  show "incr_cmp x y = Greater \<longleftrightarrow> incr_cmp y x = Less" for x y
    by (auto simp: incr_cmp_def ts_cmp_eq split: option.splits)
  show "incr_cmp x y \<noteq> Greater \<Longrightarrow> incr_cmp y z \<noteq> Greater \<Longrightarrow> incr_cmp x z \<noteq> Greater" for x y z
    by (auto simp: incr_cmp_def ts_cmp_eq split: option.splits)
qed

lemma incr_cmp_Equal: "incr_cmp a b = Equal \<Longrightarrow> cn_id a = cn_id b"
  by (auto simp: incr_cmp_def ts_cmp_eq split: option.splits)

section \<open>verify_chain\<close>

definition find_node :: "ChainNode list \<Rightarrow> string \<Rightarrow> ChainNode option" where
  "find_node nodes i = List.find (\<lambda>n. cn_id n = i) nodes"

text \<open>Step 2: the base is a full backup, covers everything and is complete.\<close>

definition base_breaks :: "string \<Rightarrow> ChainNode \<Rightarrow> ChainBreak list" where
  "base_breaks base_id base =
     (if cn_backup_type base \<noteq> Full then [IneligibleBase base_id BaseNotFull] else []) @
     (if cn_selective base then [IneligibleBase base_id BaseSelective] else []) @
     (if is_incomplete base then [IncompleteMember base_id] else [])"

text \<open>Step 3: the incrementals that name the base.\<close>

definition incr_of :: "string \<Rightarrow> ChainNode \<Rightarrow> bool" where
  "incr_of base_id n \<longleftrightarrow> cn_backup_type n = Incremental \<and> cn_base_id n = Some base_id"

definition sorted_incrs :: "ChainNode list \<Rightarrow> string \<Rightarrow> ChainNode list" where
  "sorted_incrs nodes base_id = sort_by incr_cmp (filter (incr_of base_id) nodes)"

text \<open>Step 4: each slice is complete and, on a chain tracked by the oplog, has its range.\<close>

definition member_breaks :: "bool \<Rightarrow> ChainNode list \<Rightarrow> ChainBreak list" where
  "member_breaks mongo_chain incrs = concat (map (\<lambda>n.
     (if is_incomplete n then [IncompleteMember (cn_id n)] else []) @
     (if mongo_chain \<and> cn_oplog_range n = None then [MissingOplogRange (cn_id n)] else [])) incrs)"

text \<open>Step 5: the first slice starts where the base ends.\<close>

definition join_breaks :: "string \<Rightarrow> ChainNode \<Rightarrow> ChainNode list \<Rightarrow> ChainBreak list" where
  "join_breaks base_id base incrs = (case incrs of [] \<Rightarrow> [] | first # _ \<Rightarrow>
     (case (node_end_ts base, node_start_ts first) of
        (Some base_end, Some incr_start) \<Rightarrow>
          (if base_end \<noteq> incr_start
           then [BaseJoinGap base_id (cn_id first) base_end incr_start] else [])
      | _ \<Rightarrow> []))"

definition join_warnings :: "string \<Rightarrow> ChainNode \<Rightarrow> ChainNode list \<Rightarrow> ChainWarning list" where
  "join_warnings base_id base incrs = (case incrs of [] \<Rightarrow> [] | first # _ \<Rightarrow>
     (case node_end_ts base of None \<Rightarrow> [BaseHasNoOplogRange base_id] | Some _ \<Rightarrow> []))"

text \<open>Step 6: each slice starts where the one before it ends.\<close>

definition adjacent_breaks :: "ChainNode list \<Rightarrow> ChainBreak list" where
  "adjacent_breaks incrs = concat (map (\<lambda>(prev, next).
     (case (node_end_ts prev, node_start_ts next) of
        (Some prev_end, Some next_start) \<Rightarrow>
          (if prev_end \<noteq> next_start
           then [Discontinuity (cn_id prev) (cn_id next) prev_end next_start] else [])
      | _ \<Rightarrow> [])) (windows2 incrs))"

definition orphan_incremental_report :: "string \<Rightarrow> ChainReport" where
  "orphan_incremental_report target_id = \<lparr>
     cr_base_id = [], cr_incremental_ids = [],
     cr_breaks = [MissingBase (NoBaseIdOf target_id)], cr_warnings = []\<rparr>"

definition unknown_target_report :: "string \<Rightarrow> ChainReport" where
  "unknown_target_report target_id = \<lparr>
     cr_base_id = target_id, cr_incremental_ids = [],
     cr_breaks = [MissingBase (BaseId target_id)], cr_warnings = []\<rparr>"

definition judge_base :: "string \<Rightarrow> ChainNode option \<Rightarrow> ChainNode list \<Rightarrow> ChainReport" where
  "judge_base base_id found incrs = (case found of
     None \<Rightarrow> \<lparr>cr_base_id = base_id, cr_incremental_ids = [],
              cr_breaks = [MissingBase (BaseId base_id)], cr_warnings = []\<rparr>
   | Some base \<Rightarrow> \<lparr>
       cr_base_id = base_id,
       cr_incremental_ids = map cn_id incrs,
       cr_breaks =
         base_breaks base_id base @
         member_breaks (cn_oplog_range base \<noteq> None) incrs @
         join_breaks base_id base incrs @
         adjacent_breaks incrs,
       cr_warnings = join_warnings base_id base incrs\<rparr>)"

definition verify_chain :: "ChainNode list \<Rightarrow> string \<Rightarrow> ChainReport" where
  "verify_chain nodes target_id = (case find_node nodes target_id of
     None \<Rightarrow> unknown_target_report target_id
   | Some t \<Rightarrow>
       (case (cn_backup_type t, cn_base_id t) of
          (Incremental, None) \<Rightarrow> orphan_incremental_report target_id
        | (Incremental, Some b) \<Rightarrow> judge_base b (find_node nodes b) (sorted_incrs nodes b)
        | (Full, _) \<Rightarrow>
            judge_base (cn_id t) (find_node nodes (cn_id t)) (sorted_incrs nodes (cn_id t))))"

section \<open>ChainVerifier\<close>

datatype BaseOf = Base string | OrphanIncremental | UnknownTarget

record ChainVerifier =
  by_id :: "string \<Rightarrow> ChainNode option"
  incrementals_by_base :: "string \<Rightarrow> ChainNode list option"
  cache :: "string \<Rightarrow> ChainReport option"

text \<open>One pass of the loop of \<open>ChainVerifier::new\<close>; a repeated id replaces the earlier node.\<close>

definition index_node :: "ChainVerifier \<Rightarrow> ChainNode \<Rightarrow> ChainVerifier" where
  "index_node v node =
     (let v1 = v\<lparr>by_id := (by_id v)(cn_id node \<mapsto> node)\<rparr>
      in if cn_backup_type node = Incremental then
           (case cn_base_id node of
              Some b \<Rightarrow> v1\<lparr>incrementals_by_base := (incrementals_by_base v1)
                (b \<mapsto> (case incrementals_by_base v1 b of None \<Rightarrow> [] | Some g \<Rightarrow> g) @ [node])\<rparr>
            | None \<Rightarrow> v1)
         else v1)"

definition verifier_new :: "ChainNode list \<Rightarrow> ChainVerifier" where
  "verifier_new nodes =
     (let v = foldl index_node
            \<lparr>by_id = Map.empty, incrementals_by_base = Map.empty, cache = Map.empty\<rparr> nodes
      in v\<lparr>incrementals_by_base := (\<lambda>b. map_option (sort_by incr_cmp) (incrementals_by_base v b))\<rparr>)"

definition resolve_base :: "ChainVerifier \<Rightarrow> string \<Rightarrow> BaseOf" where
  "resolve_base v target_id = (case by_id v target_id of
     Some t \<Rightarrow> (case cn_backup_type t of
        Full \<Rightarrow> Base (cn_id t)
      | Incremental \<Rightarrow> (case cn_base_id t of Some b \<Rightarrow> Base b | None \<Rightarrow> OrphanIncremental))
   | None \<Rightarrow> UnknownTarget)"

definition compute_for_base :: "ChainVerifier \<Rightarrow> string \<Rightarrow> ChainReport" where
  "compute_for_base v base_id =
     judge_base base_id (by_id v base_id)
       (case incrementals_by_base v base_id of Some g \<Rightarrow> g | None \<Rightarrow> [])"

definition report_for_base :: "ChainVerifier \<Rightarrow> string \<Rightarrow> ChainReport \<times> ChainVerifier" where
  "report_for_base v base_id = (case cache v base_id of
     Some r \<Rightarrow> (r, v)
   | None \<Rightarrow> (let r = compute_for_base v base_id
             in (r, v\<lparr>cache := (cache v)(base_id \<mapsto> r)\<rparr>)))"

definition verifier_verify :: "ChainVerifier \<Rightarrow> string \<Rightarrow> ChainReport \<times> ChainVerifier" where
  "verifier_verify v target_id = (case resolve_base v target_id of
     Base base_id \<Rightarrow> report_for_base v base_id
   | OrphanIncremental \<Rightarrow> (orphan_incremental_report target_id, v)
   | UnknownTarget \<Rightarrow> (unknown_target_report target_id, v))"

definition verifier_is_continuous :: "ChainVerifier \<Rightarrow> string \<Rightarrow> bool \<times> ChainVerifier" where
  "verifier_is_continuous v target_id = (case resolve_base v target_id of
     Base base_id \<Rightarrow> (case report_for_base v base_id of (r, v') \<Rightarrow> (report_is_continuous r, v'))
   | OrphanIncremental \<Rightarrow> (False, v)
   | UnknownTarget \<Rightarrow> (False, v))"

text \<open>A session: the targets are asked one after another on the same verifier.\<close>

fun verify_all :: "ChainVerifier \<Rightarrow> string list \<Rightarrow> ChainReport list" where
  "verify_all v [] = []"
| "verify_all v (t # ts) = (case verifier_verify v t of (r, v') \<Rightarrow> r # verify_all v' ts)"

section \<open>Lookups\<close>

lemma find_node_Some: "find_node nodes i = Some n \<Longrightarrow> n \<in> set nodes \<and> cn_id n = i"
  unfolding find_node_def by (rule find_SomeD)

lemma find_node_distinct:
  "distinct (map cn_id nodes) \<Longrightarrow> n \<in> set nodes \<Longrightarrow> find_node nodes (cn_id n) = Some n"
  unfolding find_node_def by (rule find_Some_distinct)

lemma find_node_None_iff: "find_node nodes i = None \<longleftrightarrow> i \<notin> cn_id ` set nodes"
  unfolding find_node_def by (rule find_None_iff_image)

lemma find_node_cong_mset:
  assumes "distinct (map cn_id nodes)" and "mset nodes = mset nodes'"
  shows "find_node nodes i = find_node nodes' i"
proof (cases "find_node nodes i")
  case None
  with assms(2) show ?thesis
    by (metis find_node_None_iff set_mset_mset)
next
  case (Some n)
  then have n: "n \<in> set nodes" "cn_id n = i"
    using find_node_Some by blast+
  have "distinct (map cn_id nodes')"
    using assms by (metis mset_map mset_eq_imp_distinct_iff)
  moreover have "n \<in> set nodes'"
    using n assms(2) by (metis set_mset_mset)
  ultimately show ?thesis
    using Some n find_node_distinct by metis
qed

lemma find_node_rev:
  "distinct (map cn_id nodes) \<Longrightarrow> find_node (rev nodes) i = find_node nodes i"
  by (rule find_node_cong_mset) (simp_all add: rev_map [symmetric])

lemma find_node_append:
  "find_node (xs @ ys) i = (case find_node xs i of Some n \<Rightarrow> Some n | None \<Rightarrow> find_node ys i)"
  by (auto simp: find_node_def find_append split: option.splits)

lemma set_sorted_incrs [simp]: "set (sorted_incrs nodes b) = {n \<in> set nodes. incr_of b n}"
  by (auto simp: sorted_incrs_def)

lemma sorted_incrs_cong_mset:
  assumes "distinct (map cn_id nodes)" and "mset nodes = mset nodes'"
  shows "sorted_incrs nodes b = sorted_incrs nodes' b"
  unfolding sorted_incrs_def
proof (rule incr.sort_by_cong_mset)
  show "mset (filter (incr_of b) nodes) = mset (filter (incr_of b) nodes')"
    using assms(2) by simp
  show "x = y" if "x \<in> set (filter (incr_of b) nodes)" "y \<in> set (filter (incr_of b) nodes)"
    "incr_cmp x y = Equal" for x y
    using that assms(1) by (auto dest!: incr_cmp_Equal simp: distinct_map inj_on_def)
qed

section \<open>What a continuous report says\<close>

text \<open>The slices follow one another from \<open>e\<close> on.\<close>

fun linked :: "OplogTimestamp \<Rightarrow> (OplogTimestamp \<times> OplogTimestamp) list \<Rightarrow> bool" where
  "linked e [] = True"
| "linked e ((s, t) # rs) = (s = e \<and> linked t rs)"

lemma linked_append: "linked e (rs @ [(s, t)]) \<longleftrightarrow> linked e rs \<and> s = last (e # map snd rs)"
  by (induction e rs rule: linked.induct) auto

lemma linked_last:
  "linked e rs \<Longrightarrow> \<forall>r \<in> set rs. fst r \<le> snd r \<Longrightarrow> e \<le> last (e # map snd rs)"
  by (induction e rs rule: linked.induct) (auto intro: order_trans split: if_splits)

text \<open>The range of a slice that has one.\<close>

definition node_range :: "ChainNode \<Rightarrow> OplogTimestamp \<times> OplogTimestamp" where
  "node_range n = the (cn_oplog_range n)"

lemma node_range_Some [simp]: "cn_oplog_range n = Some r \<Longrightarrow> node_range n = r"
  by (simp add: node_range_def)

lemma adjacent_breaks_Cons2:
  "adjacent_breaks (a # b # ns) = [] \<longleftrightarrow>
     (\<forall>e s. node_end_ts a = Some e \<longrightarrow> node_start_ts b = Some s \<longrightarrow> e = s) \<and>
     adjacent_breaks (b # ns) = []"
  by (auto simp: adjacent_breaks_def split: option.splits)

lemma adjacent_breaks_linked:
  "\<forall>m \<in> set (n # ns). cn_oplog_range m \<noteq> None \<Longrightarrow>
   adjacent_breaks (n # ns) = [] \<longleftrightarrow>
     linked (snd (node_range n)) (map node_range ns)"
proof (induction ns arbitrary: n)
  case Nil
  then show ?case by (simp add: adjacent_breaks_def)
next
  case (Cons m ns)
  then have "adjacent_breaks (m # ns) = [] \<longleftrightarrow>
    linked (snd (node_range m)) (map node_range ns)"
    by simp
  with Cons.prems show ?case
    by (auto simp: adjacent_breaks_Cons2 node_start_ts_def node_end_ts_def)
qed

lemma join_adjacent_linked:
  assumes "cn_oplog_range base = Some (b0, b1)" and "\<forall>m \<in> set ns. cn_oplog_range m \<noteq> None"
  shows "join_breaks b base ns = [] \<and> adjacent_breaks ns = [] \<longleftrightarrow>
    linked b1 (map node_range ns)"
proof (cases ns)
  case Nil
  then show ?thesis by (simp add: join_breaks_def adjacent_breaks_def)
next
  case (Cons n ms)
  with assms show ?thesis
    using adjacent_breaks_linked [of n ms]
    by (auto simp: join_breaks_def node_start_ts_def node_end_ts_def
        split: if_splits)
qed

lemma member_breaks_Nil_iff:
  "member_breaks mc ns = [] \<longleftrightarrow>
     (\<forall>n \<in> set ns. \<not> is_incomplete n \<and> (mc \<longrightarrow> cn_oplog_range n \<noteq> None))"
  by (auto simp: member_breaks_def)

lemma base_breaks_Nil_iff:
  "base_breaks b base = [] \<longleftrightarrow>
     cn_backup_type base = Full \<and> \<not> cn_selective base \<and> \<not> is_incomplete base"
  by (simp add: base_breaks_def)

text \<open>The base a target stands on, and the promise a report makes of it.\<close>

definition base_of :: "ChainNode list \<Rightarrow> string \<Rightarrow> string option" where
  "base_of nodes t = (case find_node nodes t of
     None \<Rightarrow> None
   | Some n \<Rightarrow> (case cn_backup_type n of Full \<Rightarrow> Some t | Incremental \<Rightarrow> cn_base_id n))"

definition usable_base :: "ChainNode \<Rightarrow> bool" where
  "usable_base n \<longleftrightarrow> cn_backup_type n = Full \<and> \<not> cn_selective n \<and> cn_status n = Complete"

lemma usable_base_breaks: "base_breaks b base = [] \<longleftrightarrow> usable_base base"
  by (cases "cn_status base") (simp_all add: base_breaks_Nil_iff usable_base_def is_incomplete_def)

lemma verify_chain_base_of:
  "verify_chain nodes t = (case base_of nodes t of
     Some b \<Rightarrow> judge_base b (find_node nodes b) (sorted_incrs nodes b)
   | None \<Rightarrow> (if find_node nodes t = None then unknown_target_report t
             else orphan_incremental_report t))"
proof (cases "find_node nodes t")
  case None
  then show ?thesis
    by (simp add: verify_chain_def base_of_def)
next
  case (Some n)
  then have "cn_id n = t"
    using find_node_Some by blast
  with Some show ?thesis
    by (simp add: verify_chain_def base_of_def split: option.split BackupType.split)
qed

lemma judge_base_continuous_iff:
  "report_is_continuous (judge_base b found ns) \<longleftrightarrow>
     (\<exists>base. found = Some base \<and> usable_base base \<and>
       (\<forall>n \<in> set ns. \<not> is_incomplete n \<and>
          (cn_oplog_range base \<noteq> None \<longrightarrow> cn_oplog_range n \<noteq> None)) \<and>
       join_breaks b base ns = [] \<and> adjacent_breaks ns = [])"
  by (cases found)
    (auto simp: report_is_continuous_def judge_base_def member_breaks_Nil_iff usable_base_breaks)

lemma verify_chain_continuous_iff:
  "report_is_continuous (verify_chain nodes t) \<longleftrightarrow>
     (\<exists>b base. base_of nodes t = Some b \<and> find_node nodes b = Some base \<and> usable_base base \<and>
       (\<forall>n \<in> set nodes. incr_of b n \<longrightarrow> \<not> is_incomplete n \<and>
          (cn_oplog_range base \<noteq> None \<longrightarrow> cn_oplog_range n \<noteq> None)) \<and>
       join_breaks b base (sorted_incrs nodes b) = [] \<and>
       adjacent_breaks (sorted_incrs nodes b) = [])"
proof (cases "base_of nodes t")
  case None
  then show ?thesis
    by (simp add: verify_chain_base_of report_is_continuous_def orphan_incremental_report_def
        unknown_target_report_def)
next
  case (Some b)
  then show ?thesis
    by (auto simp: verify_chain_base_of judge_base_continuous_iff)
qed

text \<open>The ranges of the slices of a base, in chain order.\<close>

definition slice_ranges :: "ChainNode list \<Rightarrow> string \<Rightarrow> (OplogTimestamp \<times> OplogTimestamp) list" where
  "slice_ranges nodes b = map node_range (sorted_incrs nodes b)"

lemma verify_chain_mongo_iff:
  assumes "base_of nodes t = Some b" and "find_node nodes b = Some base"
    and "cn_oplog_range base = Some (b0, b1)"
  shows "report_is_continuous (verify_chain nodes t) \<longleftrightarrow>
    usable_base base \<and>
    (\<forall>n \<in> set nodes. incr_of b n \<longrightarrow> cn_status n = Complete \<and> cn_oplog_range n \<noteq> None) \<and>
    linked b1 (slice_ranges nodes b)"
proof -
  have inc: "\<not> is_incomplete n \<longleftrightarrow> cn_status n = Complete" for n
    by (cases "cn_status n") (simp_all add: is_incomplete_def)
  show ?thesis
    using assms join_adjacent_linked [OF assms(3), of "sorted_incrs nodes b" b]
    by (auto simp: verify_chain_continuous_iff slice_ranges_def inc)
qed

section \<open>Coverage\<close>

definition covers :: "OplogTimestamp \<times> OplogTimestamp \<Rightarrow> OplogTimestamp \<Rightarrow> bool" where
  "covers r ts \<longleftrightarrow> fst r < ts \<and> ts \<le> snd r"

lemma linked_lower:
  "linked e rs \<Longrightarrow> \<forall>r \<in> set rs. fst r \<le> snd r \<Longrightarrow> r \<in> set rs \<Longrightarrow> e \<le> fst r"
  by (induction e rs rule: linked.induct) (auto intro: order_trans)

lemma linked_covers_ex:
  "linked e rs \<Longrightarrow> r \<in> set rs \<Longrightarrow> e < ts \<Longrightarrow> ts \<le> snd r \<Longrightarrow> \<exists>q \<in> set rs. covers q ts"
proof (induction e rs rule: linked.induct)
  case (2 e s t rs)
  show ?case
  proof (cases "ts \<le> t")
    case True
    with 2 show ?thesis by (auto simp: covers_def)
  next
    case False
    with 2 show ?thesis by (auto simp: not_le)
  qed
qed simp

lemma linked_covers_once:
  assumes "linked e rs" and "\<forall>r \<in> set rs. fst r \<le> snd r"
    and "i < length rs" and "j < length rs" and "covers (rs ! i) ts" and "covers (rs ! j) ts"
  shows "i = j"
  using assms
proof (induction e rs arbitrary: i j rule: linked.induct)
  case (2 e s t rs)
  have low: "\<not> (covers (s, t) ts \<and> covers (rs ! k) ts)" if "k < length rs" for k
  proof
    assume a: "covers (s, t) ts \<and> covers (rs ! k) ts"
    have "t \<le> fst (rs ! k)"
      using 2 that by (intro linked_lower) auto
    with a show False
      by (auto simp: covers_def)
  qed
  from 2 low show ?case
    by (cases i; cases j) auto
qed simp

section \<open>The verifier against verify_chain\<close>

lemma by_id_index_node [simp]: "by_id (index_node v n) = (by_id v)(cn_id n \<mapsto> n)"
  by (auto simp: index_node_def Let_def split: option.splits)

lemma incrs_index_node:
  "(case incrementals_by_base (index_node v n) b of None \<Rightarrow> [] | Some g \<Rightarrow> g) =
   (case incrementals_by_base v b of None \<Rightarrow> [] | Some g \<Rightarrow> g) @ (if incr_of b n then [n] else [])"
  by (cases "cn_backup_type n"; cases "cn_base_id n")
    (auto simp: index_node_def Let_def incr_of_def)

lemma by_id_fold:
  "by_id (foldl index_node v nodes) i =
     (case find_node (rev nodes) i of Some n \<Rightarrow> Some n | None \<Rightarrow> by_id v i)"
proof (induction nodes rule: rev_induct)
  case Nil
  then show ?case by (simp add: find_node_def)
next
  case (snoc n ns)
  then show ?case by (auto simp: find_node_def)
qed

lemma incrs_fold:
  "(case incrementals_by_base (foldl index_node v nodes) b of None \<Rightarrow> [] | Some g \<Rightarrow> g) =
   (case incrementals_by_base v b of None \<Rightarrow> [] | Some g \<Rightarrow> g) @ filter (incr_of b) nodes"
  by (induction nodes rule: rev_induct) (simp_all add: incrs_index_node)

lemma cache_fold [simp]: "cache (foldl index_node v nodes) = cache v"
  by (induction nodes rule: rev_induct)
    (auto simp: index_node_def Let_def split: option.splits)

text \<open>The verifier finds the last node with an id, where \<open>verify_chain\<close> finds the first.\<close>

lemma verifier_new_by_id: "by_id (verifier_new nodes) i = find_node (rev nodes) i"
  by (simp add: verifier_new_def Let_def by_id_fold split: option.split)

lemma verifier_new_incrs:
  "(case incrementals_by_base (verifier_new nodes) b of None \<Rightarrow> [] | Some g \<Rightarrow> g) =
   sorted_incrs nodes b"
  using incrs_fold [of "\<lparr>by_id = Map.empty, incrementals_by_base = Map.empty, cache = Map.empty\<rparr>"
      nodes b]
  by (auto simp: verifier_new_def Let_def sorted_incrs_def split: option.splits)

lemma verifier_new_cache [simp]: "cache (verifier_new nodes) = Map.empty"
  by (simp add: verifier_new_def Let_def)

text \<open>A verifier for \<open>nodes\<close>: its index is that of \<open>new\<close>, its cache holds right reports.\<close>

definition verifier_for :: "ChainNode list \<Rightarrow> ChainVerifier \<Rightarrow> bool" where
  "verifier_for nodes v \<longleftrightarrow>
     by_id v = by_id (verifier_new nodes) \<and>
     incrementals_by_base v = incrementals_by_base (verifier_new nodes) \<and>
     (\<forall>b r. cache v b = Some r \<longrightarrow> r = compute_for_base v b)"

lemma compute_for_base_cache [simp]: "compute_for_base (v\<lparr>cache := c\<rparr>) b = compute_for_base v b"
  by (simp add: compute_for_base_def)

lemma verifier_for_new: "verifier_for nodes (verifier_new nodes)"
  by (simp add: verifier_for_def)

lemma report_for_base_fst:
  "verifier_for nodes v \<Longrightarrow> fst (report_for_base v b) = compute_for_base v b"
  by (auto simp: report_for_base_def verifier_for_def Let_def split: option.splits)

lemma report_for_base_snd:
  "verifier_for nodes v \<Longrightarrow> verifier_for nodes (snd (report_for_base v b))"
  by (auto simp: report_for_base_def verifier_for_def Let_def split: option.splits)

lemma verifier_verify_snd:
  "verifier_for nodes v \<Longrightarrow> verifier_for nodes (snd (verifier_verify v t))"
  by (simp add: verifier_verify_def report_for_base_snd split: BaseOf.split)

lemma compute_for_base_eq:
  assumes "verifier_for nodes v" and "distinct (map cn_id nodes)"
  shows "compute_for_base v b = judge_base b (find_node nodes b) (sorted_incrs nodes b)"
proof -
  show ?thesis
    using assms by (simp add: find_node_rev compute_for_base_def verifier_for_def verifier_new_by_id verifier_new_incrs)
qed

lemma resolve_base_eq:
  assumes "verifier_for nodes v" and "distinct (map cn_id nodes)"
  shows "resolve_base v t = (case base_of nodes t of
    Some b \<Rightarrow> Base b
  | None \<Rightarrow> (if find_node nodes t = None then UnknownTarget else OrphanIncremental))"
proof -
  have "by_id v t = find_node nodes t"
    using assms by (simp add: verifier_for_def verifier_new_by_id find_node_rev)
  then show ?thesis
    by (auto simp: resolve_base_def base_of_def dest: find_node_Some
        split: option.split BackupType.split)
qed

lemma verifier_verify_eq:
  assumes "verifier_for nodes v" and "distinct (map cn_id nodes)"
  shows "fst (verifier_verify v t) = verify_chain nodes t"
  by (simp add: verifier_verify_def resolve_base_eq [OF assms] verify_chain_base_of
      report_for_base_fst [OF assms(1)] compute_for_base_eq [OF assms] split: option.split)

lemma verify_all_eq:
  assumes "distinct (map cn_id nodes)"
  shows "verifier_for nodes v \<Longrightarrow> verify_all v ts = map (verify_chain nodes) ts"
proof (induction ts arbitrary: v)
  case (Cons t ts)
  then have "verifier_for nodes (snd (verifier_verify v t))"
    by (simp add: verifier_verify_snd)
  with Cons assms show ?case
    using verifier_verify_eq [OF Cons.prems assms, of t]
    by (simp add: case_prod_beta)
qed simp

section \<open>Concrete chains\<close>

definition ex_full :: ChainNode where
  "ex_full = \<lparr>cn_id = ''f'', cn_backup_type = Full, cn_base_id = None,
     cn_oplog_range = Some (OplogTs 1 0, OplogTs 10 0), cn_is_empty_slice = False,
     cn_selective = False, cn_status = Complete\<rparr>"

definition ex_incr :: "string \<Rightarrow> u32 \<Rightarrow> u32 \<Rightarrow> ChainNode" where
  "ex_incr i s e = \<lparr>cn_id = i, cn_backup_type = Incremental, cn_base_id = Some ''f'',
     cn_oplog_range = Some (OplogTs s 0, OplogTs e 0), cn_is_empty_slice = False,
     cn_selective = False, cn_status = Complete\<rparr>"

definition ex_chain :: "ChainNode list" where
  "ex_chain = [ex_incr ''i2'' 20 30, ex_full, ex_incr ''i1'' 10 20]"

lemma ex_chain_distinct: "distinct (map cn_id ex_chain)"
  by (simp add: ex_chain_def ex_full_def ex_incr_def)

lemma ex_chain_report:
  "verify_chain ex_chain ''f'' = \<lparr>cr_base_id = ''f'', cr_incremental_ids = [''i1'', ''i2''],
     cr_breaks = [], cr_warnings = []\<rparr>"
  by code_simp

section \<open>Properties\<close>

text \<open>C3: on a chain that \<open>verify_chain\<close> finds continuous and whose base has an oplog range,
  every timestamp after the end of the base, up to the end of any slice, lies in exactly one
  slice of the base: replaying the slices in order loses nothing and applies nothing twice. The
  slices are assumed to be intervals, as the capture writes them.\<close>

theorem chain_covers_once:
  assumes "distinct (map cn_id nodes)"
    and "report_is_continuous (verify_chain nodes t)"
    and "base_of nodes t = Some b" and "find_node nodes b = Some base"
    and "cn_oplog_range base = Some (bs, be)"
    and "\<forall>n \<in> set nodes. \<forall>s e. cn_oplog_range n = Some (s, e) \<longrightarrow> s \<le> e"
    and "m \<in> set nodes" and "incr_of b m" and "cn_oplog_range m = Some (s', e')"
    and "be < ts" and "ts \<le> e'"
  shows "\<exists>!n. n \<in> set nodes \<and> incr_of b n \<and> covers (node_range n) ts"
proof -
  let ?ns = "sorted_incrs nodes b"
  from assms(2) have cont: "linked be (slice_ranges nodes b)"
    "\<forall>n \<in> set nodes. incr_of b n \<longrightarrow> cn_oplog_range n \<noteq> None"
    using verify_chain_mongo_iff [OF assms(3-5)] by auto
  then have wf: "\<forall>r \<in> set (slice_ranges nodes b). fst r \<le> snd r"
    using assms(6) by (fastforce simp: slice_ranges_def)
  have dist: "distinct (map cn_id ?ns)"
    using assms(1) by (simp add: sorted_incrs_def distinct_map_filter)
  have "(s', e') \<in> set (slice_ranges nodes b)"
    using assms(7-9) by (force simp: slice_ranges_def)
  then obtain q where q: "q \<in> set (slice_ranges nodes b)" "covers q ts"
    using linked_covers_ex [OF cont(1) _ assms(10)] assms(11) by (metis snd_conv)
  then obtain n where n: "n \<in> set ?ns" "covers (node_range n) ts"
    by (auto simp: slice_ranges_def)
  have uniq: "x = y" if "x \<in> set ?ns" "covers (node_range x) ts" "y \<in> set ?ns"
    "covers (node_range y) ts" for x y
  proof -
    from that obtain i j where "i < length ?ns" "?ns ! i = x" "j < length ?ns" "?ns ! j = y"
      by (meson in_set_conv_nth)
    then show ?thesis
      using linked_covers_once [OF cont(1) wf, of i j ts] that by (simp add: slice_ranges_def)
  qed
  show ?thesis
    using n uniq by (intro ex1I [of _ n]) auto
qed

theorem chain_covers_once_witness:
  "\<exists>!n. n \<in> set ex_chain \<and> incr_of ''f'' n \<and> covers (node_range n) (OplogTs 20 0)"
  by (rule chain_covers_once [where t = "''i1''" and base = ex_full and bs = "OplogTs 1 0"
        and be = "OplogTs 10 0" and m = "ex_incr ''i2'' 20 30" and s' = "OplogTs 20 0"
        and e' = "OplogTs 30 0"])
    (code_simp, code_simp, code_simp, code_simp, code_simp,
      simp add: ex_chain_def ex_full_def ex_incr_def ts_le_iff, code_simp+)

text \<open>Neighbours that both have a range join.\<close>

lemma adjacent_breaks_nth:
  "adjacent_breaks ns = [] \<longleftrightarrow> (\<forall>i r r'. Suc i < length ns \<longrightarrow> cn_oplog_range (ns ! i) = Some r \<longrightarrow>
     cn_oplog_range (ns ! Suc i) = Some r' \<longrightarrow> fst r' = snd r)"
proof (induction ns rule: induct_list012)
  case (3 a b ns)
  have "(\<forall>e s. node_end_ts a = Some e \<longrightarrow> node_start_ts b = Some s \<longrightarrow> e = s) \<longleftrightarrow>
      (\<forall>r r'. cn_oplog_range a = Some r \<longrightarrow> cn_oplog_range b = Some r' \<longrightarrow> fst r' = snd r)"
    by (auto simp: node_start_ts_def node_end_ts_def)
  moreover have "(\<forall>i :: nat. P i) \<longleftrightarrow> P 0 \<and> (\<forall>i. P (Suc i))" for P
    by (metis nat.exhaust)
  from this [of "\<lambda>i. \<forall>r r'. Suc i < length (a # b # ns) \<longrightarrow> cn_oplog_range ((a # b # ns) ! i) = Some r \<longrightarrow>
      cn_oplog_range ((a # b # ns) ! Suc i) = Some r' \<longrightarrow> fst r' = snd r"]
  have "(\<forall>i r r'. Suc i < length (a # b # ns) \<longrightarrow> cn_oplog_range ((a # b # ns) ! i) = Some r \<longrightarrow>
      cn_oplog_range ((a # b # ns) ! Suc i) = Some r' \<longrightarrow> fst r' = snd r) \<longleftrightarrow>
    (\<forall>r r'. cn_oplog_range a = Some r \<longrightarrow> cn_oplog_range b = Some r' \<longrightarrow> fst r' = snd r) \<and>
    (\<forall>i r r'. Suc i < length (b # ns) \<longrightarrow> cn_oplog_range ((b # ns) ! i) = Some r \<longrightarrow>
      cn_oplog_range ((b # ns) ! Suc i) = Some r' \<longrightarrow> fst r' = snd r)" by simp
  ultimately show ?case
    unfolding adjacent_breaks_Cons2 3(2) by simp
qed (simp_all add: adjacent_breaks_def)

text \<open>C20: What a report of \<open>verify_chain\<close> judges continuous, for every target and every list of
  backups, stated without its steps: the target stands on a base (itself, when it is a full backup);
  the base exists, is full, unselective and complete; every incremental of that base is complete; and,
  when the base has an oplog range, every incremental has one too and in chain order each starts exactly
  where the one before it (first of all the base) ends. Behind a base without a range, as those of
  MySQL and PostgreSQL are, only neighbours that both have a range are asked to join.\<close>

theorem verify_chain_spec:
  "cr_breaks (verify_chain nodes t) = [] \<longleftrightarrow>
    (\<exists>b base. base_of nodes t = Some b \<and> find_node nodes b = Some base \<and> usable_base base \<and>
      (\<forall>n \<in> set nodes. incr_of b n \<longrightarrow> cn_status n = Complete) \<and>
      (case cn_oplog_range base of
         Some (bs, be) \<Rightarrow> (\<forall>n \<in> set nodes. incr_of b n \<longrightarrow> cn_oplog_range n \<noteq> None) \<and>
           linked be (slice_ranges nodes b)
       | None \<Rightarrow> (\<forall>i r r'. Suc i < length (sorted_incrs nodes b) \<longrightarrow>
           cn_oplog_range (sorted_incrs nodes b ! i) = Some r \<longrightarrow>
           cn_oplog_range (sorted_incrs nodes b ! Suc i) = Some r' \<longrightarrow> fst r' = snd r)))"
proof -
  have inc: "\<not> is_incomplete n \<longleftrightarrow> cn_status n = Complete" for n
    by (cases "cn_status n") (simp_all add: is_incomplete_def)
  have none: "join_breaks b base ns = []" if "cn_oplog_range base = None" for b base ns
    using that by (cases ns) (simp_all add: join_breaks_def node_end_ts_def)
  have "cr_breaks (verify_chain nodes t) = [] \<longleftrightarrow> (\<exists>b base. base_of nodes t = Some b \<and>
      find_node nodes b = Some base \<and> report_is_continuous (verify_chain nodes t))"
    using verify_chain_continuous_iff [of nodes t] unfolding report_is_continuous_def by blast
  also have "\<dots> \<longleftrightarrow> (\<exists>b base. base_of nodes t = Some b \<and> find_node nodes b = Some base \<and> usable_base base \<and>
      (\<forall>n \<in> set nodes. incr_of b n \<longrightarrow> cn_status n = Complete) \<and>
      (case cn_oplog_range base of
         Some (bs, be) \<Rightarrow> (\<forall>n \<in> set nodes. incr_of b n \<longrightarrow> cn_oplog_range n \<noteq> None) \<and>
           linked be (slice_ranges nodes b)
       | None \<Rightarrow> adjacent_breaks (sorted_incrs nodes b) = []))" (is "(\<exists>b base. ?at b base \<and> _) \<longleftrightarrow> (\<exists>b base. ?all b base)")
  proof -
    have "?at b base \<and> find_node nodes b = Some base \<and> report_is_continuous (verify_chain nodes t) \<longleftrightarrow> ?all b base" for b base
    proof (cases "base_of nodes t = Some b \<and> find_node nodes b = Some base")
      case True
      show ?thesis
      proof (cases "cn_oplog_range base")
        case None
        with True none show ?thesis by (auto simp: verify_chain_continuous_iff inc)
      next
        case (Some r)
        with True verify_chain_mongo_iff [of nodes t b base "fst r" "snd r"] show ?thesis
          by (auto split: prod.split)
      qed
    qed auto
    then show ?thesis by blast
  qed
  finally show ?thesis unfolding adjacent_breaks_nth .
qed

theorem verify_chain_spec_witness:
  "\<exists>b base. base_of ex_chain ''i2'' = Some b \<and> find_node ex_chain b = Some base \<and> usable_base base \<and>
    cn_oplog_range base = Some (OplogTs 1 0, OplogTs 10 0) \<and> linked (OplogTs 10 0) (slice_ranges ex_chain b)"
proof -
  have "cr_breaks (verify_chain ex_chain ''i2'') = []" by code_simp
  with verify_chain_spec [of ex_chain "''i2''"] obtain b base where b: "base_of ex_chain ''i2'' = Some b"
    "find_node ex_chain b = Some base" "usable_base base"
    "case cn_oplog_range base of
         Some (bs, be) \<Rightarrow> (\<forall>n \<in> set ex_chain. incr_of b n \<longrightarrow> cn_oplog_range n \<noteq> None) \<and>
           linked be (slice_ranges ex_chain b) | None \<Rightarrow> True"
    by (fastforce split: option.splits)
  have "base_of ex_chain ''i2'' = Some ''f''" "map_option cn_oplog_range (find_node ex_chain ''f'') =
      Some (Some (OplogTs 1 0, OplogTs 10 0))" by code_simp+
  with b show ?thesis by auto
qed

text \<open>C21: the cached \<open>ChainVerifier\<close> answers every target of any sequence of questions with the
  report \<open>verify_chain\<close> computes from scratch, whatever was asked before, for backups with
  distinct ids.\<close>

theorem verifier_refines_verify_chain:
  assumes "distinct (map cn_id nodes)"
  shows "verify_all (verifier_new nodes) ts = map (verify_chain nodes) ts"
  by (rule verify_all_eq [OF assms verifier_for_new])

theorem verifier_refines_verify_chain_witness:
  "verify_all (verifier_new ex_chain) [''i1'', ''x'', ''f''] =
     map (verify_chain ex_chain) [''i1'', ''x'', ''f'']"
  by (rule verifier_refines_verify_chain [OF ex_chain_distinct])

text \<open>the boolean query agrees with the report on every verifier that the queries reach from
  \<open>new\<close>, and leaves such a verifier behind.\<close>

theorem is_continuous_agrees:
  assumes "distinct (map cn_id nodes)" and "verifier_for nodes v"
  shows "fst (verifier_is_continuous v t) = report_is_continuous (verify_chain nodes t) \<and>
    verifier_for nodes (snd (verifier_is_continuous v t))"
proof -
  have rep: "report_for_base v b = (compute_for_base v b, snd (report_for_base v b))" for b
    using report_for_base_fst [OF assms(2)] by (metis prod.collapse)
  show ?thesis
    by (auto simp: verifier_is_continuous_def resolve_base_eq [OF assms(2,1)] verify_chain_base_of
        compute_for_base_eq [OF assms(2,1)] report_for_base_snd [OF assms(2)] assms(2)
        report_is_continuous_def orphan_incremental_report_def unknown_target_report_def
        case_prod_beta report_for_base_fst [OF assms(2)] split: option.split)
qed

theorem is_continuous_agrees_witness:
  "fst (verifier_is_continuous (verifier_new ex_chain) ''i1'') =
     report_is_continuous (verify_chain ex_chain ''i1'') \<and>
   verifier_for ex_chain (snd (verifier_is_continuous (verifier_new ex_chain) ''i1''))"
  by (rule is_continuous_agrees [OF ex_chain_distinct verifier_for_new])

text \<open>the report does not depend on the order in which the storage lists the backups.\<close>

theorem verify_chain_order_independent:
  assumes "distinct (map cn_id nodes)" and "mset nodes = mset nodes'"
  shows "verify_chain nodes t = verify_chain nodes' t"
proof -
  have "find_node nodes = find_node nodes'" "sorted_incrs nodes = sorted_incrs nodes'"
    using find_node_cong_mset [OF assms] sorted_incrs_cong_mset [OF assms] by auto
  then show ?thesis
    by (simp only: verify_chain_def)
qed

theorem verify_chain_order_independent_witness:
  "verify_chain ex_chain ''i1'' = verify_chain (rev ex_chain) ''i1''"
  by (rule verify_chain_order_independent [OF ex_chain_distinct]) simp

text \<open>backups of other chains do not change a report: adding nodes with new ids that are not
  incrementals of the base leaves the report of the target as it was.\<close>

theorem verify_chain_frame:
  assumes "base_of nodes t = Some b" and "find_node nodes b \<noteq> None"
    and "\<forall>n \<in> set extra. \<not> incr_of b n"
  shows "verify_chain (nodes @ extra) t = verify_chain nodes t"
proof -
  have "find_node nodes t \<noteq> None"
    using assms(1) by (auto simp: base_of_def split: option.splits)
  then have "find_node (nodes @ extra) t = find_node nodes t"
    by (auto simp: find_node_append)
  moreover have "find_node (nodes @ extra) b = find_node nodes b"
    using assms(2) by (auto simp: find_node_append)
  moreover have "sorted_incrs (nodes @ extra) b = sorted_incrs nodes b"
    using assms(3) by (simp add: sorted_incrs_def filter_empty_conv)
  ultimately show ?thesis
    using assms(1) by (simp add: verify_chain_base_of base_of_def)
qed

theorem verify_chain_frame_witness:
  "verify_chain (ex_chain @ [ex_full\<lparr>cn_id := ''g''\<rparr>]) ''i1'' = verify_chain ex_chain ''i1''"
  by (rule verify_chain_frame [where b = "''f''"]) code_simp+

text \<open>with a repeated id the two disagree: \<open>verify_chain\<close> takes the first node, the
  verifier the last, so a duplicated id makes one report a break that the other does not.\<close>

theorem verifier_differs_on_duplicates:
  "let nodes = [ex_full, ex_full\<lparr>cn_status := Incomplete\<rparr>] in
     cr_breaks (verify_chain nodes ''f'') = [] \<and>
     map cr_breaks (verify_all (verifier_new nodes) [''f'']) = [[IncompleteMember ''f'']]"
  by code_simp

end
