(* ===== verification/XB_Oplog_Apply.thy ===== *)
theory XB_Oplog_Apply
  imports XB_Manifest
begin

text \<open>
  The replay of an oplog slice (\<open>engine/mongo/apply.rs\<close>): entries are read off the decoded
  stream, cut at a limit, classified, sanitised and sent to the server as \<open>applyOps\<close> commands
  in batches; the pieces of a transaction are buffered until its commit. BSON documents and
  their accessors belong to the \<open>bson\<close> crate and are a parameter of the model, as is the answer
  of the server. The lemmas show that batching does not change what is applied or its order.
\<close>

section \<open>The document interface\<close>

text \<open>
  What the code uses of \<open>bson::Document\<close>: \<open>get\<close> returns the value of a key, the typed getters
  return it when it has that type, \<open>remove\<close> deletes a key, \<open>set\<close> overwrites the value a mutable
  getter has lent out, \<open>debug\<close> is \<open>format!("{:?}")\<close>.
\<close>

datatype 'd bson =
    BDocument 'd
  | BArray "'d bson list"
  | BTimestamp bson_timestamp
  | BOther

record 'd bson_api =
  doc_get :: "'d \<Rightarrow> string \<Rightarrow> 'd bson option"
  doc_get_str :: "'d \<Rightarrow> string \<Rightarrow> string option"
  doc_get_i64 :: "'d \<Rightarrow> string \<Rightarrow> int option"
  doc_get_bool :: "'d \<Rightarrow> string \<Rightarrow> bool option"
  doc_remove :: "string \<Rightarrow> 'd \<Rightarrow> 'd"
  doc_set :: "string \<Rightarrow> 'd bson \<Rightarrow> 'd \<Rightarrow> 'd"
  doc_debug :: "'d \<Rightarrow> string"
  doc_empty :: 'd
  doc_from_reader :: "bytes \<Rightarrow> 'd option"

definition doc_get_document :: "'d bson_api \<Rightarrow> 'd \<Rightarrow> string \<Rightarrow> 'd option" where
  "doc_get_document api d k = (case doc_get api d k of Some (BDocument x) \<Rightarrow> Some x | _ \<Rightarrow> None)"

definition doc_get_array :: "'d bson_api \<Rightarrow> 'd \<Rightarrow> string \<Rightarrow> 'd bson list option" where
  "doc_get_array api d k = (case doc_get api d k of Some (BArray x) \<Rightarrow> Some x | _ \<Rightarrow> None)"

definition doc_contains_key :: "'d bson_api \<Rightarrow> 'd \<Rightarrow> string \<Rightarrow> bool" where
  "doc_contains_key api d k \<longleftrightarrow> doc_get api d k \<noteq> None"

section \<open>Limits and errors\<close>

definition MAX_BATCH_OPS :: nat where
  "MAX_BATCH_OPS = 1000"

definition MAX_BATCH_BYTES :: nat where
  "MAX_BATCH_BYTES = 12 * 1024 * 1024"

definition MAX_ENTRY_BYTES :: u32 where
  "MAX_ENTRY_BYTES = 32 * 1024 * 1024"

datatype apply_error =
    AbnormalLength u32
  | BodyRead
  | ParseFailed
  | NoTimestamp
  | ApplyOpsFailed

section \<open>Reading the stream\<close>

definition le_u32 :: "bytes \<Rightarrow> u32" where
  "le_u32 bs = ucast (bs ! 0) + 256 * ucast (bs ! 1) + 65536 * ucast (bs ! 2) +
     16777216 * ucast (bs ! 3)"

text \<open>
  \<open>read_bson_doc\<close> on the bytes left: \<open>Inr None\<close> at the end of the stream (an end inside the
  length counts as the end), otherwise the document, its size and the rest.
\<close>

definition read_bson_doc ::
  "'d bson_api \<Rightarrow> bytes \<Rightarrow> apply_error + ('d \<times> nat \<times> bytes) option" where
  "read_bson_doc api bs =
     (if length bs < 4 then Inr None
      else let len = le_u32 (take 4 bs) in
        if \<not> (5 \<le> len \<and> len \<le> MAX_ENTRY_BYTES) then Inl (AbnormalLength len)
        else if length bs < unat len then Inl BodyRead
        else (case doc_from_reader api (take (unat len) bs) of
                None \<Rightarrow> Inl ParseFailed
              | Some d \<Rightarrow> Inr (Some (d, unat len, drop (unat len) bs))))"

definition entry_ts :: "'d bson_api \<Rightarrow> 'd \<Rightarrow> apply_error + OplogTimestamp" where
  "entry_ts api entry = (case doc_get api entry ''ts'' of
     Some (BTimestamp ts) \<Rightarrow> Inr (from_bson ts)
   | _ \<Rightarrow> Inl NoTimestamp)"

section \<open>Classifying an entry\<close>

definition should_skip_ns :: "string \<Rightarrow> bool" where
  "should_skip_ns ns \<longleftrightarrow>
     (let db = hd (split_on (CHR ''.'') ns)
      in db = ''local'' \<or> db = ''config'' \<or> ns = ''admin.system.version'')"

definition STRIP :: "string list" where
  "STRIP = [''ui'', ''lsid'', ''txnNumber'', ''stmtId'', ''prevOpTime'', ''preImageOpTime'',
     ''postImageOpTime'', ''needsRetryImage'']"

definition strip_ui :: "'d bson_api \<Rightarrow> 'd bson \<Rightarrow> 'd bson" where
  "strip_ui api b = (case b of BDocument d \<Rightarrow> BDocument (doc_remove api ''ui'' d) | _ \<Rightarrow> b)"

definition sanitize_entry :: "'d bson_api \<Rightarrow> 'd \<Rightarrow> 'd" where
  "sanitize_entry api entry =
     (let e = fold (doc_remove api) STRIP entry
      in case doc_get_document api e ''o'' of
           None \<Rightarrow> e
         | Some o1 \<Rightarrow> (case doc_get_array api o1 ''applyOps'' of
             None \<Rightarrow> e
           | Some arr \<Rightarrow> doc_set api ''o''
               (BDocument (doc_set api ''applyOps'' (BArray (map (strip_ui api) arr)) o1)) e))"

definition inner_txn_ops :: "'d bson_api \<Rightarrow> 'd \<Rightarrow> 'd list" where
  "inner_txn_ops api o1 = (case doc_get_array api o1 ''applyOps'' of
     None \<Rightarrow> []
   | Some arr \<Rightarrow> List.map_filter
       (\<lambda>b. case b of BDocument d \<Rightarrow> Some (sanitize_entry api d) | _ \<Rightarrow> None) arr)"

definition txn_key :: "'d bson_api \<Rightarrow> 'd \<Rightarrow> string option" where
  "txn_key api entry = (case (doc_get_document api entry ''lsid'', doc_get_i64 api entry ''txnNumber'') of
     (Some lsid, Some txn) \<Rightarrow> Some (doc_debug api lsid @ ''#'' @ show_int txn)
   | _ \<Rightarrow> None)"

datatype 'd EntryAction =
    Skip
  | Apply 'd
  | TxnBuffer string "'d list"
  | TxnBufferThenCommit string "'d list"
  | TxnCommit string
  | TxnAbort string

definition unwrap_or :: "'a option \<Rightarrow> 'a \<Rightarrow> 'a" where
  "unwrap_or x d = (case x of Some v \<Rightarrow> v | None \<Rightarrow> d)"

definition classify_entry :: "'d bson_api \<Rightarrow> 'd \<Rightarrow> 'd EntryAction" where
  "classify_entry api entry =
     (let op = unwrap_or (doc_get_str api entry ''op'') [];
          ns = unwrap_or (doc_get_str api entry ''ns'') [];
          o1 = unwrap_or (doc_get_document api entry ''o'') (doc_empty api)
      in if op = ''n'' then Skip
         else if should_skip_ns ns then Skip
         else case (if op = ''c'' then txn_key api entry else None) of
           None \<Rightarrow> Apply (sanitize_entry api entry)
         | Some key \<Rightarrow>
             (if doc_contains_key api o1 ''commitTransaction'' then TxnCommit key
              else if doc_contains_key api o1 ''abortTransaction'' then TxnAbort key
              else if doc_contains_key api o1 ''applyOps'' then
                (if \<not> unwrap_or (doc_get_bool api o1 ''partialTxn'') False
                    \<and> \<not> unwrap_or (doc_get_bool api o1 ''prepare'') False
                 then TxnBufferThenCommit key (inner_txn_ops api o1)
                 else TxnBuffer key (inner_txn_ops api o1))
              else Apply (sanitize_entry api entry)))"

section \<open>The loop\<close>

text \<open>
  The state of \<open>apply_stream\<close>: the counters, the batch with its size, the buffers of the open
  transactions, and the commands the server has accepted so far. The server's answers are the
  function \<open>accepts\<close> of the commands already accepted and the new one.
\<close>

record 'd apply_state =
  applied :: nat
  skipped :: nat
  batch :: "'d list"
  batch_bytes :: nat
  txns :: "(string \<times> 'd list) list"
  sent :: "'d list list"

definition apply_ops ::
  "('d list list \<Rightarrow> 'd list \<Rightarrow> bool) \<Rightarrow> 'd list \<Rightarrow> 'd apply_state \<Rightarrow> (apply_error + unit) \<times> 'd apply_state"
  where
  "apply_ops accepts ops st =
     (if ops = [] then (Inr (), st)
      else if accepts (sent st) ops
           then (Inr (), st\<lparr>sent := sent st @ [ops], applied := applied st + length ops\<rparr>)
           else (Inl ApplyOpsFailed, st))"

definition flush where
  "flush accepts st = apply_ops accepts (batch st) (st\<lparr>batch := [], batch_bytes := 0\<rparr>)"

text \<open>Sequencing of two fallible steps on the state.\<close>

definition and_then ::
  "('s \<Rightarrow> ('e + unit) \<times> 's) \<Rightarrow> ('s \<Rightarrow> ('e + unit) \<times> 's) \<Rightarrow> 's \<Rightarrow> ('e + unit) \<times> 's" where
  "and_then f g s = (case f s of (Inl e, s') \<Rightarrow> (Inl e, s') | (Inr _, s') \<Rightarrow> g s')"

text \<open>\<open>slice::chunks(n)\<close> for \<open>n > 0\<close>.\<close>

function chunks :: "nat \<Rightarrow> 'a list \<Rightarrow> 'a list list" where
  "chunks n xs = (if xs = [] \<or> n = 0 then [] else take n xs # chunks n (drop n xs))"
  by pat_completeness auto
termination
  by (relation "measure (\<lambda>(n, xs). length xs)") auto

declare chunks.simps [simp del]

fun apply_chunks ::
  "('d list list \<Rightarrow> 'd list \<Rightarrow> bool) \<Rightarrow> 'd list list \<Rightarrow> 'd apply_state \<Rightarrow> (apply_error + unit) \<times> 'd apply_state"
  where
  "apply_chunks accepts [] st = (Inr (), st)"
| "apply_chunks accepts (c # cs) st = and_then (apply_ops accepts c) (apply_chunks accepts cs) st"

definition txn_extend :: "string \<Rightarrow> 'd list \<Rightarrow> 'd apply_state \<Rightarrow> 'd apply_state" where
  "txn_extend key ops st =
     st\<lparr>txns := bt_insert key (unwrap_or (map_of (txns st) key) [] @ ops) (txns st)\<rparr>"

definition txn_commit ::
  "('d list list \<Rightarrow> 'd list \<Rightarrow> bool) \<Rightarrow> string \<Rightarrow> 'd apply_state \<Rightarrow> (apply_error + unit) \<times> 'd apply_state"
  where
  "txn_commit accepts key st =
     (let ops = unwrap_or (map_of (txns st) key) []
      in and_then (flush accepts) (apply_chunks accepts (chunks MAX_BATCH_OPS ops))
           (st\<lparr>txns := bt_remove key (txns st)\<rparr>))"

definition handle_action ::
  "'d bson_api \<Rightarrow> ('d list list \<Rightarrow> 'd list \<Rightarrow> bool) \<Rightarrow> 'd EntryAction \<Rightarrow> nat \<Rightarrow>
   'd apply_state \<Rightarrow> (apply_error + unit) \<times> 'd apply_state" where
  "handle_action api accepts act entry_bytes st = (case act of
     Skip \<Rightarrow> (Inr (), st\<lparr>skipped := skipped st + 1\<rparr>)
   | Apply op \<Rightarrow>
       (if doc_get_str api op ''op'' = Some ''c'' then
          and_then (flush accepts) (apply_ops accepts [op]) st
        else
          and_then
            (\<lambda>s. if MAX_BATCH_OPS \<le> length (batch s) \<or> MAX_BATCH_BYTES < batch_bytes s + entry_bytes
                 then flush accepts s else (Inr (), s))
            (\<lambda>s. (Inr (), s\<lparr>batch := batch s @ [op], batch_bytes := batch_bytes s + entry_bytes\<rparr>)) st)
   | TxnBuffer key ops \<Rightarrow> (Inr (), txn_extend key ops st)
   | TxnBufferThenCommit key ops \<Rightarrow> txn_commit accepts key (txn_extend key ops st)
   | TxnCommit key \<Rightarrow> txn_commit accepts key st
   | TxnAbort key \<Rightarrow>
       (case map_of (txns st) key of
          Some dropped \<Rightarrow> (Inr (), st\<lparr>txns := bt_remove key (txns st), skipped := skipped st + length dropped\<rparr>)
        | None \<Rightarrow> (Inr (), st)))"

text \<open>After the loop: the last batch goes out, the open transactions count as skipped.\<close>

definition finish_stream ::
  "('d list list \<Rightarrow> 'd list \<Rightarrow> bool) \<Rightarrow> 'd apply_state \<Rightarrow> (apply_error + unit) \<times> 'd apply_state" where
  "finish_stream accepts st = and_then (flush accepts)
     (\<lambda>s. (Inr (), s\<lparr>skipped := skipped s + sum_list (map (\<lambda>(_, d). length d) (txns s)),
                    txns := []\<rparr>)) st"

text \<open>The limit: an entry at or after it ends the replay.\<close>

definition past_limit ::
  "'d bson_api \<Rightarrow> OplogTimestamp option \<Rightarrow> 'd \<Rightarrow> apply_error + bool" where
  "past_limit api limit entry = (case limit of None \<Rightarrow> Inr False
     | Some lim \<Rightarrow> bind_res (entry_ts api entry) (\<lambda>ts. Inr (lim \<le> ts)))"

function apply_loop ::
  "'d bson_api \<Rightarrow> ('d list list \<Rightarrow> 'd list \<Rightarrow> bool) \<Rightarrow> OplogTimestamp option \<Rightarrow> bytes \<Rightarrow>
   'd apply_state \<Rightarrow> (apply_error + unit) \<times> 'd apply_state" where
  "apply_loop api accepts limit bs st = (case read_bson_doc api bs of
     Inl e \<Rightarrow> (Inl e, st)
   | Inr None \<Rightarrow> finish_stream accepts st
   | Inr (Some (entry, entry_bytes, rest)) \<Rightarrow>
       (case past_limit api limit entry of
          Inl e \<Rightarrow> (Inl e, st)
        | Inr True \<Rightarrow> finish_stream accepts st
        | Inr False \<Rightarrow>
            and_then (handle_action api accepts (classify_entry api entry) entry_bytes)
              (apply_loop api accepts limit rest) st))"
  by pat_completeness auto

lemma read_bson_doc_rest:
  "read_bson_doc api bs = Inr (Some (d, n, rest)) \<Longrightarrow>
     length rest < length bs \<and> length bs = n + length rest \<and> 5 \<le> n"
proof -
  assume a: "read_bson_doc api bs = Inr (Some (d, n, rest))"
  define len where "len = le_u32 (take 4 bs)"
  from a have "n = unat len" "rest = drop (unat len) bs" "unat len \<le> length bs" "5 \<le> len"
    unfolding len_def
    by (auto simp: read_bson_doc_def Let_def split: if_splits option.splits)
  moreover have "5 \<le> unat len"
    using \<open>5 \<le> len\<close> by (simp add: word_le_nat_alt)
  ultimately show ?thesis
    by simp
qed

termination apply_loop
  by (relation "measure (\<lambda>(api, accepts, limit, bs, st). length bs)")
    (auto dest: read_bson_doc_rest)

declare apply_loop.simps [simp del]

definition empty_state :: "'d apply_state" where
  "empty_state = \<lparr>applied = 0, skipped = 0, batch = [], batch_bytes = 0, txns = [], sent = []\<rparr>"

record ApplyStats =
  stat_applied :: nat
  stat_skipped :: nat

definition apply_stream ::
  "'d bson_api \<Rightarrow> ('d list list \<Rightarrow> 'd list \<Rightarrow> bool) \<Rightarrow> OplogTimestamp option \<Rightarrow> bytes \<Rightarrow>
   (apply_error + ApplyStats) \<times> 'd list list" where
  "apply_stream api accepts limit bs = (case apply_loop api accepts limit bs empty_state of
     (Inl e, st) \<Rightarrow> (Inl e, sent st)
   | (Inr _, st) \<Rightarrow>
       (Inr \<lparr>stat_applied = applied st, stat_skipped = skipped st\<rparr>, sent st))"

section \<open>The entries the loop takes off the stream\<close>

text \<open>The entries before the loop stops, and the error that stopped it, if one did.\<close>

function read_entries ::
  "'d bson_api \<Rightarrow> OplogTimestamp option \<Rightarrow> bytes \<Rightarrow> ('d \<times> nat) list \<times> apply_error option" where
  "read_entries api limit bs = (case read_bson_doc api bs of
     Inl e \<Rightarrow> ([], Some e)
   | Inr None \<Rightarrow> ([], None)
   | Inr (Some (entry, n, rest)) \<Rightarrow>
       (case past_limit api limit entry of
          Inl e \<Rightarrow> ([], Some e)
        | Inr True \<Rightarrow> ([], None)
        | Inr False \<Rightarrow> (case read_entries api limit rest of (es, err) \<Rightarrow> ((entry, n) # es, err))))"
  by pat_completeness auto
termination
  by (relation "measure (\<lambda>(api, limit, bs). length bs)") (auto dest: read_bson_doc_rest)

declare read_entries.simps [simp del]

fun run_entries ::
  "'d bson_api \<Rightarrow> ('d list list \<Rightarrow> 'd list \<Rightarrow> bool) \<Rightarrow> ('d \<times> nat) list \<Rightarrow>
   'd apply_state \<Rightarrow> (apply_error + unit) \<times> 'd apply_state" where
  "run_entries api accepts [] st = (Inr (), st)"
| "run_entries api accepts ((e, n) # es) st =
     and_then (handle_action api accepts (classify_entry api e) n) (run_entries api accepts es) st"

lemma and_then_assoc:
  "and_then (and_then f g) h s = and_then f (and_then g h) s"
  by (auto simp: and_then_def split: prod.splits sum.splits)

lemma and_then_Inr_iff:
  "and_then f g s = (Inr u, s') \<longleftrightarrow> (\<exists>s1 w. f s = (Inr w, s1) \<and> g s1 = (Inr u, s'))"
  by (auto simp: and_then_def split: prod.splits sum.splits)

lemma and_then_cong: "(\<And>x. g x = h x) \<Longrightarrow> and_then f g s = and_then f h s"
  by (auto simp: and_then_def split: prod.splits sum.splits)

definition stop_stream where
  "stop_stream accepts err st = (case err of None \<Rightarrow> finish_stream accepts st | Some e \<Rightarrow> (Inl e, st))"

lemma apply_loop_next:
  "read_bson_doc api bs = Inr (Some (e, n, rest)) \<Longrightarrow> past_limit api limit e = Inr False \<Longrightarrow>
   apply_loop api accepts limit bs st =
     and_then (handle_action api accepts (classify_entry api e) n)
       (apply_loop api accepts limit rest) st"
  by (simp add: apply_loop.simps [of _ _ _ bs])

lemma read_entries_next:
  "read_bson_doc api bs = Inr (Some (e, n, rest)) \<Longrightarrow> past_limit api limit e = Inr False \<Longrightarrow>
   read_entries api limit bs =
     ((e, n) # fst (read_entries api limit rest), snd (read_entries api limit rest))"
  by (simp add: read_entries.simps [of _ _ bs] split: prod.split)

lemma read_entries_stop:
  assumes "\<nexists>e n rest. read_bson_doc api bs = Inr (Some (e, n, rest)) \<and> past_limit api limit e = Inr False"
  shows "fst (read_entries api limit bs) = []"
    and "apply_loop api accepts limit bs st = stop_stream accepts (snd (read_entries api limit bs)) st"
  using assms
  by (auto simp: apply_loop.simps [of _ _ _ bs] read_entries.simps [of _ _ bs] stop_stream_def
      split: sum.split option.split bool.split)

lemma apply_loop_entries:
  "apply_loop api accepts limit bs st =
     and_then (run_entries api accepts (fst (read_entries api limit bs)))
       (stop_stream accepts (snd (read_entries api limit bs))) st"
proof (induction bs arbitrary: st rule: length_induct)
  case (1 bs)
  show ?case
  proof (cases "\<exists>e n rest. read_bson_doc api bs = Inr (Some (e, n, rest)) \<and>
      past_limit api limit e = Inr False")
    case True
    then obtain e n rest where e: "read_bson_doc api bs = Inr (Some (e, n, rest))"
      "past_limit api limit e = Inr False"
      by blast
    have "apply_loop api accepts limit rest =
      and_then (run_entries api accepts (fst (read_entries api limit rest)))
        (stop_stream accepts (snd (read_entries api limit rest)))"
      using 1 read_bson_doc_rest [OF e(1)] by (intro ext) blast
    with e show ?thesis
      by (simp add: apply_loop_next read_entries_next) (simp add: and_then_def split: prod.split sum.split)
  next
    case False
    from read_entries_stop [OF False] show ?thesis
      by (simp add: and_then_def)
  qed
qed

section \<open>What is applied\<close>

text \<open>
  The operations a list of actions applies, one after another and without batches: a plain
  entry where it stands, a transaction where it commits.
\<close>

fun spec_ops :: "(string \<Rightarrow> 'd list option) \<Rightarrow> 'd EntryAction list \<Rightarrow> 'd list" where
  "spec_ops t [] = []"
| "spec_ops t (Skip # as) = spec_ops t as"
| "spec_ops t (Apply op # as) = op # spec_ops t as"
| "spec_ops t (TxnBuffer k ops # as) = spec_ops (t(k \<mapsto> unwrap_or (t k) [] @ ops)) as"
| "spec_ops t (TxnBufferThenCommit k ops # as) =
     unwrap_or (t k) [] @ ops @ spec_ops (t(k := None)) as"
| "spec_ops t (TxnCommit k # as) = unwrap_or (t k) [] @ spec_ops (t(k := None)) as"
| "spec_ops t (TxnAbort k # as) = spec_ops (t(k := None)) as"

text \<open>The state between two entries.\<close>

definition apply_inv :: "'d apply_state \<Rightarrow> bool" where
  "apply_inv st \<longleftrightarrow>
     bt_ok (txns st) \<and> applied st = length (concat (sent st)) \<and>
     length (batch st) \<le> MAX_BATCH_OPS \<and>
     (\<forall>c \<in> set (sent st). c \<noteq> [] \<and> length c \<le> MAX_BATCH_OPS)"

text \<open>What has been applied or waits in the batch.\<close>

definition pending :: "'d apply_state \<Rightarrow> 'd list" where
  "pending st = concat (sent st) @ batch st"

definition grows :: "'d apply_state \<Rightarrow> 'd apply_state \<Rightarrow> 'd list \<Rightarrow> bool" where
  "grows st st' xs \<longleftrightarrow> (\<exists>ys. concat (sent st) @ xs = concat (sent st') @ ys)"

lemma chunks_Nil [simp]: "chunks n [] = []"
  by (simp add: chunks.simps)

lemma chunks_step:
  "xs \<noteq> [] \<Longrightarrow> 0 < n \<Longrightarrow> chunks n xs = take n xs # chunks n (drop n xs)"
  by (simp add: chunks.simps [of n xs])

lemma chunks_props:
  "0 < n \<Longrightarrow> concat (chunks n xs) = xs \<and> (\<forall>c \<in> set (chunks n xs). c \<noteq> [] \<and> length c \<le> n)"
proof (induction xs rule: length_induct)
  case (1 xs)
  show ?case
  proof (cases "xs = []")
    case False
    have "length (drop n xs) < length xs"
      using False 1 by (simp add: length_greater_0_conv)
    with 1 have "concat (chunks n (drop n xs)) = drop n xs"
      "\<forall>c \<in> set (chunks n (drop n xs)). c \<noteq> [] \<and> length c \<le> n"
      by blast+
    then show ?thesis
      using 1(2) False by (simp add: chunks_step [of xs n])
  qed simp
qed

lemmas concat_chunks = chunks_props [THEN conjunct1]
lemmas chunks_bound = chunks_props [THEN conjunct2, rule_format]

lemma MAX_BATCH_OPS_pos [simp]: "0 < MAX_BATCH_OPS" "Suc 0 \<le> MAX_BATCH_OPS"
  by (simp_all add: MAX_BATCH_OPS_def)

lemma apply_ops_Inr:
  assumes "apply_ops accepts ops st = (Inr u, st')"
  shows "concat (sent st') = concat (sent st) @ ops \<and> batch st' = batch st \<and> txns st' = txns st \<and>
    (apply_inv st \<longrightarrow> length ops \<le> MAX_BATCH_OPS \<longrightarrow> apply_inv st')"
  using assms by (auto simp: apply_ops_def apply_inv_def split: if_splits)

lemma apply_ops_Inl:
  "apply_ops accepts ops st = (Inl e, st') \<Longrightarrow> st' = st"
  by (auto simp: apply_ops_def split: if_splits)

lemma flush_Inr:
  assumes "flush accepts st = (Inr u, st')"
  shows "concat (sent st') = pending st \<and> batch st' = [] \<and> txns st' = txns st \<and>
    (apply_inv st \<longrightarrow> apply_inv st')"
proof -
  have "apply_inv st \<Longrightarrow> apply_inv (st\<lparr>batch := [], batch_bytes := 0\<rparr>) \<and> length (batch st) \<le> MAX_BATCH_OPS"
    by (simp add: apply_inv_def)
  with apply_ops_Inr [OF assms [unfolded flush_def]] show ?thesis
    by (simp add: pending_def)
qed

lemma flush_Inl: "flush accepts st = (Inl e, st') \<Longrightarrow> sent st' = sent st"
  unfolding flush_def by (drule apply_ops_Inl) simp

lemma apply_chunks_Inr:
  assumes "apply_chunks accepts cs st = (Inr u, st')" "\<forall>c \<in> set cs. length c \<le> MAX_BATCH_OPS"
  shows "concat (sent st') = concat (sent st) @ concat cs \<and> batch st' = batch st \<and>
    txns st' = txns st \<and> (apply_inv st \<longrightarrow> apply_inv st')"
  using assms
proof (induction cs arbitrary: st)
  case (Cons c cs)
  then obtain s1 where "apply_ops accepts c st = (Inr (), s1)" "apply_chunks accepts cs s1 = (Inr u, st')"
    by (auto simp: and_then_Inr_iff)
  with Cons show ?case
    using apply_ops_Inr [of accepts c st "()" s1] by auto
qed simp

lemma txn_commit_Inr:
  assumes "txn_commit accepts key st = (Inr u, st')"
  shows "concat (sent st') = pending st @ unwrap_or (map_of (txns st) key) [] \<and> batch st' = [] \<and>
    txns st' = bt_remove key (txns st) \<and> (apply_inv st \<longrightarrow> apply_inv st')"
proof -
  let ?st = "st\<lparr>txns := bt_remove key (txns st)\<rparr>"
  from assms obtain s1 where s1: "flush accepts ?st = (Inr (), s1)"
    "apply_chunks accepts (chunks MAX_BATCH_OPS (unwrap_or (map_of (txns st) key) [])) s1 = (Inr u, st')"
    by (auto simp: txn_commit_def and_then_Inr_iff)
  have "apply_inv st \<Longrightarrow> apply_inv ?st"
    by (simp add: apply_inv_def)
  with flush_Inr [OF s1(1)] apply_chunks_Inr [OF s1(2)] show ?thesis
    using chunks_bound [OF MAX_BATCH_OPS_pos(1)] by (auto simp: concat_chunks pending_def)
qed

lemma apply_inv_extend [simp]: "apply_inv st \<Longrightarrow> apply_inv (txn_extend k ops st)"
  by (simp add: apply_inv_def txn_extend_def)

lemma txn_extend_simps [simp]:
  "pending (txn_extend k ops st) = pending st"
  "sent (txn_extend k ops st) = sent st" "batch (txn_extend k ops st) = batch st"
  "apply_inv st \<Longrightarrow> map_of (txns (txn_extend k ops st)) =
     (map_of (txns st))(k \<mapsto> unwrap_or (map_of (txns st) k) [] @ ops)"
  by (simp_all add: txn_extend_def pending_def apply_inv_def)

lemma handle_Apply_Inr:
  assumes "handle_action api accepts (Apply op) n st = (Inr u, st')" and "apply_inv st"
  shows "apply_inv st' \<and> pending st' = pending st @ [op] \<and> txns st' = txns st"
proof (cases "doc_get_str api op ''op'' = Some ''c''")
  case True
  with assms(1) obtain s1 where "flush accepts st = (Inr (), s1)"
    "apply_ops accepts [op] s1 = (Inr u, st')"
    by (auto simp: handle_action_def and_then_Inr_iff)
  with flush_Inr [of accepts st "()" s1] apply_ops_Inr [of accepts "[op]" s1 u st'] assms(2)
  show ?thesis
    by (simp add: pending_def)
next
  case False
  define full where
    "full \<longleftrightarrow> MAX_BATCH_OPS \<le> length (batch st) \<or> MAX_BATCH_BYTES < batch_bytes st + n"
  from False assms(1) obtain s1 where s1:
    "(if full then flush accepts st else (Inr (), st)) = (Inr (), s1)"
    "st' = s1\<lparr>batch := batch s1 @ [op], batch_bytes := batch_bytes s1 + n\<rparr>"
    by (auto simp: handle_action_def and_then_Inr_iff full_def split: if_splits)
  have "apply_inv s1 \<and> pending s1 = pending st \<and> txns s1 = txns st \<and>
      length (batch s1) < MAX_BATCH_OPS"
  proof (cases full)
    case True
    with s1(1) flush_Inr [of accepts st "()" s1] assms(2) show ?thesis
      by (simp add: pending_def)
  next
    case False
    with s1(1) assms(2) show ?thesis
      by (simp add: full_def)
  qed
  with s1(2) show ?thesis
    by (auto simp: pending_def apply_inv_def)
qed

lemma handle_action_Inr:
  assumes "handle_action api accepts act n st = (Inr u, st')" and "apply_inv st"
  shows "apply_inv st' \<and>
    pending st' @ spec_ops (map_of (txns st')) as = pending st @ spec_ops (map_of (txns st)) (act # as)"
proof (cases act)
  case (Apply op)
  with handle_Apply_Inr [of api accepts op n st u st'] assms show ?thesis
    by simp
next
  case (TxnBufferThenCommit k ops)
  with assms txn_commit_Inr [of accepts k "txn_extend k ops st" u st'] show ?thesis
    by (simp add: handle_action_def pending_def unwrap_or_def)
next
  case (TxnCommit k)
  with assms txn_commit_Inr [of accepts k st u st'] show ?thesis
    by (simp add: handle_action_def pending_def)
next
  case (TxnAbort k)
  show ?thesis
  proof (cases "map_of (txns st) k")
    case None
    then have "(map_of (txns st))(k := None) = map_of (txns st)"
      by auto
    with None TxnAbort assms show ?thesis
      by (simp add: handle_action_def)
  next
    case (Some d)
    with TxnAbort assms show ?thesis
      by (auto simp: handle_action_def pending_def apply_inv_def)
  qed
next
  case (TxnBuffer k ops)
  with assms show ?thesis
    by (auto simp: handle_action_def)
next
  case Skip
  with assms show ?thesis
    by (auto simp: handle_action_def pending_def apply_inv_def)
qed

lemma run_entries_Inr:
  assumes "run_entries api accepts es st = (Inr u, st')" and "apply_inv st"
  shows "apply_inv st' \<and> pending st' =
    pending st @ spec_ops (map_of (txns st)) (map (\<lambda>(e, n). classify_entry api e) es)"
  using assms
proof (induction es arbitrary: st)
  case (Cons p es)
  obtain e n where p: "p = (e, n)"
    by (cases p)
  from Cons.prems(1) p obtain s1 where s1:
    "handle_action api accepts (classify_entry api e) n st = (Inr (), s1)"
    "run_entries api accepts es s1 = (Inr u, st')"
    by (auto simp: and_then_Inr_iff)
  from handle_action_Inr [OF s1(1) Cons.prems(2)] have "apply_inv s1" by simp
  with Cons.IH [OF s1(2)] handle_action_Inr [OF s1(1) Cons.prems(2)] p show ?case
    by simp
qed simp

section \<open>What has been applied when the replay fails\<close>

definition sent_within :: "'d apply_state \<Rightarrow> 'd list \<Rightarrow> bool" where
  "sent_within st xs \<longleftrightarrow> (\<exists>ys. xs = concat (sent st) @ ys)"

lemma and_then_Inl_iff:
  "and_then f g s = (Inl e, s') \<longleftrightarrow>
     f s = (Inl e, s') \<or> (\<exists>s1 w. f s = (Inr w, s1) \<and> g s1 = (Inl e, s'))"
  by (auto simp: and_then_def split: prod.splits sum.splits)

lemma flush_Inl_within: "flush accepts st = (Inl e, st') \<Longrightarrow> sent_within st' (pending st @ zs)"
  using flush_Inl [of accepts st e st'] by (simp add: sent_within_def pending_def)

lemma apply_chunks_Inl_within:
  "apply_chunks accepts cs st = (Inl e, st') \<Longrightarrow> sent_within st' (concat (sent st) @ concat cs @ zs)"
proof (induction cs arbitrary: st)
  case (Cons c cs)
  from Cons.prems show ?case
  proof (auto simp: and_then_Inl_iff)
    assume "apply_ops accepts c st = (Inl e, st')"
    then show "sent_within st' (concat (sent st) @ c @ concat cs @ zs)"
      using apply_ops_Inl [of accepts c st e st'] by (simp add: sent_within_def)
  next
    fix s1
    assume a: "apply_ops accepts c st = (Inr (), s1)" "apply_chunks accepts cs s1 = (Inl e, st')"
    from Cons.IH [OF a(2)] apply_ops_Inr [OF a(1)]
    show "sent_within st' (concat (sent st) @ c @ concat cs @ zs)"
      by simp
  qed
qed simp

lemma txn_commit_Inl_within:
  assumes "txn_commit accepts key st = (Inl e, st')"
  shows "sent_within st' (pending st @ unwrap_or (map_of (txns st) key) [] @ zs)"
proof -
  let ?st = "st\<lparr>txns := bt_remove key (txns st)\<rparr>"
  have pend: "pending ?st = pending st"
    by (simp add: pending_def)
  from assms consider "flush accepts ?st = (Inl e, st')"
    | s1 where "flush accepts ?st = (Inr (), s1)"
      "apply_chunks accepts (chunks MAX_BATCH_OPS (unwrap_or (map_of (txns st) key) [])) s1 = (Inl e, st')"
    by (auto simp: txn_commit_def and_then_Inl_iff)
  then show ?thesis
  proof cases
    case 1
    then show ?thesis
      using flush_Inl_within [of accepts ?st e st'] pend by simp
  next
    case 2
    then show ?thesis
      using apply_chunks_Inl_within [OF 2(2), of zs] flush_Inr [OF 2(1)] pend
      by (simp add: concat_chunks)
  qed
qed

lemma handle_action_Inl_within:
  assumes "handle_action api accepts act n st = (Inl e, st')" and "apply_inv st"
  shows "sent_within st' (pending st @ spec_ops (map_of (txns st)) (act # as))"
proof (cases act)
  case (Apply op)
  from assms(1) Apply consider "flush accepts st = (Inl e, st')"
    | s1 where "flush accepts st = (Inr (), s1)" "apply_ops accepts [op] s1 = (Inl e, st')"
    by (auto simp: handle_action_def and_then_Inl_iff split: if_splits)
  then show ?thesis
  proof cases
    case 1
    then show ?thesis
      by (rule flush_Inl_within)
  next
    case 2
    then show ?thesis
      using apply_ops_Inl [OF 2(2)] flush_Inr [OF 2(1)] by (simp add: sent_within_def)
  qed
next
  case (TxnBufferThenCommit k ops)
  with assms txn_commit_Inl_within [of accepts k "txn_extend k ops st" e st'] show ?thesis
    by (simp add: handle_action_def unwrap_or_def)
next
  case (TxnCommit k)
  with assms txn_commit_Inl_within [of accepts k st e st'] show ?thesis
    by (simp add: handle_action_def)
qed (use assms in \<open>auto simp: handle_action_def split: option.splits\<close>)

lemma run_entries_Inl_within:
  assumes "run_entries api accepts es st = (Inl e, st')" and "apply_inv st"
  shows "sent_within st'
    (pending st @ spec_ops (map_of (txns st)) (map (\<lambda>(e, n). classify_entry api e) es))"
  using assms
proof (induction es arbitrary: st)
  case (Cons p es)
  obtain d n where p: "p = (d, n)"
    by (cases p)
  from Cons.prems(1) p consider "handle_action api accepts (classify_entry api d) n st = (Inl e, st')"
    | s1 where "handle_action api accepts (classify_entry api d) n st = (Inr (), s1)"
      "run_entries api accepts es s1 = (Inl e, st')"
    by (auto simp: and_then_Inl_iff)
  then show ?case
  proof cases
    case 1
    from handle_action_Inl_within [OF 1 Cons.prems(2)] p show ?thesis by simp
  next
    case 2
    from handle_action_Inr [OF 2(1) Cons.prems(2)] Cons.IH [OF 2(2)] p show ?thesis
      by simp
  qed
qed simp

section \<open>The limit\<close>

text \<open>The interface a replay of slices relies on: a limit keeps the entries before it.\<close>

locale replayer =
  fixes ts_of :: "'e \<Rightarrow> OplogTimestamp"
    and replay :: "OplogTimestamp option \<Rightarrow> 'e list \<Rightarrow> 'e list"
  assumes replay_all: "replay None es = es"
    and replay_limit: "replay (Some lim) es = takeWhile (\<lambda>e. ts_of e < lim) es"
begin

lemma replay_sorted:
  assumes "sorted_wrt (\<lambda>a b. ts_of a < ts_of b) es"
  shows "replay (Some lim) es = filter (\<lambda>e. ts_of e < lim) es"
  unfolding replay_limit using assms
proof (induction es)
  case (Cons e es)
  show ?case
  proof (cases "ts_of e < lim")
    case False
    with Cons.prems have "\<forall>x \<in> set es. \<not> ts_of x < lim"
      by (meson less_trans not_less order_le_less_trans sorted_wrt.simps(2))
    with False show ?thesis by simp
  qed (use Cons in simp)
qed simp

lemma replay_None_or_limit: "set (replay lim es) \<subseteq> set es"
  by (cases lim) (auto simp: replay_all replay_limit dest: set_takeWhileD)

end

text \<open>
  The timestamp of an entry, with the largest one for an entry that has none (on which the replay
  stops with an error), and the entries the loop takes of a stream.
\<close>

definition doc_ts :: "'d bson_api \<Rightarrow> 'd \<Rightarrow> OplogTimestamp" where
  "doc_ts api d = (case entry_ts api d of Inr ts \<Rightarrow> ts | Inl _ \<Rightarrow> OplogTs (- 1) (- 1))"

lemma ts_top: "\<not> OplogTs (- 1) (- 1) < lim"
proof -
  have "ts_t lim \<le> - 1" "ts_i lim \<le> - 1"
    by (rule word_n1_ge)+
  then show ?thesis
    by (auto simp: ts_less_iff)
qed

fun cut_entries :: "'d bson_api \<Rightarrow> OplogTimestamp option \<Rightarrow> ('d \<times> nat) list \<Rightarrow> ('d \<times> nat) list" where
  "cut_entries api limit [] = []"
| "cut_entries api limit ((d, n) # es) =
     (if past_limit api limit d = Inr False then (d, n) # cut_entries api limit es else [])"

definition well_formed_stream :: "'d bson_api \<Rightarrow> bytes \<Rightarrow> bool" where
  "well_formed_stream api bs \<longleftrightarrow> snd (read_entries api None bs) = None \<and>
     (\<forall>(d, n) \<in> set (fst (read_entries api None bs)). \<exists>ts. entry_ts api d = Inr ts)"

lemma past_limit_None [simp]: "past_limit api None d = Inr False"
  by (simp add: past_limit_def)

lemma read_entries_cut:
  "fst (read_entries api limit bs) = cut_entries api limit (fst (read_entries api None bs))"
proof (induction bs rule: length_induct)
  case (1 bs)
  show ?case
  proof (cases "\<exists>e n rest. read_bson_doc api bs = Inr (Some (e, n, rest))")
    case True
    then obtain e n rest where e: "read_bson_doc api bs = Inr (Some (e, n, rest))"
      by blast
    then have IH: "fst (read_entries api limit rest) = cut_entries api limit (fst (read_entries api None rest))"
      using 1 read_bson_doc_rest [OF e] by blast
    show ?thesis
    proof (cases "past_limit api limit e = Inr False")
      case True
      with e IH show ?thesis by (simp add: read_entries_next)
    next
      case False
      with e have "fst (read_entries api limit bs) = []"
        by (intro read_entries_stop) simp
      with e False show ?thesis by (simp add: read_entries_next)
    qed
  next
    case False
    then show ?thesis
      using read_entries_stop(1) [of api bs limit] read_entries_stop(1) [of api bs None] by auto
  qed
qed

lemma past_limit_iff: "past_limit api (Some lim) d = Inr False \<longleftrightarrow> doc_ts api d < lim"
  by (cases "entry_ts api d") (auto simp: past_limit_def doc_ts_def ts_top)

lemma cut_entries_takeWhile:
  "cut_entries api (Some lim) es = takeWhile (\<lambda>p. doc_ts api (fst p) < lim) es"
  by (induction es) (auto simp: past_limit_iff)

lemma cut_entries_None [simp]: "cut_entries api None es = es"
  by (induction es) auto

lemma read_entries_stop_err:
  assumes "well_formed_stream api bs"
  shows "snd (read_entries api limit bs) = None"
  using assms
proof (induction bs rule: length_induct)
  case (1 bs)
  show ?case
  proof (cases "\<exists>e n rest. read_bson_doc api bs = Inr (Some (e, n, rest))")
    case True
    then obtain e n rest where e: "read_bson_doc api bs = Inr (Some (e, n, rest))"
      by blast
    with 1(2) obtain ts where ts: "entry_ts api e = Inr ts" and wf: "well_formed_stream api rest"
      by (auto simp: well_formed_stream_def read_entries_next)
    have IH: "snd (read_entries api limit rest) = None"
      using 1(1) wf read_bson_doc_rest [OF e] by blast
    have pl: "past_limit api limit e = Inr True \<or> past_limit api limit e = Inr False"
      using ts by (auto simp: past_limit_def split: option.split)
    with e IH show ?thesis
      by (auto simp: read_entries.simps [of _ _ bs] split: prod.split)
  next
    case False
    with 1(2) show ?thesis
      by (auto simp: well_formed_stream_def read_entries.simps [of _ _ bs]
          split: sum.splits option.splits)
  qed
qed

interpretation applier: replayer "\<lambda>p. doc_ts api (fst p)" "cut_entries api" for api
  by unfold_locales (simp_all add: cut_entries_takeWhile)

section \<open>A small document model for the examples\<close>

text \<open>
  Documents as association lists, with a reader for two-byte bodies: enough to run the loop. The
  fifth byte of an entry is its timestamp's second, an entry with a zero there is a noop.
\<close>

datatype ex_doc = ExDoc "(string \<times> ex_doc bson) list" "(string \<times> string) list"

definition ex_api :: "ex_doc bson_api" where
  "ex_api = \<lparr>
     doc_get = (\<lambda>d k. case d of ExDoc ps _ \<Rightarrow> map_of ps k),
     doc_get_str = (\<lambda>d k. case d of ExDoc _ ss \<Rightarrow> map_of ss k),
     doc_get_i64 = (\<lambda>d k. None),
     doc_get_bool = (\<lambda>d k. None),
     doc_remove = (\<lambda>k d. case d of ExDoc ps ss \<Rightarrow>
       ExDoc (filter (\<lambda>p. fst p \<noteq> k) ps) (filter (\<lambda>p. fst p \<noteq> k) ss)),
     doc_set = (\<lambda>k v d. case d of ExDoc ps ss \<Rightarrow> ExDoc (map (\<lambda>p. if fst p = k then (k, v) else p) ps) ss),
     doc_debug = (\<lambda>d. []),
     doc_empty = ExDoc [] [],
     doc_from_reader = (\<lambda>bs. Some (ExDoc
       [(''ts'', BTimestamp \<lparr>bs_time = ucast (bs ! 4), bs_increment = 1\<rparr>)]
       [(''op'', if bs ! 4 = 0 then ''n'' else ''i''), (''ns'', ''app.users'')]))\<rparr>"

definition ex_entry :: "u8 \<Rightarrow> bytes" where
  "ex_entry s = [5, 0, 0, 0, s]"

definition ex_stream :: bytes where
  "ex_stream = ex_entry 1 @ ex_entry 0 @ ex_entry 3"

lemmas ex_eval = ex_api_def ex_entry_def ex_stream_def le_u32_def MAX_ENTRY_BYTES_def Let_def
  read_bson_doc_def read_entries.simps apply_loop.simps past_limit_def entry_ts_def from_bson_def
  ts_le_iff ts_less_iff doc_ts_def

lemmas ex_run = apply_stream_def empty_state_def classify_entry_def and_then_def handle_action_def
  doc_get_document_def doc_get_array_def doc_contains_key_def unwrap_or_def should_skip_ns_def
  MAX_BATCH_OPS_def MAX_BATCH_BYTES_def sanitize_entry_def STRIP_def finish_stream_def flush_def
  apply_ops_def txn_key_def

section \<open>Properties\<close>

lemma apply_inv_empty [simp]: "apply_inv empty_state"
  by (simp add: apply_inv_def empty_state_def)

lemma empty_state_simps [simp]:
  "pending empty_state = []" "txns empty_state = []" "sent empty_state = []"
  by (simp_all add: empty_state_def pending_def)

lemma apply_stream_Inr:
  assumes "apply_stream api accepts limit bs = (Inr stats, cmds)"
  obtains st s2 where
    "run_entries api accepts (fst (read_entries api limit bs)) empty_state = (Inr (), st)"
    and "finish_stream accepts st = (Inr (), s2)" and "sent s2 = cmds"
    and "stat_applied stats = applied s2"
proof -
  from assms obtain s2 where s2: "apply_loop api accepts limit bs empty_state = (Inr (), s2)"
    "cmds = sent s2" "stat_applied stats = applied s2"
    by (auto simp: apply_stream_def split: prod.splits sum.splits)
  from s2(1) obtain s1 where s1:
    "run_entries api accepts (fst (read_entries api limit bs)) empty_state = (Inr (), s1)"
    "stop_stream accepts (snd (read_entries api limit bs)) s1 = (Inr (), s2)"
    by (auto simp: apply_loop_entries and_then_Inr_iff)
  then have "finish_stream accepts s1 = (Inr (), s2)"
    by (simp add: stop_stream_def split: option.splits)
  with s1(1) s2(2,3) that show ?thesis by simp
qed

lemma finish_stream_Inr:
  assumes "finish_stream accepts st = (Inr u, st')" and "apply_inv st"
  shows "apply_inv st' \<and> concat (sent st') = pending st"
proof -
  from assms(1) obtain s1 where s1: "flush accepts st = (Inr (), s1)"
    "st' = s1\<lparr>skipped := skipped s1 + sum_list (map (\<lambda>(_, d). length d) (txns s1)), txns := []\<rparr>"
    by (auto simp: finish_stream_def and_then_Inr_iff)
  have "apply_inv s1 \<Longrightarrow> apply_inv st'"
    by (simp add: s1(2) apply_inv_def)
  with flush_Inr [OF s1(1)] assms(2) s1(2) show ?thesis
    by simp
qed

text \<open>C10: a replay that succeeds sends exactly the operations of the entries before the limit, in
  order: a plain entry where it stands, a transaction where it commits, nothing of an aborted or
  open one. The batches carry between one and a thousand operations each, and the count the
  caller reports is the number of operations sent.\<close>

theorem apply_stream_functional:
  assumes "apply_stream api accepts limit bs = (Inr stats, cmds)"
  shows "concat cmds =
      spec_ops Map.empty (map (\<lambda>(e, n). classify_entry api e) (fst (read_entries api limit bs))) \<and>
    stat_applied stats = length (concat cmds) \<and>
    (\<forall>c \<in> set cmds. 1 \<le> length c \<and> length c \<le> 1000)"
proof -
  obtain st s2 where
    st: "run_entries api accepts (fst (read_entries api limit bs)) empty_state = (Inr (), st)"
    and fin: "finish_stream accepts st = (Inr (), s2)" "sent s2 = cmds"
      "stat_applied stats = applied s2"
    using apply_stream_Inr [OF assms] .
  from run_entries_Inr [OF st] have p: "apply_inv st" "pending st =
    spec_ops Map.empty (map (\<lambda>(e, n). classify_entry api e) (fst (read_entries api limit bs)))"
    by simp_all
  from finish_stream_Inr [OF fin(1) p(1)] fin(2,3) have q: "concat cmds = pending st"
    "stat_applied stats = length (concat cmds)"
    "\<forall>c \<in> set cmds. c \<noteq> [] \<and> length c \<le> MAX_BATCH_OPS"
    by (auto simp: apply_inv_def)
  from q(3) have "\<forall>c \<in> set cmds. 1 \<le> length c \<and> length c \<le> 1000"
    by (auto simp: MAX_BATCH_OPS_def Suc_le_eq)
  with p(2) q(1,2) show ?thesis
    by simp
qed

theorem apply_stream_functional_witness:
  "concat (snd (apply_stream ex_api (\<lambda>_ _. True) (Some (OplogTs 3 0)) ex_stream)) =
     spec_ops Map.empty (map (\<lambda>(e, n). classify_entry ex_api e)
       (fst (read_entries ex_api (Some (OplogTs 3 0)) ex_stream)))"
proof -
  have "apply_stream ex_api (\<lambda>_ _. True) (Some (OplogTs 3 0)) ex_stream =
    (Inr \<lparr>stat_applied = 1, stat_skipped = 1\<rparr>,
     snd (apply_stream ex_api (\<lambda>_ _. True) (Some (OplogTs 3 0)) ex_stream))"
    by (simp add: ex_eval ex_run)
  from apply_stream_functional [OF this] show ?thesis by blast
qed

text \<open>C29: when a replay fails, whatever the reason (a damaged stream, an entry without timestamp,
  a refused command), what has reached the server is an initial part of the operations a complete
  replay of the entries read would have applied: nothing is reordered or applied early.\<close>

theorem apply_stream_failure_prefix:
  assumes "apply_stream api accepts limit bs = (Inl e, cmds)"
  shows "\<exists>rest. spec_ops Map.empty
      (map (\<lambda>(e, n). classify_entry api e) (fst (read_entries api limit bs))) = concat cmds @ rest"
proof -
  let ?ops = "spec_ops Map.empty
      (map (\<lambda>(e, n). classify_entry api e) (fst (read_entries api limit bs)))"
  from assms obtain s2 where s2: "apply_loop api accepts limit bs empty_state = (Inl e, s2)"
    "cmds = sent s2"
    by (auto simp: apply_stream_def split: prod.splits sum.splits)
  from s2(1) consider
      "run_entries api accepts (fst (read_entries api limit bs)) empty_state = (Inl e, s2)"
    | s1 where "run_entries api accepts (fst (read_entries api limit bs)) empty_state = (Inr (), s1)"
      "stop_stream accepts (snd (read_entries api limit bs)) s1 = (Inl e, s2)"
    by (auto simp: apply_loop_entries and_then_Inl_iff)
  then have "sent_within s2 ?ops"
  proof cases
    case 1
    from run_entries_Inl_within [OF 1] show ?thesis by simp
  next
    case 2
    from run_entries_Inr [OF 2(1)] have p: "pending s1 = ?ops" by simp
    from 2(2) have "sent s2 = sent s1"
      by (auto simp: stop_stream_def finish_stream_def and_then_Inl_iff flush_Inl split: option.splits)
    with p show ?thesis
      by (metis append.assoc sent_within_def pending_def)
  qed
  with s2(2) show ?thesis
    by (auto simp: sent_within_def)
qed

theorem apply_stream_failure_prefix_witness:
  "\<exists>rest. spec_ops Map.empty (map (\<lambda>(e, n). classify_entry ex_api e)
      (fst (read_entries ex_api None (ex_stream @ [9, 0, 0, 0, 1])))) =
    concat (snd (apply_stream ex_api (\<lambda>_ _. True) None (ex_stream @ [9, 0, 0, 0, 1]))) @ rest"
  by (rule apply_stream_failure_prefix [where e = BodyRead and accepts = "\<lambda>_ _. True"])
    (simp add: ex_eval ex_run)

lemma read_entries_limit:
  assumes "sorted_wrt (\<lambda>a b. doc_ts api (fst a) < doc_ts api (fst b)) (fst (read_entries api None bs))"
  shows "fst (read_entries api (Some lim) bs) =
    filter (\<lambda>p. doc_ts api (fst p) < lim) (fst (read_entries api None bs))"
  using applier.replay_sorted [OF assms] read_entries_cut [of api "Some lim" bs] by simp

lemma apply_stream_ops:
  "apply_stream api accepts limit bs = (Inr stats, cmds) \<Longrightarrow> concat cmds =
     spec_ops Map.empty (map (\<lambda>(e, n). classify_entry api e) (fst (read_entries api limit bs)))"
proof -
  assume a: "apply_stream api accepts limit bs = (Inr stats, cmds)"
  obtain st s2 where
    st: "run_entries api accepts (fst (read_entries api limit bs)) empty_state = (Inr (), st)"
    and fin: "finish_stream accepts st = (Inr (), s2)" "sent s2 = cmds"
      "stat_applied stats = applied s2"
    using apply_stream_Inr [OF a] .
  from run_entries_Inr [OF st] have "apply_inv st" by simp
  from finish_stream_Inr [OF fin(1) this] run_entries_Inr [OF st] fin(2) show ?thesis
    by simp
qed

text \<open>the limit is exclusive and exact: on a stream in timestamp order a successful replay with a
  limit sends the operations of the entries before the limit, no more and no fewer, as if the
  stream held nothing else.\<close>

theorem limit_is_exact:
  assumes "apply_stream api accepts (Some lim) bs = (Inr stats, cmds)"
    and "sorted_wrt (\<lambda>a b. doc_ts api (fst a) < doc_ts api (fst b)) (fst (read_entries api None bs))"
  shows "concat cmds = spec_ops Map.empty (map (\<lambda>(e, n). classify_entry api e)
    (filter (\<lambda>p. doc_ts api (fst p) < lim) (fst (read_entries api None bs))))"
  using apply_stream_ops [OF assms(1)] read_entries_limit [OF assms(2)] by simp

theorem limit_is_exact_witness:
  "concat (snd (apply_stream ex_api (\<lambda>_ _. True) (Some (OplogTs 3 0)) (ex_entry 1 @ ex_entry 3))) =
    spec_ops Map.empty (map (\<lambda>(e, n). classify_entry ex_api e)
      (filter (\<lambda>p. doc_ts ex_api (fst p) < OplogTs 3 0)
        (fst (read_entries ex_api None (ex_entry 1 @ ex_entry 3)))))"
proof -
  have "apply_stream ex_api (\<lambda>_ _. True) (Some (OplogTs 3 0)) (ex_entry 1 @ ex_entry 3) =
    (Inr \<lparr>stat_applied = 1, stat_skipped = 0\<rparr>,
     snd (apply_stream ex_api (\<lambda>_ _. True) (Some (OplogTs 3 0)) (ex_entry 1 @ ex_entry 3)))"
    by (simp add: ex_eval ex_run)
  from limit_is_exact [OF this] show ?thesis
    by (simp add: ex_eval)
qed

text \<open>The key of a transaction's action, and whether it commits.\<close>

fun txn_of :: "'d EntryAction \<Rightarrow> string option" where
  "txn_of Skip = None"
| "txn_of (Apply _) = None"
| "txn_of (TxnBuffer k _) = Some k"
| "txn_of (TxnBufferThenCommit k _) = Some k"
| "txn_of (TxnCommit k) = Some k"
| "txn_of (TxnAbort k) = Some k"

fun commits :: "'d EntryAction \<Rightarrow> bool" where
  "commits (TxnBufferThenCommit _ _) = True"
| "commits (TxnCommit _) = True"
| "commits _ = False"

lemma spec_ops_uncommitted:
  assumes "\<forall>a \<in> set as. txn_of a = Some k \<longrightarrow> \<not> commits a" and "\<forall>x. x \<noteq> k \<longrightarrow> t x = t' x"
  shows "spec_ops t as = spec_ops t' (filter (\<lambda>a. txn_of a \<noteq> Some k) as)"
  using assms
proof (induction t as arbitrary: t' rule: spec_ops.induct)
  case (4 t k' ops as)
  show ?case
  proof (cases "k' = k")
    case True
    with 4(2,3) show ?thesis
      by (auto intro!: 4(1) [unfolded True])
  next
    case False
    with 4(3) have eq: "t k' = t' k'" by simp
    from False 4(2,3) show ?thesis
      by (auto intro!: 4(1) [unfolded eq])
  qed
next
  case (5 t k' ops as)
  then have "k' \<noteq> k" by auto
  with 5(2,3) show ?case
    by (auto intro!: 5(1))
next
  case (6 t k' as)
  then have "k' \<noteq> k" by auto
  with 6(2,3) show ?case
    by (auto intro!: 6(1))
next
  case (7 t k' as)
  show ?case
  proof (cases "k' = k")
    case True
    with 7(2,3) show ?thesis
      by (auto intro!: 7(1) [unfolded True])
  next
    case False
    with 7(2,3) show ?thesis
      by (auto intro!: 7(1))
  qed
qed simp_all

text \<open>a transaction that never commits leaves no trace: if no entry read commits the
  transaction of a key, the server receives the operations it would receive if all entries of
  that transaction were missing, and no other.\<close>

theorem open_transaction_dropped:
  assumes "apply_stream api accepts limit bs = (Inr stats, cmds)"
    and "acts = map (\<lambda>(e, n). classify_entry api e) (fst (read_entries api limit bs))"
    and "\<forall>a \<in> set acts. txn_of a = Some k \<longrightarrow> \<not> commits a"
  shows "concat cmds = spec_ops Map.empty (filter (\<lambda>a. txn_of a \<noteq> Some k) acts)"
proof -
  obtain st s2 where
    st: "run_entries api accepts (fst (read_entries api limit bs)) empty_state = (Inr (), st)"
    and fin: "finish_stream accepts st = (Inr (), s2)" "sent s2 = cmds"
    using apply_stream_Inr [OF assms(1)] .
  from run_entries_Inr [OF st] finish_stream_Inr [OF fin(1)] fin(2) assms(2)
  have "concat cmds = spec_ops Map.empty acts"
    by simp
  also have "\<dots> = spec_ops Map.empty (filter (\<lambda>a. txn_of a \<noteq> Some k) acts)"
    by (rule spec_ops_uncommitted [OF assms(3)]) simp
  finally show ?thesis .
qed

theorem open_transaction_dropped_witness:
  "concat [[ExDoc [(''ts'', BTimestamp \<lparr>bs_time = 1, bs_increment = 1\<rparr>)]
      [(''op'', ''i''), (''ns'', ''app.users'')]]] =
   spec_ops Map.empty (filter (\<lambda>a. txn_of a \<noteq> Some ''t'')
     (map (\<lambda>(e, n). classify_entry ex_api e) (fst (read_entries ex_api None (ex_entry 1)))))"
proof (rule open_transaction_dropped [OF _ refl])
  show "apply_stream ex_api (\<lambda>_ _. True) None (ex_entry 1) =
    (Inr \<lparr>stat_applied = 1, stat_skipped = 0\<rparr>,
     [[ExDoc [(''ts'', BTimestamp \<lparr>bs_time = 1, bs_increment = 1\<rparr>)]
        [(''op'', ''i''), (''ns'', ''app.users'')]]])"
    by (simp add: ex_eval ex_run)
qed (simp add: ex_eval ex_run)

text \<open>a stream that is cut inside the length of its next entry is taken as a stream that ends
  there: up to three stray bytes after the last entry are dropped without an error.\<close>

theorem truncated_length_is_end:
  assumes "length bs < 4"
  shows "apply_loop api accepts limit bs st = finish_stream accepts st"
  using assms by (simp add: apply_loop.simps read_bson_doc_def)

theorem truncated_length_is_end_witness:
  "apply_loop ex_api (\<lambda>_ _. True) None [17, 0, 0] empty_state =
     finish_stream (\<lambda>_ _. True) empty_state"
  by (rule truncated_length_is_end) simp

end
