(* ===== verification/XB_Pitr.thy ===== *)
theory XB_Pitr
  imports XB_Chain XB_Oplog_Apply XB_Errors
begin

text \<open>
  Point-in-time recovery (\<open>pipeline/pitr.rs\<close>): choosing the base before the target second,
  checking its chain, mapping the target to the slices to replay and the limit of the last one,
  and the run that restores the base and replays the slices. The lemmas show that on a continuous
  chain the entries replayed are exactly those of the oplog up to the target second.
\<close>

section \<open>Selecting the base\<close>

text \<open>The comparison of the candidates: \<open>(end, id)\<close>, both in their natural order.\<close>

definition later_base :: "OplogTimestamp \<times> string \<Rightarrow> OplogTimestamp \<times> string \<Rightarrow> bool" where
  "later_base a b \<longleftrightarrow> fst b < fst a \<or> fst a = fst b \<and> snd b < snd a"

definition ts_secs :: "OplogTimestamp \<Rightarrow> int" where
  "ts_secs ts = uint (ts_t ts)"

text \<open>The guards of the loop of \<open>select_base_before\<close>: a candidate's end, if it is one.\<close>

definition base_candidate :: "int \<Rightarrow> ChainNode \<Rightarrow> OplogTimestamp option" where
  "base_candidate target_unix n =
     (if cn_backup_type n \<noteq> Full \<or> cn_selective n then None
      else case cn_oplog_range n of
        None \<Rightarrow> None
      | Some (_, e) \<Rightarrow> (if ts_secs e > target_unix then None else Some e))"

fun select_loop :: "int \<Rightarrow> ChainNode option \<Rightarrow> ChainNode list \<Rightarrow> ChainNode option" where
  "select_loop target_unix best [] = best"
| "select_loop target_unix best (n # ns) = (case base_candidate target_unix n of
     None \<Rightarrow> select_loop target_unix best ns
   | Some e \<Rightarrow>
       (let is_better = (case best of
              None \<Rightarrow> True
            | Some cur \<Rightarrow>
                (let cur_end = (case cn_oplog_range cur of Some (_, ce) \<Rightarrow> ce | None \<Rightarrow> e)
                 in later_base (e, cn_id n) (cur_end, cn_id cur)))
        in select_loop target_unix (if is_better then Some n else best) ns))"

datatype pitr_error =
    BadAt string
  | NoBaseBefore int
  | ChainRejected ChainReport
  | BaseNodeMissing string
  | ManifestUnreadable string
  | RestoreFailed XBackupError
  | ConnectFailed
  | SliceFailed string
  | OnlyWithPitr

definition select_base_before :: "ChainNode list \<Rightarrow> int \<Rightarrow> pitr_error + string" where
  "select_base_before nodes target_unix = (case select_loop target_unix None nodes of
     Some n \<Rightarrow> Inr (cn_id n) | None \<Rightarrow> Inl (NoBaseBefore target_unix))"

definition reject_pitr_with_only :: "string option \<Rightarrow> pitr_error + unit" where
  "reject_pitr_with_only only = (if only \<noteq> None then Inl OnlyWithPitr else Inr ())"

section \<open>Mapping the target\<close>

definition ordered_slices :: "ChainNode list \<Rightarrow> string list \<Rightarrow> ChainNode list" where
  "ordered_slices nodes ids = List.map_filter (find_node nodes) ids"

record EndMapping =
  decided_ts :: OplogTimestamp
  replay_ids :: "string list"
  limit_slice_id :: "string option"
  oplog_limit :: "OplogTimestamp option"

definition saturating_add :: "u32 \<Rightarrow> u32 \<Rightarrow> u32" where
  "saturating_add a b = (if uint a + uint b < 2 ^ 32 then a + b else - 1)"

definition oplog_limit_for_second :: "u32 \<Rightarrow> OplogTimestamp" where
  "oplog_limit_for_second target_secs = OplogTs (saturating_add target_secs 1) 0"

text \<open>The loop of \<open>map_target_to_end\<close>; \<open>as u32\<close> truncates.\<close>

fun map_loop :: "int \<Rightarrow> EndMapping \<Rightarrow> ChainNode list \<Rightarrow> EndMapping" where
  "map_loop target_unix m [] = m"
| "map_loop target_unix m (sl # rest) = (case cn_oplog_range sl of
     None \<Rightarrow> map_loop target_unix m rest
   | Some (s, e) \<Rightarrow>
       (if ts_secs e \<le> target_unix then
          map_loop target_unix
            (m\<lparr>replay_ids := replay_ids m @ (if cn_is_empty_slice sl then [] else [cn_id sl]),
               decided_ts := e\<rparr>) rest
        else if ts_secs s \<le> target_unix then
          (if cn_is_empty_slice sl then m\<lparr>decided_ts := OplogTs (word_of_int target_unix) 0\<rparr>
           else m\<lparr>replay_ids := replay_ids m @ [cn_id sl],
                  limit_slice_id := Some (cn_id sl),
                  oplog_limit := Some (oplog_limit_for_second (word_of_int target_unix)),
                  decided_ts := OplogTs (word_of_int target_unix) 0\<rparr>)
        else m))"

definition map_target_to_end :: "ChainNode \<Rightarrow> ChainNode list \<Rightarrow> int \<Rightarrow> EndMapping" where
  "map_target_to_end base slices target_unix =
     map_loop target_unix
       \<lparr>decided_ts = (case cn_oplog_range base of Some (_, e) \<Rightarrow> e | None \<Rightarrow> OplogTs 0 0),
        replay_ids = [], limit_slice_id = None, oplog_limit = None\<rparr> slices"

text \<open>The limit \<open>replay_slices\<close> gives to a slice: only the limit slice has one.\<close>

definition limit_for :: "EndMapping \<Rightarrow> string \<Rightarrow> OplogTimestamp option" where
  "limit_for m i = (if limit_slice_id m = Some i then oplog_limit m else None)"

section \<open>The run\<close>

text \<open>
  What the run meets: the manifests of the destination in listing order (\<open>None\<close> when one cannot
  be read), the parser of RFC 3339 and the printer of wall-clock times (\<open>chrono\<close>), and the
  results of the restore, the connection and the replay of each slice.
\<close>

record pitr_env =
  env_manifests :: "(string \<times> BackupManifest option) list"
  env_parse_at :: "string \<Rightarrow> int option"
  env_wall_clock :: "int \<Rightarrow> string"
  env_restore :: "string \<Rightarrow> XBackupError option"
  env_connect :: bool
  env_replay :: "string \<Rightarrow> OplogTimestamp option \<Rightarrow> bool"

record PitrPlan =
  pp_base_id :: string
  pp_incremental_ids :: "string list"
  pp_target_unix :: int
  pp_decided_ts :: OplogTimestamp
  pp_decided_wall_clock :: string
  pp_limit_slice_id :: "string option"
  pp_estimated_bytes :: u64

record PitrOutcome =
  po_plan :: PitrPlan
  po_replayed_slices :: nat

datatype pitr_effect = RestoreBase string | ReplaySlice string "OplogTimestamp option"

definition collect_chain_nodes :: "pitr_env \<Rightarrow> ChainNode list" where
  "collect_chain_nodes env = List.map_filter
     (\<lambda>(i, mo). case mo of
        Some m \<Rightarrow> (if kind_of m = Mongo then Some (from_manifest m) else None)
      | None \<Rightarrow> None) (env_manifests env)"

definition read_manifest :: "pitr_env \<Rightarrow> string \<Rightarrow> BackupManifest option" where
  "read_manifest env i = (case map_of (env_manifests env) i of Some mo \<Rightarrow> mo | None \<Rightarrow> None)"

definition estimate_bytes :: "pitr_env \<Rightarrow> string \<Rightarrow> string list \<Rightarrow> u64" where
  "estimate_bytes env base_id ids =
     (\<Sum>i \<leftarrow> base_id # ids. case read_manifest env i of Some m \<Rightarrow> m_stored_size_bytes m | None \<Rightarrow> 0)"

fun replay_loop ::
  "pitr_env \<Rightarrow> EndMapping \<Rightarrow> string list \<Rightarrow> nat \<Rightarrow> (pitr_error + nat) \<times> pitr_effect list" where
  "replay_loop env m [] k = (Inr k, [])"
| "replay_loop env m (i # ids) k = (case read_manifest env i of
     None \<Rightarrow> (Inl (ManifestUnreadable i), [])
   | Some mf \<Rightarrow>
       (if env_replay env (m_id mf) (limit_for m i) then
          (case replay_loop env m ids (k + 1) of
             (r, effs) \<Rightarrow> (r, ReplaySlice (m_id mf) (limit_for m i) # effs))
        else (Inl (SliceFailed (m_id mf)), [ReplaySlice (m_id mf) (limit_for m i)])))"

definition replay_slices ::
  "pitr_env \<Rightarrow> EndMapping \<Rightarrow> (pitr_error + nat) \<times> pitr_effect list" where
  "replay_slices env m =
     (if replay_ids m = [] then (Inr 0, [])
      else if \<not> env_connect env then (Inl ConnectFailed, [])
      else replay_loop env m (replay_ids m) 0)"

text \<open>Steps 1 to 4: the plan, or the reason there is none.\<close>

definition plan_pitr :: "pitr_env \<Rightarrow> string \<Rightarrow> pitr_error + (PitrPlan \<times> EndMapping)" where
  "plan_pitr env at = (case env_parse_at env at of
     None \<Rightarrow> Inl (BadAt at)
   | Some target_unix \<Rightarrow>
       (let nodes = collect_chain_nodes env in
        bind_res (select_base_before nodes target_unix) (\<lambda>base_id.
          let report = verify_chain nodes base_id in
          if \<not> report_is_continuous report then Inl (ChainRejected report)
          else (case find_node nodes (cr_base_id report) of
              None \<Rightarrow> Inl (BaseNodeMissing (cr_base_id report))
            | Some base_node \<Rightarrow>
                (let slices = ordered_slices nodes (cr_incremental_ids report);
                     mapping = map_target_to_end base_node slices target_unix
                 in Inr (\<lparr>pp_base_id = cr_base_id report,
                     pp_incremental_ids = replay_ids mapping,
                     pp_target_unix = target_unix,
                     pp_decided_ts = decided_ts mapping,
                     pp_decided_wall_clock = env_wall_clock env (ts_secs (decided_ts mapping)),
                     pp_limit_slice_id = limit_slice_id mapping,
                     pp_estimated_bytes =
                       estimate_bytes env (cr_base_id report) (replay_ids mapping)\<rparr>,
                     mapping))))))"

definition run_pitr ::
  "pitr_env \<Rightarrow> string \<Rightarrow> bool \<Rightarrow> (pitr_error + PitrOutcome) \<times> pitr_effect list" where
  "run_pitr env at dry_run = (case plan_pitr env at of
     Inl e \<Rightarrow> (Inl e, [])
   | Inr (plan, mapping) \<Rightarrow>
       (if dry_run then (Inr \<lparr>po_plan = plan, po_replayed_slices = 0\<rparr>, [])
        else (case env_restore env (pp_base_id plan) of
            Some e \<Rightarrow> (Inl (RestoreFailed e), [RestoreBase (pp_base_id plan)])
          | None \<Rightarrow> (case replay_slices env mapping of
              (Inl e, effs) \<Rightarrow> (Inl e, RestoreBase (pp_base_id plan) # effs)
            | (Inr k, effs) \<Rightarrow>
                (Inr \<lparr>po_plan = plan, po_replayed_slices = k\<rparr>,
                 RestoreBase (pp_base_id plan) # effs)))))"

text \<open>The exit class of each refusal.\<close>

fun pitr_exit :: "pitr_error \<Rightarrow> u8" where
  "pitr_exit (BadAt _) = USAGE"
| "pitr_exit OnlyWithPitr = USAGE"
| "pitr_exit (RestoreFailed e) = exit_code e"
| "pitr_exit _ = FAILURE"

section \<open>The base selected\<close>

definition candidates :: "int \<Rightarrow> ChainNode list \<Rightarrow> ChainNode set" where
  "candidates target ns = {n \<in> set ns. base_candidate target n \<noteq> None}"

definition base_key :: "ChainNode \<Rightarrow> OplogTimestamp \<times> string" where
  "base_key n = (snd (node_range n), cn_id n)"

lemma base_candidate_Some:
  "base_candidate target n = Some e \<Longrightarrow>
   cn_backup_type n = Full \<and> \<not> cn_selective n \<and> e = snd (node_range n) \<and>
   ts_secs e \<le> target \<and> cn_oplog_range n \<noteq> None"
  by (auto simp: base_candidate_def split: if_splits option.splits)

lemma later_base_trans: "later_base a b \<Longrightarrow> later_base b c \<Longrightarrow> later_base a c"
  by (auto simp: later_base_def)

lemma later_base_total: "later_base a b \<or> a = b \<or> later_base b a"
  by (cases a; cases b) (auto simp: later_base_def)

lemma later_base_irrefl [simp]: "\<not> later_base a a"
  by (simp add: later_base_def)

text \<open>The loop keeps a candidate no other candidate seen so far is later than.\<close>

lemma select_loop_max:
  assumes "\<And>b. best = Some b \<Longrightarrow> base_candidate target b \<noteq> None"
  shows "(select_loop target best ns = None \<longleftrightarrow> best = None \<and> candidates target ns = {}) \<and>
    (\<forall>n. select_loop target best ns = Some n \<longrightarrow>
       (best = Some n \<or> n \<in> candidates target ns) \<and>
       (\<forall>c. best = Some c \<or> c \<in> candidates target ns \<longrightarrow> \<not> later_base (base_key c) (base_key n)))"
  using assms
proof (induction ns arbitrary: best)
  case Nil
  then show ?case by (simp add: candidates_def)
next
  case (Cons n ns)
  show ?case
  proof (cases "base_candidate target n")
    case None
    then have cand: "candidates target (n # ns) = candidates target ns"
      by (auto simp: candidates_def)
    have step: "select_loop target best (n # ns) = select_loop target best ns"
      using None by simp
    show ?thesis
      unfolding step cand by (rule Cons.IH) (rule Cons.prems)
  next
    case (Some e)
    have cand: "candidates target (n # ns) = insert n (candidates target ns)"
      using Some by (auto simp: candidates_def)
    define best' where "best' = (if (case best of None \<Rightarrow> True
        | Some cur \<Rightarrow> later_base (base_key n) (base_key cur)) then Some n else best)"
    have key: "base_key n = (e, cn_id n)"
      using base_candidate_Some [OF Some] by (simp add: base_key_def)
    have "(case cn_oplog_range cur of Some (_, ce) \<Rightarrow> ce | None \<Rightarrow> e) = snd (node_range cur)"
      if "best = Some cur" for cur
      using Cons.prems [OF that] base_candidate_Some [of target cur] that
      by (force split: option.split)
    then have step: "select_loop target best (n # ns) = select_loop target best' ns"
      using Some key by (auto simp: best'_def base_key_def Let_def split: option.split)
    have "\<And>b. best' = Some b \<Longrightarrow> base_candidate target b \<noteq> None"
      using Cons.prems Some by (auto simp: best'_def split: if_splits)
    note IH = Cons.IH [OF this]
    have ne: "best' \<noteq> None"
      by (auto simp: best'_def split: option.splits)
    have cover: "\<exists>c'. best' = Some c' \<and> \<not> later_base (base_key c) (base_key c')"
      if "best = Some c \<or> c = n" for c
      using that later_base_trans by (auto simp: best'_def split: option.splits if_splits)
        (metis later_base_irrefl later_base_trans)+
    show ?thesis
      unfolding step cand
    proof (intro conjI allI impI)
      show "select_loop target best' ns = None \<longleftrightarrow> best = None \<and> insert n (candidates target ns) = {}"
        using IH ne by simp
    next
      fix m assume m: "select_loop target best' ns = Some m"
      with IH have "best' = Some m \<or> m \<in> candidates target ns" by blast
      then show "best = Some m \<or> m \<in> insert n (candidates target ns)"
        by (auto simp: best'_def split: if_splits)
      fix c assume c: "best = Some c \<or> c \<in> insert n (candidates target ns)"
      show "\<not> later_base (base_key c) (base_key m)"
      proof (cases "c \<in> candidates target ns")
        case True
        with IH m show ?thesis by blast
      next
        case False
        with c cover obtain c' where c': "best' = Some c'" "\<not> later_base (base_key c) (base_key c')"
          by blast
        with IH m have "\<not> later_base (base_key c') (base_key m)" by blast
        with c'(2) show ?thesis
          using later_base_total later_base_trans by metis
      qed
    qed
  qed
qed

section \<open>The target second as a limit\<close>

lemma ts_secs_mono: "a \<le> b \<Longrightarrow> ts_secs a \<le> ts_secs b"
  by (auto simp: ts_le_iff ts_secs_def word_less_def word_le_def)

lemma ts_secs_less: "ts_secs a < ts_secs b \<Longrightarrow> a < b"
  using ts_secs_mono [of b a] by (auto simp: not_le [symmetric])

lemma limit_for_second_iff:
  assumes "0 \<le> target" and "target < 2 ^ 32 - 1"
  shows "ts < oplog_limit_for_second (word_of_int target) \<longleftrightarrow> ts_secs ts \<le> target"
proof -
  let ?w = "word_of_int target :: u32"
  have w: "uint ?w = target"
    using assms by (simp add: unsigned_of_int take_bit_int_eq_self)
  have "uint (?w + 1) = (uint ?w + 1) mod 2 ^ 32"
    by (simp add: uint_word_ariths)
  also have "\<dots> = target + 1"
    using assms by (simp add: w)
  finally have w1: "uint (?w + 1) = target + 1" .
  have lim: "oplog_limit_for_second ?w = OplogTs (?w + 1) 0"
    using assms by (simp add: oplog_limit_for_second_def saturating_add_def w)
  have "ts < OplogTs (?w + 1) 0 \<longleftrightarrow> ts_t ts < ?w + 1"
    by (simp add: ts_less_iff)
  also have "\<dots> \<longleftrightarrow> ts_secs ts < target + 1"
    unfolding word_less_def w1 ts_secs_def ..
  finally show ?thesis
    by (simp add: lim)
qed

lemma ts_secs_bounds: "0 \<le> ts_secs ts" "ts_secs ts < 2 ^ 32"
  unfolding ts_secs_def using uint_lt2p [of "ts_t ts"] by simp_all

section \<open>What is replayed\<close>

context replayer
begin

abbreviation span :: "OplogTimestamp \<Rightarrow> OplogTimestamp \<Rightarrow> int \<Rightarrow> 'e list \<Rightarrow> 'e list" where
  "span a c target xs \<equiv> filter (\<lambda>x. a < ts_of x \<and> ts_of x \<le> c \<and> ts_secs (ts_of x) \<le> target) xs"

lemma span_split:
  assumes "sorted_wrt (\<lambda>x y. ts_of x < ts_of y) xs" and "a \<le> b" and "b \<le> c"
  shows "span a c target xs = span a b target xs @ span b c target xs"
  using assms(1)
proof (induction xs)
  case (Cons x xs)
  have later: "\<forall>y \<in> set xs. b < ts_of y" if "b < ts_of x"
    using Cons.prems that by auto
  show ?case
  proof (cases "b < ts_of x")
    case True
    have "span a b target xs = []"
      using later [OF True] by (auto simp: filter_empty_conv)
    moreover have "a < ts_of x"
      using True assms(2) by simp
    ultimately show ?thesis
      using Cons True by auto
  next
    case False
    with assms(3) have "ts_of x \<le> b" "ts_of x \<le> c"
      by auto
    with Cons False show ?thesis by simp
  qed
qed simp

lemma span_empty:
  assumes "target < ts_secs a"
  shows "span a c target xs = []"
proof -
  have "\<not> ts_secs (ts_of x) \<le> target" if "a < ts_of x" for x
    using assms ts_secs_mono [OF less_imp_le [OF that]] by simp
  then show ?thesis
    by (auto simp: filter_empty_conv)
qed

text \<open>The replay a mapping stands for, on slices with the contents \<open>content\<close>.\<close>

definition replayed :: "(string \<Rightarrow> 'e list) \<Rightarrow> EndMapping \<Rightarrow> 'e list" where
  "replayed content m = concat (map (\<lambda>i. replay (limit_for m i) (content i)) (replay_ids m))"

lemma replayed_map_loop:
  assumes "linked e0 (map node_range ss)"
    and "\<forall>n \<in> set ss. cn_oplog_range n \<noteq> None \<and> fst (node_range n) \<le> snd (node_range n)"
    and "distinct (map cn_id ss)" and "set (replay_ids m) \<inter> cn_id ` set ss = {}"
    and "limit_slice_id m = None"
    and "\<forall>n \<in> set ss. content (cn_id n) = filter (\<lambda>x. covers (node_range n) (ts_of x)) oplog"
    and "\<forall>n \<in> set ss. cn_is_empty_slice n \<longrightarrow> content (cn_id n) = []"
    and "sorted_wrt (\<lambda>x y. ts_of x < ts_of y) oplog"
  shows "replayed content (map_loop target m ss) = concat (map content (replay_ids m)) @
    span e0 (last (e0 # map (\<lambda>n. snd (node_range n)) ss)) target oplog"
  using assms(1-7)
proof (induction ss arbitrary: m e0)
  case Nil
  have "span e0 e0 target oplog = []"
    by (auto simp: filter_empty_conv)
  with Nil show ?case
    by (simp add: replayed_def limit_for_def replay_all)
next
  case (Cons n ss)
  obtain e where r: "cn_oplog_range n = Some (e0, e)" and lk: "linked e (map node_range ss)"
    using Cons.prems(1,2) by (cases "cn_oplog_range n") (auto simp: split_pairs)
  let ?last = "last (e # map (\<lambda>n. snd (node_range n)) ss)"
  have e0e: "e0 \<le> e" and el: "e \<le> ?last"
    using Cons.prems(2) r linked_last [OF lk] by (auto simp: comp_def)
  have content: "content (cn_id n) = filter (\<lambda>x. e0 < ts_of x \<and> ts_of x \<le> e) oplog"
    using Cons.prems(6) r by (simp add: covers_def)
  have split: "span e0 ?last target oplog = span e0 e target oplog @ span e ?last target oplog"
    by (rule span_split [OF assms(8) e0e el])
  consider (full) "ts_secs e \<le> target"
    | (cut) "target < ts_secs e" "ts_secs e0 \<le> target"
    | (none) "target < ts_secs e0"
    by linarith
  then show ?case
  proof cases
    case full
    let ?m = "m\<lparr>replay_ids := replay_ids m @ (if cn_is_empty_slice n then [] else [cn_id n]),
      decided_ts := e\<rparr>"
    have "span e0 e target oplog = content (cn_id n)"
      unfolding content
      by (rule filter_cong) (use full ts_secs_mono order_trans in blast)+
    moreover have "replayed content (map_loop target ?m ss) =
        concat (map content (replay_ids ?m)) @ span e ?last target oplog"
      using Cons.prems lk by (intro Cons.IH) auto
    ultimately show ?thesis
      using full r split Cons.prems(7) by (auto simp: comp_def)
  next
    case none
    then have "span e0 ?last target oplog = []"
      by (rule span_empty)
    with none r e0e ts_secs_mono [OF e0e] Cons.prems(5) show ?thesis
      by (auto simp: replayed_def limit_for_def replay_all)
  next
    case cut
    have "0 \<le> target" "target < 2 ^ 32 - 1"
      using cut ts_secs_bounds [of e0] ts_secs_bounds [of e] by simp_all
    note lim = limit_for_second_iff [OF this]
    have "span e ?last target oplog = []"
      using cut(1) by (rule span_empty)
    moreover have "span e0 e target oplog =
        replay (Some (oplog_limit_for_second (word_of_int target))) (content (cn_id n))"
      using sorted_wrt_filter [OF assms(8)]
      by (simp add: content replay_sorted lim)
    moreover have "replay lim' (content (cn_id n)) = []" if "cn_is_empty_slice n" for lim'
      using that Cons.prems(7) replay_None_or_limit [of lim' "[]"] by simp
    moreover have "concat (map (\<lambda>i. replay (if cn_id n = i then lim' else None) (content i)) (replay_ids m)) =
        concat (map content (replay_ids m))" for lim'
      using Cons.prems(4) by (intro arg_cong [where f = concat] map_cong) (auto simp: replay_all)
    ultimately show ?thesis
      using cut r split Cons.prems(5) by (auto simp: replayed_def limit_for_def replay_all)
  qed
qed

end

section \<open>The run and its effects\<close>

lemma ordered_slices_eq:
  assumes "distinct (map cn_id nodes)"
  shows "ordered_slices nodes (map cn_id (sorted_incrs nodes b)) = sorted_incrs nodes b"
proof -
  have "List.map_filter (find_node nodes) (map cn_id ns) = ns" if "set ns \<subseteq> set nodes" for ns
    using that by (induction ns) (auto simp: map_filter_simps find_node_distinct [OF assms])
  then show ?thesis
    by (simp add: ordered_slices_def)
qed

text \<open>What a plan rests on: a usable base before the target, a continuous chain, its slices.\<close>

lemma plan_pitr_Inr:
  assumes "plan_pitr env at = Inr (plan, mapping)" and "nodes = collect_chain_nodes env"
    and "distinct (map cn_id nodes)"
  obtains base where "env_parse_at env at = Some (pp_target_unix plan)"
    and "base \<in> candidates (pp_target_unix plan) nodes" and "cn_id base = pp_base_id plan"
    and "report_is_continuous (verify_chain nodes (pp_base_id plan))"
    and "mapping = map_target_to_end base (sorted_incrs nodes (pp_base_id plan)) (pp_target_unix plan)"
    and "pp_incremental_ids plan = replay_ids mapping"
    and "select_base_before nodes (pp_target_unix plan) = Inr (pp_base_id plan)"
proof -
  from assms(1,2) obtain target b where t: "env_parse_at env at = Some target"
    "select_base_before nodes target = Inr b" "report_is_continuous (verify_chain nodes b)"
    and rest: "(case find_node nodes (cr_base_id (verify_chain nodes b)) of
        None \<Rightarrow> Inl (BaseNodeMissing (cr_base_id (verify_chain nodes b)))
      | Some base_node \<Rightarrow>
          (let mapping = map_target_to_end base_node
             (ordered_slices nodes (cr_incremental_ids (verify_chain nodes b))) target
           in Inr (\<lparr>pp_base_id = cr_base_id (verify_chain nodes b),
               pp_incremental_ids = replay_ids mapping, pp_target_unix = target,
               pp_decided_ts = decided_ts mapping,
               pp_decided_wall_clock = env_wall_clock env (ts_secs (decided_ts mapping)),
               pp_limit_slice_id = limit_slice_id mapping,
               pp_estimated_bytes = estimate_bytes env (cr_base_id (verify_chain nodes b))
                 (replay_ids mapping)\<rparr>, mapping))) = Inr (plan, mapping)"
    by (auto simp: plan_pitr_def Let_def bind_res_Inr_iff split: option.splits if_splits)
  from t(2) obtain base where base: "select_loop target None nodes = Some base" "b = cn_id base"
    by (auto simp: select_base_before_def split: option.splits)
  then have cand: "base \<in> candidates target nodes"
    using select_loop_max [of None target nodes] by simp
  then have full: "base \<in> set nodes" "cn_backup_type base = Full"
    by (auto simp: candidates_def dest: base_candidate_Some)
  have fn: "find_node nodes b = Some base"
    using full(1) base(2) assms(3) by (simp add: find_node_distinct)
  have bo: "base_of nodes b = Some b"
    using fn full(2) by (simp add: base_of_def)
  have rep: "cr_base_id (verify_chain nodes b) = b"
    "cr_incremental_ids (verify_chain nodes b) = map cn_id (sorted_incrs nodes b)"
    by (simp_all add: verify_chain_base_of bo fn judge_base_def)
  from rest have "mapping = map_target_to_end base (sorted_incrs nodes b) target"
    "pp_base_id plan = b" "pp_target_unix plan = target" "pp_incremental_ids plan = replay_ids mapping"
    by (auto simp: rep fn ordered_slices_eq [OF assms(3)] Let_def)
  with t cand base(2) that show ?thesis by metis
qed

text \<open>The manifests lie under their own ids.\<close>

definition ids_match :: "pitr_env \<Rightarrow> bool" where
  "ids_match env \<longleftrightarrow> 
     (\<forall>(i, mo) \<in> set (env_manifests env). case mo of Some m \<Rightarrow> m_id m = i | None \<Rightarrow> True)"

lemma read_manifest_id: "ids_match env \<Longrightarrow> read_manifest env i = Some m \<Longrightarrow> m_id m = i"
  by (force simp: ids_match_def read_manifest_def dest!: map_of_SomeD split: option.splits)

lemma replay_loop_Inr:
  "replay_loop env m ids k = (Inr n, effs) \<Longrightarrow> ids_match env \<Longrightarrow>
   effs = map (\<lambda>i. ReplaySlice i (limit_for m i)) ids \<and> n = k + length ids"
proof (induction ids arbitrary: k effs)
  case (Cons i ids)
  from Cons.prems(1) obtain mf effs' where r: "read_manifest env i = Some mf"
    "replay_loop env m ids (k + 1) = (Inr n, effs')"
    "effs = ReplaySlice (m_id mf) (limit_for m i) # effs'"
    by (auto split: option.splits if_splits prod.splits)
  from Cons.IH [OF r(2) Cons.prems(2)] r(3) read_manifest_id [OF Cons.prems(2) r(1)] show ?case
    by simp
qed simp

lemma replay_slices_Inr:
  "replay_slices env m = (Inr n, effs) \<Longrightarrow> ids_match env \<Longrightarrow>
   effs = map (\<lambda>i. ReplaySlice i (limit_for m i)) (replay_ids m) \<and> n = length (replay_ids m)"
  by (auto simp: replay_slices_def dest: replay_loop_Inr split: if_splits)

lemma run_pitr_Inr:
  assumes "run_pitr env at False = (Inr out, effs)" and "ids_match env"
  obtains mapping where "plan_pitr env at = Inr (po_plan out, mapping)"
    and "effs = RestoreBase (pp_base_id (po_plan out)) #
      map (\<lambda>i. ReplaySlice i (limit_for mapping i)) (replay_ids mapping)"
    and "po_replayed_slices out = length (replay_ids mapping)"
proof -
  from assms(1) obtain mapping k effs' where "plan_pitr env at = Inr (po_plan out, mapping)"
    "replay_slices env mapping = (Inr k, effs')" "po_replayed_slices out = k"
    "effs = RestoreBase (pp_base_id (po_plan out)) # effs'"
    by (auto simp: run_pitr_def split: sum.splits prod.splits option.splits)
  with that replay_slices_Inr [OF _ assms(2)] show ?thesis by blast
qed

text \<open>The entries a list of effects sends to the server, for slices with given contents.\<close>

definition effect_entries ::
  "'d bson_api \<Rightarrow> (string \<Rightarrow> ('d \<times> nat) list) \<Rightarrow> pitr_effect list \<Rightarrow> ('d \<times> nat) list" where
  "effect_entries api content effs = concat (map (\<lambda>eff. case eff of
     RestoreBase _ \<Rightarrow> [] | ReplaySlice i lim \<Rightarrow> cut_entries api lim (content i)) effs)"

text \<open>
  The slices of a base hold the oplog of their intervals: what the capture guarantees of each
  backup it stores.
\<close>

definition slices_hold ::
  "'d bson_api \<Rightarrow> (string \<Rightarrow> ('d \<times> nat) list) \<Rightarrow> ('d \<times> nat) list \<Rightarrow> ChainNode list \<Rightarrow> bool" where
  "slices_hold api content oplog ns \<longleftrightarrow> (\<forall>n \<in> set ns. fst (node_range n) \<le> snd (node_range n) \<and>
     content (cn_id n) = filter (\<lambda>x. covers (node_range n) (doc_ts api (fst x))) oplog \<and>
     (cn_is_empty_slice n \<longrightarrow> content (cn_id n) = []))"

section \<open>A concrete recovery\<close>

definition ex_manifest :: "string \<Rightarrow> BackupType \<Rightarrow> string option \<Rightarrow> u32 \<Rightarrow> u32 \<Rightarrow> BackupManifest" where
  "ex_manifest i bt b s e = sample_manifest\<lparr>m_id := i, m_backup_type := bt, m_base_id := b,
     m_oplog_range := Some \<lparr>start_ts = OplogTs s 0, end_ts = OplogTs e 0\<rparr>\<rparr>"

definition ex_env :: pitr_env where
  "ex_env = \<lparr>
     env_manifests = [(''f'', Some (ex_manifest ''f'' Full None 1 10)),
       (''i1'', Some (ex_manifest ''i1'' Incremental (Some ''f'') 10 20)),
       (''i2'', Some (ex_manifest ''i2'' Incremental (Some ''f'') 20 30))],
     env_parse_at = (\<lambda>_. Some 25),
     env_wall_clock = (\<lambda>_. []),
     env_restore = (\<lambda>_. None),
     env_connect = True,
     env_replay = (\<lambda>_ _. True)\<rparr>"

definition ex_op :: "u32 \<Rightarrow> ex_doc \<times> nat" where
  "ex_op s = (ExDoc [(''ts'', BTimestamp \<lparr>bs_time = s, bs_increment = 1\<rparr>)] [(''op'', ''i'')], 5)"

definition ex_oplog :: "(ex_doc \<times> nat) list" where
  "ex_oplog = [ex_op 9, ex_op 12, ex_op 21, ex_op 25, ex_op 27]"

definition ex_content :: "string \<Rightarrow> (ex_doc \<times> nat) list" where
  "ex_content i = (if i = ''i1'' then [ex_op 12] else if i = ''i2'' then [ex_op 21, ex_op 25, ex_op 27]
     else [])"

definition ex_plan :: PitrPlan where
  "ex_plan = \<lparr>pp_base_id = ''f'', pp_incremental_ids = [''i1'', ''i2''], pp_target_unix = 25,
     pp_decided_ts = OplogTs 25 0, pp_decided_wall_clock = [], pp_limit_slice_id = Some ''i2'',
     pp_estimated_bytes = 30\<rparr>"

section \<open>Properties\<close>

text \<open>C1: point-in-time recovery is exact: a run that succeeds restores the base and then sends to
  the server exactly the oplog entries after the end of the base, up to the target second
  inclusive (as far as the chain reaches), in oplog order, each once; the slices are assumed to
  hold the entries of their intervals and the oplog to be in timestamp order.\<close>

theorem pitr_exact:
  assumes "run_pitr env at False = (Inr out, effs)" and "ids_match env"
    and "nodes = collect_chain_nodes env" and "distinct (map cn_id nodes)"
    and "b = pp_base_id (po_plan out)" and "find_node nodes b = Some base"
    and "sorted_wrt (\<lambda>x y. doc_ts api (fst x) < doc_ts api (fst y)) oplog"
    and "slices_hold api content oplog (sorted_incrs nodes b)"
  shows "hd effs = RestoreBase b \<and>
    effect_entries api content effs =
      filter (\<lambda>x. snd (node_range base) < doc_ts api (fst x) \<and>
        doc_ts api (fst x) \<le> last (snd (node_range base) # map snd (slice_ranges nodes b)) \<and>
        ts_secs (doc_ts api (fst x)) \<le> pp_target_unix (po_plan out)) oplog"
proof -
  obtain mapping where plan: "plan_pitr env at = Inr (po_plan out, mapping)"
    and effs: "effs = RestoreBase b # map (\<lambda>i. ReplaySlice i (limit_for mapping i)) (replay_ids mapping)"
    using run_pitr_Inr [OF assms(1,2)] assms(5) by metis
  from plan_pitr_Inr [OF plan assms(3,4)] obtain base' where
    cand: "base' \<in> candidates (pp_target_unix (po_plan out)) nodes" "cn_id base' = b"
    and cont: "report_is_continuous (verify_chain nodes b)"
    and mapping: "mapping = map_target_to_end base' (sorted_incrs nodes b) (pp_target_unix (po_plan out))"
    using assms(5) by metis
  have "base' = base"
    using cand assms(4,6) by (auto simp: candidates_def find_node_distinct)
  with cand(1) obtain s e where r: "cn_oplog_range base = Some (s, e)" "cn_backup_type base = Full"
    by (auto simp: candidates_def dest!: base_candidate_Some)
  have "base_of nodes b = Some b"
    using assms(6) r(2) by (simp add: base_of_def)
  with cont have lk: "linked e (slice_ranges nodes b)"
    and full: "\<forall>n \<in> set nodes. incr_of b n \<longrightarrow> cn_oplog_range n \<noteq> None"
    using verify_chain_mongo_iff [OF _ assms(6) r(1)] by auto
  have "applier.replayed api content mapping = concat (map content []) @
      applier.span api e (last (e # map (\<lambda>n. snd (node_range n)) (sorted_incrs nodes b)))
        (pp_target_unix (po_plan out)) oplog"
    unfolding mapping map_target_to_end_def \<open>base' = base\<close> r(1)
    using assms(4,7,8) lk full
    by (subst applier.replayed_map_loop)
      (auto simp: slice_ranges_def slices_hold_def sorted_incrs_def distinct_map_filter)
  then show ?thesis
    using r(1) by (simp add: effs effect_entries_def applier.replayed_def slice_ranges_def comp_def)
qed

theorem pitr_exact_witness:
  "hd (snd (run_pitr ex_env ''t'' False)) = RestoreBase ''f'' \<and>
   effect_entries ex_api ex_content (snd (run_pitr ex_env ''t'' False)) = [ex_op 12, ex_op 21, ex_op 25]"
proof -
  let ?effs = "[RestoreBase ''f'', ReplaySlice ''i1'' None, ReplaySlice ''i2'' (Some (OplogTs 26 0))]"
  let ?base = "from_manifest (ex_manifest ''f'' Full None 1 10)"
  have run: "run_pitr ex_env ''t'' False = (Inr \<lparr>po_plan = ex_plan, po_replayed_slices = 2\<rparr>, ?effs)"
    by code_simp
  let ?rhs = "filter (\<lambda>x. snd (node_range ?base) < doc_ts ex_api (fst x) \<and>
        doc_ts ex_api (fst x) \<le> last (snd (node_range ?base) #
          map snd (slice_ranges (collect_chain_nodes ex_env) ''f'')) \<and>
        ts_secs (doc_ts ex_api (fst x)) \<le> pp_target_unix (po_plan \<lparr>po_plan = ex_plan, po_replayed_slices = 2\<rparr>))
      ex_oplog"
  have "hd ?effs = RestoreBase ''f'' \<and> effect_entries ex_api ex_content ?effs = ?rhs"
  proof (rule pitr_exact [OF run _ refl])
    show "ids_match ex_env" by code_simp
    show "distinct (map cn_id (collect_chain_nodes ex_env))" by code_simp
    show "''f'' = pp_base_id (po_plan \<lparr>po_plan = ex_plan, po_replayed_slices = 2\<rparr>)" by code_simp
    show "find_node (collect_chain_nodes ex_env) ''f'' = Some ?base" by code_simp
    show "sorted_wrt (\<lambda>x y. doc_ts ex_api (fst x) < doc_ts ex_api (fst y)) ex_oplog" by code_simp
    show "slices_hold ex_api ex_content ex_oplog (sorted_incrs (collect_chain_nodes ex_env) ''f'')"
      by code_simp
  qed
  moreover have "?rhs = [ex_op 12, ex_op 21, ex_op 25]"
    by code_simp
  ultimately show ?thesis
    unfolding run by simp
qed

text \<open>the base selected for a target is a full, unselective backup with an oplog range that
  ends at or before the target second, and none of the others that qualify is later (by end, then
  by id); the selection fails exactly when there is none.\<close>

theorem select_base_spec:
  "case select_base_before nodes target of
     Inr i \<Rightarrow> (\<exists>n \<in> candidates target nodes. cn_id n = i \<and>
       (\<forall>c \<in> candidates target nodes. \<not> later_base (base_key c) (base_key n)))
   | Inl e \<Rightarrow> e = NoBaseBefore target \<and> candidates target nodes = {}"
proof (cases "select_loop target None nodes")
  case None
  then show ?thesis
    using select_loop_max [of None target nodes] by (simp add: select_base_before_def)
next
  case (Some n)
  then show ?thesis
    using select_loop_max [of None target nodes] by (auto simp: select_base_before_def)
qed

theorem select_base_spec_witness:
  "\<exists>n \<in> candidates 25 (collect_chain_nodes ex_env). cn_id n = ''f''"
proof -
  have "select_base_before (collect_chain_nodes ex_env) 25 = Inr ''f''"
    by code_simp
  with select_base_spec [where nodes = "collect_chain_nodes ex_env" and target = 25] show ?thesis
    by auto
qed

text \<open>C25: nothing is touched before the plan stands: a run has effects only when it is not a dry
  run, the time parsed, and the chain of the selected base is continuous; the base is then
  restored first, and slices are replayed only after the restore succeeded.\<close>

theorem pitr_effects_guarded:
  assumes "run_pitr env at dry_run = (r, effs)" and "effs \<noteq> []"
    and "nodes = collect_chain_nodes env" and "distinct (map cn_id nodes)"
  shows "\<not> dry_run \<and>
    (\<exists>target b. env_parse_at env at = Some target \<and> select_base_before nodes target = Inr b \<and>
       report_is_continuous (verify_chain nodes b) \<and> hd effs = RestoreBase b \<and>
       (tl effs \<noteq> [] \<longrightarrow> env_restore env b = None))"
proof -
  from assms(1,2) obtain plan mapping where plan: "plan_pitr env at = Inr (plan, mapping)"
    and rest: "\<not> dry_run" "hd effs = RestoreBase (pp_base_id plan)"
      "tl effs \<noteq> [] \<longrightarrow> env_restore env (pp_base_id plan) = None"
    by (auto simp: run_pitr_def split: sum.splits prod.splits option.splits if_splits)
  from plan_pitr_Inr [OF plan assms(3,4)] rest show ?thesis
    by metis
qed

theorem pitr_effects_guarded_witness:
  "\<not> False \<and>
    (\<exists>target b. env_parse_at ex_env ''t'' = Some target \<and>
       select_base_before (collect_chain_nodes ex_env) target = Inr b \<and>
       report_is_continuous (verify_chain (collect_chain_nodes ex_env) b) \<and>
       hd (snd (run_pitr ex_env ''t'' False)) = RestoreBase b \<and>
       (tl (snd (run_pitr ex_env ''t'' False)) \<noteq> [] \<longrightarrow> env_restore ex_env b = None))"
  by (rule pitr_effects_guarded [where r = "fst (run_pitr ex_env ''t'' False)"]) code_simp+

lemma map_loop_decided:
  assumes "ts_secs (decided_ts m) \<le> target" and "0 \<le> target"
  shows "ts_secs (decided_ts (map_loop target m ss)) \<le> target"
  using assms(1)
proof (induction ss arbitrary: m)
  case (Cons n ss)
  have "uint (word_of_int target :: u32) \<le> target"
    using assms(2) by (simp add: unsigned_of_int take_bit_int_less_eq_self_iff)
  with Cons show ?case
    by (auto simp: ts_secs_def split: option.split)
qed simp

text \<open>the end time a plan reports is never later than the target second.\<close>

theorem decided_not_after_target:
  assumes "plan_pitr env at = Inr (plan, mapping)"
    and "distinct (map cn_id (collect_chain_nodes env))"
  shows "ts_secs (decided_ts mapping) \<le> pp_target_unix plan"
proof -
  from plan_pitr_Inr [OF assms(1) refl assms(2)] obtain base where
    b: "base \<in> candidates (pp_target_unix plan) (collect_chain_nodes env)"
    and m: "mapping = map_target_to_end base
      (sorted_incrs (collect_chain_nodes env) (pp_base_id plan)) (pp_target_unix plan)"
    by metis
  from b obtain s e where "cn_oplog_range base = Some (s, e)" "ts_secs e \<le> pp_target_unix plan"
    by (auto simp: candidates_def dest!: base_candidate_Some)
  then show ?thesis
    unfolding m map_target_to_end_def using ts_secs_bounds(1) [of e]
    by (intro map_loop_decided) auto
qed

theorem decided_not_after_target_witness:
  "ts_secs (decided_ts (snd (projr (plan_pitr ex_env ''t'')))) \<le>
     pp_target_unix (fst (projr (plan_pitr ex_env ''t'')))"
  by (rule decided_not_after_target [where env = ex_env and at = "''t''"]) code_simp+

text \<open>an incomplete full backup is not skipped by the selection: with a later incomplete base
  in the destination the recovery is refused, although the earlier complete base has a continuous
  chain.\<close>

theorem incomplete_base_blocks_pitr:
  "let good = from_manifest (ex_manifest ''f'' Full None 1 10);
       bad = (from_manifest (ex_manifest ''g'' Full None 11 20))\<lparr>cn_status := Incomplete\<rparr>;
       nodes = [good, bad]
   in select_base_before nodes 25 = Inr ''g'' \<and>
      \<not> report_is_continuous (verify_chain nodes ''g'') \<and>
      report_is_continuous (verify_chain nodes ''f'')"
  by code_simp

end
