(* ===== verification/XB_Storage.thy ===== *)
theory XB_Storage
  imports XB_Manifest
begin

text \<open>
  The artifacts of a backup in a destination: the layout of
  \<open>manifest/store.rs\<close>, the copy to further destinations of \<open>storage/mod.rs\<close>, and the
  structural verification of \<open>pipeline/verify.rs\<close>. A destination is the list of its objects in
  listing order; the digest (\<open>sha2\<close>, \<open>hex\<close>), the JSON form of a manifest (\<open>serde_json\<close>) and the
  decoding stack are parameters.
\<close>

section \<open>Destinations\<close>

type_synonym store = "(string \<times> bytes) list"

text \<open>The operations of the trait \<open>Storage\<close> on a destination that answers.\<close>

definition sto_put :: "string \<Rightarrow> bytes \<Rightarrow> store \<Rightarrow> store" where
  "sto_put p b s = (p, b) # filter (\<lambda>e. fst e \<noteq> p) s"

definition sto_delete :: "string \<Rightarrow> store \<Rightarrow> store" where
  "sto_delete p s = filter (\<lambda>e. fst e \<noteq> p) s"

definition sto_get :: "store \<Rightarrow> string \<Rightarrow> bytes option" where
  "sto_get s p = map_of s p"

definition sto_list :: "store \<Rightarrow> string list" where
  "sto_list s = map fst s"

lemma map_of_filter_ne: "map_of (filter (\<lambda>e. fst e \<noteq> p) s) = (map_of s)(p := None)"
  by (induction s) auto

lemma sto_get_put [simp]: "sto_get (sto_put p b s) q = (if q = p then Some b else sto_get s q)"
  by (auto simp: sto_get_def sto_put_def map_of_filter_ne)

lemma sto_get_delete [simp]: "sto_get (sto_delete p s) q = (if q = p then None else sto_get s q)"
  by (simp add: sto_get_def sto_delete_def map_of_filter_ne)

lemma set_sto_list [simp]: "p \<in> set (sto_list s) \<longleftrightarrow> sto_get s p \<noteq> None"
  by (auto simp: sto_list_def sto_get_def map_of_eq_None_iff)

section \<open>Layout\<close>

definition DATA_FILE :: string where "DATA_FILE = ''data.bin''"
definition MANIFEST_FILE :: string where "MANIFEST_FILE = ''manifest.json''"
definition MANIFEST_SHA_FILE :: string where "MANIFEST_SHA_FILE = ''manifest.json.sha256''"
definition FILE_INDEX_FILE :: string where "FILE_INDEX_FILE = ''index.json.zst''"

definition data_path :: "string \<Rightarrow> string" where
  "data_path i = i @ ''/'' @ DATA_FILE"

definition manifest_path :: "string \<Rightarrow> string" where
  "manifest_path i = i @ ''/'' @ MANIFEST_FILE"

definition manifest_sha_path :: "string \<Rightarrow> string" where
  "manifest_sha_path i = i @ ''/'' @ MANIFEST_SHA_FILE"

definition file_index_path :: "string \<Rightarrow> string" where
  "file_index_path i = i @ ''/'' @ FILE_INDEX_FILE"

lemmas path_defs = data_path_def manifest_path_def manifest_sha_path_def file_index_path_def
  DATA_FILE_def MANIFEST_FILE_def MANIFEST_SHA_FILE_def FILE_INDEX_FILE_def

text \<open>A path determines the id and the file, for any ids: the file names differ in a suffix.\<close>

lemma rev_eq_iff: "xs = ys \<longleftrightarrow> rev xs = rev ys"
  by simp

lemma path_eq_iff [simp]:
  "data_path i = data_path j \<longleftrightarrow> i = j" "manifest_path i = manifest_path j \<longleftrightarrow> i = j"
  "manifest_sha_path i = manifest_sha_path j \<longleftrightarrow> i = j"
  "file_index_path i = file_index_path j \<longleftrightarrow> i = j"
  by (simp_all add: path_defs)

lemma path_neq [simp]:
  "data_path i \<noteq> manifest_path j" "manifest_path j \<noteq> data_path i"
  "data_path i \<noteq> manifest_sha_path j" "manifest_sha_path j \<noteq> data_path i"
  "data_path i \<noteq> file_index_path j" "file_index_path j \<noteq> data_path i"
  "manifest_path i \<noteq> manifest_sha_path j" "manifest_sha_path j \<noteq> manifest_path i"
  "manifest_path i \<noteq> file_index_path j" "file_index_path j \<noteq> manifest_path i"
  "manifest_sha_path i \<noteq> file_index_path j" "file_index_path j \<noteq> manifest_sha_path i"
  unfolding path_defs by (subst rev_eq_iff, simp)+

section \<open>Listing the backups\<close>

text \<open>\<open>collect_manifest_ids\<close>: the ids with a manifest directly under their directory, sorted.\<close>

definition collect_manifest_ids :: "store \<Rightarrow> string list" where
  "collect_manifest_ids s = sort_dedup (List.map_filter
     (\<lambda>p. case strip_suffix (''/'' @ MANIFEST_FILE) p of
        Some i \<Rightarrow> (if i \<noteq> [] \<and> CHR ''/'' \<notin> set i then Some i else None)
      | None \<Rightarrow> None) (sto_list s))"

lemma strip_suffix_manifest:
  "strip_suffix (''/'' @ MANIFEST_FILE) p = Some i \<longleftrightarrow> p = manifest_path i"
  by (simp add: strip_suffix_Some manifest_path_def)

lemma set_collect_manifest_ids:
  "i \<in> set (collect_manifest_ids s) \<longleftrightarrow>
     i \<noteq> [] \<and> CHR ''/'' \<notin> set i \<and> sto_get s (manifest_path i) \<noteq> None"
proof -
  have "i \<in> set (collect_manifest_ids s) \<longleftrightarrow>
    (\<exists>p \<in> set (sto_list s). (case strip_suffix (''/'' @ MANIFEST_FILE) p of
        Some i \<Rightarrow> (if i \<noteq> [] \<and> CHR ''/'' \<notin> set i then Some i else None)
      | None \<Rightarrow> None) = Some i)"
    unfolding collect_manifest_ids_def set_sort_dedup by (simp add: set_map_filter)
  also have "\<dots> \<longleftrightarrow> (\<exists>p \<in> set (sto_list s). p = manifest_path i \<and> i \<noteq> [] \<and> CHR ''/'' \<notin> set i)"
    by (rule bex_cong [OF refl])
      (auto simp: strip_suffix_manifest [symmetric] split: option.splits if_splits)
  also have "\<dots> \<longleftrightarrow> i \<noteq> [] \<and> CHR ''/'' \<notin> set i \<and> sto_get s (manifest_path i) \<noteq> None"
    by auto
  finally show ?thesis .
qed

section \<open>Writing a manifest\<close>

text \<open>The digest of bytes as a hex string and the JSON form of a manifest.\<close>

record codec =
  sha256_hex :: "bytes \<Rightarrow> string"
  to_json :: "BackupManifest \<Rightarrow> bytes"
  from_json :: "bytes \<Rightarrow> BackupManifest option"

definition to_bytes :: "string \<Rightarrow> bytes" where
  "to_bytes s = map (\<lambda>ch. word_of_nat (of_char ch)) s"

definition of_bytes :: "bytes \<Rightarrow> string" where
  "of_bytes bs = map (\<lambda>b. char_of (unat b)) bs"

lemma of_bytes_to_bytes [simp]: "of_bytes (to_bytes s) = s"
proof -
  have "unat (word_of_nat (of_char ch) :: u8) = of_char ch" for ch :: char
    using nat_of_char_less_256 [of ch] by (simp add: unsigned_of_nat take_bit_nat_eq_self)
  then show ?thesis
    by (induction s) (simp_all add: of_bytes_def to_bytes_def)
qed

definition sidecar_checksum :: "codec \<Rightarrow> bytes \<Rightarrow> string" where
  "sidecar_checksum c bs = sha256_hex c bs @ ''  '' @ MANIFEST_FILE @ [CHR 0x0A]"

text \<open>The first word of the sidecar; the words of a digest are ASCII.\<close>

definition parse_sidecar :: "string \<Rightarrow> string option" where
  "parse_sidecar s = (case takeWhile (\<lambda>ch. \<not> is_whitespace ch) (dropWhile is_whitespace s) of
     [] \<Rightarrow> None | w \<Rightarrow> Some w)"

text \<open>
  The objects of a backup, for destinations with known contents: \<open>data.bin\<close> unless the slice is empty,
  the manifest and its sidecar. The pipelines store them one by one, with faults in between
  (\<open>store_dump_stream\<close>, \<open>manifest_write\<close> in \<open>XB_Backup\<close>); here only the contents count.
\<close>

definition manifest_objects :: "codec \<Rightarrow> BackupManifest \<Rightarrow> (string \<times> bytes) list" where
  "manifest_objects c m = [(manifest_path (m_id m), to_json c m),
     (manifest_sha_path (m_id m), to_bytes (sidecar_checksum c (to_json c m)))]"

definition artifact_objects :: "codec \<Rightarrow> BackupManifest \<Rightarrow> bytes option \<Rightarrow> (string \<times> bytes) list" where
  "artifact_objects c m data = (case data of Some b \<Rightarrow> [(data_path (m_id m), b)] | None \<Rightarrow> []) @
     manifest_objects c m"

fun put_objects :: "(string \<times> bytes) list \<Rightarrow> store \<Rightarrow> store" where
  "put_objects [] s = s"
| "put_objects ((p, b) # ws) s = put_objects ws (sto_put p b s)"

definition store_read :: "codec \<Rightarrow> store \<Rightarrow> string \<Rightarrow> BackupManifest option" where
  "store_read c s i = (case sto_get s (manifest_path i) of
     Some bs \<Rightarrow> from_json c bs | None \<Rightarrow> None)"

section \<open>Verification\<close>

definition eq_ignore_ascii_case :: "string \<Rightarrow> string \<Rightarrow> bool" where
  "eq_ignore_ascii_case a b \<longleftrightarrow> map ascii_lower a = map ascii_lower b"

definition EMPTY_SHA256 :: string where
  "EMPTY_SHA256 = ''e3b0c44298fc1c149afbf4c8996fb92427ae41e4649b934ca495991b7852b855''"

datatype verify_error =
    ManifestLoad
  | SidecarMismatch
  | DataRead
  | ChecksumMismatch
  | KeyMissing
  | DecodeFailed

record VerifyReport =
  vr_backup_id :: string
  vr_manifest_sidecar_ok :: bool
  vr_data_checksum_ok :: bool
  vr_deep_decode_ok :: "bool option"
  vr_incomplete_warning :: bool
  vr_empty_slice :: bool

definition vr_is_ok :: "VerifyReport \<Rightarrow> bool" where
  "vr_is_ok r \<longleftrightarrow> vr_manifest_sidecar_ok r \<and> vr_data_checksum_ok r \<and>
     (case vr_deep_decode_ok r of Some b \<Rightarrow> b | None \<Rightarrow> True)"

definition verify_manifest_sidecar :: "codec \<Rightarrow> store \<Rightarrow> string \<Rightarrow> bool" where
  "verify_manifest_sidecar c s i = (case (sto_get s (manifest_path i), sto_get s (manifest_sha_path i)) of
     (Some mbytes, Some raw) \<Rightarrow>
       (case parse_sidecar (of_bytes raw) of
          None \<Rightarrow> False
        | Some recorded \<Rightarrow>
            (case parse_sidecar (sidecar_checksum c mbytes) of
               Some expected \<Rightarrow> eq_ignore_ascii_case recorded expected
             | None \<Rightarrow> False))
   | _ \<Rightarrow> False)"

definition verify_data_checksum ::
  "codec \<Rightarrow> store \<Rightarrow> string \<Rightarrow> BackupManifest \<Rightarrow> bool \<Rightarrow> verify_error + bool" where
  "verify_data_checksum c s i m empty_slice = (case sto_get s (data_path i) of
     Some b \<Rightarrow> Inr (eq_ignore_ascii_case (sha256_hex c b) (m_checksum_sha256 m))
   | None \<Rightarrow> (if empty_slice then Inr (eq_ignore_ascii_case (m_checksum_sha256 m) EMPTY_SHA256)
             else Inl DataRead))"

text \<open>The reverse stack: no key, or a decoder that says whether it reaches the end.\<close>

definition verify_deep_decode ::
  "(BackupManifest \<Rightarrow> (bytes \<Rightarrow> bool) option) \<Rightarrow> store \<Rightarrow> string \<Rightarrow> BackupManifest \<Rightarrow> bool \<Rightarrow>
   verify_error + bool" where
  "verify_deep_decode stack s i m empty_slice =
     (if empty_slice \<and> sto_get s (data_path i) = None then Inr True
      else case stack m of
        None \<Rightarrow> Inl KeyMissing
      | Some dec \<Rightarrow> (case sto_get s (data_path i) of
          None \<Rightarrow> Inl DataRead
        | Some b \<Rightarrow> (if dec b then Inr True else Inl DecodeFailed)))"

definition verify_backup ::
  "codec \<Rightarrow> (BackupManifest \<Rightarrow> (bytes \<Rightarrow> bool) option) \<Rightarrow> store \<Rightarrow> string \<Rightarrow> bool \<Rightarrow>
   verify_error + VerifyReport" where
  "verify_backup c stack s i deep = (case store_read c s i of
     None \<Rightarrow> Inl ManifestLoad
   | Some m \<Rightarrow>
       (if \<not> verify_manifest_sidecar c s i then Inl SidecarMismatch
        else let empty_slice = (m_oplog_count m = Some 0) in
          bind_res (verify_data_checksum c s i m empty_slice) (\<lambda>ok.
            if \<not> ok then Inl ChecksumMismatch
            else bind_res (if deep then map_sum id Some (verify_deep_decode stack s i m empty_slice)
                           else Inr None) (\<lambda>dd.
              Inr \<lparr>vr_backup_id = i, vr_manifest_sidecar_ok = True, vr_data_checksum_ok = True,
                vr_deep_decode_ok = dd, vr_incomplete_warning = (m_status m = Incomplete),
                vr_empty_slice = empty_slice\<rparr>))))"

section \<open>Copying to another destination\<close>

definition copy_object :: "store \<Rightarrow> string \<Rightarrow> store \<Rightarrow> string + store" where
  "copy_object src p dst = (case sto_get src p of None \<Rightarrow> Inl p | Some b \<Rightarrow> Inr (sto_put p b dst))"

definition replicate_artifact :: "store \<Rightarrow> store \<Rightarrow> string \<Rightarrow> bool \<Rightarrow> string + store" where
  "replicate_artifact src dst i has_data =
     bind_res (if has_data then copy_object src (data_path i) dst else Inr dst) (\<lambda>d1.
     bind_res (copy_object src (manifest_path i) d1) (\<lambda>d2.
     copy_object src (manifest_sha_path i) d2))"

lemma copy_object_Inr:
  "copy_object src p dst = Inr dst' \<longleftrightarrow> (\<exists>b. sto_get src p = Some b \<and> dst' = sto_put p b dst)"
  by (auto simp: copy_object_def split: option.splits)

section \<open>Facts on the objects\<close>

lemma sto_get_put_objects:
  "sto_get (put_objects ws s) p = (case map_of (rev ws) p of Some b \<Rightarrow> Some b | None \<Rightarrow> sto_get s p)"
proof (induction ws arbitrary: s)
  case (Cons w ws)
  then show ?case
    by (cases w) (auto simp: map_add_def split: option.splits)
qed simp

lemma parse_sidecar_checksum:
  assumes "sha256_hex c bs \<noteq> []" and "\<forall>ch \<in> set (sha256_hex c bs). \<not> is_whitespace ch"
  shows "parse_sidecar (sidecar_checksum c bs) = Some (sha256_hex c bs)"
proof -
  have "takeWhile (\<lambda>ch. \<not> is_whitespace ch) (sidecar_checksum c bs) = sha256_hex c bs"
    using assms(2) by (simp add: sidecar_checksum_def is_whitespace_def)
  moreover have "dropWhile is_whitespace (sidecar_checksum c bs) = sidecar_checksum c bs"
    using assms by (cases "sha256_hex c bs") (simp_all add: sidecar_checksum_def)
  ultimately show ?thesis
    using assms(1) by (simp add: parse_sidecar_def split: list.split)
qed

text \<open>What the writes need of the digest and of JSON: a nonempty word, and a round trip.\<close>

definition codec_ok :: "codec \<Rightarrow> BackupManifest \<Rightarrow> bool" where
  "codec_ok c m \<longleftrightarrow> from_json c (to_json c m) = Some m \<and>
     sha256_hex c (to_json c m) \<noteq> [] \<and>
     (\<forall>ch \<in> set (sha256_hex c (to_json c m)). \<not> is_whitespace ch)"

lemma eq_ignore_ascii_case_refl [simp]: "eq_ignore_ascii_case a a"
  by (simp add: eq_ignore_ascii_case_def)

section \<open>A concrete codec\<close>

text \<open>The digest is the length in stars, the only manifest the sample.\<close>

definition ex_codec :: codec where
  "ex_codec = \<lparr>sha256_hex = (\<lambda>bs. CHR ''s'' # map (\<lambda>_. CHR ''*'') bs),
     to_json = (\<lambda>m. [1, 2, 3]),
     from_json = (\<lambda>bs. if bs = [1, 2, 3] then Some (sample_manifest\<lparr>m_checksum_sha256 := ''s**''\<rparr>)
       else None)\<rparr>"

definition ex_mf :: BackupManifest where
  "ex_mf = sample_manifest\<lparr>m_checksum_sha256 := ''s**''\<rparr>"

definition ex_store :: store where
  "ex_store = put_objects (artifact_objects ex_codec ex_mf (Some [7, 8])) []"

section \<open>Properties\<close>

text \<open>The objects of a complete backup at a destination, and that they verify.\<close>

definition artifact_at :: "codec \<Rightarrow> store \<Rightarrow> BackupManifest \<Rightarrow> bytes option \<Rightarrow> bool" where
  "artifact_at c s m data \<longleftrightarrow> sto_get s (data_path (m_id m)) = data \<and>
     sto_get s (manifest_path (m_id m)) = Some (to_json c m) \<and>
     sto_get s (manifest_sha_path (m_id m)) = Some (to_bytes (sidecar_checksum c (to_json c m)))"

definition data_matches :: "codec \<Rightarrow> BackupManifest \<Rightarrow> bytes option \<Rightarrow> bool" where
  "data_matches c m data = (case data of
     Some b \<Rightarrow> eq_ignore_ascii_case (sha256_hex c b) (m_checksum_sha256 m)
   | None \<Rightarrow> m_oplog_count m = Some 0 \<and> eq_ignore_ascii_case (m_checksum_sha256 m) EMPTY_SHA256)"

definition sound_report :: "BackupManifest \<Rightarrow> VerifyReport" where
  "sound_report m = \<lparr>vr_backup_id = m_id m, vr_manifest_sidecar_ok = True, vr_data_checksum_ok = True,
     vr_deep_decode_ok = None, vr_incomplete_warning = (m_status m = Incomplete),
     vr_empty_slice = (m_oplog_count m = Some 0)\<rparr>"

lemma artifact_verifies:
  assumes "codec_ok c m" and "artifact_at c s m data" and "data_matches c m data"
  shows "verify_backup c stack s (m_id m) False = Inr (sound_report m)"
proof -
  have "parse_sidecar (sidecar_checksum c (to_json c m)) = Some (sha256_hex c (to_json c m))"
    using assms(1) by (simp add: codec_ok_def parse_sidecar_checksum)
  with assms(2) have "verify_manifest_sidecar c s (m_id m)"
    by (simp add: verify_manifest_sidecar_def artifact_at_def)
  moreover have "store_read c s (m_id m) = Some m"
    using assms(1,2) by (simp add: store_read_def artifact_at_def codec_ok_def)
  moreover have "verify_data_checksum c s (m_id m) m (m_oplog_count m = Some 0) = Inr True"
    using assms(2,3)
    by (auto simp: verify_data_checksum_def artifact_at_def data_matches_def split: option.splits)
  ultimately show ?thesis
    by (simp add: verify_backup_def sound_report_def Let_def)
qed

lemma artifact_put:
  "artifact_at c (put_objects (artifact_objects c m (Some b)) s) m (Some b)"
  by (simp add: artifact_at_def artifact_objects_def manifest_objects_def)

text \<open>C11: a backup written in the order of the code verifies: whatever the destination held before,
  after the data, the manifest and its sidecar are written, the structural verification of the id
  succeeds, with the warning exactly for an incomplete backup.\<close>

theorem write_then_verify:
  assumes "codec_ok c m" and "eq_ignore_ascii_case (sha256_hex c data) (m_checksum_sha256 m)"
  shows "verify_backup c stack (put_objects (artifact_objects c m (Some data)) s) (m_id m) False =
    Inr \<lparr>vr_backup_id = m_id m, vr_manifest_sidecar_ok = True, vr_data_checksum_ok = True,
      vr_deep_decode_ok = None, vr_incomplete_warning = (m_status m = Incomplete),
      vr_empty_slice = (m_oplog_count m = Some 0)\<rparr>"
  using artifact_verifies [OF assms(1) artifact_put] assms(2)
  by (simp add: data_matches_def sound_report_def)

theorem write_then_verify_witness:
  "verify_backup ex_codec (\<lambda>_. None) (put_objects (artifact_objects ex_codec ex_mf (Some [7, 8])) [])
     (m_id ex_mf) False =
    Inr \<lparr>vr_backup_id = m_id ex_mf, vr_manifest_sidecar_ok = True, vr_data_checksum_ok = True,
      vr_deep_decode_ok = None, vr_incomplete_warning = (m_status ex_mf = Incomplete),
      vr_empty_slice = (m_oplog_count ex_mf = Some 0)\<rparr>"
  by (rule write_then_verify) code_simp+

text \<open>C26: verification is sound: a report is returned only when the manifest parses, its bytes have
  the digest the sidecar records, and the stored data have the digest of the manifest; only an
  empty slice may have no data, and then its recorded digest is that of the empty input.\<close>

theorem verify_backup_sound:
  assumes "verify_backup c stack s i deep = Inr r"
  shows "vr_is_ok r \<and> (\<exists>m mbytes raw recorded expected.
    sto_get s (manifest_path i) = Some mbytes \<and> from_json c mbytes = Some m \<and>
    sto_get s (manifest_sha_path i) = Some raw \<and> parse_sidecar (of_bytes raw) = Some recorded \<and>
    parse_sidecar (sidecar_checksum c mbytes) = Some expected \<and>
    eq_ignore_ascii_case recorded expected \<and>
    (case sto_get s (data_path i) of
       Some b \<Rightarrow> eq_ignore_ascii_case (sha256_hex c b) (m_checksum_sha256 m)
     | None \<Rightarrow> m_oplog_count m = Some 0 \<and>
         eq_ignore_ascii_case (m_checksum_sha256 m) EMPTY_SHA256) \<and>
    vr_incomplete_warning r = (m_status m = Incomplete))"
proof -
  from assms obtain m where m: "store_read c s i = Some m" "verify_manifest_sidecar c s i"
    "verify_data_checksum c s i m (m_oplog_count m = Some 0) = Inr True"
    and r: "vr_manifest_sidecar_ok r" "vr_data_checksum_ok r"
      "vr_incomplete_warning r = (m_status m = Incomplete)"
    and dd: "vr_deep_decode_ok r = None \<or>
      (\<exists>b. vr_deep_decode_ok r = Some b \<and>
         verify_deep_decode stack s i m (m_oplog_count m = Some 0) = Inr b)"
    by (auto simp: verify_backup_def Let_def bind_res_Inr_iff map_sum_def split: option.splits if_splits sum.splits)
  from dd have "case vr_deep_decode_ok r of Some b \<Rightarrow> b | None \<Rightarrow> True"
    by (auto simp: verify_deep_decode_def split: if_splits option.splits)
  with r have "vr_is_ok r"
    by (simp add: vr_is_ok_def)
  moreover from m(1) obtain mbytes where mb: "sto_get s (manifest_path i) = Some mbytes"
    "from_json c mbytes = Some m"
    by (auto simp: store_read_def split: option.splits)
  moreover from m(2) mb(1) obtain raw recorded expected where
    "sto_get s (manifest_sha_path i) = Some raw" "parse_sidecar (of_bytes raw) = Some recorded"
    "parse_sidecar (sidecar_checksum c mbytes) = Some expected"
    "eq_ignore_ascii_case recorded expected"
    by (auto simp: verify_manifest_sidecar_def split: option.splits)
  moreover from m(3) have "case sto_get s (data_path i) of
       Some b \<Rightarrow> eq_ignore_ascii_case (sha256_hex c b) (m_checksum_sha256 m)
     | None \<Rightarrow> m_oplog_count m = Some 0 \<and>
         eq_ignore_ascii_case (m_checksum_sha256 m) EMPTY_SHA256"
    by (auto simp: verify_data_checksum_def split: option.splits if_splits)
  ultimately show ?thesis
    using r(3) by blast
qed

theorem verify_backup_sound_witness:
  "\<exists>b. sto_get ex_store (data_path ''full-1'') = Some b \<and>
     eq_ignore_ascii_case (sha256_hex ex_codec b) ''s**''"
proof -
  have "verify_backup ex_codec (\<lambda>_. None) ex_store ''full-1'' False =
    Inr (projr (verify_backup ex_codec (\<lambda>_. None) ex_store ''full-1'' False))"
    by code_simp
  note this [THEN verify_backup_sound]
  then obtain m where m: "from_json ex_codec [1, 2, 3] = Some m"
    "case sto_get ex_store (data_path ''full-1'') of
       Some b \<Rightarrow> eq_ignore_ascii_case (sha256_hex ex_codec b) (m_checksum_sha256 m)
     | None \<Rightarrow> m_oplog_count m = Some 0 \<and>
         eq_ignore_ascii_case (m_checksum_sha256 m) EMPTY_SHA256"
    by (auto simp: ex_store_def artifact_objects_def manifest_objects_def ex_mf_def ex_codec_def
        sample_manifest_def)
  moreover have "from_json ex_codec [1, 2, 3] = Some ex_mf"
    by code_simp
  ultimately show ?thesis
    by (auto simp: ex_mf_def sample_manifest_def split: option.splits)
qed

text \<open>a copy that succeeds gives the other destination the same manifest, sidecar and (if it has
  data) data, so it verifies there exactly as in the first, and touches nothing else.\<close>

theorem replicate_verifies_alike:
  assumes "replicate_artifact src dst i has_data = Inr dst'"
    and "has_data \<or> sto_get src (data_path i) = sto_get dst (data_path i)"
  shows "verify_backup c stack dst' i deep = verify_backup c stack src i deep \<and>
    (\<forall>p. p \<notin> {data_path i, manifest_path i, manifest_sha_path i} \<longrightarrow> sto_get dst' p = sto_get dst p)"
proof -
  from assms have same: "sto_get dst' (manifest_path i) = sto_get src (manifest_path i)"
    "sto_get dst' (manifest_sha_path i) = sto_get src (manifest_sha_path i)"
    "sto_get dst' (data_path i) = sto_get src (data_path i)"
    and frame: "\<forall>p. p \<notin> {data_path i, manifest_path i, manifest_sha_path i} \<longrightarrow> sto_get dst' p = sto_get dst p"
    by (auto simp: replicate_artifact_def bind_res_Inr_iff copy_object_Inr split: if_splits)
  have "verify_backup c stack dst' i deep = verify_backup c stack src i deep"
    unfolding verify_backup_def store_read_def verify_manifest_sidecar_def verify_data_checksum_def
      verify_deep_decode_def same ..
  with frame show ?thesis by blast
qed

theorem replicate_verifies_alike_witness:
  "verify_backup ex_codec (\<lambda>_. None) (projr (replicate_artifact ex_store [] ''full-1'' True)) ''full-1'' False =
     verify_backup ex_codec (\<lambda>_. None) ex_store ''full-1'' False"
  by (rule replicate_verifies_alike [where has_data = True and dst = "[]", THEN conjunct1]) code_simp+

text \<open>the index sidecar of a file backup is not copied: a successful copy leaves the index of
  the other destination as it was, so a destination that had none has none afterwards.\<close>

theorem replicate_drops_file_index:
  assumes "replicate_artifact src dst i has_data = Inr dst'"
  shows "sto_get dst' (file_index_path i) = sto_get dst (file_index_path i)"
  using assms
  by (auto simp: replicate_artifact_def bind_res_Inr_iff copy_object_Inr split: if_splits)

theorem replicate_drops_file_index_witness:
  "sto_get (projr (replicate_artifact (sto_put (file_index_path ''full-1'') [5] ex_store) [] ''full-1'' True))
     (file_index_path ''full-1'') = sto_get [] (file_index_path ''full-1'')"
  by (rule replicate_drops_file_index [where has_data = True
        and src = "sto_put (file_index_path ''full-1'') [5] ex_store"]) code_simp

end
