(* ===== verification/XB_Prune.thy ===== *)
theory XB_Prune
  imports XB_Chain XB_Storage
begin

text \<open>
  Retention (\<open>pipeline/prune.rs\<close>): the pure plan that groups backups into chains and applies the
  retention rules, the collection of orphans, and the deletion with its order. The parser of
  RFC 3339 times (\<open>chrono\<close>) is a parameter. The lemmas show that chains are kept or deleted as a
  whole, what each rule guarantees, and what an interrupted deletion leaves behind.
\<close>

section \<open>Policy and plan\<close>

record RetentionPolicy =
  keep_full :: "u32 option"
  keep_days :: "u32 option"
  keep_last :: "u32 option"
  recovery_window_days :: "u32 option"
  min_redundancy :: "u32 option"

definition is_unspecified :: "RetentionPolicy \<Rightarrow> bool" where
  "is_unspecified p \<longleftrightarrow> keep_full p = None \<and> keep_days p = None \<and> keep_last p = None \<and>
     recovery_window_days p = None \<and> min_redundancy p = None"

datatype PruneKind = Chain | Orphan | IncompleteKind

definition is_normal_chain :: "PruneKind \<Rightarrow> bool" where
  "is_normal_chain k \<longleftrightarrow> k = Chain"

text \<open>The reason of a target: the rules with their numbers, in the order of the message.\<close>

datatype rule_part =
    RKeepFull u32 nat
  | RKeepDays u32
  | RKeepLast u32
  | RRecoveryWindow u32
  | RMinRedundancy u32

datatype prune_reason =
    NoRetentionRule
  | ExceedsRetention "rule_part list"
  | IncompleteRemnant
  | OrphanArtifact

record PruneTarget =
  pt_kind :: PruneKind
  pt_base_id :: string
  pt_member_ids :: "string list"
  pt_reason :: prune_reason

record PrunePlan =
  pl_targets :: "PruneTarget list"
  pl_kept_base_ids :: "string list"

definition plan_is_empty :: "PrunePlan \<Rightarrow> bool" where
  "plan_is_empty p \<longleftrightarrow> pl_targets p = []"

definition has_normal_chain_targets :: "PrunePlan \<Rightarrow> bool" where
  "has_normal_chain_targets p \<longleftrightarrow> list_ex (\<lambda>t. is_normal_chain (pt_kind t)) (pl_targets p)"

definition has_force_only_targets :: "PrunePlan \<Rightarrow> bool" where
  "has_force_only_targets p \<longleftrightarrow> list_ex (\<lambda>t. \<not> is_normal_chain (pt_kind t)) (pl_targets p)"

definition deletable_member_ids :: "PrunePlan \<Rightarrow> bool \<Rightarrow> string list" where
  "deletable_member_ids p include_force_only = concat (map pt_member_ids
     (filter (\<lambda>t. include_force_only \<or> is_normal_chain (pt_kind t)) (pl_targets p)))"

definition prune_reason_of :: "RetentionPolicy \<Rightarrow> nat \<Rightarrow> prune_reason" where
  "prune_reason_of p idx =
     (let parts =
        (case keep_full p of Some n \<Rightarrow> [RKeepFull n (idx + 1)] | None \<Rightarrow> []) @
        (case keep_days p of Some d \<Rightarrow> [RKeepDays d] | None \<Rightarrow> []) @
        (case keep_last p of Some l \<Rightarrow> [RKeepLast l] | None \<Rightarrow> []) @
        (case recovery_window_days p of Some w \<Rightarrow> [RRecoveryWindow w] | None \<Rightarrow> []) @
        (case min_redundancy p of Some m \<Rightarrow> [RMinRedundancy m] | None \<Rightarrow> [])
      in if parts = [] then NoRetentionRule else ExceedsRetention parts)"

section \<open>Chains\<close>

record ChainGroup =
  cg_base_id :: string
  cg_member_ids :: "string list"
  cg_base_created :: int
  cg_newest_created :: int

definition I64_MIN :: int where
  "I64_MIN = - (2 ^ 63)"

definition created_secs :: "(string \<Rightarrow> int option) \<Rightarrow> BackupManifest \<Rightarrow> int option" where
  "created_secs parse m = parse (m_created_at m)"

definition find_manifest :: "BackupManifest list \<Rightarrow> string \<Rightarrow> BackupManifest option" where
  "find_manifest ms i = List.find (\<lambda>m. m_id m = i) ms"

definition mk_group ::
  "(string \<Rightarrow> int option) \<Rightarrow> BackupManifest list \<Rightarrow> BackupManifest \<Rightarrow> ChainReport \<Rightarrow> ChainGroup" where
  "mk_group parse manifests m report =
     (let members = m_id m # cr_incremental_ids report;
          base_created = (case created_secs parse m of Some t \<Rightarrow> t | None \<Rightarrow> I64_MIN);
          newest = max_opt (List.map_filter (created_secs parse)
            (List.map_filter (find_manifest manifests) members))
      in \<lparr>cg_base_id = m_id m, cg_member_ids = members, cg_base_created = base_created,
          cg_newest_created = (case newest of Some t \<Rightarrow> t | None \<Rightarrow> base_created)\<rparr>)"

text \<open>Step 1: one pass over the manifests, with the verifier's cache threaded through.\<close>

fun group_loop ::
  "(string \<Rightarrow> int option) \<Rightarrow> BackupManifest list \<Rightarrow> ChainVerifier \<Rightarrow> BackupManifest list \<Rightarrow>
   ChainGroup list" where
  "group_loop parse manifests v [] = []"
| "group_loop parse manifests v (m # ms) =
     (if m_backup_type m \<noteq> Full then group_loop parse manifests v ms
      else if m_status m = Incomplete then group_loop parse manifests v ms
      else (case verifier_verify v (m_id m) of
          (report, v') \<Rightarrow> mk_group parse manifests m report # group_loop parse manifests v' ms))"

text \<open>Step 2: newest base first, equal times by id.\<close>

definition group_cmp :: "ChainGroup \<Rightarrow> ChainGroup \<Rightarrow> ordering" where
  "group_cmp a b = then_cmp (cmp (cg_base_created b) (cg_base_created a)) (cmp (cg_base_id a) (cg_base_id b))"

interpretation group: comparator group_cmp
  by unfold_locales (auto simp: group_cmp_def)

definition chain_groups ::
  "(string \<Rightarrow> int option) \<Rightarrow> BackupManifest list \<Rightarrow> ChainGroup list" where
  "chain_groups parse manifests = sort_by group_cmp
     (group_loop parse manifests (verifier_new (map from_manifest manifests)) manifests)"

section \<open>The rules\<close>

definition cutoff :: "int \<Rightarrow> u32 option \<Rightarrow> int option" where
  "cutoff now_secs days = map_option (\<lambda>d. now_secs - uint d * 86400) days"

definition boundary_index :: "int option \<Rightarrow> ChainGroup list \<Rightarrow> nat option" where
  "boundary_index window_cutoff groups = (case window_cutoff of
     None \<Rightarrow> None
   | Some limit \<Rightarrow> position (\<lambda>c. cg_base_created c \<le> limit) groups)"

definition is_some_and :: "'a option \<Rightarrow> ('a \<Rightarrow> bool) \<Rightarrow> bool" where
  "is_some_and x f \<longleftrightarrow> (case x of Some v \<Rightarrow> f v | None \<Rightarrow> False)"

definition kept_by_rules ::
  "RetentionPolicy \<Rightarrow> int \<Rightarrow> nat option \<Rightarrow> nat \<Rightarrow> nat \<Rightarrow> ChainGroup \<Rightarrow> bool" where
  "kept_by_rules p now_secs boundary idx members_before chain \<longleftrightarrow>
     is_some_and (keep_full p) (\<lambda>n. idx < unat n) \<or>
     is_some_and (cutoff now_secs (keep_days p)) (\<lambda>limit. limit \<le> cg_newest_created chain) \<or>
     is_some_and (keep_last p) (\<lambda>n. members_before < unat n) \<or>
     (is_some_and (cutoff now_secs (recovery_window_days p)) (\<lambda>limit. limit \<le> cg_newest_created chain) \<or>
      boundary = Some idx) \<or>
     is_some_and (min_redundancy p) (\<lambda>m. idx < unat m)"

text \<open>Step 3, with the running index and the running member count.\<close>

fun rule_loop ::
  "RetentionPolicy \<Rightarrow> int \<Rightarrow> nat option \<Rightarrow> nat \<Rightarrow> nat \<Rightarrow> ChainGroup list \<Rightarrow>
   PruneTarget list \<times> string list" where
  "rule_loop p now_secs boundary idx members_before [] = ([], [])"
| "rule_loop p now_secs boundary idx members_before (chain # groups) =
     (if is_unspecified p then
        (case rule_loop p now_secs boundary (idx + 1) members_before groups of
           (ts, ks) \<Rightarrow> (ts, cg_base_id chain # ks))
      else
        (case rule_loop p now_secs boundary (idx + 1)
                (members_before + length (cg_member_ids chain)) groups of
           (ts, ks) \<Rightarrow>
             (if kept_by_rules p now_secs boundary idx members_before chain
              then (ts, cg_base_id chain # ks)
              else (\<lparr>pt_kind = Chain, pt_base_id = cg_base_id chain,
                     pt_member_ids = cg_member_ids chain,
                     pt_reason = prune_reason_of p idx\<rparr> # ts, ks))))"

definition incomplete_targets :: "BackupManifest list \<Rightarrow> ChainGroup list \<Rightarrow> PruneTarget list" where
  "incomplete_targets manifests groups =
     map (\<lambda>m. \<lparr>pt_kind = IncompleteKind, pt_base_id = m_id m, pt_member_ids = [m_id m],
                pt_reason = IncompleteRemnant\<rparr>)
       (filter (\<lambda>m. m_status m = Incomplete \<and>
                    m_id m \<notin> set (concat (map cg_member_ids groups))) manifests)"

definition orphan_targets :: "string list \<Rightarrow> PruneTarget list" where
  "orphan_targets ids = map (\<lambda>i. \<lparr>pt_kind = Orphan, pt_base_id = i, pt_member_ids = [i],
     pt_reason = OrphanArtifact\<rparr>) ids"

definition plan_prune ::
  "(string \<Rightarrow> int option) \<Rightarrow> BackupManifest list \<Rightarrow> string list \<Rightarrow> RetentionPolicy \<Rightarrow> int \<Rightarrow> PrunePlan"
  where
  "plan_prune parse manifests orphan_ids policy now_secs =
     (let groups = chain_groups parse manifests;
          boundary = boundary_index (cutoff now_secs (recovery_window_days policy)) groups
      in case rule_loop policy now_secs boundary 0 0 groups of
        (targets, kept) \<Rightarrow>
          \<lparr>pl_targets = targets @ incomplete_targets manifests groups @ orphan_targets orphan_ids,
           pl_kept_base_ids = kept\<rparr>)"

section \<open>Collecting the backups\<close>

definition detect_orphan_ids :: "store \<Rightarrow> string list \<Rightarrow> string list" where
  "detect_orphan_ids s known_ids = sort_dedup (List.map_filter
     (\<lambda>p. case strip_suffix (''/'' @ DATA_FILE) p of
        Some i \<Rightarrow> (if i \<noteq> [] \<and> CHR ''/'' \<notin> set i \<and> i \<notin> set known_ids \<and>
                     manifest_path i \<notin> set (sto_list s) then Some i else None)
      | None \<Rightarrow> None) (sto_list s))"

definition load_backups :: "codec \<Rightarrow> store \<Rightarrow> BackupManifest list \<times> string list" where
  "load_backups c s =
     (let ids = collect_manifest_ids s
      in (List.map_filter (store_read c s) ids, detect_orphan_ids s ids))"

section \<open>Deleting\<close>

text \<open>
  A destination under deletion: the paths that exist and the answers of the backend to the next
  calls, a message when a call fails.
\<close>

record del_state =
  ds_paths :: "string set"
  ds_answers :: "string option list"

fun contains :: "string \<Rightarrow> string \<Rightarrow> bool" where
  "contains needle [] \<longleftrightarrow> needle = []"
| "contains needle (x # xs) \<longleftrightarrow> take (length needle) (x # xs) = needle \<or> contains needle xs"

text \<open>The Korean wording of ``not found'' the code looks for, in UTF-8.\<close>

definition MSG_NOT_FOUND_KO :: string where
  "MSG_NOT_FOUND_KO = map char_of [0xEC, 0xB0, 0xBE, 0xEC, 0x9D, 0x84, 0x20, 0xEC, 0x88, 0x98, 0x20,
     0xEC, 0x97, 0x86 :: nat]"

definition is_not_found :: "string \<Rightarrow> bool" where
  "is_not_found msg \<longleftrightarrow> contains ''not found'' msg \<or> contains ''No such file'' msg \<or>
     contains ''NotFound'' msg \<or> contains MSG_NOT_FOUND_KO msg"

definition delete_if_exists :: "string \<Rightarrow> del_state \<Rightarrow> bool \<times> del_state" where
  "delete_if_exists path st = (case ds_answers st of
     Some msg # rest \<Rightarrow> (is_not_found msg, st\<lparr>ds_answers := rest\<rparr>)
   | None # rest \<Rightarrow> (True, \<lparr>ds_paths = ds_paths st - {path}, ds_answers = rest\<rparr>)
   | [] \<Rightarrow> (True, \<lparr>ds_paths = ds_paths st - {path}, ds_answers = []\<rparr>))"

text \<open>The calls one after another until the first that fails.\<close>

fun delete_paths :: "string list \<Rightarrow> del_state \<Rightarrow> bool \<times> del_state" where
  "delete_paths [] st = (True, st)"
| "delete_paths (p # ps) st = (case delete_if_exists p st of
     (True, st') \<Rightarrow> delete_paths ps st' | (False, st') \<Rightarrow> (False, st'))"

definition artifact_paths :: "string \<Rightarrow> string list" where
  "artifact_paths i = [data_path i, manifest_sha_path i, file_index_path i, manifest_path i]"

definition delete_one_backup :: "string \<Rightarrow> del_state \<Rightarrow> bool \<times> del_state" where
  "delete_one_backup i = delete_paths (artifact_paths i)"

definition delete_order :: "string list \<Rightarrow> string list" where
  "delete_order ids = (if length ids \<le> 1 then ids else rev (tl ids) @ [hd ids])"

record PruneOutcome =
  deleted_backups :: nat
  deleted_chains :: nat

fun delete_members :: "string list \<Rightarrow> del_state \<Rightarrow> nat \<Rightarrow> (nat option) \<times> del_state" where
  "delete_members [] st n = (Some n, st)"
| "delete_members (i # is) st n = (case delete_one_backup i st of
     (True, st') \<Rightarrow> delete_members is st' (n + 1) | (False, st') \<Rightarrow> (None, st'))"

fun execute_loop ::
  "bool \<Rightarrow> PruneTarget list \<Rightarrow> del_state \<Rightarrow> PruneOutcome \<Rightarrow> (PruneOutcome option) \<times> del_state" where
  "execute_loop force [] st out = (Some out, st)"
| "execute_loop force (t # ts) st out =
     (if \<not> force \<and> \<not> is_normal_chain (pt_kind t) then execute_loop force ts st out
      else (case delete_members (delete_order (pt_member_ids t)) st (deleted_backups out) of
          (None, st') \<Rightarrow> (None, st')
        | (Some n, st') \<Rightarrow> execute_loop force ts st'
            \<lparr>deleted_backups = n,
             deleted_chains = deleted_chains out + (if is_normal_chain (pt_kind t) then 1 else 0)\<rparr>))"

definition execute_prune :: "del_state \<Rightarrow> PrunePlan \<Rightarrow> bool \<Rightarrow> (PruneOutcome option) \<times> del_state" where
  "execute_prune st plan force =
     execute_loop force (pl_targets plan) st \<lparr>deleted_backups = 0, deleted_chains = 0\<rparr>"

section \<open>The groups\<close>

definition is_base :: "BackupManifest \<Rightarrow> bool" where
  "is_base m \<longleftrightarrow> m_backup_type m = Full \<and> m_status m \<noteq> Incomplete"

text \<open>The members of the chain of a base: itself and the incrementals that name it.\<close>

definition chain_ids :: "BackupManifest list \<Rightarrow> string \<Rightarrow> string set" where
  "chain_ids ms b = insert b {m_id x |x. x \<in> set ms \<and> m_backup_type x = Incremental \<and>
     m_base_id x = Some b}"

abbreviation nodes_of :: "BackupManifest list \<Rightarrow> ChainNode list" where
  "nodes_of ms \<equiv> map from_manifest ms"

lemma cn_id_from_manifest [simp]: "cn_id (from_manifest m) = m_id m"
  by (simp add: from_manifest_def)

lemma cn_id_comp [simp]: "cn_id \<circ> from_manifest = m_id"
  by (simp add: fun_eq_iff)

lemma incr_of_from_manifest [simp]:
  "incr_of b (from_manifest m) \<longleftrightarrow> m_backup_type m = Incremental \<and> m_base_id m = Some b"
  by (simp add: incr_of_def from_manifest_def)

definition group_of :: "(string \<Rightarrow> int option) \<Rightarrow> BackupManifest list \<Rightarrow> BackupManifest \<Rightarrow> ChainGroup" where
  "group_of parse ms m = mk_group parse ms m (verify_chain (nodes_of ms) (m_id m))"

lemma group_loop_eq:
  assumes "distinct (map m_id ms)"
  shows "verifier_for (nodes_of ms) v \<Longrightarrow>
    group_loop parse ms v xs = map (group_of parse ms) (filter is_base xs)"
proof (induction xs arbitrary: v)
  case (Cons x xs)
  show ?case
  proof (cases "is_base x")
    case True
    obtain r v' where v: "verifier_verify v (m_id x) = (r, v')"
      by fastforce
    have "r = verify_chain (nodes_of ms) (m_id x)" "verifier_for (nodes_of ms) v'"
      using verifier_verify_eq [OF Cons.prems, of "m_id x"] verifier_verify_snd [OF Cons.prems, of "m_id x"]
        assms v by simp_all
    with True v Cons.IH show ?thesis
      by (simp add: is_base_def group_of_def)
  next
    case False
    with Cons show ?thesis
      by (auto simp: is_base_def)
  qed
qed simp

lemma chain_groups_eq:
  assumes "distinct (map m_id ms)"
  shows "chain_groups parse ms = sort_by group_cmp (map (group_of parse ms) (filter is_base ms))"
  by (simp add: chain_groups_def group_loop_eq [OF assms verifier_for_new])

lemma group_of_simps [simp]:
  "cg_base_id (group_of parse ms m) = m_id m"
  "cg_member_ids (group_of parse ms m) =
     m_id m # cr_incremental_ids (verify_chain (nodes_of ms) (m_id m))"
  "cg_base_created (group_of parse ms m) =
     (case created_secs parse m of Some t \<Rightarrow> t | None \<Rightarrow> I64_MIN)"
  by (simp_all add: group_of_def mk_group_def Let_def)

lemma find_node_nodes_of:
  "distinct (map m_id ms) \<Longrightarrow> m \<in> set ms \<Longrightarrow> find_node (nodes_of ms) (m_id m) = Some (from_manifest m)"
  using find_node_distinct [of "nodes_of ms" "from_manifest m"] by simp

lemma incremental_ids_base:
  assumes "distinct (map m_id ms)" and "m \<in> set ms" and "is_base m"
  shows "cr_incremental_ids (verify_chain (nodes_of ms) (m_id m)) =
    map cn_id (sorted_incrs (nodes_of ms) (m_id m))"
proof -
  have "base_of (nodes_of ms) (m_id m) = Some (m_id m)"
    using assms by (simp add: base_of_def find_node_nodes_of is_base_def from_manifest_def)
  then show ?thesis
    using assms by (simp add: verify_chain_base_of judge_base_def find_node_nodes_of)
qed

lemma members_group_of:
  assumes "distinct (map m_id ms)" and "m \<in> set ms" and "is_base m"
  shows "set (cg_member_ids (group_of parse ms m)) = chain_ids ms (m_id m)"
    and "distinct (cg_member_ids (group_of parse ms m))"
proof -
  show "set (cg_member_ids (group_of parse ms m)) = chain_ids ms (m_id m)"
  proof -
    have "cn_id ` {n \<in> set (nodes_of ms). incr_of (m_id m) n} =
      {m_id x |x. x \<in> set ms \<and> m_backup_type x = Incremental \<and> m_base_id x = Some (m_id m)}"
      by force
    then show ?thesis
      by (simp add: incremental_ids_base [OF assms] chain_ids_def)
  qed
  have "distinct (map cn_id (sorted_incrs (nodes_of ms) (m_id m)))"
    using assms(1) unfolding sorted_incrs_def distinct_map_sort_by
    by (simp add: distinct_map_filter)
  moreover have "m_id m \<notin> cn_id ` {n \<in> set (nodes_of ms). incr_of (m_id m) n}"
  proof
    assume "m_id m \<in> cn_id ` {n \<in> set (nodes_of ms). incr_of (m_id m) n}"
    then obtain x where x: "x \<in> set ms" "m_id x = m_id m" "m_backup_type x = Incremental"
      by auto
    with assms(1,2) have "x = m"
      by (auto simp: distinct_map inj_on_def)
    with x(3) assms(3) show False
      by (simp add: is_base_def)
  qed
  ultimately show "distinct (cg_member_ids (group_of parse ms m))"
    by (simp add: incremental_ids_base [OF assms])
qed

text \<open>Chains of distinct bases have no member in common.\<close>

lemma chain_ids_disjoint:
  assumes "distinct (map m_id ms)" and "a \<in> set ms" "is_base a" and "b \<in> set ms" "is_base b"
    and "i \<in> chain_ids ms (m_id a)" "i \<in> chain_ids ms (m_id b)"
  shows "a = b"
proof -
  have inj: "x = y" if "x \<in> set ms" "y \<in> set ms" "m_id x = m_id y" for x y
    using assms(1) that by (auto simp: distinct_map inj_on_def)
  from assms(6,7) inj assms(2-5) show ?thesis
    unfolding chain_ids_def is_base_def by (smt (verit) BackupType.distinct(1) insertE mem_Collect_eq option.inject)
qed

section \<open>The rule loop\<close>

text \<open>The loop splits the chains into targets and kept ones.\<close>

lemma rule_loop_split:
  "rule_loop p now bd idx mb gs = (ts, ks) \<Longrightarrow>
     mset (map pt_base_id ts) + mset ks = mset (map cg_base_id gs) \<and>
     (\<forall>t \<in> set ts. pt_kind t = Chain \<and>
        (\<exists>g \<in> set gs. pt_base_id t = cg_base_id g \<and> pt_member_ids t = cg_member_ids g))"
proof (induction gs arbitrary: idx mb ts ks)
  case (Cons g gs)
  then show ?case
    by (fastforce split: prod.splits if_splits)
qed simp

lemma rule_loop_unspecified:
  "is_unspecified p \<Longrightarrow> rule_loop p now bd idx mb gs = ([], map cg_base_id gs)"
  by (induction gs arbitrary: idx mb) auto

text \<open>A chain that a rule keeps at its position is kept.\<close>

lemma rule_loop_kept:
  assumes "rule_loop p now bd idx mb gs = (ts, ks)" and "k < length gs"
    and "\<And>mb. is_unspecified p \<or> kept_by_rules p now bd (idx + k) mb (gs ! k)"
  shows "cg_base_id (gs ! k) \<in> set ks"
  using assms
proof (induction gs arbitrary: idx mb ts ks k)
  case (Cons g gs)
  show ?case
  proof (cases k)
    case 0
    with Cons.prems(1) Cons.prems(3) [of mb] show ?thesis
      by (auto split: prod.splits if_splits)
  next
    case (Suc j)
    then have j: "j < length gs" "\<And>mb. is_unspecified p \<or> kept_by_rules p now bd (Suc idx + j) mb (gs ! j)"
      using Cons.prems(2,3) by auto
    obtain ts' ks' where rest: "rule_loop p now bd (Suc idx)
        (if is_unspecified p then mb else mb + length (cg_member_ids g)) gs = (ts', ks')"
      by fastforce
    with Cons.prems(1) have "set ks' \<subseteq> set ks"
      by (auto split: if_splits)
    with rest Cons.IH [OF _ j] Suc show ?thesis
      by auto
  qed
qed simp

section \<open>What the plan deletes\<close>

text \<open>The inputs as the collection produces them: ids once, orphans apart from the manifests.\<close>

definition inputs_ok :: "BackupManifest list \<Rightarrow> string list \<Rightarrow> bool" where
  "inputs_ok ms orphans \<longleftrightarrow> distinct (map m_id ms) \<and> distinct orphans \<and>
     set orphans \<inter> m_id ` set ms = {}"

lemma plan_prune_obtain:
  assumes "inputs_ok ms orphans" and "plan = plan_prune parse ms orphans p now"
  obtains gs ts where "gs = chain_groups parse ms"
    and "set gs = group_of parse ms ` {m \<in> set ms. is_base m}"
    and "distinct (map cg_base_id gs)"
    and "rule_loop p now (boundary_index (cutoff now (recovery_window_days p)) gs) 0 0 gs =
      (ts, pl_kept_base_ids plan)"
    and "pl_targets plan = ts @ incomplete_targets ms gs @ orphan_targets orphans"
proof -
  let ?gs = "chain_groups parse ms"
  have d: "distinct (map m_id ms)"
    using assms(1) by (simp add: inputs_ok_def)
  have eq: "?gs = sort_by group_cmp (map (group_of parse ms) (filter is_base ms))"
    using chain_groups_eq [OF d] .
  have comp: "cg_base_id \<circ> group_of parse ms = m_id"
    by (simp add: fun_eq_iff)
  have "set ?gs = group_of parse ms ` {m \<in> set ms. is_base m}"
    by (simp add: eq)
  moreover have "distinct (map cg_base_id ?gs)"
    using d by (simp add: eq comp distinct_map_filter)
  ultimately show ?thesis
    using that assms(2) by (auto simp: plan_prune_def Let_def split: prod.splits)
qed

text \<open>The member of a chain is deleted exactly when its base is not kept, forced or not.\<close>

lemma chain_member_deletable:
  assumes ok: "inputs_ok ms orphans" and plan: "plan = plan_prune parse ms orphans p now"
    and b: "b \<in> set ms" "is_base b" and i: "i \<in> chain_ids ms (m_id b)"
  shows "i \<in> set (deletable_member_ids plan force) \<longleftrightarrow> m_id b \<notin> set (pl_kept_base_ids plan)"
proof -
  obtain gs ts where "gs = chain_groups parse ms"
    and gs: "set gs = group_of parse ms ` {m \<in> set ms. is_base m}" "distinct (map cg_base_id gs)"
    and rl: "rule_loop p now (boundary_index (cutoff now (recovery_window_days p)) gs) 0 0 gs =
      (ts, pl_kept_base_ids plan)"
    and tg: "pl_targets plan = ts @ incomplete_targets ms gs @ orphan_targets orphans"
    using plan_prune_obtain [OF ok plan] .
  have d: "distinct (map m_id ms)"
    using ok by (simp add: inputs_ok_def)
  note sp = rule_loop_split [OF rl]
  have bg: "group_of parse ms b \<in> set gs"
    using gs(1) b by auto
  have m: "mset (map pt_base_id ts @ pl_kept_base_ids plan) = mset (map cg_base_id gs)"
    using sp by simp
  have "distinct (map pt_base_id ts @ pl_kept_base_ids plan)"
    using mset_eq_imp_distinct_iff [OF m] gs(2) by blast
  then have part1: "set (map pt_base_id ts) \<inter> set (pl_kept_base_ids plan) = {}"
    unfolding distinct_append by blast
  have part2: "set (map pt_base_id ts) \<union> set (pl_kept_base_ids plan) = cg_base_id ` set gs"
    using mset_eq_setD [OF m] unfolding set_append set_map .
  have mem: "i \<in> set (pt_member_ids t) \<longleftrightarrow> pt_base_id t = m_id b" if "t \<in> set ts" for t
  proof -
    from sp that obtain g where g: "g \<in> set gs" "pt_base_id t = cg_base_id g" "pt_member_ids t = cg_member_ids g"
      by blast
    with gs(1) obtain a where a: "a \<in> set ms" "is_base a" "g = group_of parse ms a"
      by auto
    have inj: "m_id a = m_id b \<Longrightarrow> a = b"
      using d a(1) b(1) by (auto simp: distinct_map inj_on_def)
    have "i \<in> chain_ids ms (m_id a) \<longleftrightarrow> a = b"
      using chain_ids_disjoint [OF d a(1,2) b] i by blast
    with g a inj members_group_of(1) [OF d a(1,2)] show ?thesis
      by auto
  qed
  have "i \<in> set (concat (map cg_member_ids gs))"
    using bg i unfolding members_group_of(1) [OF d b, symmetric, of parse]
    by (auto simp del: group_of_simps)
  then have inc: "i \<notin> set (pt_member_ids t)" if "t \<in> set (incomplete_targets ms gs)" for t
    using that by (auto simp: incomplete_targets_def)
  have "i \<in> m_id ` set ms"
    using i b by (auto simp: chain_ids_def)
  then have "i \<notin> set orphans"
    using ok by (auto simp: inputs_ok_def)
  then have orp: "i \<notin> set (pt_member_ids t)" if "t \<in> set (orphan_targets orphans)" for t
    using that by (auto simp: orphan_targets_def)
  have "i \<in> set (deletable_member_ids plan force) \<longleftrightarrow> (\<exists>t \<in> set ts. i \<in> set (pt_member_ids t))"
    using sp inc orp by (auto simp: deletable_member_ids_def tg is_normal_chain_def)
  also have "\<dots> \<longleftrightarrow> m_id b \<in> set (map pt_base_id ts)"
    unfolding set_map image_iff using mem by metis
  also have "\<dots> \<longleftrightarrow> m_id b \<notin> set (pl_kept_base_ids plan)"
  proof -
    have "m_id b \<in> cg_base_id ` set gs"
      using bg by (metis group_of_simps(1) imageI)
    with part1 part2 show ?thesis
      by blast
  qed
  finally show ?thesis .
qed

text \<open>A base at a position that a rule keeps is kept.\<close>

lemma base_kept_at:
  assumes "inputs_ok ms orphans" and "plan = plan_prune parse ms orphans p now"
    and "b \<in> set ms" "is_base b" and "gs = chain_groups parse ms"
    and "\<And>k mb. k < length gs \<Longrightarrow> gs ! k = group_of parse ms b \<Longrightarrow> is_unspecified p \<or>
      kept_by_rules p now (boundary_index (cutoff now (recovery_window_days p)) gs) k mb (gs ! k)"
  shows "m_id b \<in> set (pl_kept_base_ids plan)"
proof -
  from plan_prune_obtain [OF assms(1,2)] obtain ts where
    gs: "set gs = group_of parse ms ` {m \<in> set ms. is_base m}"
    and rl: "rule_loop p now (boundary_index (cutoff now (recovery_window_days p)) gs) 0 0 gs =
      (ts, pl_kept_base_ids plan)"
    using assms(5) by metis
  from gs assms(3,4) have "group_of parse ms b \<in> set gs" by auto
  then obtain k where "k < length gs" "gs ! k = group_of parse ms b"
    by (auto simp: in_set_conv_nth)
  with rule_loop_kept [OF rl this(1)] assms(6) show ?thesis
    by auto
qed

lemma Max_ge_map_filter: "t \<in> set xs \<Longrightarrow> \<exists>u. max_opt xs = Some u \<and> t \<le> u"
  by (auto simp: max_opt_def)

lemma newest_ge_member:
  assumes "distinct (map m_id ms)" and "b \<in> set ms" "is_base b"
    and "m \<in> set ms" "m_id m \<in> chain_ids ms (m_id b)" and "created_secs parse m = Some t"
  shows "t \<le> cg_newest_created (group_of parse ms b)"
proof -
  let ?mem = "m_id b # cr_incremental_ids (verify_chain (nodes_of ms) (m_id b))"
  have "m_id m \<in> set ?mem"
    using members_group_of(1) [OF assms(1-3)] assms(5) by simp
  moreover have "find_manifest ms (m_id m) = Some m"
    unfolding find_manifest_def by (rule find_Some_distinct [OF assms(1,4)])
  ultimately have "t \<in> set (List.map_filter (created_secs parse) (List.map_filter (find_manifest ms) ?mem))"
    using assms(6) unfolding set_map_filter by blast
  from Max_ge_map_filter [OF this] show ?thesis
    by (auto simp: group_of_def mk_group_def Let_def)
qed

section \<open>Ranks in a sorted list\<close>

text \<open>The chains that come before a given one in the order of the plan.\<close>

definition newer_base :: "(string \<Rightarrow> int option) \<Rightarrow> BackupManifest \<Rightarrow> BackupManifest \<Rightarrow> bool" where
  "newer_base parse a b \<longleftrightarrow>
     (let ta = (case created_secs parse a of Some t \<Rightarrow> t | None \<Rightarrow> I64_MIN);
          tb = (case created_secs parse b of Some t \<Rightarrow> t | None \<Rightarrow> I64_MIN)
      in tb < ta \<or> ta = tb \<and> m_id a < m_id b)"

lemma group_cmp_newer: "group_cmp (group_of parse ms a) (group_of parse ms b) = Less \<longleftrightarrow> newer_base parse a b"
  by (auto simp: group_cmp_def newer_base_def Let_def)

lemma group_cmp_Equal: "group_cmp a b = Equal \<Longrightarrow> cg_base_id a = cg_base_id b"
  by (simp add: group_cmp_def)

text \<open>The position of a base is at most the number of newer ones.\<close>

lemma chain_group_rank:
  assumes "distinct (map m_id ms)" and "b \<in> set ms" "is_base b"
    and "k < length (chain_groups parse ms)" and "chain_groups parse ms ! k = group_of parse ms b"
  shows "k \<le> card {a \<in> set ms. is_base a \<and> newer_base parse a b}"
    and "\<And>j. j < k \<Longrightarrow> \<exists>a \<in> set ms. is_base a \<and> newer_base parse a b \<and>
      chain_groups parse ms ! j = group_of parse ms a"
proof -
  let ?gs = "chain_groups parse ms"
  have eq: "?gs = sort_by group_cmp (map (group_of parse ms) (filter is_base ms))"
    using chain_groups_eq [OF assms(1)] .
  have sorted: "sorted_wrt (\<lambda>x y. group_cmp x y \<noteq> Greater) ?gs"
    unfolding eq by (rule group.sort_by_sorted)
  have comp: "cg_base_id \<circ> group_of parse ms = m_id"
    by (simp add: fun_eq_iff)
  have dist: "distinct (map cg_base_id ?gs)"
    using assms(1) by (simp add: eq comp distinct_map_filter)
  have set: "set ?gs = group_of parse ms ` {m \<in> set ms. is_base m}"
    by (simp add: eq)
  show before: "\<exists>a \<in> set ms. is_base a \<and> newer_base parse a b \<and> ?gs ! j = group_of parse ms a"
    if "j < k" for j
  proof -
    have j: "j < length ?gs"
      using that assms(4) by simp
    then obtain a where a: "a \<in> set ms" "is_base a" "?gs ! j = group_of parse ms a"
      using set nth_mem [OF j] by auto
    have "group_cmp (?gs ! j) (?gs ! k) \<noteq> Greater"
      using sorted that assms(4) by (simp add: sorted_wrt_iff_nth_less)
    moreover have "cg_base_id (?gs ! j) \<noteq> cg_base_id (?gs ! k)"
      using dist that j assms(4) by (auto simp: distinct_conv_nth)
    ultimately have "group_cmp (?gs ! j) (?gs ! k) = Less"
      using group_cmp_Equal by (cases "group_cmp (?gs ! j) (?gs ! k)") auto
    with a assms(5) group_cmp_newer show ?thesis
      by metis
  qed
  have "cg_base_id ` set (take k ?gs) \<subseteq> m_id ` {a \<in> set ms. is_base a \<and> newer_base parse a b}"
  proof
    fix x assume "x \<in> cg_base_id ` set (take k ?gs)"
    then obtain j where "j < k" "x = cg_base_id (?gs ! j)"
      by (auto simp: in_set_conv_nth)
    with before [OF this(1)] show "x \<in> m_id ` {a \<in> set ms. is_base a \<and> newer_base parse a b}"
      by auto
  qed
  then have "card (cg_base_id ` set (take k ?gs)) \<le> card (m_id ` {a \<in> set ms. is_base a \<and> newer_base parse a b})"
    by (intro card_mono) auto
  moreover have "card (cg_base_id ` set (take k ?gs)) = k"
    using distinct_card [OF distinct_take [OF dist, of k]] assms(4) by (simp add: take_map)
  moreover have "card (m_id ` {a \<in> set ms. is_base a \<and> newer_base parse a b})
      \<le> card {a \<in> set ms. is_base a \<and> newer_base parse a b}"
    by (rule card_image_le) simp
  ultimately show "k \<le> card {a \<in> set ms. is_base a \<and> newer_base parse a b}"
    by linarith
qed

section \<open>Interrupted deletion\<close>

text \<open>A backend that reports a missing object only for a missing object: every error is real.\<close>

definition honest :: "del_state \<Rightarrow> bool" where
  "honest st \<longleftrightarrow> (\<forall>a \<in> set (ds_answers st). case a of Some msg \<Rightarrow> \<not> is_not_found msg | None \<Rightarrow> True)"

lemma delete_if_exists_True:
  "delete_if_exists p st = (True, st') \<Longrightarrow> honest st \<Longrightarrow>
     ds_paths st' = ds_paths st - {p} \<and> honest st'"
  by (auto simp: delete_if_exists_def honest_def split: list.splits option.splits)

lemma delete_if_exists_False:
  "delete_if_exists p st = (False, st') \<Longrightarrow> ds_paths st' = ds_paths st \<and> (honest st \<longrightarrow> honest st')"
  by (auto simp: delete_if_exists_def honest_def split: list.splits option.splits)

text \<open>A list of deletions removes an initial part of it, all of it when it succeeds.\<close>

definition removes :: "string list \<Rightarrow> bool \<Rightarrow> del_state \<Rightarrow> del_state \<Rightarrow> bool" where
  "removes ps done st st' \<longleftrightarrow> honest st' \<and>
     (\<exists>k. ds_paths st' = ds_paths st - set (take k ps) \<and> (done \<longrightarrow> k = length ps))"

lemma delete_paths_removes:
  "delete_paths ps st = (ok, st') \<Longrightarrow> honest st \<Longrightarrow> removes ps ok st st'"
proof (induction ps arbitrary: st)
  case (Cons p ps)
  obtain b s1 where s1: "delete_if_exists p st = (b, s1)"
    by fastforce
  show ?case
  proof (cases b)
    case True
    with s1 Cons.prems have "delete_paths ps s1 = (ok, st')" "honest s1" "ds_paths s1 = ds_paths st - {p}"
      using delete_if_exists_True by auto
    with Cons.IH obtain k where k: "honest st'" "ds_paths st' = ds_paths st - {p} - set (take k ps)"
      "ok \<longrightarrow> k = length ps"
      unfolding removes_def by metis
    from k(2) have "ds_paths st' = ds_paths st - set (take (Suc k) (p # ps))"
      by auto
    with k(1,3) show ?thesis
      unfolding removes_def by (intro conjI exI [of _ "Suc k"]) auto
  next
    case False
    with s1 Cons.prems delete_if_exists_False [of p st s1] show ?thesis
      unfolding removes_def by (intro conjI exI [of _ 0]) auto
  qed
qed (auto simp: removes_def)

lemma removes_append:
  assumes "removes ps True st s1" and "removes qs done s1 st'"
  shows "removes (ps @ qs) done st st'"
proof -
  from assms obtain k where k: "honest st'" "ds_paths s1 = ds_paths st - set ps"
    "ds_paths st' = ds_paths s1 - set (take k qs)" "done \<longrightarrow> k = length qs"
    by (auto simp: removes_def)
  then have "ds_paths st' = ds_paths st - set (take (length ps + k) (ps @ qs))"
    by auto
  with k(1,4) show ?thesis
    unfolding removes_def by (intro conjI exI [of _ "length ps + k"]) auto
qed

lemma removes_prefix:
  assumes "removes ps False st st'"
  shows "removes (ps @ qs) False st st'"
proof -
  from assms obtain k where k: "honest st'" "ds_paths st' = ds_paths st - set (take k ps)"
    by (auto simp: removes_def)
  have "take (min k (length ps)) (ps @ qs) = take k ps"
    by (simp add: min_def)
  with k show ?thesis
    unfolding removes_def by (intro conjI exI [of _ "min k (length ps)"]) auto
qed

lemma removes_honest: "removes ps ok st st' \<Longrightarrow> honest st'"
  by (simp add: removes_def)

lemma delete_members_removes:
  "delete_members is st n = (r, st') \<Longrightarrow> honest st \<Longrightarrow>
     removes (concat (map artifact_paths is)) (r \<noteq> None) st st' \<and>
     (\<forall>m. r = Some m \<longrightarrow> m = n + length is)"
proof (induction "is" arbitrary: st n)
  case (Cons i "is")
  obtain b s1 where s1: "delete_one_backup i st = (b, s1)"
    by fastforce
  then have rm: "removes (artifact_paths i) b st s1"
    using delete_paths_removes Cons.prems(2) unfolding delete_one_backup_def by blast
  show ?case
  proof (cases b)
    case True
    with s1 Cons.prems(1) have "delete_members is s1 (n + 1) = (r, st')"
      by simp
    from Cons.IH [OF this removes_honest [OF rm]] removes_append [of "artifact_paths i" st s1] rm True
    show ?thesis by simp
  next
    case False
    with s1 Cons.prems(1) rm removes_prefix [of "artifact_paths i" st s1] show ?thesis
      by simp
  qed
qed (auto simp: removes_def)

text \<open>The ids a run deletes, in order.\<close>

definition deletion_order :: "PrunePlan \<Rightarrow> bool \<Rightarrow> string list" where
  "deletion_order plan force = concat (map (\<lambda>t. delete_order (pt_member_ids t))
     (filter (\<lambda>t. force \<or> is_normal_chain (pt_kind t)) (pl_targets plan)))"

lemma execute_loop_removes:
  "execute_loop force ts st out = (r, st') \<Longrightarrow> honest st \<Longrightarrow>
     removes (concat (map artifact_paths (concat (map (\<lambda>t. delete_order (pt_member_ids t))
       (filter (\<lambda>t. force \<or> is_normal_chain (pt_kind t)) ts))))) (r \<noteq> None) st st'"
proof (induction ts arbitrary: st out)
  case (Cons t ts)
  let ?ps = "\<lambda>ts. concat (map artifact_paths (concat (map (\<lambda>t. delete_order (pt_member_ids t))
       (filter (\<lambda>t. force \<or> is_normal_chain (pt_kind t)) ts))))"
  show ?case
  proof (cases "force \<or> is_normal_chain (pt_kind t)")
    case False
    with Cons show ?thesis by auto
  next
    case True
    obtain q s1 where s1: "delete_members (delete_order (pt_member_ids t)) st (deleted_backups out) = (q, s1)"
      by fastforce
    from delete_members_removes [OF s1 Cons.prems(2)]
    have rm: "removes (concat (map artifact_paths (delete_order (pt_member_ids t)))) (q \<noteq> None) st s1"
      by blast
    have eq: "?ps (t # ts) = concat (map artifact_paths (delete_order (pt_member_ids t))) @ ?ps ts"
      using True by simp
    show ?thesis
    proof (cases q)
      case None
      with s1 True Cons.prems(1) have "r = None" "st' = s1"
        by auto
      with rm None removes_prefix show ?thesis
        unfolding eq by fastforce
    next
      case (Some n)
      with s1 True Cons.prems(1) obtain out' where "execute_loop force ts s1 out' = (r, st')"
        by auto
      from Cons.IH [OF this removes_honest [OF rm]] rm Some removes_append show ?thesis
        unfolding eq by fastforce
    qed
  qed
qed (auto simp: removes_def)

lemma execute_prune_removes:
  "execute_prune st plan force = (r, st') \<Longrightarrow> honest st \<Longrightarrow>
     removes (concat (map artifact_paths (deletion_order plan force))) (r \<noteq> None) st st'"
  unfolding execute_prune_def deletion_order_def by (rule execute_loop_removes)

section \<open>Every backup is deleted once\<close>

lemma plan_targets_distinct:
  assumes ok: "inputs_ok ms orphans" and plan: "plan = plan_prune parse ms orphans p now"
  shows "distinct (pl_targets plan) \<and> (\<forall>t \<in> set (pl_targets plan). distinct (pt_member_ids t)) \<and>
    (\<forall>t \<in> set (pl_targets plan). \<forall>u \<in> set (pl_targets plan). t \<noteq> u \<longrightarrow>
       set (pt_member_ids t) \<inter> set (pt_member_ids u) = {})"
proof -
  obtain gs ts where "gs = chain_groups parse ms"
    and gs: "set gs = group_of parse ms ` {m \<in> set ms. is_base m}" "distinct (map cg_base_id gs)"
    and rl: "rule_loop p now (boundary_index (cutoff now (recovery_window_days p)) gs) 0 0 gs =
      (ts, pl_kept_base_ids plan)"
    and tg: "pl_targets plan = ts @ incomplete_targets ms gs @ orphan_targets orphans"
    using plan_prune_obtain [OF ok plan] .
  have d: "distinct (map m_id ms)" "distinct orphans" "set orphans \<inter> m_id ` set ms = {}"
    using ok by (simp_all add: inputs_ok_def)
  have sp: "mset (map pt_base_id ts @ pl_kept_base_ids plan) = mset (map cg_base_id gs)"
    "\<forall>t \<in> set ts. pt_kind t = Chain \<and>
        (\<exists>g \<in> set gs. pt_base_id t = cg_base_id g \<and> pt_member_ids t = cg_member_ids g)"
    using rule_loop_split [OF rl] by simp_all
  have dts: "distinct (map pt_base_id ts)"
    using mset_eq_imp_distinct_iff [OF sp(1)] gs(2) unfolding distinct_append by blast
  have chain: "\<exists>a \<in> set ms. is_base a \<and> pt_base_id t = m_id a \<and> set (pt_member_ids t) = chain_ids ms (m_id a) \<and>
      distinct (pt_member_ids t) \<and> pt_member_ids t \<in> cg_member_ids ` set gs" if "t \<in> set ts" for t
  proof -
    from that sp(2) obtain g where g: "g \<in> set gs" "pt_base_id t = cg_base_id g"
      "pt_member_ids t = cg_member_ids g"
      by blast
    with gs(1) obtain a where a: "a \<in> set ms" "is_base a" "g = group_of parse ms a" by auto
    with g members_group_of [OF d(1) a(1,2), of parse] show ?thesis
      by (metis group_of_simps(1) imageI)
  qed
  have inc: "\<exists>m \<in> set ms. t = \<lparr>pt_kind = IncompleteKind, pt_base_id = m_id m, pt_member_ids = [m_id m],
      pt_reason = IncompleteRemnant\<rparr> \<and> m_id m \<notin> set (concat (map cg_member_ids gs))"
    if "t \<in> set (incomplete_targets ms gs)" for t
    using that by (auto simp: incomplete_targets_def)
  have orp: "\<exists>i \<in> set orphans. t = \<lparr>pt_kind = Orphan, pt_base_id = i, pt_member_ids = [i],
      pt_reason = OrphanArtifact\<rparr>" if "t \<in> set (orphan_targets orphans)" for t
    using that by (auto simp: orphan_targets_def)
  have ids: "chain_ids ms (m_id a) \<subseteq> m_id ` set ms" if "a \<in> set ms" for a
    using that by (auto simp: chain_ids_def)
  have tt: "set (pt_member_ids t) \<inter> set (pt_member_ids u) = {}"
    if "t \<in> set ts" "u \<in> set ts" "t \<noteq> u" for t u
  proof -
    note ct = chain [OF that(1)] and cu = chain [OF that(2)]
    have "pt_base_id t \<noteq> pt_base_id u"
      using that dts by (auto simp: distinct_map inj_on_def)
    moreover obtain a where a: "a \<in> set ms" "is_base a" "pt_base_id t = m_id a"
      "set (pt_member_ids t) = chain_ids ms (m_id a)"
      using ct by blast
    moreover obtain b where b: "b \<in> set ms" "is_base b" "pt_base_id u = m_id b"
      "set (pt_member_ids u) = chain_ids ms (m_id b)"
      using cu by blast
    ultimately have "a \<noteq> b" by auto
    with chain_ids_disjoint [OF d(1) a(1,2) b(1,2)] a(4) b(4) show ?thesis
      by blast
  qed
  have ti: "set (pt_member_ids t) \<inter> set (pt_member_ids u) = {}"
    if "t \<in> set ts" "u \<in> set (incomplete_targets ms gs)" for t u
  proof -
    note ct = chain [OF that(1)] and iu = inc [OF that(2)]
    obtain i where i: "set (pt_member_ids u) = {i}" "i \<notin> set (concat (map cg_member_ids gs))"
      using iu by auto
    from ct have "pt_member_ids t \<in> set (map cg_member_ids gs)"
      unfolding set_map by blast
    then have "set (pt_member_ids t) \<subseteq> set (concat (map cg_member_ids gs))"
      by (rule member_concat_subset)
    then have "i \<notin> set (pt_member_ids t)"
      using i(2) by (rule contra_subsetD)
    then show ?thesis
      unfolding i(1) by simp
  qed
  have to: "set (pt_member_ids t) \<inter> set (pt_member_ids u) = {}"
    if "t \<in> set ts \<union> set (incomplete_targets ms gs)" "u \<in> set (orphan_targets orphans)" for t u
  proof -
    have "set (pt_member_ids t) \<subseteq> m_id ` set ms"
      using that(1) chain [of t] inc [of t] ids by (elim UnE) (blast, auto)
    moreover have "set (pt_member_ids u) \<subseteq> set orphans"
      using orp [OF that(2)] by auto
    ultimately show ?thesis
      using d(3) by blast
  qed
  have ii: "set (pt_member_ids t) \<inter> set (pt_member_ids u) = {}"
    if "t \<in> set (incomplete_targets ms gs)" "u \<in> set (incomplete_targets ms gs)" "t \<noteq> u" for t u
    using inc [OF that(1)] inc [OF that(2)] that(3) by auto
  have oo: "set (pt_member_ids t) \<inter> set (pt_member_ids u) = {}"
    if "t \<in> set (orphan_targets orphans)" "u \<in> set (orphan_targets orphans)" "t \<noteq> u" for t u
    using orp [OF that(1)] orp [OF that(2)] that(3) by auto
  have di: "distinct (incomplete_targets ms gs)"
  proof -
    have "map pt_base_id (incomplete_targets ms gs) =
        map m_id (filter (\<lambda>m. m_status m = Incomplete \<and> m_id m \<notin> set (concat (map cg_member_ids gs))) ms)"
      by (simp add: incomplete_targets_def comp_def)
    then have "distinct (map pt_base_id (incomplete_targets ms gs))"
      by (simp only: distinct_map_filter [OF d(1)])
    then show ?thesis
      by (simp only: distinct_map)
  qed
  have dor: "distinct (orphan_targets orphans)"
    using d(2) by (auto simp: orphan_targets_def distinct_map inj_on_def)
  have kinds: "t \<in> set ts \<Longrightarrow> pt_kind t = Chain"
    "t \<in> set (incomplete_targets ms gs) \<Longrightarrow> pt_kind t = IncompleteKind"
    "t \<in> set (orphan_targets orphans) \<Longrightarrow> pt_kind t = Orphan" for t
    using sp(2) by (auto simp: incomplete_targets_def orphan_targets_def)
  have disj: "set ts \<inter> set (incomplete_targets ms gs) = {}"
    "set ts \<inter> set (orphan_targets orphans) = {}"
    "set (incomplete_targets ms gs) \<inter> set (orphan_targets orphans) = {}"
    using kinds by (metis PruneKind.distinct disjoint_iff)+
  have "distinct (pl_targets plan)"
    unfolding tg using dts di dor disj by (simp add: distinct_map Int_Un_distrib)
  moreover have "distinct (pt_member_ids t)" if "t \<in> set (pl_targets plan)" for t
    using that chain [of t] inc [of t] orp [of t] unfolding tg set_append by (elim UnE) auto
  moreover have "set (pt_member_ids t) \<inter> set (pt_member_ids u) = {}"
    if "t \<in> set (pl_targets plan)" "u \<in> set (pl_targets plan)" "t \<noteq> u" for t u
    using that tt [of t u] ti [of t u] to [of t u] ii [of t u] oo [of t u] ti [of u t] to [of u t]
    unfolding tg set_append by (elim UnE) (simp_all add: Int_commute)
  ultimately show ?thesis by blast
qed

lemma delete_order_simps [simp]:
  "set (delete_order ids) = set ids" "distinct (delete_order ids) = distinct ids"
  by (cases ids; auto simp: delete_order_def le_Suc_eq)+

lemma delete_order_Cons: "delete_order (b # is) = rev is @ [b]"
  by (cases "is") (auto simp: delete_order_def)

lemma deletion_order_distinct:
  assumes "inputs_ok ms orphans" and "plan = plan_prune parse ms orphans p now"
  shows "distinct (deletion_order plan force)"
  unfolding deletion_order_def
  using plan_targets_distinct [OF assms] by (intro distinct_concat_map) auto

section \<open>What an interrupted deletion leaves\<close>

lemma artifacts_prefix:
  "manifest_path i \<in> set (take k (concat (map artifact_paths is))) \<Longrightarrow>
     set (artifact_paths i) \<subseteq> set (take k (concat (map artifact_paths is)))"
proof (induction "is" arbitrary: k)
  case (Cons j js)
  have len: "length (artifact_paths j) = 4"
    by (simp add: artifact_paths_def)
  then have split: "take k (concat (map artifact_paths (j # js))) =
      take k (artifact_paths j) @ take (k - 4) (concat (map artifact_paths js))"
    by simp
  show ?case
  proof (cases "manifest_path i \<in> set (take k (artifact_paths j))")
    case True
    then have "i = j \<and> 4 \<le> k"
      by (auto simp: artifact_paths_def take_Cons' split: if_splits)
    with len have "take k (artifact_paths j) = artifact_paths i"
      by simp
    with split show ?thesis
      by simp
  next
    case False
    with Cons split show ?thesis by auto
  qed
qed simp

lemma order_prefix:
  assumes "manifest_path b \<in> set (take k (concat (map artifact_paths (X @ b # Y))))"
    and "b \<notin> set X" and "i \<in> set X"
  shows "set (artifact_paths i) \<subseteq> set (take k (concat (map artifact_paths (X @ b # Y))))"
proof -
  let ?X = "concat (map artifact_paths X)"
  have "manifest_path b \<notin> set ?X"
    using assms(2) by (auto simp: artifact_paths_def)
  moreover have "set (take k ?X) \<subseteq> set ?X"
    by (rule set_take_subset)
  ultimately have "manifest_path b \<notin> set (take k ?X)"
    by blast
  with assms(1) have "\<not> k \<le> length ?X"
    by auto
  with assms(3) show ?thesis
    by auto
qed

section \<open>A concrete destination\<close>

definition ex_backup :: "string \<Rightarrow> BackupType \<Rightarrow> string option \<Rightarrow> string \<Rightarrow> BackupManifest" where
  "ex_backup i bt b t = sample_manifest\<lparr>m_id := i, m_backup_type := bt, m_base_id := b, m_created_at := t\<rparr>"

text \<open>Two chains, created on the days their times name; days count 86400 seconds each.\<close>

definition ex_parse :: "string \<Rightarrow> int option" where
  "ex_parse t = (if t = ''d1'' then Some 86400 else if t = ''d2'' then Some 172800
     else if t = ''d5'' then Some 432000 else None)"

definition ex_f1 :: BackupManifest where "ex_f1 = ex_backup ''f1'' Full None ''d1''"
definition ex_i1 :: BackupManifest where "ex_i1 = ex_backup ''i1'' Incremental (Some ''f1'') ''d2''"
definition ex_f2 :: BackupManifest where "ex_f2 = ex_backup ''f2'' Full None ''d5''"

definition ex_backups :: "BackupManifest list" where
  "ex_backups = [ex_f1, ex_f2, ex_i1]"

definition no_policy :: RetentionPolicy where
  "no_policy = \<lparr>keep_full = None, keep_days = None, keep_last = None,
     recovery_window_days = None, min_redundancy = None\<rparr>"

definition ex_prune_plan :: PrunePlan where
  "ex_prune_plan = plan_prune ex_parse ex_backups [''o''] (no_policy\<lparr>keep_full := Some 1\<rparr>) 518400"

definition ex_del :: del_state where
  "ex_del = \<lparr>ds_paths = set (concat (map artifact_paths [''f1'', ''i1'', ''f2'', ''o''])),
     ds_answers = [None, None, None, None, Some ''disk error'']\<rparr>"

lemma ex_inputs_ok: "inputs_ok ex_backups [''o'']"
  by code_simp

section \<open>Properties\<close>

text \<open>C2: prune treats a chain as a unit: for a complete full backup, with or without force, either
  it is kept and neither it nor any of its incrementals is deleted, or it and all of them are. A
  surviving incremental never loses its complete base.\<close>

theorem prune_chain_atomic:
  assumes "inputs_ok ms orphans" and "plan = plan_prune parse ms orphans policy now"
    and "b \<in> set ms" and "is_base b"
  shows "if m_id b \<in> set (pl_kept_base_ids plan)
    then chain_ids ms (m_id b) \<inter> set (deletable_member_ids plan force) = {}
    else chain_ids ms (m_id b) \<subseteq> set (deletable_member_ids plan force)"
  using chain_member_deletable [OF assms] by auto

theorem prune_chain_atomic_witness:
  "if m_id ex_f1 \<in> set (pl_kept_base_ids ex_prune_plan)
    then chain_ids ex_backups (m_id ex_f1) \<inter> set (deletable_member_ids ex_prune_plan False) = {}
    else chain_ids ex_backups (m_id ex_f1) \<subseteq> set (deletable_member_ids ex_prune_plan False)"
  by (rule prune_chain_atomic [OF ex_inputs_ok ex_prune_plan_def])
    (simp_all add: ex_backups_def ex_f1_def ex_backup_def is_base_def sample_manifest_def)

text \<open>C19: without any retention rule nothing is deleted without force: all complete full backups are
  kept and the list of backups to delete is empty.\<close>

theorem prune_needs_a_rule:
  assumes "is_unspecified policy" and "plan = plan_prune parse ms orphans policy now"
  shows "deletable_member_ids plan False = [] \<and>
    pl_kept_base_ids plan = map cg_base_id (chain_groups parse ms)"
  using assms
  by (auto simp: plan_prune_def Let_def rule_loop_unspecified deletable_member_ids_def
      incomplete_targets_def orphan_targets_def is_normal_chain_def filter_empty_conv)

theorem prune_needs_a_rule_witness:
  "deletable_member_ids (plan_prune ex_parse ex_backups [''o''] no_policy 518400) False = [] \<and>
   pl_kept_base_ids (plan_prune ex_parse ex_backups [''o''] no_policy 518400) =
     map cg_base_id (chain_groups ex_parse ex_backups)"
  by (rule prune_needs_a_rule [OF _ refl]) code_simp

text \<open>the rank rules keep the newest chains: if fewer than N complete full backups are newer
  than a given one (later creation, equal times by id), that one is kept under keep-full N and
  under a minimal redundancy of N.\<close>

theorem prune_keeps_newest:
  assumes "inputs_ok ms orphans" and "plan = plan_prune parse ms orphans policy now"
    and "b \<in> set ms" and "is_base b"
    and "keep_full policy = Some n \<or> min_redundancy policy = Some n"
    and "card {a \<in> set ms. is_base a \<and> newer_base parse a b} < unat n"
  shows "m_id b \<in> set (pl_kept_base_ids plan)"
proof (rule base_kept_at [OF assms(1-4) refl])
  fix k mb
  assume k: "k < length (chain_groups parse ms)" "chain_groups parse ms ! k = group_of parse ms b"
  have "distinct (map m_id ms)"
    using assms(1) by (simp add: inputs_ok_def)
  from chain_group_rank(1) [OF this assms(3,4) k] assms(6) have "k < unat n"
    by simp
  with assms(5) show "is_unspecified policy \<or> kept_by_rules policy now (boundary_index
      (cutoff now (recovery_window_days policy)) (chain_groups parse ms)) k mb (chain_groups parse ms ! k)"
    by (auto simp: kept_by_rules_def is_some_and_def)
qed

theorem prune_keeps_newest_witness: "m_id ex_f2 \<in> set (pl_kept_base_ids ex_prune_plan)"
proof (rule prune_keeps_newest [OF ex_inputs_ok ex_prune_plan_def, where n = 1])
  have "{a \<in> set ex_backups. is_base a \<and> newer_base ex_parse a ex_f2} = {}"
    by (auto simp: ex_backups_def ex_f1_def ex_f2_def ex_i1_def ex_backup_def is_base_def
        newer_base_def created_secs_def ex_parse_def sample_manifest_def)
  then show "card {a \<in> set ex_backups. is_base a \<and> newer_base ex_parse a ex_f2} < unat (1 :: u32)"
    by simp
qed (simp_all add: ex_backups_def ex_f2_def ex_backup_def is_base_def sample_manifest_def no_policy_def)

text \<open>C24: the recovery window holds: every chain with a member created inside the window is kept,
  and so is the newest complete full backup created at or before its start, on which a recovery
  to the first moment of the window stands.\<close>

theorem prune_recovery_window:
  assumes "inputs_ok ms orphans" and "plan = plan_prune parse ms orphans policy now"
    and "b \<in> set ms" and "is_base b"
    and "recovery_window_days policy = Some d" and "start = now - uint d * 86400"
    and "(\<exists>m \<in> set ms. \<exists>t. m_id m \<in> chain_ids ms (m_id b) \<and> created_secs parse m = Some t \<and> start \<le> t) \<or>
      ((\<exists>t. created_secs parse b = Some t \<and> t \<le> start) \<and>
       (\<forall>a \<in> set ms. is_base a \<and> newer_base parse a b \<longrightarrow>
          (\<exists>t. created_secs parse a = Some t \<and> start < t)))"
  shows "m_id b \<in> set (pl_kept_base_ids plan)"
proof (rule base_kept_at [OF assms(1-4) refl])
  fix k mb
  let ?gs = "chain_groups parse ms"
  assume k: "k < length ?gs" "?gs ! k = group_of parse ms b"
  have d: "distinct (map m_id ms)"
    using assms(1) by (simp add: inputs_ok_def)
  have co: "cutoff now (recovery_window_days policy) = Some start"
    using assms(5,6) by (simp add: cutoff_def)
  from assms(7) show "is_unspecified policy \<or> kept_by_rules policy now
      (boundary_index (cutoff now (recovery_window_days policy)) ?gs) k mb (?gs ! k)"
  proof (elim disjE bexE exE conjE)
    fix m t
    assume "m \<in> set ms" "m_id m \<in> chain_ids ms (m_id b)" "created_secs parse m = Some t" "start \<le> t"
    with newest_ge_member [OF d assms(3,4)] have "start \<le> cg_newest_created (group_of parse ms b)"
      by force
    with k(2) show ?thesis
      by (simp add: kept_by_rules_def co is_some_and_def)
  next
    fix t
    assume t: "created_secs parse b = Some t" "t \<le> start"
      and newer: "\<forall>a \<in> set ms. is_base a \<and> newer_base parse a b \<longrightarrow>
          (\<exists>t. created_secs parse a = Some t \<and> start < t)"
    have "position (\<lambda>c. cg_base_created c \<le> start) ?gs = Some k"
    proof (rule position_eqI [OF k(1)])
      show "cg_base_created (?gs ! k) \<le> start"
        using t k(2) by simp
      show "\<not> cg_base_created (?gs ! j) \<le> start" if "j < k" for j
        using chain_group_rank(2) [OF d assms(3,4) k that] newer by auto
    qed
    then show ?thesis
      by (simp add: kept_by_rules_def co boundary_index_def)
  qed
qed

theorem prune_recovery_window_witness:
  "m_id ex_f1 \<in> set (pl_kept_base_ids (plan_prune ex_parse ex_backups [''o'']
     (no_policy\<lparr>recovery_window_days := Some 2\<rparr>) 518400))"
  by (rule prune_recovery_window [OF ex_inputs_ok refl, where d = 2 and start = 345600])
    (auto simp: ex_backups_def ex_f1_def ex_f2_def ex_i1_def ex_backup_def is_base_def
      newer_base_def created_secs_def ex_parse_def sample_manifest_def)

text \<open>no backup is deleted twice: the plan lists every id at most once, so an id is the target of
  one chain, one remnant or one orphan.\<close>

theorem prune_deletes_once:
  assumes "inputs_ok ms orphans" and "plan = plan_prune parse ms orphans policy now"
  shows "distinct (deletable_member_ids plan force)"
  unfolding deletable_member_ids_def
  using plan_targets_distinct [OF assms] by (intro distinct_concat_map) auto

theorem prune_deletes_once_witness: "distinct (deletable_member_ids ex_prune_plan True)"
  by (rule prune_deletes_once [OF ex_inputs_ok ex_prune_plan_def])

text \<open>C28: an interrupted deletion leaves no untraceable remains: wherever a run stops, a backup whose
  manifest is gone has no other file left, and a chain whose base lost its manifest has no
  incremental with a manifest left.\<close>

theorem prune_interruption_safe:
  assumes "inputs_ok ms orphans" and "plan = plan_prune parse ms orphans policy now"
    and "execute_prune st plan force = (r, st')" and "honest st"
    and "manifest_path i \<in> ds_paths st" and "manifest_path i \<notin> ds_paths st'"
  shows "set (artifact_paths i) \<inter> ds_paths st' = {} \<and>
    (\<forall>t \<in> set (pl_targets plan). \<forall>incs. pt_member_ids t = i # incs \<longrightarrow>
       (\<forall>j \<in> set incs. manifest_path j \<notin> ds_paths st'))"
proof -
  let ?ps = "concat (map artifact_paths (deletion_order plan force))"
  from execute_prune_removes [OF assms(3,4)] obtain k where
    k: "ds_paths st' = ds_paths st - set (take k ?ps)"
    by (auto simp: removes_def)
  with assms(5,6) have mp: "manifest_path i \<in> set (take k ?ps)"
    by auto
  from artifacts_prefix [OF mp] have "set (artifact_paths i) \<inter> ds_paths st' = {}"
    using k by auto
  moreover have "manifest_path j \<notin> ds_paths st'"
    if t: "t \<in> set (pl_targets plan)" "pt_member_ids t = i # incs" "j \<in> set incs" for t incs j
  proof (cases "force \<or> is_normal_chain (pt_kind t)")
    case True
    let ?sel = "filter (\<lambda>t. force \<or> is_normal_chain (pt_kind t)) (pl_targets plan)"
    from True t(1) have "t \<in> set ?sel"
      by simp
    then obtain A B where sel: "?sel = A @ t # B"
      by (meson split_list)
    let ?d = "\<lambda>ts. concat (map (\<lambda>t. delete_order (pt_member_ids t)) ts)"
    have order: "deletion_order plan force = (?d A @ rev incs) @ i # ?d B"
      unfolding deletion_order_def sel by (simp add: t(2) delete_order_Cons)
    then have "i \<notin> set (?d A @ rev incs)"
      using deletion_order_distinct [OF assms(1,2), of force] by auto
    from order_prefix [OF mp [unfolded order] this, of j] t(3) have "manifest_path j \<in> set (take k ?ps)"
      unfolding order by (auto simp: artifact_paths_def)
    with k show ?thesis by auto
  next
    case False
    have "i \<in> set (deletion_order plan force)"
      using mp set_take_subset [of k ?ps] by (auto simp: artifact_paths_def)
    then obtain u where u: "u \<in> set (pl_targets plan)" "i \<in> set (pt_member_ids u)"
      "force \<or> is_normal_chain (pt_kind u)"
      by (auto simp: deletion_order_def)
    with plan_targets_distinct [OF assms(1,2)] t False show ?thesis
      by (metis disjoint_iff list.set_intros(1))
  qed
  ultimately show ?thesis by blast
qed

theorem prune_interruption_safe_witness:
  "set (artifact_paths ''i1'') \<inter> ds_paths (snd (execute_prune ex_del ex_prune_plan False)) = {}"
  by (rule prune_interruption_safe [OF ex_inputs_ok ex_prune_plan_def,
        where st = ex_del and force = False and r = None, THEN conjunct1]) code_simp+

text \<open>a deletion that succeeds is complete and touches nothing else: the files that are gone are
  exactly those of the backups the plan lists.\<close>

theorem prune_success_exact:
  assumes "execute_prune st plan force = (Some out, st')" and "honest st"
  shows "ds_paths st' =
    ds_paths st - \<Union> (set ` artifact_paths ` set (deletable_member_ids plan force))"
proof -
  from execute_prune_removes [OF assms] have
    "ds_paths st' = ds_paths st - set (concat (map artifact_paths (deletion_order plan force)))"
    by (auto simp: removes_def)
  moreover have "set (deletion_order plan force) = set (deletable_member_ids plan force)"
    by (auto simp: deletion_order_def deletable_member_ids_def)
  ultimately show ?thesis
    by simp
qed

theorem prune_success_exact_witness:
  "ds_paths (snd (execute_prune (ex_del\<lparr>ds_answers := []\<rparr>) ex_prune_plan False)) =
     ds_paths (ex_del\<lparr>ds_answers := []\<rparr>) -
       \<Union> (set ` artifact_paths ` set (deletable_member_ids ex_prune_plan False))"
  by (rule prune_success_exact [where out = "\<lparr>deleted_backups = 2, deleted_chains = 1\<rparr>"]) code_simp+

text \<open>with force an incomplete full backup is deleted although a complete incremental that names
  it as its base survives.\<close>

theorem force_orphans_incremental:
  "let ms = [ex_f1\<lparr>m_status := Incomplete\<rparr>, ex_i1];
       plan = plan_prune ex_parse ms [] no_policy 518400
   in deletable_member_ids plan True = [''f1''] \<and>
      m_base_id ex_i1 = Some ''f1'' \<and> m_status ex_i1 = Complete"
  by code_simp

end
