(* ===== verification/XB_Cron.thy ===== *)
theory XB_Cron
  imports XB_Prelude
begin

unbundle bit_operations_syntax

text \<open>
  Schedules (\<open>web/schedule/cron.rs\<close>): the bit set of a field, the parser of the five-field
  expressions with its refusals, and the search for the next run. The calendar (\<open>chrono\<close>) is a
  parameter: dates are day numbers, a calendar gives the month, the day, the weekday of a number
  and the last day it knows. The lemmas show that the search returns exactly the first matching
  minute after the given time, and what the parser makes of the numbers it reads.
\<close>

section \<open>Field sets\<close>

definition fs_empty :: u64 where
  "fs_empty = 0"

definition fs_insert :: "nat \<Rightarrow> u64 \<Rightarrow> u64" where
  "fs_insert v s = s OR push_bit v 1"

definition fs_contains :: "u64 \<Rightarrow> nat \<Rightarrow> bool" where
  "fs_contains s v \<longleftrightarrow> s AND push_bit v 1 \<noteq> 0"

definition fs_full :: "nat \<Rightarrow> nat \<Rightarrow> u64" where
  "fs_full mn mx = fold fs_insert [mn ..< Suc mx] fs_empty"

definition fs_is_full :: "u64 \<Rightarrow> nat \<Rightarrow> nat \<Rightarrow> bool" where
  "fs_is_full s mn mx \<longleftrightarrow> s = fs_full mn mx"

definition fs_first_at_or_after :: "u64 \<Rightarrow> nat \<Rightarrow> nat \<Rightarrow> nat option" where
  "fs_first_at_or_after s a mx = List.find (fs_contains s) [a ..< Suc mx]"

lemma fs_contains_bit: "fs_contains s v \<longleftrightarrow> v < 64 \<and> bit s v"
proof -
  have "s AND push_bit v 1 \<noteq> 0 \<longleftrightarrow> (\<exists>n. bit (s AND push_bit v 1) n)"
    by (metis bit_0_eq bot_apply bot_bool_def bit_eq_iff)
  also have "\<dots> \<longleftrightarrow> v < 64 \<and> bit s v"
    by (auto simp: bit_simps dest: bit_imp_le_length)
  finally show ?thesis
    unfolding fs_contains_def .
qed

lemma fs_contains_empty [simp]: "\<not> fs_contains fs_empty v"
  by (simp add: fs_contains_def fs_empty_def)

lemma fs_contains_insert [simp]:
  "v < 64 \<Longrightarrow> fs_contains (fs_insert v s) w \<longleftrightarrow> w = v \<or> fs_contains s w"
  by (auto simp: fs_contains_bit fs_insert_def bit_simps)

lemma fs_contains_fold:
  "\<forall>v \<in> set vs. v < 64 \<Longrightarrow> fs_contains (fold fs_insert vs s) w \<longleftrightarrow> w \<in> set vs \<or> fs_contains s w"
  by (induction vs arbitrary: s) auto

lemma fs_contains_full: "mx < 64 \<Longrightarrow> fs_contains (fs_full mn mx) w \<longleftrightarrow> mn \<le> w \<and> w \<le> mx"
  by (auto simp: fs_full_def fs_contains_fold)

lemma fs_first_Some:
  "fs_first_at_or_after s a mx = Some v \<Longrightarrow>
     a \<le> v \<and> v \<le> mx \<and> fs_contains s v \<and> (\<forall>u. a \<le> u \<and> u < v \<longrightarrow> \<not> fs_contains s u)"
proof -
  assume "fs_first_at_or_after s a mx = Some v"
  then obtain i where i: "i < length [a ..< Suc mx]" "fs_contains s ([a ..< Suc mx] ! i)"
    "v = [a ..< Suc mx] ! i" "\<forall>j < i. \<not> fs_contains s ([a ..< Suc mx] ! j)"
    unfolding fs_first_at_or_after_def find_Some_iff by blast
  then have v: "v = a + i" "i < Suc mx - a"
    by (auto simp del: upt_Suc)
  have "\<not> fs_contains s u" if "a \<le> u" "u < v" for u
    using i(4) v that by (auto simp del: upt_Suc dest: spec [of _ "u - a"])
  with i v show ?thesis
    by (auto simp del: upt_Suc)
qed

lemma fs_first_None:
  "fs_first_at_or_after s a mx = None \<longleftrightarrow> (\<forall>u. a \<le> u \<and> u \<le> mx \<longrightarrow> \<not> fs_contains s u)"
  by (auto simp: fs_first_at_or_after_def find_None_iff simp del: upt_Suc)

section \<open>Expressions\<close>

record CronExpr =
  raw :: string
  minute :: u64
  hour :: u64
  dom :: u64
  month :: u64
  dow :: u64
  dom_restricted :: bool
  dow_restricted :: bool

record calendar =
  cal_month :: "int \<Rightarrow> nat"
  cal_day :: "int \<Rightarrow> nat"
  cal_weekday :: "int \<Rightarrow> nat"
  cal_max_date :: int

definition MAX_DAYS_AHEAD :: nat where "MAX_DAYS_AHEAD = 3300"
definition MINUTES_PER_DAY :: nat where "MINUTES_PER_DAY = 24 * 60"
definition MINUTES_PER_HOUR :: nat where "MINUTES_PER_HOUR = 60"
definition MAX_EXPR_LEN :: nat where "MAX_EXPR_LEN = 128"
definition CRON_FIELDS :: nat where "CRON_FIELDS = 5"

definition matches_date :: "calendar \<Rightarrow> CronExpr \<Rightarrow> int \<Rightarrow> bool" where
  "matches_date cal e date \<longleftrightarrow>
     (if \<not> fs_contains (month e) (cal_month cal date) then False
      else let dom_hit = fs_contains (dom e) (cal_day cal date);
               dow_hit = fs_contains (dow e) (cal_weekday cal date)
           in if dom_restricted e \<and> dow_restricted e then dom_hit \<or> dow_hit
              else dom_hit \<and> dow_hit)"

text \<open>The loop over the hours from the first candidate on.\<close>

fun hour_loop :: "CronExpr \<Rightarrow> nat \<Rightarrow> nat list \<Rightarrow> nat option" where
  "hour_loop e a [] = None"
| "hour_loop e a (h # hs) =
     (if \<not> fs_contains (hour e) h then hour_loop e a hs
      else (case fs_first_at_or_after (minute e) (a - h * MINUTES_PER_HOUR) 59 of
          Some m \<Rightarrow>
            (if h * MINUTES_PER_HOUR + m < MINUTES_PER_DAY then Some (h * MINUTES_PER_HOUR + m)
             else hour_loop e a hs)
        | None \<Rightarrow> hour_loop e a hs))"

definition first_minute_at_or_after :: "CronExpr \<Rightarrow> nat \<Rightarrow> nat option" where
  "first_minute_at_or_after e a = (case fs_first_at_or_after (hour e) (a div MINUTES_PER_HOUR) 23 of
     None \<Rightarrow> None | Some h0 \<Rightarrow> hour_loop e a [h0 ..< 24])"

text \<open>
  The days of the search. Times are counted in minutes from the epoch: a date and the minute of
  the day.
\<close>

fun day_loop :: "calendar \<Rightarrow> CronExpr \<Rightarrow> nat \<Rightarrow> int \<Rightarrow> nat \<Rightarrow> int option" where
  "day_loop cal e 0 date floor_minutes = None"
| "day_loop cal e (Suc n) date floor_minutes =
     (case (if matches_date cal e date then first_minute_at_or_after e floor_minutes else None) of
        Some m \<Rightarrow> Some (date * int MINUTES_PER_DAY + int m)
      | None \<Rightarrow> (if date < cal_max_date cal then day_loop cal e n (date + 1) 0 else None))"

text \<open>\<open>after\<close> in seconds: cut to its minute, one minute added, the search from there.\<close>

definition next_after :: "calendar \<Rightarrow> CronExpr \<Rightarrow> int \<Rightarrow> int option" where
  "next_after cal e after_secs =
     (let floor_time = after_secs div 60 + 1
      in if cal_max_date cal < floor_time div int MINUTES_PER_DAY then None
         else day_loop cal e MAX_DAYS_AHEAD (floor_time div int MINUTES_PER_DAY)
                (nat (floor_time mod int MINUTES_PER_DAY)))"

section \<open>Parsing\<close>

datatype field_name = FMinute | FHour | FDayOfMonth | FMonth | FDayOfWeek

datatype part_name = PStep | PRangeStart | PRangeEnd | PValue

text \<open>The refusals: all of them usage errors, each with the data its message quotes.\<close>

datatype cron_error =
    EmptyExpr
  | TooLong nat
  | UnknownAlias string
  | WrongFieldCount nat
  | EmptyItem field_name string
  | SignedTerm field_name string string
  | ZeroStep field_name string
  | BackwardRange field_name string nat nat
  | StepOnSingle field_name string nat nat nat
  | EmptyNumber field_name string part_name
  | NotANumber field_name string part_name string bool
  | NumberTooLarge field_name string part_name string
  | OutOfRange field_name string nat nat nat

definition is_ascii_alphabetic :: "char \<Rightarrow> bool" where
  "is_ascii_alphabetic ch \<longleftrightarrow> (let n = (of_char ch :: nat) in 65 \<le> n \<and> n \<le> 90 \<or> 97 \<le> n \<and> n \<le> 122)"

definition digits_value :: "string \<Rightarrow> nat" where
  "digits_value s = foldl (\<lambda>n ch. n * 10 + (of_char ch - 48)) 0 s"

definition parse_number :: "string \<Rightarrow> string \<Rightarrow> field_name \<Rightarrow> part_name \<Rightarrow> cron_error + nat" where
  "parse_number s field name part =
     (if s = [] then Inl (EmptyNumber name field part)
      else if \<not> list_all is_ascii_digit s
           then Inl (NotANumber name field part s (list_all is_ascii_alphabetic s))
      else if digits_value s < 2 ^ 32 then Inr (digits_value s)
      else Inl (NumberTooLarge name field part s))"

definition check_range :: "nat \<Rightarrow> string \<Rightarrow> nat \<Rightarrow> nat \<Rightarrow> field_name \<Rightarrow> cron_error + unit" where
  "check_range v field mn mx name =
     (if v < mn \<or> mx < v then Inl (OutOfRange name field v mn mx) else Inr ())"

text \<open>
  The loop that inserts \<open>from\<close>, \<open>from + step\<close>, \<dots> up to \<open>to\<close>: the addition is on \<open>u32\<close> and wraps.
  The fuel is one more than the loop can use (see \<open>step_loop_fuel\<close>).
\<close>

fun step_loop :: "nat \<Rightarrow> u32 \<Rightarrow> u32 \<Rightarrow> u32 \<Rightarrow> u64 \<Rightarrow> u64 option" where
  "step_loop 0 v to step s = None"
| "step_loop (Suc fuel) v to step s =
     (if v \<le> to then step_loop fuel (v + step) to step (fs_insert (unat v) s) else Some s)"

definition insert_steps :: "nat \<Rightarrow> nat \<Rightarrow> nat \<Rightarrow> u64 \<Rightarrow> u64" where
  "insert_steps a b step s =
     the (step_loop 70 (word_of_nat a) (word_of_nat b) (word_of_nat step) s)"

definition parse_base ::
  "string \<Rightarrow> nat \<Rightarrow> string \<Rightarrow> nat \<Rightarrow> nat \<Rightarrow> field_name \<Rightarrow> cron_error + (nat \<times> nat)" where
  "parse_base base step field mn mx name =
     (if base = ''*'' then Inr (mn, mx)
      else case split_once (CHR ''-'') base of
        Some (lo_raw, hi_raw) \<Rightarrow>
          bind_res (parse_number lo_raw field name PRangeStart) (\<lambda>lo.
          bind_res (parse_number hi_raw field name PRangeEnd) (\<lambda>hi.
          bind_res (check_range lo field mn mx name) (\<lambda>_.
          bind_res (check_range hi field mn mx name) (\<lambda>_.
            if hi < lo then Inl (BackwardRange name field lo hi) else Inr (lo, hi)))))
      | None \<Rightarrow>
          bind_res (parse_number base field name PValue) (\<lambda>value.
          bind_res (check_range value field mn mx name) (\<lambda>_.
            if step \<noteq> 1 then Inl (StepOnSingle name field value mx step) else Inr (value, value))))"

definition parse_step ::
  "string \<Rightarrow> string \<Rightarrow> field_name \<Rightarrow> cron_error + (string \<times> nat)" where
  "parse_step term field name = (case split_once (CHR ''/'') term of
     Some (base, step_raw) \<Rightarrow>
       bind_res (parse_number step_raw field name PStep) (\<lambda>step.
         if step = 0 then Inl (ZeroStep name field) else Inr (base, step))
   | None \<Rightarrow> Inr (term, 1))"

definition parse_term ::
  "string \<Rightarrow> string \<Rightarrow> nat \<Rightarrow> nat \<Rightarrow> field_name \<Rightarrow> u64 \<Rightarrow> cron_error + u64" where
  "parse_term term field mn mx name set0 =
     (if term = [] then Inl (EmptyItem name field)
      else if hd term = CHR ''-'' \<or> hd term = CHR ''+'' then Inl (SignedTerm name field term)
      else bind_res (parse_step term field name) (\<lambda>(base, step).
           bind_res (parse_base base step field mn mx name) (\<lambda>(a, b).
             Inr (insert_steps a b step set0))))"

fun parse_terms ::
  "string list \<Rightarrow> string \<Rightarrow> nat \<Rightarrow> nat \<Rightarrow> field_name \<Rightarrow> u64 \<Rightarrow> cron_error + u64" where
  "parse_terms [] field mn mx name s = Inr s"
| "parse_terms (t # ts) field mn mx name s =
     bind_res (parse_term t field mn mx name s) (parse_terms ts field mn mx name)"

definition parse_field :: "string \<Rightarrow> nat \<times> nat \<times> field_name \<Rightarrow> cron_error + u64" where
  "parse_field field rng = (case rng of (mn, mx, name) \<Rightarrow>
     parse_terms (split_on (CHR '','') field) field mn mx name fs_empty)"

definition RANGE_MINUTE where "RANGE_MINUTE = (0 :: nat, 59 :: nat, FMinute)"
definition RANGE_HOUR where "RANGE_HOUR = (0 :: nat, 23 :: nat, FHour)"
definition RANGE_DOM where "RANGE_DOM = (1 :: nat, 31 :: nat, FDayOfMonth)"
definition RANGE_MONTH where "RANGE_MONTH = (1 :: nat, 12 :: nat, FMonth)"
definition RANGE_DOW where "RANGE_DOW = (0 :: nat, 7 :: nat, FDayOfWeek)"

lemmas range_defs = RANGE_MINUTE_def RANGE_HOUR_def RANGE_DOM_def RANGE_MONTH_def RANGE_DOW_def

definition expand_alias :: "string \<Rightarrow> cron_error + string" where
  "expand_alias s =
     (if s = ''@hourly'' then Inr ''0 * * * *''
      else if s = ''@daily'' then Inr ''0 0 * * *''
      else Inl (UnknownAlias s))"

text \<open>Sunday as 7 becomes Sunday as 0.\<close>

definition fold_dow :: "u64 \<Rightarrow> u64" where
  "fold_dow s = fold (\<lambda>v d. if fs_contains s v then fs_insert (if v = 7 then 0 else v) d else d)
     [0 ..< 8] fs_empty"

definition build_expr :: "string \<Rightarrow> string list \<Rightarrow> cron_error + CronExpr" where
  "build_expr rw parts =
     bind_res (parse_field (parts ! 0) RANGE_MINUTE) (\<lambda>mi.
     bind_res (parse_field (parts ! 1) RANGE_HOUR) (\<lambda>ho.
     bind_res (parse_field (parts ! 2) RANGE_DOM) (\<lambda>dm.
     bind_res (parse_field (parts ! 3) RANGE_MONTH) (\<lambda>mo.
     bind_res (parse_field (parts ! 4) RANGE_DOW) (\<lambda>dw_raw.
       Inr \<lparr>raw = rw, minute = mi, hour = ho, dom = dm, month = mo, dow = fold_dow dw_raw,
            dom_restricted = (\<not> fs_is_full dm 1 31),
            dow_restricted = (\<not> fs_is_full (fold_dow dw_raw) 0 6)\<rparr>)))))"

definition cron_parse :: "string \<Rightarrow> cron_error + CronExpr" where
  "cron_parse input =
     (let trimmed = trim input
      in if trimmed = [] then Inl EmptyExpr
         else if MAX_EXPR_LEN < length trimmed then Inl (TooLong (length trimmed))
         else if hd trimmed = CHR ''@'' then
           bind_res (expand_alias trimmed) (\<lambda>expanded. build_expr trimmed (split_whitespace expanded))
         else
           (let parts = split_whitespace trimmed
            in if length parts \<noteq> CRON_FIELDS then Inl (WrongFieldCount (length parts))
               else build_expr (join_with '' '' parts)
                      (split_whitespace (join_with '' '' parts))))"

section \<open>The search\<close>

text \<open>When an expression runs: the minute of the day, and the minute of the calendar.\<close>

definition minute_ok :: "CronExpr \<Rightarrow> nat \<Rightarrow> bool" where
  "minute_ok e u \<longleftrightarrow> fs_contains (hour e) (u div 60) \<and> fs_contains (minute e) (u mod 60)"

definition runs_at :: "calendar \<Rightarrow> CronExpr \<Rightarrow> int \<Rightarrow> bool" where
  "runs_at cal e m \<longleftrightarrow> matches_date cal e (m div 1440) \<and> minute_ok e (nat (m mod 1440))"

text \<open>The first element of an interval with a property, as an optional result says it.\<close>

definition first_in :: "(nat \<Rightarrow> bool) \<Rightarrow> nat \<Rightarrow> nat \<Rightarrow> nat option \<Rightarrow> bool" where
  "first_in p a b r \<longleftrightarrow> (case r of
     Some m \<Rightarrow> a \<le> m \<and> m < b \<and> p m \<and> (\<forall>u. a \<le> u \<and> u < m \<longrightarrow> \<not> p u)
   | None \<Rightarrow> \<forall>u. a \<le> u \<and> u < b \<longrightarrow> \<not> p u)"

lemma first_in_skip:
  assumes "first_in p c b r" and "a \<le> c" and "c \<le> b" and "\<forall>u. a \<le> u \<and> u < c \<longrightarrow> \<not> p u"
  shows "first_in p a b r"
  using assms unfolding first_in_def by (auto split: option.splits) (meson not_le)+

lemma hour_hit:
  assumes "fs_contains (hour e) h" and "h < 24" and "a < (h + 1) * 60"
  shows "first_in (minute_ok e) (max a (h * 60)) ((h + 1) * 60)
    (map_option (\<lambda>m. h * 60 + m) (fs_first_at_or_after (minute e) (a - h * 60) 59))"
proof -
  have ok: "minute_ok e u \<longleftrightarrow> fs_contains (minute e) (u - h * 60)" if "h * 60 \<le> u" "u < (h + 1) * 60" for u
  proof -
    have "u = h * 60 + (u - h * 60)" "u - h * 60 < 60"
      using that by auto
    then have "u div 60 = h" "u mod 60 = u - h * 60"
      by (metis div_mult_self3 add.commute div_less add_0 zero_neq_numeral, metis mod_less mod_mult_self3)
    then show ?thesis
      using assms(1) by (simp add: minute_ok_def)
  qed
  show ?thesis
  proof (cases "fs_first_at_or_after (minute e) (a - h * 60) 59")
    case None
    then have "\<not> minute_ok e u" if "max a (h * 60) \<le> u" "u < (h + 1) * 60" for u
      using that ok [of u] unfolding fs_first_None by (auto dest: spec [of _ "u - h * 60"])
    with None show ?thesis by (simp add: first_in_def)
  next
    case (Some m)
    note f = fs_first_Some [OF Some]
    have "\<not> minute_ok e u" if "max a (h * 60) \<le> u" "u < h * 60 + m" for u
    proof -
      have "u < (h + 1) * 60" using that f by simp
      then show ?thesis
        using that f ok [of u] by (auto dest: spec [of _ "u - h * 60"])
    qed
    moreover have "minute_ok e (h * 60 + m)"
      using f ok [of "h * 60 + m"] by simp
    moreover have "a \<le> h * 60 + m"
      using f by (auto simp: le_diff_conv)
    ultimately show ?thesis
      using Some f by (simp add: first_in_def)
  qed
qed

lemma hour_loop_first:
  "a div 60 \<le> h0 \<Longrightarrow> h0 \<le> 24 \<Longrightarrow>
   first_in (minute_ok e) (max a (h0 * 60)) 1440 (hour_loop e a [h0 ..< 24])"
proof (induction "24 - h0" arbitrary: h0)
  case 0
  then show ?case by (auto simp: first_in_def)
next
  case (Suc n)
  then have h0: "h0 < 24" by simp
  have up: "[h0 ..< 24] = h0 # [Suc h0 ..< 24]"
    using h0 by (rule upt_conv_Cons)
  have a: "a < (h0 + 1) * 60"
    using Suc.prems(1) by (simp add: div_less_iff_less_mult less_Suc_eq_le [symmetric])
  have IH: "first_in (minute_ok e) ((h0 + 1) * 60) 1440 (hour_loop e a [Suc h0 ..< 24])"
    using Suc(1) [of "Suc h0"] Suc(2) Suc.prems a by (simp add: max_def)
  show ?case
  proof (cases "fs_contains (hour e) h0")
    case False
    have "\<not> minute_ok e u" if "max a (h0 * 60) \<le> u" "u < (h0 + 1) * 60" for u
    proof -
      have "u div 60 = h0"
        using that by (simp add: div_nat_eqI)
      with False show ?thesis by (simp add: minute_ok_def)
    qed
    then have "first_in (minute_ok e) (max a (h0 * 60)) 1440 (hour_loop e a [Suc h0 ..< 24])"
      using h0 a by (intro first_in_skip [OF IH]) auto
    with False up show ?thesis by simp
  next
    case True
    note hit = hour_hit [OF True h0 a]
    show ?thesis
    proof (cases "fs_first_at_or_after (minute e) (a - h0 * 60) 59")
      case None
      with hit have "\<forall>u. max a (h0 * 60) \<le> u \<and> u < (h0 + 1) * 60 \<longrightarrow> \<not> minute_ok e u"
        by (simp add: first_in_def)
      then have "first_in (minute_ok e) (max a (h0 * 60)) 1440 (hour_loop e a [Suc h0 ..< 24])"
        using h0 a by (intro first_in_skip [OF IH]) auto
      with True None up show ?thesis by (simp add: MINUTES_PER_HOUR_def)
    next
      case (Some m)
      have "h0 * 60 + m < 1440"
        using fs_first_Some [OF Some] h0 by simp
      with hit Some True up show ?thesis
        by (simp add: first_in_def MINUTES_PER_HOUR_def MINUTES_PER_DAY_def)
    qed
  qed
qed

lemma first_minute_first:
  assumes "a < 1440"
  shows "first_in (minute_ok e) a 1440 (first_minute_at_or_after e a)"
proof (cases "fs_first_at_or_after (hour e) (a div 60) 23")
  case None
  then have "\<not> minute_ok e u" if "a \<le> u" "u < 1440" for u
  proof -
    have "a div 60 \<le> u div 60" "u div 60 \<le> 23"
      using that by (simp_all add: div_le_mono)
    with None show ?thesis
      unfolding fs_first_None minute_ok_def by blast
  qed
  with None show ?thesis
    by (simp add: first_in_def first_minute_at_or_after_def MINUTES_PER_HOUR_def)
next
  case (Some h0)
  note f = fs_first_Some [OF Some]
  have "first_in (minute_ok e) (max a (h0 * 60)) 1440 (hour_loop e a [h0 ..< 24])"
    using f by (intro hour_loop_first) simp_all
  moreover have "\<forall>u. a \<le> u \<and> u < max a (h0 * 60) \<longrightarrow> \<not> minute_ok e u"
  proof (intro allI impI, elim conjE)
    fix u
    assume that: "a \<le> u" "u < max a (h0 * 60)"
    have "a div 60 \<le> u div 60" "u div 60 < h0"
      using that by (auto simp: div_le_mono div_less_iff_less_mult)
    with f show "\<not> minute_ok e u" by (auto simp: minute_ok_def)
  qed
  moreover have "max a (h0 * 60) \<le> 1440"
    using f assms by simp
  ultimately have "first_in (minute_ok e) a 1440 (hour_loop e a [h0 ..< 24])"
    by (auto intro: first_in_skip [OF _ max.cobounded1])
  with Some show ?thesis
    by (simp add: first_minute_at_or_after_def MINUTES_PER_HOUR_def)
qed

text \<open>The days: the result is the first run of the days searched.\<close>

lemma day_loop_first:
  assumes "f < 1440"
  shows "case day_loop cal e n date f of
      Some r \<Rightarrow> date * 1440 + int f \<le> r \<and> r < (date + int n) * 1440 \<and> runs_at cal e r \<and>
        (\<forall>u. date * 1440 + int f \<le> u \<and> u < r \<longrightarrow> \<not> runs_at cal e u)
    | None \<Rightarrow> \<forall>u. date * 1440 + int f \<le> u \<and> u < (date + int n) * 1440 \<and> u div 1440 \<le> max date (cal_max_date cal)
        \<longrightarrow> \<not> runs_at cal e u"
  using assms
proof (induction n arbitrary: date f)
  case 0
  then show ?case by auto
next
  case (Suc n)
  note fm = first_minute_first [OF Suc.prems, of e]
  have day: "u = date * 1440 + int (nat (u mod 1440)) \<and> u div 1440 = date"
    if "date * 1440 \<le> u" "u < (date + 1) * 1440" for u :: int
  proof -
    have "u div 1440 = date"
    proof (rule antisym)
      show "u div 1440 \<le> date"
        using that(2) zdiv_mono1 [of u "(date + 1) * 1440 - 1" 1440] by simp
      show "date \<le> u div 1440"
        using zdiv_mono1 [OF that(1), of 1440] by simp
    qed
    moreover have "int (nat (u mod 1440)) = u mod 1440"
      by simp
    ultimately show ?thesis
      using div_mult_mod_eq [of u 1440] by simp
  qed
  have at: "runs_at cal e (date * 1440 + int m) \<longleftrightarrow> matches_date cal e date \<and> minute_ok e m" if "m < 1440" for m
    using that by (simp add: runs_at_def)
  show ?case
  proof (cases "if matches_date cal e date then first_minute_at_or_after e f else None")
    case (Some m)
    then have md: "matches_date cal e date" and m: "first_minute_at_or_after e f = Some m"
      by (auto split: if_splits)
    with fm have mm: "f \<le> m" "m < 1440" "minute_ok e m" "\<forall>u. f \<le> u \<and> u < m \<longrightarrow> \<not> minute_ok e u"
      by (auto simp: first_in_def)
    have "\<not> runs_at cal e u" if "date * 1440 + int f \<le> u" "u < date * 1440 + int m" for u
    proof -
      have "u = date * 1440 + int (nat (u - date * 1440))"
        using that by simp
      moreover have "\<not> minute_ok e (nat (u - date * 1440))"
        using mm(4) that by (auto simp: nat_less_iff le_nat_iff)
      moreover have "nat (u - date * 1440) < 1440"
        using that mm(2) by simp
      ultimately show ?thesis
        using at by metis
    qed
    moreover have "runs_at cal e (date * 1440 + int m)"
      using at [OF mm(2)] md mm(3) by simp
    ultimately show ?thesis
      using md m mm(1,2) by (simp add: MINUTES_PER_DAY_def algebra_simps)
  next
    case None
    have today: "\<not> runs_at cal e u" if "date * 1440 + int f \<le> u" "u < (date + 1) * 1440" for u
    proof -
      have "date * 1440 \<le> u" using that by simp
      with day that have u: "u div 1440 = date" "u = date * 1440 + int (nat (u mod 1440))"
        by blast+
      with that have "f \<le> nat (u mod 1440)" "nat (u mod 1440) < 1440"
        by (simp_all add: nat_less_iff)
      with None fm u(1) show ?thesis
        by (auto simp: runs_at_def first_in_def split: if_splits)
    qed
    show ?thesis
    proof (cases "date < cal_max_date cal")
      case False
      have "\<not> runs_at cal e u" if "date * 1440 + int f \<le> u" "u div 1440 \<le> max date (cal_max_date cal)" for u
      proof -
        have "u < (date + 1) * 1440"
          using that False by (auto simp: max_def)
        with today that show ?thesis by blast
      qed
      with None False show ?thesis by (simp split: if_splits)
    next
      case True
      have step: "day_loop cal e (Suc n) date f = day_loop cal e n (date + 1) 0"
        using None True by (simp split: if_splits)
      have bound: "(date + 1 + int n) * 1440 = (date + int (Suc n)) * 1440"
        by simp
      show ?thesis
        unfolding step
      proof (cases "day_loop cal e n (date + 1) 0")
        case None
        have "\<not> runs_at cal e u"
          if u: "date * 1440 + int f \<le> u" "u < (date + int (Suc n)) * 1440"
            "u div 1440 \<le> max date (cal_max_date cal)" for u
        proof (cases "u < (date + 1) * 1440")
          case True
          with u(1) show ?thesis by (rule today)
        next
          case False
          then have "(date + 1) * 1440 \<le> u" by simp
          moreover have "u div 1440 \<le> max (date + 1) (cal_max_date cal)"
            using u(3) \<open>date < cal_max_date cal\<close> by simp
          moreover have "u < (date + 1 + int n) * 1440"
            using u(2) bound by simp
          ultimately show ?thesis
            using Suc.IH [of 0 "date + 1"] None by simp
        qed
        with None show "case day_loop cal e n (date + 1) 0 of
            Some r \<Rightarrow> date * 1440 + int f \<le> r \<and> r < (date + int (Suc n)) * 1440 \<and> runs_at cal e r \<and>
              (\<forall>u. date * 1440 + int f \<le> u \<and> u < r \<longrightarrow> \<not> runs_at cal e u)
          | None \<Rightarrow> \<forall>u. date * 1440 + int f \<le> u \<and> u < (date + int (Suc n)) * 1440 \<and>
              u div 1440 \<le> max date (cal_max_date cal) \<longrightarrow> \<not> runs_at cal e u"
          by simp
      next
        case (Some r)
        from Suc.IH [of 0 "date + 1"] Some
        have r: "(date + 1) * 1440 \<le> r" "r < (date + 1 + int n) * 1440" "runs_at cal e r"
          "\<And>u. (date + 1) * 1440 \<le> u \<Longrightarrow> u < r \<Longrightarrow> \<not> runs_at cal e u"
          by simp_all
        have "\<not> runs_at cal e u" if u: "date * 1440 + int f \<le> u" "u < r" for u
        proof (cases "u < (date + 1) * 1440")
          case True
          with u(1) show ?thesis by (rule today)
        next
          case False
          with u(2) r(4) show ?thesis by simp
        qed
        moreover have "date * 1440 + int f \<le> r"
          using r(1) Suc.prems by simp
        ultimately show "case day_loop cal e n (date + 1) 0 of
            Some r \<Rightarrow> date * 1440 + int f \<le> r \<and> r < (date + int (Suc n)) * 1440 \<and> runs_at cal e r \<and>
              (\<forall>u. date * 1440 + int f \<le> u \<and> u < r \<longrightarrow> \<not> runs_at cal e u)
          | None \<Rightarrow> \<forall>u. date * 1440 + int f \<le> u \<and> u < (date + int (Suc n)) * 1440 \<and>
              u div 1440 \<le> max date (cal_max_date cal) \<longrightarrow> \<not> runs_at cal e u"
          using Some r(2,3) bound by simp
      qed
    qed
  qed
qed

text \<open>C37: The next run of a schedule is the first minute after the given time at which the expression
  runs, never the minute of that time itself; no answer means no such minute in the searched days
  of the calendar.\<close>

theorem next_after_exact:
  "case next_after cal e t of
     Some r \<Rightarrow> t div 60 < r \<and> t < r * 60 \<and> runs_at cal e r \<and>
       (\<forall>u. t div 60 < u \<and> u < r \<longrightarrow> \<not> runs_at cal e u)
   | None \<Rightarrow> \<forall>u. t div 60 < u \<and> u < ((t div 60 + 1) div 1440 + 3300) * 1440 \<and>
       u div 1440 \<le> cal_max_date cal \<longrightarrow> \<not> runs_at cal e u"
proof -
  define m where "m = t div 60 + 1"
  have f: "nat (m mod 1440) < 1440"
    by (simp add: nat_less_iff)
  have m: "m div 1440 * 1440 + int (nat (m mod 1440)) = m"
    using div_mult_mod_eq [of m 1440] by simp
  have secs: "t < r * 60" if "m \<le> r" for r
  proof -
    have "t < m * 60"
      using div_mult_mod_eq [of t 60] pos_mod_bound [of 60 t] unfolding m_def by simp
    also have "\<dots> \<le> r * 60"
      using that by simp
    finally show ?thesis .
  qed
  show ?thesis
  proof (cases "cal_max_date cal < m div 1440")
    case True
    have "\<not> u div 1440 \<le> cal_max_date cal" if "t div 60 < u" for u
      using that True zdiv_mono1 [of m u 1440] unfolding m_def by simp
    with True show ?thesis
      by (auto simp: next_after_def m_def [symmetric] MINUTES_PER_DAY_def Let_def)
  next
    case False
    then have na: "next_after cal e t = day_loop cal e 3300 (m div 1440) (nat (m mod 1440))"
      by (simp add: next_after_def m_def MINUTES_PER_DAY_def MAX_DAYS_AHEAD_def Let_def)
    note dl = day_loop_first [OF f, where cal = cal and e = e and n = 3300 and date = "m div 1440", unfolded m]
    have lt: "t div 60 < u \<longleftrightarrow> m \<le> u" for u
      unfolding m_def by auto
    show ?thesis
    proof (cases "next_after cal e t")
      case None
      with dl na False show ?thesis
        by (auto simp: lt m_def [symmetric])
    next
      case (Some r)
      then have "day_loop cal e 3300 (m div 1440) (nat (m mod 1440)) = Some r"
        using na by simp
      with dl have "m \<le> r" "runs_at cal e r" "\<forall>u. m \<le> u \<and> u < r \<longrightarrow> \<not> runs_at cal e u"
        by simp_all
      with Some secs show ?thesis
        by (simp add: lt)
    qed
  qed
qed

text \<open>An expression for midnight on every day of a calendar.\<close>

definition ex_cal :: calendar where
  "ex_cal = \<lparr>cal_month = (\<lambda>_. 1), cal_day = (\<lambda>_. 1), cal_weekday = (\<lambda>_. 0), cal_max_date = 1000\<rparr>"

definition ex_daily :: CronExpr where
  "ex_daily = \<lparr>raw = ''@daily'', minute = 1, hour = 1, dom = 2, month = 2, dow = 1,
     dom_restricted = True, dow_restricted = True\<rparr>"

lemma day_loop_unroll:
  "0 < n \<Longrightarrow> day_loop cal e n date fl =
     (case (if matches_date cal e date then first_minute_at_or_after e fl else None) of
        Some m \<Rightarrow> Some (date * int MINUTES_PER_DAY + int m)
      | None \<Rightarrow> (if date < cal_max_date cal then day_loop cal e (n - 1) (date + 1) 0 else None))"
proof -
  assume "0 < n"
  then obtain k where n: "n = Suc k" by (cases n) auto
  show ?thesis unfolding n diff_Suc_1 day_loop.simps ..
qed

lemma ex_next_midnight: "next_after ex_cal ex_daily 86280 = Some 1440"
  by (simp add: next_after_def day_loop_unroll matches_date_def ex_cal_def ex_daily_def fs_contains_def
    first_minute_at_or_after_def fs_first_at_or_after_def MINUTES_PER_DAY_def MINUTES_PER_HOUR_def
    MAX_DAYS_AHEAD_def upt_rec)

theorem next_after_exact_witness:
  "runs_at ex_cal ex_daily 1440 \<and> \<not> runs_at ex_cal ex_daily 1439"
  using next_after_exact [where cal = ex_cal and e = ex_daily and t = 86280] by (simp add: ex_next_midnight)

section \<open>What the parser builds\<close>

text \<open>
  The loop over the steps. A step of at least half the range of \<open>u32\<close> makes the counter either
  leave the field or, after the wrap, decrease: it ends in every case.
\<close>

lemma step_loop_up:
  assumes "unat to < 64" and "0 < unat st" and "unat st < 2 ^ 31"
  shows "0 < fuel \<Longrightarrow> unat to + 2 \<le> unat v + fuel \<Longrightarrow> step_loop fuel v to st s \<noteq> None"
proof (induction fuel arbitrary: v s)
  case 0
  then show ?case by simp
next
  case (Suc fuel)
  show ?case
  proof (cases "v \<le> to")
    case True
    then have v: "unat v \<le> unat to" by (simp add: word_le_nat_alt)
    with assms have "unat (v + st) = unat v + unat st"
      by (subst unat_plus_if_size) (simp add: word_size)
    with v Suc.prems assms(2) have "step_loop fuel (v + st) to st (fs_insert (unat v) s) \<noteq> None"
      by (intro Suc.IH) auto
    with True show ?thesis by simp
  qed simp
qed

lemma step_loop_down:
  assumes "unat to < 64" and "2 ^ 31 \<le> unat st"
  shows "0 < fuel \<Longrightarrow> (v \<le> to \<Longrightarrow> unat v + 2 \<le> fuel) \<Longrightarrow> step_loop fuel v to st s \<noteq> None"
proof (induction fuel arbitrary: v s)
  case 0
  then show ?case by simp
next
  case (Suc fuel)
  show ?case
  proof (cases "v \<le> to")
    case True
    then have v: "unat v \<le> unat to" by (simp add: word_le_nat_alt)
    have fuel: "unat v + 1 \<le> fuel"
      using Suc.prems(2) [OF True] by simp
    have "unat (v + st) + 2 \<le> fuel" if "v + st \<le> to"
    proof -
      have le: "unat (v + st) \<le> unat to"
        using that by (simp add: word_le_nat_alt)
      have "unat (v + st) = unat v + unat st - 2 ^ 32"
        using le assms by (auto simp: unat_plus_if_size word_size split: if_splits)
      moreover have "unat st < 2 ^ 32"
        using unsigned_less [of st] by simp
      moreover have "2 ^ 32 \<le> unat v + unat st"
        using le assms by (auto simp: unat_plus_if_size word_size split: if_splits)
      ultimately show ?thesis
        using fuel by simp
    qed
    with fuel have "step_loop fuel (v + st) to st (fs_insert (unat v) s) \<noteq> None"
      by (intro Suc.IH) auto
    with True show ?thesis by simp
  qed simp
qed

lemma step_loop_fuel:
  assumes "unat to < 64" and "0 < unat st" and "unat v < 64"
  shows "step_loop 70 v to st s \<noteq> None"
proof (cases "unat st < 2 ^ 31")
  case True
  with assms show ?thesis by (intro step_loop_up) auto
next
  case False
  with assms show ?thesis by (intro step_loop_down) auto
qed

lemma step_loop_bounds:
  "step_loop fuel v to st s = Some s' \<Longrightarrow> unat to < 64 \<Longrightarrow>
   (fs_contains s w \<longrightarrow> fs_contains s' w) \<and> (fs_contains s' w \<longrightarrow> fs_contains s w \<or> w \<le> unat to)"
proof (induction fuel arbitrary: v s)
  case (Suc fuel)
  show ?case
  proof (cases "v \<le> to")
    case True
    then have v: "unat v \<le> unat to" by (simp add: word_le_nat_alt)
    from True Suc.prems(1) have "step_loop fuel (v + st) to st (fs_insert (unat v) s) = Some s'"
      by simp
    from Suc.IH [OF this Suc.prems(2)] v Suc.prems(2) show ?thesis
      by auto
  next
    case False
    with Suc.prems show ?thesis by simp
  qed
qed simp

lemma step_loop_first:
  assumes "step_loop fuel v to st s = Some s'" and "unat to < 64" and "v \<le> to"
  shows "fs_contains s' (unat v)"
proof (cases fuel)
  case (Suc n)
  with assms have "step_loop n (v + st) to st (fs_insert (unat v) s) = Some s'"
    by simp
  moreover have "unat v < 64"
    using assms(2,3) by (simp add: word_le_nat_alt)
  ultimately show ?thesis
    using step_loop_bounds [OF _ assms(2), of n "v + st" st _ s' "unat v"] by simp
qed (use assms in simp)

lemma step_loop_exact:
  assumes "unat to < 64" and "0 < unat st" and "unat to + unat st < 2 ^ 32"
  shows "step_loop fuel v to st s = Some s' \<Longrightarrow>
   fs_contains s' w \<longleftrightarrow> fs_contains s w \<or>
     (unat v \<le> w \<and> w \<le> unat to \<and> (w - unat v) mod unat st = 0)"
proof (induction fuel arbitrary: v s)
  case (Suc fuel)
  show ?case
  proof (cases "v \<le> to")
    case True
    then have v: "unat v \<le> unat to" by (simp add: word_le_nat_alt)
    with assms have add: "unat (v + st) = unat v + unat st"
      by (subst unat_plus_if_size) (simp add: word_size)
    from True Suc.prems have "step_loop fuel (v + st) to st (fs_insert (unat v) s) = Some s'"
      by simp
    from Suc.IH [OF this] v assms(1)
    have IH: "fs_contains s' w \<longleftrightarrow> w = unat v \<or> fs_contains s w \<or>
        (unat v + unat st \<le> w \<and> w \<le> unat to \<and> (w - (unat v + unat st)) mod unat st = 0)"
      by (simp add: add)
    show ?thesis
    proof (cases "unat v + unat st \<le> w")
      case True
      then have "w - unat v = (w - (unat v + unat st)) + unat st"
        by simp
      then have "(w - unat v) mod unat st = (w - (unat v + unat st)) mod unat st"
        by (metis mod_add_self2)
      with True IH assms(2) show ?thesis by auto
    next
      case False
      then have "(w - unat v) mod unat st = w - unat v"
        using assms(2) by simp
      with False IH v show ?thesis by auto
    qed
  next
    case False
    with Suc.prems show ?thesis by (auto simp: word_le_nat_alt)
  qed
qed simp

lemma unat_u32: "n < 2 ^ 32 \<Longrightarrow> unat (word_of_nat n :: u32) = n"
  by (simp add: unsigned_of_nat take_bit_nat_eq_self_iff)

text \<open>The same on the numbers of a field.\<close>

lemma insert_steps_result:
  assumes "a < 64" and "b < 64" and "0 < step" and "step < 2 ^ 32"
  shows "step_loop 70 (word_of_nat a) (word_of_nat b) (word_of_nat step) s = Some (insert_steps a b step s)"
proof -
  have "unat (word_of_nat a :: u32) = a" "unat (word_of_nat b :: u32) = b"
    "unat (word_of_nat step :: u32) = step"
    using assms by (simp_all add: unat_u32)
  with assms step_loop_fuel [of "word_of_nat b" "word_of_nat step" "word_of_nat a" s] show ?thesis
    by (auto simp: insert_steps_def)
qed

lemma insert_steps_bounds:
  assumes "a \<le> b" and "b < 64" and "0 < step" and "step < 2 ^ 32"
  shows "fs_contains s w \<Longrightarrow> fs_contains (insert_steps a b step s) w"
    and "fs_contains (insert_steps a b step s) w \<Longrightarrow> fs_contains s w \<or> w \<le> b"
    and "fs_contains (insert_steps a b step s) a"
proof -
  have u: "unat (word_of_nat a :: u32) = a" "unat (word_of_nat b :: u32) = b"
    using assms by (simp_all add: unat_u32)
  have a: "a < 64" using assms by simp
  note r = insert_steps_result [OF a assms(2-4), of s]
  show "fs_contains s w \<Longrightarrow> fs_contains (insert_steps a b step s) w"
    and "fs_contains (insert_steps a b step s) w \<Longrightarrow> fs_contains s w \<or> w \<le> b"
    using step_loop_bounds [OF r, of w] u assms(2) by auto
  show "fs_contains (insert_steps a b step s) a"
    using step_loop_first [OF r] u assms by (simp add: word_le_nat_alt)
qed

text \<open>A step that cannot wrap the \<open>u32\<close> counter selects exactly the values from the first to the last
  in steps; nothing else of the set changes.\<close>

theorem steps_exact:
  assumes "a \<le> b" and "b < 64" and "0 < step" and "b + step < 2 ^ 32"
  shows "fs_contains (insert_steps a b step s) w \<longleftrightarrow>
    fs_contains s w \<or> (a \<le> w \<and> w \<le> b \<and> (w - a) mod step = 0)"
proof -
  have u: "unat (word_of_nat a :: u32) = a" "unat (word_of_nat b :: u32) = b"
    "unat (word_of_nat step :: u32) = step"
    using assms by (simp_all add: unat_u32)
  have a: "a < 64" "step < 2 ^ 32" using assms by simp_all
  show ?thesis
    using step_loop_exact [OF _ _ _ insert_steps_result [OF a(1) assms(2,3) a(2), of s], of w] assms
    by (simp add: u)
qed

theorem steps_exact_witness: "fs_contains (insert_steps 5 20 3 fs_empty) 14"
  using steps_exact [of 5 20 3 fs_empty 14] by simp

text \<open>C39: The loop over the steps always ends: within 70 rounds it returns a set, whatever the step, the
  wrapping ones included.\<close>

theorem steps_terminate:
  assumes "a < 64" and "b < 64" and "0 < step" and "step < 2 ^ 32"
  shows "\<exists>s'. step_loop 70 (word_of_nat a) (word_of_nat b) (word_of_nat step) s = Some s'"
  using insert_steps_result [OF assms] by blast

theorem steps_terminate_witness:
  "\<exists>s'. step_loop 70 (word_of_nat 20) (word_of_nat 63) (word_of_nat 4294967295) fs_empty = Some s'"
  by (rule steps_terminate) simp_all

text \<open>What the parser accepts of a field.\<close>

lemma parse_number_bound: "parse_number t field name part = Inr n \<Longrightarrow> n < 4294967296"
  by (auto simp: parse_number_def split: if_splits)

lemma check_range_Inr: "check_range v field mn mx name = Inr u \<longleftrightarrow> mn \<le> v \<and> v \<le> mx"
  by (auto simp: check_range_def)

lemma parse_step_bound:
  "parse_step term field name = Inr (base, st) \<Longrightarrow> 0 < st \<and> st < 2 ^ 32"
  by (auto simp: parse_step_def bind_res_Inr_iff dest: parse_number_bound split: option.splits if_splits)

lemma parse_base_bound:
  "parse_base base st field mn mx name = Inr (a, b) \<Longrightarrow> mn \<le> mx \<Longrightarrow> mn \<le> a \<and> a \<le> b \<and> b \<le> mx"
  by (auto simp: parse_base_def bind_res_Inr_iff check_range_Inr split: option.splits if_splits)

definition fs_within :: "u64 \<Rightarrow> nat \<Rightarrow> bool" where
  "fs_within s mx \<longleftrightarrow> (\<forall>v \<in> set [0 ..< 64]. fs_contains s v \<longrightarrow> v \<le> mx)"

definition fs_hits :: "u64 \<Rightarrow> nat \<Rightarrow> nat \<Rightarrow> bool" where
  "fs_hits s mn mx \<longleftrightarrow> (\<exists>v \<in> set [mn ..< Suc mx]. fs_contains s v)"

lemma parse_term_bounds:
  assumes "parse_term t field mn mx name s = Inr s'" and "mn \<le> mx" and "mx < 64"
  shows "(fs_within s mx \<longrightarrow> fs_within s' mx) \<and> fs_hits s' mn mx"
proof -
  from assms(1) obtain base st a b where
    st: "parse_step t field name = Inr (base, st)" and
    ab: "parse_base base st field mn mx name = Inr (a, b)" and
    s': "s' = insert_steps a b st s"
    by (auto simp: parse_term_def bind_res_Inr_iff split: if_splits prod.splits)
  note st = parse_step_bound [OF st] and ab = parse_base_bound [OF ab assms(2)]
  have b: "b < 64" using ab assms(3) by simp
  have "a \<le> b" "0 < st" "st < 2 ^ 32" using ab st by simp_all
  note r = insert_steps_bounds [OF \<open>a \<le> b\<close> b \<open>0 < st\<close> \<open>st < 2 ^ 32\<close>, of s]
  have "fs_hits s' mn mx"
    using r(3) ab unfolding fs_hits_def s' by (intro bexI [of _ a]) auto
  moreover have "fs_within s' mx" if "fs_within s mx"
    using that r(2) ab unfolding fs_within_def s' by (auto dest: r(2))
  ultimately show ?thesis by blast
qed

lemma parse_terms_bounds:
  assumes "mn \<le> mx" and "mx < 64"
  shows "parse_terms ts field mn mx name s = Inr s' \<Longrightarrow> fs_within s mx \<Longrightarrow>
    fs_within s' mx \<and> (ts \<noteq> [] \<longrightarrow> fs_hits s' mn mx)"
proof (induction ts arbitrary: s)
  case Nil
  then show ?case by simp
next
  case (Cons t ts)
  then obtain s1 where s1: "parse_term t field mn mx name s = Inr s1"
    "parse_terms ts field mn mx name s1 = Inr s'"
    by (auto simp: bind_res_Inr_iff)
  note b = parse_term_bounds [OF s1(1) assms]
  with Cons.prems have "fs_within s1 mx" by simp
  with Cons.IH [OF s1(2)] show ?case
    using b s1(2) by (cases ts) auto
qed

lemma parse_field_bounds:
  assumes "parse_field f (mn, mx, name) = Inr s" and "mn \<le> mx" and "mx < 64"
  shows "fs_within s mx \<and> fs_hits s mn mx"
proof -
  have "fs_within fs_empty mx" by (simp add: fs_within_def)
  moreover from assms(1) have "parse_terms (split_on (CHR '','') f) f mn mx name fs_empty = Inr s"
    by (simp add: parse_field_def)
  ultimately show ?thesis
    using parse_terms_bounds [OF assms(2,3)] split_on_nonempty by blast
qed

lemma fold_dow_contains:
  "fs_contains (fold_dow s) v \<longleftrightarrow> (v = 0 \<and> (fs_contains s 0 \<or> fs_contains s 7)) \<or> (1 \<le> v \<and> v \<le> 6 \<and> fs_contains s v)"
proof -
  have "fs_contains (fold (\<lambda>v d. if fs_contains s v then fs_insert (if v = 7 then 0 else v) d else d) vs d) w \<longleftrightarrow>
      fs_contains d w \<or> (\<exists>v \<in> set vs. fs_contains s v \<and> w = (if v = 7 then 0 else v))"
    if "\<forall>v \<in> set vs. v < 64" for vs d w
    using that by (induction vs arbitrary: d) auto
  from this [of "[0 ..< 8]" fs_empty v] have
    "fs_contains (fold_dow s) v \<longleftrightarrow> (\<exists>u \<in> {0 ..< 8}. fs_contains s u \<and> v = (if u = 7 then 0 else u))"
    by (simp add: fold_dow_def atLeast0LessThan lessThan_iff del: upt_Suc)
  also have "\<dots> \<longleftrightarrow> (v = 0 \<and> (fs_contains s 0 \<or> fs_contains s 7)) \<or> (1 \<le> v \<and> v \<le> 6 \<and> fs_contains s v)"
  proof
    assume "\<exists>u \<in> {0 ..< 8}. fs_contains s u \<and> v = (if u = 7 then 0 else u)"
    then obtain u where "u < 8" "fs_contains s u" "v = (if u = 7 then 0 else u)"
      by auto
    then show "(v = 0 \<and> (fs_contains s 0 \<or> fs_contains s 7)) \<or> (1 \<le> v \<and> v \<le> 6 \<and> fs_contains s v)"
      by (cases "u = 7"; cases "u = 0") auto
  next
    assume "(v = 0 \<and> (fs_contains s 0 \<or> fs_contains s 7)) \<or> (1 \<le> v \<and> v \<le> 6 \<and> fs_contains s v)"
    then show "\<exists>u \<in> {0 ..< 8}. fs_contains s u \<and> v = (if u = 7 then 0 else u)"
      by (elim disjE conjE) (force intro: bexI [of _ 0] bexI [of _ 7] bexI [of _ v])+
  qed
  finally show ?thesis .
qed

text \<open>The sets of an accepted expression.\<close>

definition expr_ok :: "CronExpr \<Rightarrow> bool" where
  "expr_ok e \<longleftrightarrow>
     fs_within (minute e) 59 \<and> fs_hits (minute e) 0 59 \<and>
     fs_within (hour e) 23 \<and> fs_hits (hour e) 0 23 \<and>
     fs_within (dom e) 31 \<and> fs_hits (dom e) 1 31 \<and>
     fs_within (month e) 12 \<and> fs_hits (month e) 1 12 \<and>
     fs_within (dow e) 6 \<and> fs_hits (dow e) 0 6"

lemma build_expr_ok:
  assumes "build_expr rw parts = Inr e"
  shows "expr_ok e \<and> raw e = rw"
proof -
  from assms obtain dw where
    mi: "parse_field (parts ! 0) (0, 59, FMinute) = Inr (minute e)" and
    ho: "parse_field (parts ! 1) (0, 23, FHour) = Inr (hour e)" and
    dm: "parse_field (parts ! 2) (1, 31, FDayOfMonth) = Inr (dom e)" and
    mo: "parse_field (parts ! 3) (1, 12, FMonth) = Inr (month e)" and
    dw: "parse_field (parts ! 4) (0, 7, FDayOfWeek) = Inr dw" and
    e: "dow e = fold_dow dw" "raw e = rw"
    by (auto simp: build_expr_def bind_res_Inr_iff range_defs)
  note b = parse_field_bounds [OF mi] parse_field_bounds [OF ho] parse_field_bounds [OF dm]
    parse_field_bounds [OF mo] parse_field_bounds [OF dw]
  have "fs_within (dow e) 6"
    unfolding fs_within_def e(1) fold_dow_contains by auto
  moreover have "fs_hits (dow e) 0 6"
  proof -
    from b(5) obtain v where v: "v \<in> set [0 ..< Suc 7]" "fs_contains dw v"
      unfolding fs_hits_def by auto
    then have "fs_contains (dow e) (if v = 7 then 0 else v)"
      unfolding e(1) fold_dow_contains by (cases "v = 0") auto
    with v(1) show ?thesis
      unfolding fs_hits_def by (intro bexI [of _ "if v = 7 then 0 else v"]) auto
  qed
  ultimately show ?thesis
    using b(1-4) e(2) unfolding expr_ok_def by simp
qed

text \<open>C40: Every accepted expression has fields whose values lie at or below the field's maximum and select
  at least one value of the field's range: no accepted expression is empty in a field.\<close>

theorem parsed_fields_ok:
  assumes "cron_parse s = Inr e"
  shows "expr_ok e"
  using assms
  by (auto simp: cron_parse_def Let_def bind_res_Inr_iff split: if_splits dest: build_expr_ok)

text \<open>What evaluates the parser on a concrete text.\<close>

lemmas ex_cron = cron_parse_def build_expr_def trim_def is_whitespace_def split_whitespace_def
  parse_field_def parse_term_def parse_step_def parse_base_def parse_number_def check_range_def
  range_defs is_ascii_digit_def digits_value_def MAX_EXPR_LEN_def CRON_FIELDS_def

lemma ex_cron_accepted: "\<exists>e. cron_parse ''*/15 9-17 * * 1-5'' = Inr e"
  by (simp add: ex_cron Let_def)

theorem parsed_fields_ok_witness:
  "\<exists>e. cron_parse ''*/15 9-17 * * 1-5'' = Inr e \<and> expr_ok e"
  using ex_cron_accepted parsed_fields_ok by blast

text \<open>Reading back the normal form.\<close>

lemma dropWhile_hd: "t \<noteq> [] \<Longrightarrow> \<not> p (hd t) \<Longrightarrow> dropWhile p t = t"
  by (cases t) auto

lemma trim_id: "t \<noteq> [] \<Longrightarrow> \<not> is_whitespace (hd t) \<Longrightarrow> \<not> is_whitespace (last t) \<Longrightarrow> trim t = t"
  by (simp add: trim_def dropWhile_hd hd_rev)

lemma hd_trim: "trim s \<noteq> [] \<Longrightarrow> \<not> is_whitespace (hd (trim s))"
proof -
  assume ne: "trim s \<noteq> []"
  define u where "u = dropWhile is_whitespace s"
  have "u \<noteq> []"
    using ne unfolding trim_def u_def [symmetric] by (metis dropWhile.simps(1) rev.simps(1))
  then have h: "\<not> is_whitespace (hd u)"
    unfolding u_def by (rule hd_dropWhile)
  have "takeWhile is_whitespace (rev u) @ dropWhile is_whitespace (rev u) = rev u"
    by simp
  then have "u = trim s @ rev (takeWhile is_whitespace (rev u))"
    unfolding trim_def u_def [symmetric] by (metis rev_append rev_rev_ident)
  then have "hd u = hd (trim s)"
    using ne by (metis hd_append2)
  with h show ?thesis by simp
qed

lemma split_whitespace_words: "w \<in> set (split_whitespace s) \<Longrightarrow> w \<noteq> [] \<and> (\<forall>x \<in> set w. \<not> is_whitespace x)"
  by (auto simp: split_whitespace_def dest: split_pred_words)

lemma split_whitespace_join:
  assumes "ws \<noteq> []" and "\<forall>w \<in> set ws. w \<noteq> [] \<and> (\<forall>x \<in> set w. \<not> is_whitespace x)"
  shows "split_whitespace (join_with '' '' ws) = ws"
proof -
  have "split_pred is_whitespace (join_with '' '' ws) = ws"
    using assms by (intro split_pred_join) (auto simp: is_whitespace_def)
  with assms(2) show ?thesis
    by (simp add: split_whitespace_def)
qed

lemma length_join: "ws \<noteq> [] \<Longrightarrow> Suc (length (join_with [c] ws)) = sum_list (map length ws) + length ws"
  by (induction "[c]" ws rule: join_with.induct) auto

lemma sum_words_filter:
  "sum_list (map length (filter (\<lambda>w. w \<noteq> []) ws)) + length (filter (\<lambda>w. w \<noteq> []) ws)
     \<le> sum_list (map length ws) + length ws"
  by (induction ws) auto

lemma length_split_join:
  assumes "split_whitespace s \<noteq> []"
  shows "length (join_with '' '' (split_whitespace s)) \<le> length s"
proof -
  have "Suc (length (join_with '' '' (split_whitespace s))) \<le>
      sum_list (map length (split_pred is_whitespace s)) + length (split_pred is_whitespace s)"
    using length_join [OF assms, of "CHR '' ''"] sum_words_filter [of "split_pred is_whitespace s"]
    by (simp add: split_whitespace_def)
  then show ?thesis
    by (simp add: split_pred_length)
qed

lemma hd_join: "ws \<noteq> [] \<Longrightarrow> hd ws \<noteq> [] \<Longrightarrow> hd (join_with sep ws) = hd (hd ws)"
  by (cases "(sep, ws)" rule: join_with.cases) auto

lemma join_nonempty: "ws \<noteq> [] \<Longrightarrow> hd ws \<noteq> [] \<Longrightarrow> join_with sep ws \<noteq> []"
  by (cases "(sep, ws)" rule: join_with.cases) auto

lemma last_join: "ws \<noteq> [] \<Longrightarrow> \<forall>w \<in> set ws. w \<noteq> [] \<Longrightarrow> last (join_with sep ws) = last (last ws)"
proof (induction sep ws rule: join_with.induct)
  case (3 sep w v ws)
  then have "join_with sep (v # ws) \<noteq> []"
    by (intro join_nonempty) auto
  with 3 show ?case by simp
qed auto

lemma hd_split_whitespace:
  assumes "t \<noteq> []" and "\<not> is_whitespace (hd t)"
  shows "split_whitespace t \<noteq> [] \<and> hd (split_whitespace t) \<noteq> [] \<and> hd (hd (split_whitespace t)) = hd t"
proof -
  obtain x xs where t: "t = x # xs" using assms(1) by (cases t) auto
  obtain v vs where "split_pred is_whitespace xs = v # vs"
    using split_pred_nonempty by (cases "split_pred is_whitespace xs") auto
  with t assms(2) show ?thesis
    by (simp add: split_whitespace_def)
qed

text \<open>C38: The stored form of an expression, its normalized text, reads back as the same expression: a
  schedule survives being written to the schedule file and loaded again.\<close>

theorem cron_roundtrip:
  assumes "cron_parse s = Inr e"
  shows "cron_parse (raw e) = Inr e"
proof -
  define t where "t = trim s"
  have t: "t \<noteq> []" "length t \<le> MAX_EXPR_LEN"
    using assms by (auto simp: cron_parse_def Let_def t_def split: if_splits)
  have ws: "\<not> is_whitespace (hd t)"
    using t(1) hd_trim unfolding t_def by blast
  show ?thesis
  proof (cases "hd t = CHR ''@''")
    case True
    with assms t obtain x where x: "expand_alias t = Inr x" "build_expr t (split_whitespace x) = Inr e"
      by (auto simp: cron_parse_def Let_def t_def [symmetric] bind_res_Inr_iff split: if_splits)
    then have "raw e = t"
      using build_expr_ok by blast
    moreover from x(1) have "t = ''@hourly'' \<or> t = ''@daily''"
      by (auto simp: expand_alias_def split: if_splits)
    then have "trim t = t"
      by (auto intro!: trim_id simp: is_whitespace_def)
    ultimately show ?thesis
      using t True x by (simp add: cron_parse_def)
  next
    case False
    define ps where "ps = split_whitespace t"
    from assms t False have ps: "length ps = CRON_FIELDS" and
      b: "build_expr (join_with '' '' ps) (split_whitespace (join_with '' '' ps)) = Inr e"
      by (auto simp: cron_parse_def Let_def t_def [symmetric] ps_def [symmetric] split: if_splits)
    have words: "\<forall>w \<in> set ps. w \<noteq> [] \<and> (\<forall>x \<in> set w. \<not> is_whitespace x)"
      unfolding ps_def using split_whitespace_words by blast
    note hd = hd_split_whitespace [OF t(1) ws, folded ps_def]
    define j where "j = join_with '' '' ps"
    have raw: "raw e = j"
      using build_expr_ok [OF b] unfolding j_def by blast
    have hdj: "j \<noteq> []" "hd j = hd t"
      unfolding j_def using hd by (simp_all add: join_nonempty hd_join)
    have "last ps \<in> set ps"
      using hd by simp
    with words have "\<not> is_whitespace (last (last ps))"
      using last_in_set by blast
    then have "\<not> is_whitespace (last j)"
      using hd words last_join [of ps "'' ''"] unfolding j_def by auto
    with hdj ws have "trim j = j"
      by (intro trim_id) auto
    moreover have "length j \<le> length t"
      using length_split_join [of t] hd unfolding j_def ps_def by blast
    moreover have "split_whitespace j = ps"
      unfolding j_def using hd words by (intro split_whitespace_join) auto
    ultimately show ?thesis
      using raw hdj t False ps b by (simp add: cron_parse_def j_def [symmetric])
  qed
qed

theorem cron_roundtrip_witness:
  "\<exists>e. cron_parse ''*/15 9-17 * * 1-5'' = Inr e \<and> cron_parse (raw e) = Inr e"
  using ex_cron_accepted cron_roundtrip by blast

lemma step_loop_unroll:
  "0 < fuel \<Longrightarrow> step_loop fuel v to st s =
     (if v \<le> to then step_loop (fuel - 1) (v + st) to st (fs_insert (unat v) s) else Some s)"
  by (cases fuel) simp_all

lemma ex_wrapping_loop:
  "insert_steps 5 20 4294967295 s =
     fs_insert 0 (fs_insert 1 (fs_insert 2 (fs_insert 3 (fs_insert 4 (fs_insert 5 s)))))"
  by (simp add: insert_steps_def step_loop_unroll)

lemma ex_wrapping_loop_day:
  "insert_steps 2 20 4294967295 s = fs_insert 0 (fs_insert 1 (fs_insert 2 s))"
  by (simp add: insert_steps_def step_loop_unroll)

text \<open>A step close to the size of \<open>u32\<close> wraps the counter: the accepted item \<open>5-20/4294967295\<close> selects
  the minutes 0 to 5, outside the range it states, and in the day field it selects day 0.\<close>

theorem huge_step_wraps:
  "parse_field ''5-20/4294967295'' RANGE_MINUTE = Inr (fs_full 0 5)
   \<and> parse_field ''2-20/4294967295'' RANGE_DOM = Inr (fs_full 0 2)"
  by (simp add: ex_cron ex_wrapping_loop ex_wrapping_loop_day fs_full_def upt_rec fs_insert_def fs_empty_def)

end
