(* ===== verification/XB_Backup.thy ===== *)
theory XB_Backup
  imports XB_Storage
begin

text \<open>
  Full backups (\<open>pipeline/backup.rs\<close>): the core that stores the stream of a dump and settles its
  end, the manifest of each engine, and the clean-up of a failed run. The state is the destination
  together with an oracle that says which storage calls fail and which ids are drawn, so that every
  pattern of failures is an execution. What a driver yields (the bytes of the dump, how it ends, the
  metadata of the server) and the transformation of the stages are parameters. The lemmas show that
  a run either publishes a backup that verifies or leaves the destination as it was.
\<close>

section \<open>A destination that can fail\<close>

text \<open>
  The calls are numbered. A failed \<open>put_stream\<close> leaves nothing at its path, as the trait
  \<open>Storage\<close> demands of its implementations; a failed \<open>delete\<close> leaves the object.
\<close>

record world =
  w_store :: store
  w_calls :: nat
  w_put_fails :: "nat \<Rightarrow> bool"
  w_del_fails :: "nat \<Rightarrow> bool"
  w_uuid :: "nat \<Rightarrow> string"
  w_drawn :: nat

definition io_put :: "string \<Rightarrow> bytes \<Rightarrow> world \<Rightarrow> bool \<times> world" where
  "io_put p b w =
     (if w_put_fails w (w_calls w) then (False, w\<lparr>w_calls := Suc (w_calls w)\<rparr>)
      else (True, w\<lparr>w_calls := Suc (w_calls w), w_store := sto_put p b (w_store w)\<rparr>))"

definition io_delete :: "string \<Rightarrow> world \<Rightarrow> world" where
  "io_delete p w =
     (if w_del_fails w (w_calls w) then w\<lparr>w_calls := Suc (w_calls w)\<rparr>
      else w\<lparr>w_calls := Suc (w_calls w), w_store := sto_delete p (w_store w)\<rparr>)"

definition new_id :: "world \<Rightarrow> string \<times> world" where
  "new_id w = (w_uuid w (w_drawn w), w\<lparr>w_drawn := Suc (w_drawn w)\<rparr>)"

definition ignore_fault :: "world \<Rightarrow> world" where
  "ignore_fault w = w\<lparr>w_calls := Suc (w_calls w)\<rparr>"

definition backup_paths :: "string \<Rightarrow> string list" where
  "backup_paths i = [data_path i, manifest_path i, manifest_sha_path i, file_index_path i]"

definition cleanup :: "string \<Rightarrow> world \<Rightarrow> world" where
  "cleanup i w = fold io_delete (backup_paths i) w"

section \<open>Requests, metadata, outcomes\<close>

datatype Engine = Native | Mongodump

text \<open>Why an incremental of MongoDB finds no base.\<close>

datatype no_base_reason = EmptyStore | OnlySelective | OnlyIncomplete | NoneEligible

datatype backup_error =
    DigestNeedsNative
  | LegacyEngineUnavailable
  | UnknownEngine string
  | ServerFailed
  | WalLevelNotLogical string
  | UploadFailed string
  | DumpFailed
  | ReservedPath
  | IndexFailed
  | NoFileName
  | SourceUnavailable
  | NoFileBase
  | NoBase no_base_reason
  | CaptureFailed
  | NotReplicaSet
  | StageSetupFailed

text \<open>\<open>legacy\<close> is the cargo feature \<open>legacy-mongodump\<close> of the build.\<close>

definition engine_parse :: "bool \<Rightarrow> string \<Rightarrow> backup_error + Engine" where
  "engine_parse legacy s =
     (if s = ''native'' then Inr Native
      else if s = ''mongodump'' then (if legacy then Inr Mongodump else Inl LegacyEngineUnavailable)
      else Inl (UnknownEngine s))"

definition archive_format_of :: "Engine \<Rightarrow> string" where
  "archive_format_of e = (case e of Native \<Rightarrow> ''xb-native-v1'' | Mongodump \<Rightarrow> ''mongodump'')"

record ServerMeta =
  repl_set_name :: "string option"
  server_version :: string

definition topology_of :: "ServerMeta \<Rightarrow> Topology" where
  "topology_of sm = (if repl_set_name sm \<noteq> None then ReplicaSet else Standalone)"

definition supports_oplog :: "ServerMeta \<Rightarrow> bool" where
  "supports_oplog sm \<longleftrightarrow> repl_set_name sm \<noteq> None"

record BackupMeta =
  bm_compression :: "CompressionMeta option"
  bm_encryption :: "EncryptionMeta option"

definition no_meta :: BackupMeta where
  "no_meta = \<lparr>bm_compression = None, bm_encryption = None\<rparr>"

text \<open>
  The reverse stages of a manifest turn the stored bytes into the bytes of the stream and whether it
  ends without an error.
\<close>

type_synonym unstage = "BackupManifest \<Rightarrow> (bytes \<Rightarrow> bytes \<times> bool) option"

text \<open>The reverse stages undo the stages.\<close>

definition stages_undone :: "(bytes \<Rightarrow> bytes option) \<Rightarrow> BackupMeta \<Rightarrow> unstage \<Rightarrow> bool" where
  "stages_undone stages meta unstage \<longleftrightarrow> (\<forall>m. m_compression m = bm_compression meta \<longrightarrow>
     m_encryption m = bm_encryption meta \<longrightarrow>
     (\<exists>f. unstage m = Some f \<and> (\<forall>bs b. stages bs = Some b \<longrightarrow> f b = (bs, True))))"

record BackupRequest =
  rq_engine :: Engine
  rq_db :: "string option"
  rq_collection :: "string option"

definition is_selective :: "BackupRequest \<Rightarrow> bool" where
  "is_selective rq \<longleftrightarrow> rq_db rq \<noteq> None \<or> rq_collection rq \<noteq> None"

definition decide_oplog :: "bool \<Rightarrow> bool \<Rightarrow> bool" where
  "decide_oplog supports selective \<longleftrightarrow> supports \<and> \<not> selective"

record BackupOutcome =
  bo_backup_id :: string
  bo_stored_size :: u64
  bo_original_size :: u64
  bo_checksum :: string
  bo_topology :: Topology
  bo_compression :: "CompressionMeta option"
  bo_encryption :: "EncryptionMeta option"
  bo_oplog_range :: "OplogRange option"
  bo_table_rows :: "(string \<times> u64) list option"

section \<open>The core of every full backup\<close>

text \<open>What a dump yields: its bytes up to the end of the stream, and how its task ends.\<close>

record 'o dump =
  d_bytes :: bytes
  d_result :: "'o option"

record 'o StoredDump =
  sd_backup_id :: string
  sd_stored_size :: u64
  sd_original_size :: u64
  sd_checksum :: string
  sd_output :: 'o

text \<open>
  The stages turn the bytes of the dump into the stored ones, or break the stream, on which the
  upload fails. The checksum is over the stored bytes.
\<close>

definition store_dump_stream ::
  "codec \<Rightarrow> (bytes \<Rightarrow> bytes option) \<Rightarrow> 'o dump \<Rightarrow> world \<Rightarrow>
   (backup_error + 'o StoredDump) \<times> world" where
  "store_dump_stream c stages dump w =
     (let (i, w1) = new_id w
      in case stages (d_bytes dump) of
           None \<Rightarrow> (Inl (UploadFailed (data_path i)), ignore_fault w1)
         | Some b \<Rightarrow>
             (case io_put (data_path i) b w1 of
                (False, w2) \<Rightarrow> (Inl (UploadFailed (data_path i)), w2)
              | (True, w2) \<Rightarrow>
                  (case d_result dump of
                     None \<Rightarrow> (Inl DumpFailed, cleanup i w2)
                   | Some out \<Rightarrow>
                       (Inr \<lparr>sd_backup_id = i, sd_stored_size = word_of_nat (length b),
                          sd_original_size = word_of_nat (length (d_bytes dump)),
                          sd_checksum = sha256_hex c b, sd_output = out\<rparr>, w2))))"

text \<open>\<open>ManifestStore::write\<close> on a destination that can fail.\<close>

definition manifest_write :: "codec \<Rightarrow> BackupManifest \<Rightarrow> world \<Rightarrow> (backup_error + unit) \<times> world" where
  "manifest_write c m w =
     (case io_put (manifest_path (m_id m)) (to_json c m) w of
        (False, w1) \<Rightarrow> (Inl (UploadFailed (manifest_path (m_id m))), w1)
      | (True, w1) \<Rightarrow>
          (case io_put (manifest_sha_path (m_id m)) (to_bytes (sidecar_checksum c (to_json c m))) w1 of
             (False, w2) \<Rightarrow> (Inl (UploadFailed (manifest_sha_path (m_id m))), w2)
           | (True, w2) \<Rightarrow> (Inr (), w2)))"

definition write_manifest_or_cleanup ::
  "codec \<Rightarrow> BackupManifest \<Rightarrow> world \<Rightarrow> (backup_error + unit) \<times> world" where
  "write_manifest_or_cleanup c m w = (case manifest_write c m w of
     (Inl e, w1) \<Rightarrow> (Inl e, cleanup (m_id m) w1)
   | (Inr u, w1) \<Rightarrow> (Inr u, w1))"

section \<open>The manifests of the full backups\<close>

definition full_manifest ::
  "string \<Rightarrow> string \<Rightarrow> Topology \<Rightarrow> string \<Rightarrow> string \<Rightarrow> bool \<Rightarrow> 'o StoredDump \<Rightarrow> OplogRange option \<Rightarrow>
   BackupMeta \<Rightarrow> bool \<Rightarrow> MysqlBinlogCoords option \<Rightarrow> (string \<times> u64) list option \<Rightarrow>
   ContentDigests option \<Rightarrow> BackupManifest" where
  "full_manifest i now topo version fmt selective sd rng meta promoted binlog rows digests = \<lparr>
     m_format_version = FORMAT_VERSION, m_id = i, m_created_at = now, m_backup_type = Full,
     m_base_id = None, m_topology = topo, m_server_version = version,
     m_tool_versions = \<lparr>mongodump = None, archive_format = Some fmt\<rparr>,
     m_selective = selective, m_original_size_bytes = sd_original_size sd,
     m_stored_size_bytes = sd_stored_size sd, m_compression = bm_compression meta,
     m_encryption = bm_encryption meta, m_checksum_sha256 = sd_checksum sd,
     m_oplog_range = rng, m_oplog_count = None, m_promoted_from_gap = promoted,
     m_mysql_binlog = binlog, m_table_rows = rows, m_table_digests = digests,
     m_status = Complete\<rparr>"

text \<open>\<open>build_manifest\<close>, with the digests that the caller adds afterwards.\<close>

definition build_manifest ::
  "string \<Rightarrow> ServerMeta \<Rightarrow> bool \<Rightarrow> (string \<times> u64) list option StoredDump \<Rightarrow> OplogRange option \<Rightarrow>
   string \<Rightarrow> BackupMeta \<Rightarrow> BackupManifest" where
  "build_manifest now sm selective sd rng fmt meta =
     full_manifest (sd_backup_id sd) now (topology_of sm) (server_version sm) fmt selective sd rng meta
       False None (sd_output sd) None"

definition outcome_of_manifest :: "BackupManifest \<Rightarrow> BackupOutcome" where
  "outcome_of_manifest m = \<lparr>bo_backup_id = m_id m, bo_stored_size = m_stored_size_bytes m,
     bo_original_size = m_original_size_bytes m, bo_checksum = m_checksum_sha256 m,
     bo_topology = m_topology m, bo_compression = m_compression m, bo_encryption = m_encryption m,
     bo_oplog_range = m_oplog_range m, bo_table_rows = m_table_rows m\<rparr>"

text \<open>Publishing: the manifest is written last, and a failure removes what the run stored.\<close>

definition publish :: "codec \<Rightarrow> BackupManifest \<Rightarrow> world \<Rightarrow> (backup_error + BackupOutcome) \<times> world" where
  "publish c m w = (case write_manifest_or_cleanup c m w of
     (Inl e, w1) \<Rightarrow> (Inl e, w1)
   | (Inr _, w1) \<Rightarrow> (Inr (outcome_of_manifest m), w1))"

section \<open>Full backup of MongoDB\<close>

text \<open>
  The answers of the server and of the dump: \<open>None\<close> for a failed connection or query; the timestamps
  before and after the dump are themselves optional (an empty oplog).
\<close>

record mongo_env =
  me_server :: "ServerMeta option"
  me_ts_before :: "OplogTimestamp option option"
  me_ts_after :: "OplogTimestamp option option"
  me_connects :: bool
  me_dump :: "(string \<times> u64) list option dump"
  me_digests :: "(string \<times> string) list"

definition DIGEST_ALGORITHM :: string where
  "DIGEST_ALGORITHM = ''sha256-sum128-bson-v1''"

definition query_ts ::
  "bool \<Rightarrow> OplogTimestamp option option \<Rightarrow> backup_error + OplogTimestamp option" where
  "query_ts recorded answer =
     (if recorded then (case answer of None \<Rightarrow> Inl ServerFailed | Some ts \<Rightarrow> Inr ts) else Inr None)"

definition range_of :: "OplogTimestamp option \<Rightarrow> OplogTimestamp option \<Rightarrow> OplogRange option" where
  "range_of a b = (case (a, b) of
     (Some s, Some e) \<Rightarrow> Some \<lparr>start_ts = s, end_ts = e\<rparr> | _ \<Rightarrow> None)"

text \<open>The checks before the dump: the metadata and the oplog position to start from.\<close>

definition prepare_full ::
  "bool \<Rightarrow> mongo_env \<Rightarrow> BackupRequest \<Rightarrow> bool \<Rightarrow> backup_error + (ServerMeta \<times> OplogTimestamp option)" where
  "prepare_full legacy env rq digest =
     (if digest \<and> rq_engine rq \<noteq> Native then Inl DigestNeedsNative
      else case me_server env of
        None \<Rightarrow> Inl ServerFailed
      | Some sm \<Rightarrow>
          bind_res (query_ts (decide_oplog (supports_oplog sm) (is_selective rq)) (me_ts_before env)) (\<lambda>s.
            if rq_engine rq = Mongodump \<and> \<not> legacy then Inl LegacyEngineUnavailable
            else if \<not> me_connects env then Inl ServerFailed
            else Inr (sm, s)))"

definition run_full_backup_with_rows ::
  "codec \<Rightarrow> bool \<Rightarrow> mongo_env \<Rightarrow> BackupRequest \<Rightarrow> BackupMeta \<Rightarrow> (bytes \<Rightarrow> bytes option) \<Rightarrow> bool \<Rightarrow> string \<Rightarrow>
   world \<Rightarrow> (backup_error + BackupOutcome) \<times> world" where
  "run_full_backup_with_rows c legacy env rq meta stages digest now w =
     (case prepare_full legacy env rq digest of
        Inl e \<Rightarrow> (Inl e, w)
      | Inr (sm, oplog_start) \<Rightarrow>
          (case store_dump_stream c stages (me_dump env) w of
             (Inl e, w1) \<Rightarrow> (Inl e, w1)
           | (Inr sd, w1) \<Rightarrow>
               (case query_ts (decide_oplog (supports_oplog sm) (is_selective rq)) (me_ts_after env) of
                  Inl e \<Rightarrow> (Inl e, w1)
                | Inr oplog_end \<Rightarrow>
                    publish c ((build_manifest now sm (is_selective rq) sd (range_of oplog_start oplog_end)
                        (archive_format_of (rq_engine rq)) meta)
                      \<lparr>m_table_digests := (if digest \<and> rq_engine rq = Native
                         then Some \<lparr>d_algorithm = DIGEST_ALGORITHM, d_tables = me_digests env\<rparr>
                         else None)\<rparr>) w1)))"

section \<open>What the steps do to the destination\<close>

text \<open>The objects of a destination, as a map.\<close>

abbreviation look :: "world \<Rightarrow> string \<Rightarrow> bytes option" where
  "look w \<equiv> sto_get (w_store w)"

text \<open>The oracle of a world never changes, and calls and ids only advance.\<close>

definition same_oracle :: "world \<Rightarrow> world \<Rightarrow> bool" where
  "same_oracle w w' \<longleftrightarrow> w_put_fails w' = w_put_fails w \<and> w_del_fails w' = w_del_fails w \<and>
     w_uuid w' = w_uuid w \<and> w_drawn w \<le> w_drawn w'"

definition reliable_deletes :: "world \<Rightarrow> bool" where
  "reliable_deletes w \<longleftrightarrow> w_del_fails w = (\<lambda>_. False)"

definition fresh :: "string \<Rightarrow> world \<Rightarrow> bool" where
  "fresh i w \<longleftrightarrow> look w (data_path i) = None \<and> look w (manifest_path i) = None \<and>
     look w (manifest_sha_path i) = None \<and> look w (file_index_path i) = None"

definition only_touches :: "string \<Rightarrow> world \<Rightarrow> world \<Rightarrow> bool" where
  "only_touches i w w' \<longleftrightarrow> (\<forall>p. p \<notin> set (backup_paths i) \<longrightarrow> look w' p = look w p)"

lemma same_oracle_refl [simp]: "same_oracle w w"
  by (simp add: same_oracle_def)

lemma same_oracle_trans: "same_oracle w w1 \<Longrightarrow> same_oracle w1 w2 \<Longrightarrow> same_oracle w w2"
  by (simp add: same_oracle_def)

lemma same_oracle_reliable: "same_oracle w w' \<Longrightarrow> reliable_deletes w' = reliable_deletes w"
  by (simp add: same_oracle_def reliable_deletes_def)

lemma only_touches_refl [simp]: "only_touches i w w"
  by (simp add: only_touches_def)

lemma only_touches_trans: "only_touches i w w1 \<Longrightarrow> only_touches i w1 w2 \<Longrightarrow> only_touches i w w2"
  by (simp add: only_touches_def)

lemma io_put_cases:
  assumes "io_put p b w = (ok, w')"
  shows "same_oracle w w' \<and> w_drawn w' = w_drawn w \<and>
    look w' = (if ok then (look w)(p \<mapsto> b) else look w)"
  using assms by (auto simp: io_put_def same_oracle_def split: if_splits)

lemma io_delete_effect:
  "same_oracle w (io_delete p w)" "w_drawn (io_delete p w) = w_drawn w"
  "q \<noteq> p \<Longrightarrow> look (io_delete p w) q = look w q"
  "look w q = None \<Longrightarrow> look (io_delete p w) q = None"
  "reliable_deletes w \<Longrightarrow> look (io_delete p w) = (look w)(p := None)"
  by (auto simp: io_delete_def same_oracle_def reliable_deletes_def)

lemma delete_all_effect:
  "same_oracle w (fold io_delete ps w) \<and> w_drawn (fold io_delete ps w) = w_drawn w \<and>
   (\<forall>p. p \<notin> set ps \<longrightarrow> look (fold io_delete ps w) p = look w p) \<and>
   (reliable_deletes w \<longrightarrow> look (fold io_delete ps w) = (\<lambda>p. if p \<in> set ps then None else look w p))"
proof (induction ps arbitrary: w)
  case (Cons p ps)
  note IH = Cons.IH [of "io_delete p w"]
  have "same_oracle w (fold io_delete (p # ps) w)"
    using IH io_delete_effect(1) same_oracle_trans by fastforce
  moreover have "reliable_deletes w \<Longrightarrow> reliable_deletes (io_delete p w)"
    using io_delete_effect(1) same_oracle_reliable by blast
  ultimately show ?case
    using IH io_delete_effect(2) [where p = p and w = w] io_delete_effect(3) [where p = p and w = w]
      io_delete_effect(5) [where p = p and w = w] by auto
qed simp

text \<open>
  The contract of a step that may publish the backup \<open>i\<close>: the oracle stays, an error touches only
  the objects of \<open>i\<close> and removes them where deletes work.
\<close>

definition failed_clean :: "string \<Rightarrow> world \<Rightarrow> world \<Rightarrow> bool" where
  "failed_clean i w w' \<longleftrightarrow> same_oracle w w' \<and> only_touches i w w' \<and>
     (reliable_deletes w \<and> fresh i w \<longrightarrow> look w' = look w)"

lemma fresh_paths: "fresh i w \<longleftrightarrow> (\<forall>p \<in> set (backup_paths i). look w p = None)"
  by (auto simp: fresh_def backup_paths_def)

lemma data_path_in [simp]:
  "data_path i \<in> set (backup_paths i)" "manifest_path i \<in> set (backup_paths i)"
  "manifest_sha_path i \<in> set (backup_paths i)" "file_index_path i \<in> set (backup_paths i)"
  by (simp_all add: backup_paths_def)

lemma only_touches_put:
  "p \<in> set (backup_paths i) \<Longrightarrow> look w' = (look w)(p := v) \<Longrightarrow> only_touches i w w'"
  by (auto simp: only_touches_def)

lemma failed_clean_deletes:
  assumes "same_oracle w w1" and "\<forall>p. p \<notin> set ps \<longrightarrow> look w1 p = look w p"
    and "set ps \<subseteq> set (backup_paths i)"
  shows "failed_clean i w (fold io_delete ps w1)"
proof -
  note d = delete_all_effect [of w1 ps]
  have "look (fold io_delete ps w1) = look w" if r: "reliable_deletes w" "fresh i w"
  proof
    fix p
    have "reliable_deletes w1"
      using r(1) assms(1) same_oracle_reliable by blast
    with d show "look (fold io_delete ps w1) p = look w p"
      using r(2) assms(2,3) by (auto simp: fresh_paths)
  qed
  moreover have "only_touches i w (fold io_delete ps w1)"
    using d assms(2,3) by (auto simp: only_touches_def)
  ultimately show ?thesis
    using d same_oracle_trans assms(1) unfolding failed_clean_def by blast
qed

lemma failed_clean_cleanup:
  "same_oracle w w1 \<Longrightarrow> only_touches i w w1 \<Longrightarrow> failed_clean i w (cleanup i w1)"
  unfolding cleanup_def by (rule failed_clean_deletes) (auto simp: only_touches_def)

lemma failed_clean_same: "same_oracle w w' \<Longrightarrow> look w' = look w \<Longrightarrow> failed_clean i w w'"
  by (simp add: failed_clean_def only_touches_def)

lemma store_dump_stream_Inr:
  assumes "store_dump_stream c stages dump w = (Inr sd, w')"
  obtains b where "stages (d_bytes dump) = Some b" and "d_result dump = Some (sd_output sd)"
    and "sd_backup_id sd = w_uuid w (w_drawn w)" and "sd_checksum sd = sha256_hex c b"
    and "sd_stored_size sd = word_of_nat (length b)"
    and "sd_original_size sd = word_of_nat (length (d_bytes dump))"
    and "look w' = (look w)(data_path (sd_backup_id sd) \<mapsto> b)"
    and "same_oracle w w'" and "w_drawn w' = Suc (w_drawn w)"
proof -
  from assms obtain b w2 where b: "stages (d_bytes dump) = Some b"
    "io_put (data_path (w_uuid w (w_drawn w))) b (snd (new_id w)) = (True, w')"
    "d_result dump = Some (sd_output sd)" "sd_backup_id sd = w_uuid w (w_drawn w)"
    "sd_checksum sd = sha256_hex c b" "sd_stored_size sd = word_of_nat (length b)"
    "sd_original_size sd = word_of_nat (length (d_bytes dump))"
    by (auto simp: store_dump_stream_def new_id_def Let_def split: option.splits prod.splits bool.splits)
  from io_put_cases [OF b(2)] have "look w' = (look w)(data_path (sd_backup_id sd) \<mapsto> b)"
    "same_oracle w w'" "w_drawn w' = Suc (w_drawn w)"
    by (auto simp: new_id_def b(4) same_oracle_def)
  with b that show ?thesis by blast
qed

lemma store_dump_stream_Inl:
  assumes "store_dump_stream c stages dump w = (Inl e, w')"
  shows "failed_clean (w_uuid w (w_drawn w)) w w'"
proof -
  let ?i = "w_uuid w (w_drawn w)"
  have w1: "same_oracle w (snd (new_id w))" "look (snd (new_id w)) = look w"
    by (simp_all add: new_id_def same_oracle_def)
  from assms consider "w' = ignore_fault (snd (new_id w))"
    | b where "io_put (data_path ?i) b (snd (new_id w)) = (False, w')"
    | b w2 where "io_put (data_path ?i) b (snd (new_id w)) = (True, w2)" "w' = cleanup ?i w2"
    by (auto simp: store_dump_stream_def new_id_def Let_def split: option.splits prod.splits bool.splits)
  then show ?thesis
  proof cases
    case 1
    then show ?thesis
      by (intro failed_clean_same) (simp_all add: new_id_def ignore_fault_def same_oracle_def)
  next
    case 2
    from io_put_cases [OF 2] w1 same_oracle_trans show ?thesis
      by (intro failed_clean_same) auto
  next
    case 3
    from io_put_cases [OF 3(1)] w1 have "same_oracle w w2" "look w2 = (look w)(data_path ?i \<mapsto> b)"
      using same_oracle_trans by auto
    then show ?thesis
      unfolding 3(2) by (intro failed_clean_cleanup only_touches_put) auto
  qed
qed

lemma manifest_write_cases:
  assumes "manifest_write c m w = (r, w')"
  shows "same_oracle w w' \<and> w_drawn w' = w_drawn w \<and> only_touches (m_id m) w w' \<and>
    (\<forall>u. r = Inr u \<longrightarrow> look w' = (look w)(manifest_path (m_id m) \<mapsto> to_json c m,
       manifest_sha_path (m_id m) \<mapsto> to_bytes (sidecar_checksum c (to_json c m))))"
proof -
  obtain ok1 w1 where p1: "io_put (manifest_path (m_id m)) (to_json c m) w = (ok1, w1)"
    by fastforce
  obtain ok2 w2 where p2: "io_put (manifest_sha_path (m_id m)) (to_bytes (sidecar_checksum c (to_json c m))) w1
      = (ok2, w2)"
    by fastforce
  note i1 = io_put_cases [OF p1] and i2 = io_put_cases [OF p2]
  show ?thesis
  proof (cases ok1)
    case False
    with assms p1 i1 show ?thesis
      by (auto simp: manifest_write_def only_touches_def)
  next
    case True
    then have "same_oracle w w2" "w_drawn w2 = w_drawn w"
      using i1 i2 same_oracle_trans by auto
    moreover have "only_touches (m_id m) w w2"
      using i1 i2 True by (auto simp: only_touches_def backup_paths_def)
    ultimately show ?thesis
      using assms p1 p2 True i1 i2 by (auto simp: manifest_write_def split: bool.splits)
  qed
qed

lemma manifest_write_frame:
  assumes "manifest_write c m w = (r, w')" and "p \<notin> {manifest_path (m_id m), manifest_sha_path (m_id m)}"
  shows "look w' p = look w p"
  using assms by (auto simp: manifest_write_def io_put_def split: if_splits prod.splits bool.splits)

lemma write_or_cleanup_Inr:
  assumes "write_manifest_or_cleanup c m w = (Inr u, w')"
  shows "same_oracle w w' \<and> w_drawn w' = w_drawn w \<and>
    look w' = (look w)(manifest_path (m_id m) \<mapsto> to_json c m,
      manifest_sha_path (m_id m) \<mapsto> to_bytes (sidecar_checksum c (to_json c m)))"
  using assms manifest_write_cases [of c m w]
  by (auto simp: write_manifest_or_cleanup_def split: prod.splits sum.splits)

lemma write_or_cleanup_Inl:
  assumes "write_manifest_or_cleanup c m w = (Inl e, w')"
    and "same_oracle w0 w" and "only_touches (m_id m) w0 w"
  shows "failed_clean (m_id m) w0 w'"
proof -
  from assms(1) obtain w1 where w1: "manifest_write c m w = (Inl e, w1)" "w' = cleanup (m_id m) w1"
    by (auto simp: write_manifest_or_cleanup_def split: prod.splits sum.splits)
  from manifest_write_cases [OF w1(1)] assms(2,3) have "same_oracle w0 w1" "only_touches (m_id m) w0 w1"
    using same_oracle_trans only_touches_trans by blast+
  then show ?thesis
    unfolding w1(2) by (rule failed_clean_cleanup)
qed

lemma publish_Inr:
  assumes "publish c m w = (Inr out, w')"
  shows "out = outcome_of_manifest m \<and> same_oracle w w' \<and> w_drawn w' = w_drawn w \<and>
    look w' = (look w)(manifest_path (m_id m) \<mapsto> to_json c m,
      manifest_sha_path (m_id m) \<mapsto> to_bytes (sidecar_checksum c (to_json c m)))"
proof -
  from assms obtain u where "write_manifest_or_cleanup c m w = (Inr u, w')" "out = outcome_of_manifest m"
    by (auto simp: publish_def split: prod.splits sum.splits)
  with write_or_cleanup_Inr [OF this(1)] show ?thesis by simp
qed

lemma publish_Inl:
  assumes "publish c m w = (Inl e, w')"
    and "same_oracle w0 w" and "only_touches (m_id m) w0 w"
  shows "failed_clean (m_id m) w0 w'"
proof -
  from assms(1) have "write_manifest_or_cleanup c m w = (Inl e, w')"
    by (auto simp: publish_def split: prod.splits sum.splits)
  from write_or_cleanup_Inl [OF this assms(2,3)] show ?thesis .
qed

text \<open>The objects after the data and then the manifest of a backup have been stored.\<close>

lemma stored_artifact:
  assumes "look w1 = (look w)(data_path (m_id m) \<mapsto> b)"
    and "look w' = (look w1)(manifest_path (m_id m) \<mapsto> to_json c m,
      manifest_sha_path (m_id m) \<mapsto> to_bytes (sidecar_checksum c (to_json c m)))"
  shows "artifact_at c (w_store w') m (Some b) \<and> only_touches (m_id m) w w'"
  using assms by (auto simp: artifact_at_def only_touches_def)

text \<open>A published backup: its objects are the stored bytes and the manifest with their digest.\<close>

definition published :: "codec \<Rightarrow> world \<Rightarrow> BackupManifest \<Rightarrow> bytes option \<Rightarrow> bool" where
  "published c w m data \<longleftrightarrow> artifact_at c (w_store w) m data \<and> data_matches c m data"

lemma published_verifies:
  "published c w m data \<Longrightarrow> codec_ok c m \<Longrightarrow>
     verify_backup c stack (w_store w) (m_id m) False = Inr (sound_report m)"
  unfolding published_def by (intro artifact_verifies) auto

text \<open>
  The core and the publication of a full backup together: what every engine runs. \<open>mk\<close> makes the
  manifest from what was stored.
\<close>

lemma full_run_Inr:
  assumes sd: "store_dump_stream c stages dump w = (Inr sd, w1)"
    and pub: "publish c m w1 = (Inr out, w')"
    and m: "m_id m = sd_backup_id sd" "m_checksum_sha256 m = sd_checksum sd"
  shows "out = outcome_of_manifest m \<and> m_id m = w_uuid w (w_drawn w) \<and> only_touches (m_id m) w w' \<and>
    same_oracle w w' \<and> w_drawn w' = Suc (w_drawn w) \<and> d_result dump \<noteq> None \<and>
    (\<exists>b. stages (d_bytes dump) = Some b \<and> published c w' m (Some b))"
proof -
  obtain b where b: "stages (d_bytes dump) = Some b" "d_result dump = Some (sd_output sd)"
    "sd_backup_id sd = w_uuid w (w_drawn w)" "sd_checksum sd = sha256_hex c b"
    "look w1 = (look w)(data_path (sd_backup_id sd) \<mapsto> b)" "same_oracle w w1"
    "w_drawn w1 = Suc (w_drawn w)"
    using store_dump_stream_Inr [OF sd] by metis
  note p = publish_Inr [OF pub]
  from b(5) p m(1) have "artifact_at c (w_store w') m (Some b) \<and> only_touches (m_id m) w w'"
    using stored_artifact [of w1 w m b w' c] by auto
  moreover have "data_matches c m (Some b)"
    using m(2) b(4) by (simp add: data_matches_def)
  ultimately show ?thesis
    using p b m(1) same_oracle_trans unfolding published_def by auto
qed

lemma full_run_Inl:
  assumes sd: "store_dump_stream c stages dump w = (Inr sd, w1)"
    and pub: "publish c m w1 = (Inl e, w')"
    and m: "m_id m = sd_backup_id sd"
  shows "failed_clean (w_uuid w (w_drawn w)) w w'"
proof -
  obtain b where b: "sd_backup_id sd = w_uuid w (w_drawn w)"
    "look w1 = (look w)(data_path (sd_backup_id sd) \<mapsto> b)" "same_oracle w w1"
    using store_dump_stream_Inr [OF sd] by metis
  have "only_touches (m_id m) w w1"
    using b m by (intro only_touches_put) auto
  from publish_Inl [OF pub b(3) this] b(1) m show ?thesis by simp
qed

section \<open>The run of a full backup\<close>

lemma prepare_full_Inr:
  assumes "prepare_full legacy env rq digest = Inr (sm, s)"
  shows "me_server env = Some sm \<and>
    query_ts (decide_oplog (supports_oplog sm) (is_selective rq)) (me_ts_before env) = Inr s"
  using assms by (auto simp: prepare_full_def bind_res_Inr_iff split: if_splits option.splits)

lemma run_full_cases:
  assumes "run_full_backup_with_rows c legacy env rq meta stages digest now w = (r, w')"
  obtains (refused) e where "r = Inl e" "w' = w"
  | (core) e where "r = Inl e" "failed_clean (w_uuid w (w_drawn w)) w w'"
  | (stale) sd where "r = Inl ServerFailed" "me_ts_after env = None"
      "store_dump_stream c stages (me_dump env) w = (Inr sd, w')"
  | (finished) out m b where "r = Inr out" "out = outcome_of_manifest m" "m_id m = w_uuid w (w_drawn w)"
      "m_backup_type m = Full" "m_status m = Complete" "m_selective m = is_selective rq"
      "m_base_id m = None" "w_drawn w' = Suc (w_drawn w)"
      "is_selective rq \<longrightarrow> m_oplog_range m = None"
      "stages (d_bytes (me_dump env)) = Some b" "d_result (me_dump env) \<noteq> None"
      "published c w' m (Some b)" "only_touches (m_id m) w w'" "same_oracle w w'"
proof (cases "prepare_full legacy env rq digest")
  case (Inl e)
  with assms show ?thesis
    by (auto simp: run_full_backup_with_rows_def intro: refused)
next
  case (Inr p)
  then obtain sm s where p: "prepare_full legacy env rq digest = Inr (sm, s)"
    by (cases p) auto
  obtain r1 w1 where r1: "store_dump_stream c stages (me_dump env) w = (r1, w1)"
    by fastforce
  show ?thesis
  proof (cases r1)
    case (Inl e)
    with assms p r1 have "r = Inl e" "w' = w1"
      by (auto simp: run_full_backup_with_rows_def)
    with store_dump_stream_Inl [OF r1 [unfolded Inl]] show ?thesis
      by (auto intro: core)
  next
    case (Inr sd)
    show ?thesis
    proof (cases "query_ts (decide_oplog (supports_oplog sm) (is_selective rq)) (me_ts_after env)")
      case (Inl e)
      with assms p r1 Inr have "r = Inl ServerFailed" "w' = w1" "me_ts_after env = None"
        by (auto simp: run_full_backup_with_rows_def query_ts_def split: if_splits option.splits)
      with r1 Inr show ?thesis by (auto intro: stale)
    next
      case (Inr oe)
      define m where "m = (build_manifest now sm (is_selective rq) sd (range_of s oe)
          (archive_format_of (rq_engine rq)) meta)
        \<lparr>m_table_digests := (if digest \<and> rq_engine rq = Native
           then Some \<lparr>d_algorithm = DIGEST_ALGORITHM, d_tables = me_digests env\<rparr> else None)\<rparr>"
      have m: "m_id m = sd_backup_id sd" "m_checksum_sha256 m = sd_checksum sd"
        "m_backup_type m = Full" "m_status m = Complete" "m_selective m = is_selective rq"
        "m_oplog_range m = range_of s oe" "m_base_id m = None"
        by (simp_all add: m_def build_manifest_def full_manifest_def)
      have range: "is_selective rq \<longrightarrow> m_oplog_range m = None"
        using prepare_full_Inr [OF p] unfolding m(6)
        by (auto simp: query_ts_def decide_oplog_def range_of_def)
      have pub: "publish c m w1 = (r, w')"
        using assms p r1 \<open>r1 = Inr sd\<close> Inr by (simp add: run_full_backup_with_rows_def m_def)
      show ?thesis
      proof (cases r)
        case (Inl e)
        with full_run_Inl [OF r1 [unfolded \<open>r1 = Inr sd\<close>] pub [unfolded Inl] m(1)] show ?thesis
          by (auto intro: core)
      next
        case (Inr out)
        note f = full_run_Inr [OF r1 [unfolded \<open>r1 = Inr sd\<close>] pub [unfolded Inr] m(1,2)]
        then obtain b where "stages (d_bytes (me_dump env)) = Some b" "published c w' m (Some b)"
          by blast
        then show ?thesis
          using f range m(3-5,7) Inr by (elim conjE, intro finished [where out = out and m = m and b = b]) simp_all
      qed
    qed
  qed
qed

text \<open>C12: A full backup is published whole or not at all: a run that succeeds leaves the data, the
  manifest and its sidecar, which verify, and a complete full backup that is no incremental base
  when it was selective; a run that fails touches only objects of its own new id, and where deletes
  work it leaves nothing, except that the data of a complete dump stay behind, without a manifest,
  when the oplog position cannot be read after the dump.\<close>

theorem full_backup_all_or_nothing:
  assumes "run_full_backup_with_rows c legacy env rq meta stages digest now w = (r, w')"
    and "i = w_uuid w (w_drawn w)" and "fresh i w"
  shows "only_touches i w w' \<and>
    (case r of
       Inr out \<Rightarrow> (\<exists>m b. out = outcome_of_manifest m \<and> m_id m = i \<and> m_backup_type m = Full \<and>
         m_status m = Complete \<and> (is_selective rq \<longrightarrow> m_oplog_range m = None) \<and>
         stages (d_bytes (me_dump env)) = Some b \<and> look w' (data_path i) = Some b \<and>
         (codec_ok c m \<longrightarrow> verify_backup c stack (w_store w') i False = Inr (sound_report m)))
     | Inl e \<Rightarrow> reliable_deletes w \<longrightarrow>
         look w' = look w \<or>
         (e = ServerFailed \<and> me_ts_after env = None \<and> (\<exists>b. look w' = (look w)(data_path i \<mapsto> b))))"
  using assms(1)
proof (cases rule: run_full_cases)
  case (refused e)
  then show ?thesis by simp
next
  case (core e)
  with assms(2,3) show ?thesis
    by (simp add: failed_clean_def)
next
  case (stale sd)
  obtain b where "look w' = (look w)(data_path i \<mapsto> b)"
    using store_dump_stream_Inr [OF stale(3)] assms(2) by metis
  moreover from this have "only_touches i w w'"
    by (intro only_touches_put) auto
  ultimately show ?thesis
    using stale(1,2) by auto
next
  case (finished out m b)
  have "verify_backup c stack (w_store w') i False = Inr (sound_report m)" if "codec_ok c m"
    using published_verifies [OF finished(12) that] finished(3) assms(2) by simp
  moreover have "look w' (data_path i) = Some b"
    using finished(12,3) assms(2) by (simp add: published_def artifact_at_def)
  ultimately show ?thesis
    using finished assms(2) by auto
qed

text \<open>A destination that answers, and a plain dump.\<close>

definition ex_world :: world where
  "ex_world = \<lparr>w_store = [], w_calls = 0, w_put_fails = (\<lambda>_. False), w_del_fails = (\<lambda>_. False),
     w_uuid = (\<lambda>n. ''full-1''), w_drawn = 0\<rparr>"

definition ex_mongo :: mongo_env where
  "ex_mongo = \<lparr>me_server = Some \<lparr>repl_set_name = Some ''rs0'', server_version = ''7.0.0''\<rparr>,
     me_ts_before = Some (Some (OplogTs 1 1)), me_ts_after = Some (Some (OplogTs 2 1)),
     me_connects = True, me_dump = \<lparr>d_bytes = [7, 8], d_result = Some None\<rparr>, me_digests = []\<rparr>"

definition ex_request :: BackupRequest where
  "ex_request = \<lparr>rq_engine = Native, rq_db = None, rq_collection = None\<rparr>"

lemmas ex_backup_defs = ex_world_def ex_mongo_def ex_request_def run_full_backup_with_rows_def
  prepare_full_def query_ts_def decide_oplog_def supports_oplog_def is_selective_def
  store_dump_stream_def new_id_def io_put_def publish_def write_manifest_or_cleanup_def
  manifest_write_def

theorem full_backup_all_or_nothing_witness:
  "only_touches ''full-1'' ex_world
     (snd (run_full_backup_with_rows ex_codec False ex_mongo ex_request no_meta Some False ''t'' ex_world)) \<and>
   (\<exists>(m :: BackupManifest) b. m_id m = ''full-1'' \<and> m_backup_type m = Full \<and> m_status m = Complete \<and>
     look (snd (run_full_backup_with_rows ex_codec False ex_mongo ex_request no_meta Some False ''t'' ex_world))
       (data_path ''full-1'') = Some b)"
proof -
  let ?r = "run_full_backup_with_rows ex_codec False ex_mongo ex_request no_meta Some False ''t'' ex_world"
  have "\<exists>out. fst ?r = Inr out"
    by (simp add: ex_backup_defs Let_def)
  then obtain out where "?r = (Inr out, snd ?r)"
    by (metis prod.collapse)
  moreover have "''full-1'' = w_uuid ex_world (w_drawn ex_world)" "fresh ''full-1'' ex_world"
    by (simp_all add: fresh_def ex_world_def sto_get_def)
  ultimately have "only_touches ''full-1'' ex_world (snd ?r) \<and> (case Inr out of
       Inr out \<Rightarrow> (\<exists>m b. out = outcome_of_manifest m \<and> m_id m = ''full-1'' \<and> m_backup_type m = Full \<and>
         m_status m = Complete \<and> (is_selective ex_request \<longrightarrow> m_oplog_range m = None) \<and>
         Some (d_bytes (me_dump ex_mongo)) = Some b \<and> look (snd ?r) (data_path ''full-1'') = Some b \<and>
         (codec_ok ex_codec m \<longrightarrow>
           verify_backup ex_codec (\<lambda>_. None) (w_store (snd ?r)) ''full-1'' False = Inr (sound_report m)))
     | Inl e \<Rightarrow> reliable_deletes ex_world \<longrightarrow> look (snd ?r) = look ex_world \<or>
         (e = ServerFailed \<and> me_ts_after ex_mongo = None \<and>
           (\<exists>b. look (snd ?r) = (look ex_world)(data_path ''full-1'' \<mapsto> b))))"
    by (rule full_backup_all_or_nothing)
  then show ?thesis
    unfolding sum.case by blast
qed










text \<open>
  A stop within the clean-up is not safe: it removes the data before the manifest. When the sidecar
  cannot be written and the process then stops behind the first delete, a complete backup without data
  stays listed.
\<close>

theorem stopped_cleanup_lists_no_data:
  "\<exists>w'. snd (run_full_backup_with_rows ex_codec False ex_mongo ex_request no_meta Some False ''t''
      (ex_world\<lparr>w_put_fails := (\<lambda>k. 2 \<le> k), w_del_fails := (\<lambda>k. 4 \<le> k)\<rparr>)) = w' \<and>
    look w' (manifest_path ''full-1'') \<noteq> None \<and> look w' (data_path ''full-1'') = None"
  by (simp add: ex_backup_defs Let_def cleanup_def io_delete_def backup_paths_def sto_get_def sto_put_def
      sto_delete_def path_defs build_manifest_def full_manifest_def)

text \<open>When the oplog position cannot be read after a complete dump, the run fails and its data stay
  at the destination without a manifest, although every delete would succeed.\<close>

theorem failed_backup_leaves_data:
  "\<exists>w'. run_full_backup_with_rows ex_codec False (ex_mongo\<lparr>me_ts_after := None\<rparr>) ex_request no_meta Some
      False ''t'' ex_world = (Inl ServerFailed, w') \<and>
    look w' (data_path ''full-1'') = Some [7, 8] \<and> look w' (manifest_path ''full-1'') = None"
  by (simp add: ex_backup_defs Let_def sto_get_def sto_put_def path_defs)

end
