(* ===== verification/XB_Extend.thy ===== *)
theory XB_Extend
  imports XB_Chain
begin

text \<open>
  How a chain grows: what every incremental pipeline relies on when it appends a slice. A good chain
  is one that \<open>verify_chain\<close> finds continuous and whose ids rise along the chain, as time-ordered
  ids do; the lemmas show that a slice from its end, a new base and the backups of other chains keep
  it good. A healthy catalogue has only good chains.
\<close>

section \<open>Good chains\<close>

text \<open>The end of the chain: of the last slice, or of the base when there is none.\<close>

definition chain_end :: "ChainNode list \<Rightarrow> string \<Rightarrow> OplogTimestamp \<Rightarrow> OplogTimestamp" where
  "chain_end nodes b base_end = last (base_end # map snd (slice_ranges nodes b))"

definition good_chain :: "ChainNode list \<Rightarrow> string \<Rightarrow> OplogTimestamp \<Rightarrow> bool" where
  "good_chain nodes b e \<longleftrightarrow> (\<exists>base b0 b1.
     find_node nodes b = Some base \<and> usable_base base \<and> cn_oplog_range base = Some (b0, b1) \<and>
     (\<forall>n \<in> set nodes. incr_of b n \<longrightarrow> cn_status n = Complete \<and> \<not> cn_selective n \<and>
        cn_oplog_range n \<noteq> None) \<and>
     linked b1 (slice_ranges nodes b) \<and>
     (\<forall>r \<in> set (slice_ranges nodes b). fst r \<le> snd r) \<and>
     sorted_wrt (<) (b # map cn_id (sorted_incrs nodes b)) \<and>
     e = chain_end nodes b b1)"

text \<open>
  A healthy catalogue: ids are distinct and a base is older than what names it; a base without a range
  carries no tracked slice; every usable base with a range has a good chain.
\<close>

definition ordered_ids :: "ChainNode list \<Rightarrow> bool" where
  "ordered_ids nodes \<longleftrightarrow> distinct (map cn_id nodes) \<and>
     (\<forall>n \<in> set nodes. \<forall>b. cn_base_id n = Some b \<longrightarrow> b < cn_id n)"

definition untracked :: "ChainNode \<Rightarrow> ChainNode \<Rightarrow> bool" where
  "untracked base n \<longleftrightarrow> (usable_base base \<and> cn_oplog_range base = None \<and> incr_of (cn_id base) n \<longrightarrow>
     cn_oplog_range n = None)"

definition tracked_chain :: "ChainNode list \<Rightarrow> ChainNode \<Rightarrow> bool" where
  "tracked_chain nodes n \<longleftrightarrow>
     (usable_base n \<and> cn_oplog_range n \<noteq> None \<longrightarrow> (\<exists>e. good_chain nodes (cn_id n) e))"

definition healthy :: "ChainNode list \<Rightarrow> bool" where
  "healthy nodes \<longleftrightarrow> ordered_ids nodes \<and> (\<forall>n \<in> set nodes. tracked_chain nodes n) \<and>
     (\<forall>base \<in> set nodes. \<forall>n \<in> set nodes. untracked base n)"

lemma good_chain_continuous:
  assumes "good_chain nodes b e" and "base_of nodes t = Some b"
  shows "report_is_continuous (verify_chain nodes t)"
  using assms by (auto simp: good_chain_def verify_chain_mongo_iff)

lemma good_chain_mset:
  assumes "distinct (map cn_id nodes)" and "mset nodes = mset nodes'" and "good_chain nodes b e"
  shows "good_chain nodes' b e"
proof -
  have "find_node nodes = find_node nodes'" "sorted_incrs nodes = sorted_incrs nodes'"
    using find_node_cong_mset [OF assms(1,2)] sorted_incrs_cong_mset [OF assms(1,2)] by auto
  moreover have "set nodes = set nodes'"
    using assms(2) by (rule mset_eq_setD)
  ultimately show ?thesis
    using assms(3) by (simp add: good_chain_def slice_ranges_def chain_end_def)
qed

lemma healthy_mset:
  assumes "mset nodes = mset nodes'" and "healthy nodes"
  shows "healthy nodes'"
proof -
  have s: "set nodes = set nodes'"
    using assms(1) by (rule mset_eq_setD)
  have d: "distinct (map cn_id nodes)"
    using assms(2) by (simp add: healthy_def ordered_ids_def)
  moreover have "mset (map cn_id nodes') = mset (map cn_id nodes)"
    using assms(1) by simp
  ultimately have "distinct (map cn_id nodes')"
    using mset_eq_imp_distinct_iff by blast
  then have "ordered_ids nodes'"
    using assms(2) by (simp add: healthy_def ordered_ids_def s)
  moreover have "tracked_chain nodes' n" if "n \<in> set nodes'" for n
    using that assms(2) good_chain_mset [OF d assms(1)] unfolding healthy_def tracked_chain_def s by blast
  moreover have "\<forall>base \<in> set nodes'. \<forall>n \<in> set nodes'. untracked base n"
    using assms(2) by (simp add: healthy_def s)
  ultimately show ?thesis
    by (simp add: healthy_def)
qed

section \<open>Appending a slice\<close>

lemma linked_starts_le:
  "linked e rs \<Longrightarrow> \<forall>r \<in> set rs. fst r \<le> snd r \<Longrightarrow> r \<in> set rs \<Longrightarrow> fst r \<le> last (e # map snd rs)"
proof (induction e rs rule: linked.induct)
  case (2 e s t rs)
  then have "s \<le> last (s # map snd ((s, t) # rs))"
    by (intro linked_last) simp_all
  with 2 show ?case by auto
qed simp

text \<open>The new slice sorts behind all others.\<close>

lemma sorted_incrs_snoc:
  assumes "good_chain nodes b e" and "incr_of b new" and "cn_oplog_range new = Some (e, e')"
    and "\<forall>n \<in> set nodes. cn_id n < cn_id new"
  shows "sorted_incrs (nodes @ [new]) b = sorted_incrs nodes b @ [new]"
proof -
  from assms(1) obtain b1 where g:
    "\<forall>n \<in> set nodes. incr_of b n \<longrightarrow> cn_oplog_range n \<noteq> None"
    "linked b1 (slice_ranges nodes b)" "\<forall>r \<in> set (slice_ranges nodes b). fst r \<le> snd r"
    "e = last (b1 # map snd (slice_ranges nodes b))"
    by (auto simp: good_chain_def chain_end_def)
  have "incr_cmp n new = Less" if n: "n \<in> set (filter (incr_of b) nodes)" for n
  proof -
    from n g(1) obtain r where r: "cn_oplog_range n = Some r" by auto
    from n r have "r \<in> set (slice_ranges nodes b)"
      by (force simp: slice_ranges_def)
    then have "fst r \<le> e"
      using linked_starts_le [OF g(2,3)] g(4) by simp
    moreover have "cn_id n < cn_id new"
      using n assms(4) by simp
    ultimately show ?thesis
      using r assms(3) by (auto simp: incr_cmp_def node_start_ts_def ts_cmp_eq)
  qed
  then have "sort_by incr_cmp (filter (incr_of b) nodes @ [new]) =
    sort_by incr_cmp (filter (incr_of b) nodes) @ [new]"
    by (rule incr.sort_by_snoc)
  with assms(2) show ?thesis
    by (simp add: sorted_incrs_def)
qed

lemma find_node_snoc:
  "find_node nodes i = Some n \<Longrightarrow> find_node (nodes @ [new]) i = Some n"
  by (simp add: find_node_append)

lemma good_chain_extend:
  assumes "good_chain nodes b e" and "incr_of b new" and "cn_oplog_range new = Some (e, e')"
    and "\<forall>n \<in> set nodes. cn_id n < cn_id new" and "e \<le> e'"
    and "cn_status new = Complete" and "\<not> cn_selective new"
  shows "good_chain (nodes @ [new]) b e'"
proof -
  from assms(1) obtain base b0 b1 where g: "find_node nodes b = Some base" "usable_base base"
    "cn_oplog_range base = Some (b0, b1)"
    "\<forall>n \<in> set nodes. incr_of b n \<longrightarrow> cn_status n = Complete \<and> \<not> cn_selective n \<and> cn_oplog_range n \<noteq> None"
    "linked b1 (slice_ranges nodes b)" "\<forall>r \<in> set (slice_ranges nodes b). fst r \<le> snd r"
    "sorted_wrt (<) (b # map cn_id (sorted_incrs nodes b))"
    "e = last (b1 # map snd (slice_ranges nodes b))"
    unfolding good_chain_def chain_end_def by blast
  note s = sorted_incrs_snoc [OF assms(1-4)]
  have r: "slice_ranges (nodes @ [new]) b = slice_ranges nodes b @ [(e, e')]"
    using assms(3) by (simp add: slice_ranges_def s)
  have "base \<in> set nodes" "cn_id base = b"
    using find_node_Some [OF g(1)] by auto
  then have "b < cn_id new"
    using assms(4) by auto
  moreover have "\<forall>i \<in> set (map cn_id (sorted_incrs nodes b)). i < cn_id new"
    using assms(4) by auto
  ultimately have "sorted_wrt (<) (b # map cn_id (sorted_incrs (nodes @ [new]) b))"
    using g(7) by (auto simp: s sorted_wrt_append)
  moreover have "linked b1 (slice_ranges (nodes @ [new]) b)"
    using g(5,8) by (simp add: r linked_append)
  ultimately show ?thesis
    unfolding good_chain_def chain_end_def
    using g(1-4,6) assms(2,3,5-7) find_node_snoc [OF g(1)] r by auto
qed

text \<open>A backup of another chain, with a new id.\<close>

lemma good_chain_other:
  assumes "good_chain nodes b e" and "\<not> incr_of b new"
  shows "good_chain (nodes @ [new]) b e"
proof -
  have "sorted_incrs (nodes @ [new]) b = sorted_incrs nodes b"
    using assms(2) by (simp add: sorted_incrs_def)
  moreover have "incr_of b n \<and> n \<in> set (nodes @ [new]) \<longleftrightarrow> incr_of b n \<and> n \<in> set nodes" for n
    using assms(2) by auto
  ultimately show ?thesis
    using assms(1) unfolding good_chain_def slice_ranges_def chain_end_def
    by (metis find_node_snoc)
qed

lemma good_chain_base:
  assumes "usable_base new" and "cn_oplog_range new = Some (s, e)"
    and "cn_id new \<notin> cn_id ` set nodes" and "\<forall>n \<in> set nodes. cn_base_id n \<noteq> Some (cn_id new)"
  shows "good_chain (nodes @ [new]) (cn_id new) e"
proof -
  have "find_node (nodes @ [new]) (cn_id new) = Some new"
    using assms(3) by (simp add: find_node_append find_node_None_iff [THEN iffD2]) (simp add: find_node_def)
  moreover have "\<not> incr_of (cn_id new) new"
    using assms(1) by (auto simp: usable_base_def incr_of_def)
  moreover from this have "filter (incr_of (cn_id new)) (nodes @ [new]) = []"
    using assms(4) by (auto simp: incr_of_def filter_empty_conv)
  ultimately show ?thesis
    using assms(1,2) unfolding good_chain_def
    by (intro exI [of _ new] exI [of _ s] exI [of _ e])
      (simp add: sorted_incrs_def slice_ranges_def chain_end_def filter_empty_conv)
qed

section \<open>Growing a healthy catalogue\<close>

lemma ordered_ids_snoc:
  assumes "ordered_ids nodes" and "\<forall>n \<in> set nodes. cn_id n < cn_id new"
    and "\<forall>b. cn_base_id new = Some b \<longrightarrow> b < cn_id new"
  shows "ordered_ids (nodes @ [new])"
  using assms by (auto simp: ordered_ids_def)

lemma base_not_new:
  assumes "ordered_ids nodes" and "\<forall>n \<in> set nodes. cn_id n < cn_id new" and "n \<in> set nodes"
  shows "cn_base_id n \<noteq> Some (cn_id new)"
  using assms unfolding ordered_ids_def by (metis less_asym)

lemma tracked_chain_other:
  assumes "tracked_chain nodes n" and "\<not> incr_of (cn_id n) new"
  shows "tracked_chain (nodes @ [new]) n"
  using assms good_chain_other unfolding tracked_chain_def by blast

lemma healthy_snoc:
  assumes "healthy nodes" and "\<forall>n \<in> set nodes. cn_id n < cn_id new"
    and "\<forall>b. cn_base_id new = Some b \<longrightarrow> b < cn_id new"
    and "\<forall>n \<in> set nodes. incr_of (cn_id n) new \<longrightarrow> tracked_chain (nodes @ [new]) n"
    and "\<forall>base \<in> set nodes. untracked base new"
  shows "healthy (nodes @ [new])"
proof -
  have o: "ordered_ids nodes"
    using assms(1) by (simp add: healthy_def)
  have "cn_id new \<notin> cn_id ` set nodes"
    using assms(2) by auto
  then have "tracked_chain (nodes @ [new]) new"
    using good_chain_base base_not_new [OF o assms(2)]
    unfolding tracked_chain_def by (metis not_None_eq surj_pair)
  moreover have "tracked_chain (nodes @ [new]) n" if "n \<in> set nodes" for n
    using that assms(1,4) tracked_chain_other unfolding healthy_def by blast
  moreover have "untracked new n" if "n \<in> set (nodes @ [new])" for n
    using that base_not_new [OF o assms(2)]
    by (auto simp: untracked_def incr_of_def usable_base_def)
  moreover have "untracked base n" if "base \<in> set nodes" "n \<in> set (nodes @ [new])" for base n
    using that assms(1,5) by (auto simp: healthy_def)
  ultimately show ?thesis
    using ordered_ids_snoc [OF o assms(2,3)] by (simp add: healthy_def)
qed

text \<open>A slice from the end of a good chain.\<close>

lemma healthy_extend:
  assumes "healthy nodes" and "good_chain nodes b e" and "incr_of b new"
    and "cn_oplog_range new = Some (e, e')" and "e \<le> e'"
    and "\<forall>n \<in> set nodes. cn_id n < cn_id new"
    and "cn_status new = Complete" and "\<not> cn_selective new"
  shows "healthy (nodes @ [new]) \<and> good_chain (nodes @ [new]) b e'"
proof -
  note ext = good_chain_extend [OF assms(2-4,6,5,7,8)]
  have b: "incr_of b' new \<longleftrightarrow> b' = b" for b'
    using assms(3) by (auto simp: incr_of_def)
  from assms(2) obtain base r where base: "base \<in> set nodes" "cn_id base = b" "cn_oplog_range base = Some r"
    using find_node_Some unfolding good_chain_def by blast
  have "untracked base' new" if "base' \<in> set nodes" for base'
  proof (cases "cn_id base' = b")
    case True
    then have "base' = base"
      using that base assms(1) by (metis healthy_def ordered_ids_def distinct_map inj_onD)
    with base show ?thesis by (simp add: untracked_def)
  next
    case False
    then show ?thesis by (simp add: untracked_def b)
  qed
  moreover have "b < cn_id new"
    using base assms(6) by blast
  moreover have "tracked_chain (nodes @ [new]) n" if "incr_of (cn_id n) new" for n
    using that ext b unfolding tracked_chain_def by auto
  ultimately have "healthy (nodes @ [new])"
    using assms(3) by (intro healthy_snoc [OF assms(1,6)]) (auto simp: incr_of_def)
  with ext show ?thesis by blast
qed

lemma healthy_new_full:
  assumes "healthy nodes" and "cn_backup_type new = Full" and "cn_base_id new = None"
    and "\<forall>n \<in> set nodes. cn_id n < cn_id new"
  shows "healthy (nodes @ [new])"
  using assms(2,3) by (intro healthy_snoc [OF assms(1,4)]) (auto simp: incr_of_def untracked_def)

text \<open>The last backup of a good chain: the one with the greatest id ends where the chain ends.\<close>

lemma good_chain_tip:
  assumes g: "good_chain nodes b e" and d: "distinct (map cn_id nodes)"
    and t: "t \<in> set nodes" "cn_id t = b \<or> incr_of b t"
    and max: "\<forall>n \<in> set nodes. cn_id n = b \<or> incr_of b n \<longrightarrow> cn_id n \<le> cn_id t"
  shows "node_end_ts t = Some e"
proof -
  from g obtain base b0 b1 where g: "find_node nodes b = Some base"
    "cn_oplog_range base = Some (b0, b1)" "usable_base base"
    "\<forall>n \<in> set nodes. incr_of b n \<longrightarrow> cn_oplog_range n \<noteq> None"
    "sorted_wrt (<) (b # map cn_id (sorted_incrs nodes b))"
    "e = last (b1 # map snd (slice_ranges nodes b))"
    unfolding good_chain_def chain_end_def by blast
  have base: "base \<in> set nodes" "cn_id base = b"
    using find_node_Some [OF g(1)] by auto
  show ?thesis
  proof (cases "sorted_incrs nodes b" rule: rev_cases)
    case Nil
    then have "\<not> incr_of b t"
      using t(1) set_sorted_incrs [of nodes b] by auto
    with t base d have "t = base"
      by (metis (no_types, opaque_lifting) distinct_map inj_onD)
    with Nil g(2,6) show ?thesis
      by (simp add: slice_ranges_def node_end_ts_def)
  next
    case (snoc ns n)
    have n: "n \<in> set nodes" "incr_of b n"
      using set_sorted_incrs [of nodes b] snoc by auto
    then have "cn_id n \<le> cn_id t"
      using max by blast
    moreover have "cn_id t \<le> cn_id n"
    proof (cases "cn_id t = b")
      case True
      with g(5) snoc show ?thesis by (auto simp: sorted_wrt_append)
    next
      case False
      with t have "t \<in> set (sorted_incrs nodes b)" by simp
      with g(5) snoc show ?thesis by (auto simp: sorted_wrt_append)
    qed
    ultimately have "t = n"
      using t(1) n(1) d by (metis (no_types, opaque_lifting) distinct_map inj_onD order_antisym)
    moreover obtain r where "cn_oplog_range n = Some r"
      using n g(4) by auto
    ultimately show ?thesis
      using g(6) snoc by (simp add: slice_ranges_def node_end_ts_def)
  qed
qed

end
