(* ===== verification/XB_Catalogue.thy ===== *)
theory XB_Catalogue
  imports XB_Backup XB_Extend "HOL-Library.Countable"
begin

text \<open>
  The catalogue of a destination: the nodes of all manifests that can be read, as
  \<open>verify_chain_for\<close> (\<open>pipeline/verify.rs\<close>) collects them. The lemmas say how the catalogue moves when
  a backup with a new id is published or a failed one is removed; the invariant \<open>world_ok\<close> is what
  every run of a backup keeps.
\<close>

section \<open>The nodes of a destination\<close>

definition manifests :: "codec \<Rightarrow> store \<Rightarrow> BackupManifest list" where
  "manifests c s = List.map_filter (store_read c s) (collect_manifest_ids s)"

definition catalogue :: "codec \<Rightarrow> store \<Rightarrow> ChainNode list" where
  "catalogue c s = map from_manifest (manifests c s)"

definition verify_chain_for :: "codec \<Rightarrow> store \<Rightarrow> string \<Rightarrow> ChainReport" where
  "verify_chain_for c s target_id = verify_chain (catalogue c s) target_id"

text \<open>An id as the storage lists it: a directory directly under the root.\<close>

definition valid_id :: "string \<Rightarrow> bool" where
  "valid_id i \<longleftrightarrow> i \<noteq> [] \<and> CHR ''/'' \<notin> set i"

definition store_ok :: "codec \<Rightarrow> store \<Rightarrow> bool" where
  "store_ok c s \<longleftrightarrow> (\<forall>i. sto_get s (manifest_path i) \<noteq> None \<longrightarrow> valid_id i) \<and>
     (\<forall>i m. store_read c s i = Some m \<longrightarrow> m_id m = i)"

lemma from_manifest_simps [simp]:
  "cn_id (from_manifest m) = m_id m" "cn_backup_type (from_manifest m) = m_backup_type m"
  "cn_base_id (from_manifest m) = m_base_id m" "cn_selective (from_manifest m) = m_selective m"
  "cn_status (from_manifest m) = m_status m"
  "cn_oplog_range (from_manifest m) = map_option (\<lambda>r. (start_ts r, end_ts r)) (m_oplog_range m)"
  by (simp_all add: from_manifest_def)

lemma set_manifests:
  assumes "store_ok c s"
  shows "m \<in> set (manifests c s) \<longleftrightarrow> (\<exists>i. store_read c s i = Some m)"
proof -
  have "store_read c s i = Some m \<Longrightarrow> i \<in> set (collect_manifest_ids s)" for i m
    using assms by (auto simp: set_collect_manifest_ids store_ok_def valid_id_def store_read_def
        split: option.splits)
  then show ?thesis
    by (auto simp: manifests_def set_map_filter)
qed

lemma set_catalogue:
  "store_ok c s \<Longrightarrow> n \<in> set (catalogue c s) \<longleftrightarrow> (\<exists>i m. store_read c s i = Some m \<and> n = from_manifest m)"
  unfolding catalogue_def set_map image_iff Bex_def by (simp add: set_manifests) blast

lemma store_read_cong: "sto_get s (manifest_path i) = sto_get s' (manifest_path i) \<Longrightarrow>
    store_read c s i = store_read c s' i"
  by (simp add: store_read_def)

lemma collect_ids_cong:
  assumes "\<forall>i. sto_get s (manifest_path i) = None \<longleftrightarrow> sto_get s' (manifest_path i) = None"
  shows "collect_manifest_ids s = collect_manifest_ids s'"
proof (rule sorted_distinct_set_unique)
  show "set (collect_manifest_ids s) = set (collect_manifest_ids s')"
    using assms by (auto simp: set_collect_manifest_ids)
qed (simp_all add: collect_manifest_ids_def)

lemma manifests_cong:
  assumes "\<forall>i. sto_get s (manifest_path i) = sto_get s' (manifest_path i)"
  shows "manifests c s = manifests c s'"
proof -
  have "store_read c s = store_read c s'"
    using assms store_read_cong by blast
  with collect_ids_cong [of s s'] assms show ?thesis
    by (simp add: manifests_def)
qed

lemma catalogue_cong:
  "\<forall>i. sto_get s (manifest_path i) = sto_get s' (manifest_path i) \<Longrightarrow> catalogue c s = catalogue c s'"
  unfolding catalogue_def by (metis manifests_cong)

text \<open>A manifest under a new id adds its node, and nothing else moves.\<close>

lemma mset_map_filter_cong:
  "mset (List.map_filter f xs) = image_mset the (filter_mset (\<lambda>y. y \<noteq> None) (image_mset f (mset xs)))"
  by (induction xs) (auto simp: List.map_filter_simps split: option.split)

lemma manifests_add:
  assumes "valid_id i" and "sto_get s (manifest_path i) = None"
    and "store_read c s' i = Some m" and "\<forall>j. j \<noteq> i \<longrightarrow> sto_get s' (manifest_path j) = sto_get s (manifest_path j)"
  shows "mset (manifests c s') = mset (manifests c s @ [m])"
proof -
  have i: "sto_get s' (manifest_path i) \<noteq> None"
    using assms(3) by (auto simp: store_read_def split: option.splits)
  have "set (collect_manifest_ids s') = insert i (set (collect_manifest_ids s))"
    using assms(1,4) i by (auto simp: set_collect_manifest_ids valid_id_def) metis+
  moreover have "i \<notin> set (collect_manifest_ids s)"
    using assms(2) by (simp add: set_collect_manifest_ids)
  moreover have "distinct (collect_manifest_ids s')" "distinct (collect_manifest_ids s)"
    by (simp_all add: collect_manifest_ids_def)
  ultimately have ids: "mset (collect_manifest_ids s') = mset (i # collect_manifest_ids s)"
    by (intro set_eq_iff_mset_eq_distinct [THEN iffD1]) auto
  have "List.map_filter (store_read c s') (collect_manifest_ids s) =
      List.map_filter (store_read c s) (collect_manifest_ids s)"
    using assms(4) \<open>i \<notin> set (collect_manifest_ids s)\<close> unfolding List.map_filter_def
    by (intro arg_cong2 [where f = map] filter_cong map_cong refl)
      (auto simp: store_read_def intro!: ext)
  moreover have "mset (List.map_filter (store_read c s') (collect_manifest_ids s')) =
      mset (List.map_filter (store_read c s') (i # collect_manifest_ids s))"
    unfolding mset_map_filter_cong ids ..
  ultimately show ?thesis
    using assms(3) by (simp add: manifests_def List.map_filter_simps)
qed

lemma catalogue_add:
  assumes "valid_id i" and "sto_get s (manifest_path i) = None"
    and "store_read c s' i = Some m" and "\<forall>j. j \<noteq> i \<longrightarrow> sto_get s' (manifest_path j) = sto_get s (manifest_path j)"
  shows "mset (catalogue c s') = mset (catalogue c s @ [from_manifest m])"
  using manifests_add [OF assms] by (simp add: catalogue_def mset_map)

section \<open>The invariant of the destination\<close>

text \<open>
  The ids still to be drawn are time-ordered: they rise, lie above every id of the catalogue, and no
  object of theirs exists.
\<close>

definition ids_ahead :: "codec \<Rightarrow> world \<Rightarrow> bool" where
  "ids_ahead c w \<longleftrightarrow>
     (\<forall>k \<ge> w_drawn w. valid_id (w_uuid w k) \<and> fresh (w_uuid w k) w \<and>
        (\<forall>n \<in> set (catalogue c (w_store w)). cn_id n < w_uuid w k)) \<and>
     (\<forall>j k. w_drawn w \<le> j \<longrightarrow> j < k \<longrightarrow> w_uuid w j < w_uuid w k)"

definition world_ok :: "codec \<Rightarrow> world \<Rightarrow> bool" where
  "world_ok c w \<longleftrightarrow> store_ok c (w_store w) \<and> healthy (catalogue c (w_store w)) \<and> ids_ahead c w"

definition codec_laws :: "codec \<Rightarrow> bool" where
  "codec_laws c \<longleftrightarrow> (\<forall>m. codec_ok c m)"

text \<open>The objects that changed belong to ids drawn meanwhile.\<close>

definition touches_drawn :: "world \<Rightarrow> world \<Rightarrow> bool" where
  "touches_drawn w w' \<longleftrightarrow> (\<forall>p. look w' p \<noteq> look w p \<longrightarrow>
     (\<exists>k. w_drawn w \<le> k \<and> k < w_drawn w' \<and> p \<in> set (backup_paths (w_uuid w k))))"

lemma backup_paths_inj: "p \<in> set (backup_paths i) \<Longrightarrow> p \<in> set (backup_paths j) \<Longrightarrow> i = j"
  by (auto simp: backup_paths_def)

lemma touches_drawn_fresh:
  assumes "touches_drawn w w'" and "ids_ahead c w" and "w_drawn w' \<le> k" and "w_drawn w \<le> w_drawn w'"
  shows "fresh (w_uuid w k) w'"
proof -
  have k: "w_drawn w \<le> k" using assms(3,4) by simp
  have "look w' p = look w p" if "p \<in> set (backup_paths (w_uuid w k))" for p
  proof (rule ccontr)
    assume "look w' p \<noteq> look w p"
    with assms(1) obtain j where j: "w_drawn w \<le> j" "j < w_drawn w'" "p \<in> set (backup_paths (w_uuid w j))"
      by (auto simp: touches_drawn_def)
    then have "w_uuid w j < w_uuid w k"
      using assms(2,3) by (simp add: ids_ahead_def)
    with backup_paths_inj [OF j(3) that] show False by simp
  qed
  with assms(2) k show ?thesis
    by (auto simp: ids_ahead_def fresh_paths)
qed

lemma ids_ahead_step:
  assumes "ids_ahead c w" and "same_oracle w w'" and "touches_drawn w w'"
    and "\<forall>n \<in> set (catalogue c (w_store w')). n \<in> set (catalogue c (w_store w)) \<or>
      (\<exists>k. w_drawn w \<le> k \<and> k < w_drawn w' \<and> cn_id n = w_uuid w k)"
  shows "ids_ahead c w'"
proof -
  have u: "w_uuid w' = w_uuid w" "w_drawn w \<le> w_drawn w'"
    using assms(2) by (simp_all add: same_oracle_def)
  have "cn_id n < w_uuid w k" if "n \<in> set (catalogue c (w_store w'))" "w_drawn w' \<le> k" for n k
    using assms(1,4) that u(2) unfolding ids_ahead_def by (metis dual_order.trans le_less_trans not_le)
  with assms(1) u show ?thesis
    unfolding ids_ahead_def using touches_drawn_fresh [OF assms(3,1) _ u(2)] by auto
qed

text \<open>A step that leaves the manifests alone.\<close>

lemma world_ok_same:
  assumes "world_ok c w" and "same_oracle w w'" and "touches_drawn w w'"
    and "\<forall>i. look w' (manifest_path i) = look w (manifest_path i)"
  shows "world_ok c w'"
proof -
  have cat: "catalogue c (w_store w') = catalogue c (w_store w)"
    using assms(4) by (intro catalogue_cong) simp
  moreover have "store_ok c (w_store w')"
    using assms(1,4) by (simp add: world_ok_def store_ok_def store_read_def)
  ultimately show ?thesis
    using assms(1) ids_ahead_step [OF _ assms(2,3)] by (simp add: world_ok_def)
qed

lemma world_ok_unchanged:
  "world_ok c w \<Longrightarrow> same_oracle w w' \<Longrightarrow> look w' = look w \<Longrightarrow> world_ok c w'"
  by (rule world_ok_same) (auto simp: touches_drawn_def)

text \<open>A step that publishes the manifest of an id it has drawn.\<close>

lemma world_ok_publish:
  assumes ok: "world_ok c w" and "same_oracle w w'" and t: "touches_drawn w w'"
    and k: "w_drawn w \<le> k" "k < w_drawn w'"
    and m: "store_read c (w_store w') (w_uuid w k) = Some m" "m_id m = w_uuid w k"
    and same: "\<forall>i. i \<noteq> w_uuid w k \<longrightarrow> look w' (manifest_path i) = look w (manifest_path i)"
    and h: "healthy (catalogue c (w_store w) @ [from_manifest m])"
  shows "world_ok c w' \<and>
    mset (catalogue c (w_store w')) = mset (catalogue c (w_store w) @ [from_manifest m])"
proof -
  have f: "valid_id (w_uuid w k)" "look w (manifest_path (w_uuid w k)) = None"
    using ok k(1) by (auto simp: world_ok_def ids_ahead_def fresh_def)
  note add = catalogue_add [OF f m(1) same]
  have "store_ok c (w_store w')"
    unfolding store_ok_def
  proof (intro conjI allI impI)
    fix i
    show "look w' (manifest_path i) \<noteq> None \<Longrightarrow> valid_id i"
      using ok same f(1) unfolding world_ok_def store_ok_def by metis
    show "m_id x = i" if "store_read c (w_store w') i = Some x" for x
      using ok same m that unfolding world_ok_def store_ok_def
      by (metis option.inject store_read_cong)
  qed
  moreover have "healthy (catalogue c (w_store w'))"
    using healthy_mset [OF add [symmetric] h] .
  moreover have "set (catalogue c (w_store w')) = set (catalogue c (w_store w) @ [from_manifest m])"
    using add by (rule mset_eq_setD)
  then have "ids_ahead c w'"
    using ok k m(2) by (intro ids_ahead_step [OF _ assms(2) t]) (auto simp: world_ok_def)
  ultimately show ?thesis
    using add by (simp add: world_ok_def)
qed

lemma touches_drawn_only:
  "only_touches (w_uuid w k) w w' \<Longrightarrow> w_drawn w \<le> k \<Longrightarrow> k < w_drawn w' \<Longrightarrow> touches_drawn w w'"
  unfolding touches_drawn_def only_touches_def by blast

lemma published_read:
  "published c w m data \<Longrightarrow> codec_laws c \<Longrightarrow> store_read c (w_store w) (m_id m) = Some m"
  by (simp add: published_def artifact_at_def codec_laws_def codec_ok_def store_read_def)

text \<open>A published backup of the id drawn next, or later.\<close>

lemma world_ok_published:
  assumes "world_ok c w" and "same_oracle w w'" and "touches_drawn w w'"
    and "w_drawn w \<le> k" "k < w_drawn w'"
    and "published c w' m data" and "codec_laws c" and "m_id m = w_uuid w k"
    and "\<forall>i. i \<noteq> w_uuid w k \<longrightarrow> look w' (manifest_path i) = look w (manifest_path i)"
    and "healthy (catalogue c (w_store w) @ [from_manifest m])"
  shows "world_ok c w' \<and>
    mset (catalogue c (w_store w')) = mset (catalogue c (w_store w) @ [from_manifest m])"
  using published_read [OF assms(6,7)] assms(8)
  by (intro world_ok_publish [OF assms(1-5) _ assms(8-10)]) simp

section \<open>A full backup keeps the invariant\<close>

lemma catalogue_ids_less:
  "world_ok c w \<Longrightarrow> w_drawn w \<le> k \<Longrightarrow> \<forall>n \<in> set (catalogue c (w_store w)). cn_id n < w_uuid w k"
  by (simp add: world_ok_def ids_ahead_def)

lemma failed_clean_world_ok:
  assumes "failed_clean (w_uuid w (w_drawn w)) w w'" and "world_ok c w" and "reliable_deletes w"
  shows "world_ok c w' \<and> look w' = look w"
proof -
  have "fresh (w_uuid w (w_drawn w)) w"
    using assms(2) by (simp add: world_ok_def ids_ahead_def)
  with assms show ?thesis
    using world_ok_unchanged by (auto simp: failed_clean_def)
qed

lemma full_backup_world:
  assumes run: "run_full_backup_with_rows c legacy env rq meta stages digest now w = (r, w')"
    and ok: "world_ok c w" and "reliable_deletes w" and "codec_laws c"
  shows "world_ok c w' \<and> (\<forall>e. r = Inl e \<longrightarrow> catalogue c (w_store w') = catalogue c (w_store w)) \<and>
    (\<forall>out. r = Inr out \<longrightarrow> (\<exists>m b.
     out = outcome_of_manifest m \<and> m_id m = w_uuid w (w_drawn w) \<and> m_backup_type m = Full \<and>
     published c w' m (Some b) \<and> w_drawn w' = Suc (w_drawn w) \<and> same_oracle w w' \<and>
     only_touches (m_id m) w w' \<and> m_base_id m = None \<and> m_status m = Complete \<and>
     (is_selective rq \<longrightarrow> m_oplog_range m = None) \<and> m_selective m = is_selective rq \<and>
     mset (catalogue c (w_store w')) = mset (catalogue c (w_store w) @ [from_manifest m])))"
  using run
proof (cases rule: run_full_cases)
  case (refused e)
  with ok show ?thesis by simp
next
  case (core e)
  then have "world_ok c w'" "look w' = look w"
    using failed_clean_world_ok ok assms(3) by blast+
  with core(1) show ?thesis
    by (auto intro: catalogue_cong)
next
  case (stale sd)
  obtain b where b: "look w' = (look w)(data_path (w_uuid w (w_drawn w)) \<mapsto> b)" "same_oracle w w'"
    "w_drawn w' = Suc (w_drawn w)"
    using store_dump_stream_Inr [OF stale(3)] by metis
  then have "touches_drawn w w'"
    by (intro touches_drawn_only [where k = "w_drawn w"] only_touches_put) auto
  then have "world_ok c w'"
    using world_ok_same [OF ok b(2)] b(1) by simp
  with stale b(1) show ?thesis
    by (auto intro: catalogue_cong)
next
  case (finished out m b)
  have t: "touches_drawn w w'"
    using finished by (intro touches_drawn_only [where k = "w_drawn w"]) auto
  have "healthy (catalogue c (w_store w) @ [from_manifest m])"
    using ok finished catalogue_ids_less [OF ok order_refl]
    by (intro healthy_new_full) (simp_all add: world_ok_def)
  moreover have "\<forall>i. i \<noteq> w_uuid w (w_drawn w) \<longrightarrow> look w' (manifest_path i) = look w (manifest_path i)"
    using finished by (auto simp: only_touches_def backup_paths_def)
  ultimately have "world_ok c w' \<and> mset (catalogue c (w_store w')) = mset (catalogue c (w_store w) @ [from_manifest m])"
    using finished by (intro world_ok_published [OF ok _ t _ _ _ assms(4), where k = "w_drawn w"]) auto
  with finished show ?thesis by blast
qed

section \<open>A codec that keeps the laws\<close>

text \<open>
  The manifests are countable, so that a manifest can be written as a number; the digest is a constant
  word except for no bytes. This codec shows that the laws can hold.
\<close>

instance OplogTimestamp :: countable
  by (rule countable_classI [of "\<lambda>t. to_nat (ts_t t, ts_i t)"]) (auto intro: OplogTimestamp.expand)

instance BackupType :: countable
  by countable_datatype

instance Topology :: countable
  by countable_datatype

instance BackupStatus :: countable
  by countable_datatype

instance OplogRange_ext :: (countable) countable
  by (rule countable_classI [of "\<lambda>r. to_nat (start_ts r, end_ts r, OplogRange.more r)"]) auto

instance CompressionMeta_ext :: (countable) countable
  by (rule countable_classI [of "\<lambda>r. to_nat (c_algorithm r, c_level r, CompressionMeta.more r)"]) auto

instance EncryptionMeta_ext :: (countable) countable
  by (rule countable_classI [of "\<lambda>r. to_nat (e_algorithm r, e_key_id r, EncryptionMeta.more r)"]) auto

instance MysqlBinlogCoords_ext :: (countable) countable
  by (rule countable_classI [of "\<lambda>r. to_nat (binlog_file r, binlog_position r, gtid_executed r,
      MysqlBinlogCoords.more r)"]) auto

instance ToolVersions_ext :: (countable) countable
  by (rule countable_classI [of "\<lambda>r. to_nat (mongodump r, archive_format r, ToolVersions.more r)"]) auto

instance ContentDigests_ext :: (countable) countable
  by (rule countable_classI [of "\<lambda>r. to_nat (d_algorithm r, d_tables r, ContentDigests.more r)"]) auto

instance BackupManifest_ext :: (countable) countable
  by (rule countable_classI [of "\<lambda>m. to_nat ((m_format_version m, m_id m, m_created_at m,
      m_backup_type m, m_base_id m, m_topology m, m_server_version m, m_tool_versions m, m_selective m),
      (m_original_size_bytes m, m_stored_size_bytes m, m_compression m, m_encryption m,
      m_checksum_sha256 m, m_oplog_range m, m_oplog_count m), m_promoted_from_gap m, m_mysql_binlog m,
      m_table_rows m, m_table_digests m, m_status m, BackupManifest.more m)"]) auto

definition number_codec :: codec where
  "number_codec = \<lparr>
     sha256_hex = (\<lambda>bs. if bs = [] then EMPTY_SHA256 else ''s''),
     to_json = (\<lambda>m. replicate (Suc (to_nat m)) 0),
     from_json = (\<lambda>bs. Some (from_nat (length bs - 1)))\<rparr>"

lemma number_codec_read [simp]: "from_json number_codec (to_json number_codec m) = Some m"
  by (simp add: number_codec_def)

lemma number_codec_laws: "codec_laws number_codec"
  by (simp add: codec_laws_def codec_ok_def) (simp add: number_codec_def is_whitespace_def)

text \<open>Ids that grow by a letter rise.\<close>

lemma replicate_b_less: "j < k \<Longrightarrow> replicate (Suc j) (CHR ''b'') < replicate (Suc k) (CHR ''b'')"
proof (induction j arbitrary: k)
  case 0
  then show ?case by (cases k) simp_all
next
  case (Suc j)
  then obtain k' where "k = Suc k'" "j < k'" by (cases k) auto
  with Suc.IH [of k'] show ?case by simp
qed

end
