(* ===== verification/XB_Oplog_Capture.thy ===== *)
theory XB_Oplog_Capture
  imports XB_Oplog_Apply
begin

text \<open>
  The capture of an oplog slice (\<open>engine/mongo/oplog.rs\<close>): the gap check, the upper bound with its
  extension over a split transaction, and the raw stream of the entries of a half-open interval. The
  oplog is the list of its documents in natural order; because it moves between two queries, each
  query has a snapshot of its own. The lemmas show which entries a slice holds and that a replay
  reads exactly them.
\<close>

section \<open>Results\<close>

datatype GapCheck =
    GapOk bool
  | OplogEmpty
  | Gap OplogTimestamp OplogTimestamp

datatype CaptureError = LateGap | OtherCaptureError

section \<open>Reading an entry\<close>

definition ts_of :: "'d bson_api \<Rightarrow> 'd \<Rightarrow> OplogTimestamp option" where
  "ts_of api raw = (case doc_get api raw ''ts'' of
     Some (BTimestamp ts) \<Rightarrow> Some (from_bson ts) | _ \<Rightarrow> None)"

definition is_partial_txn :: "'d bson_api \<Rightarrow> 'd \<Rightarrow> bool" where
  "is_partial_txn api raw \<longleftrightarrow> doc_get_bool api raw ''partialTxn'' = Some True"

section \<open>The window of the oplog\<close>

text \<open>\<open>first_ts\<close> on the documents in the order of the query.\<close>

definition first_ts :: "'d bson_api \<Rightarrow> 'd list \<Rightarrow> OplogTimestamp option" where
  "first_ts api ds = (case ds of [] \<Rightarrow> None | d # _ \<Rightarrow> ts_of api d)"

definition min_oplog_ts :: "'d bson_api \<Rightarrow> 'd list \<Rightarrow> OplogTimestamp option" where
  "min_oplog_ts api oplog = first_ts api oplog"

definition latest_oplog_ts :: "'d bson_api \<Rightarrow> 'd list \<Rightarrow> OplogTimestamp option" where
  "latest_oplog_ts api oplog = first_ts api (rev oplog)"

definition classify_gap :: "OplogTimestamp \<Rightarrow> OplogTimestamp \<Rightarrow> GapCheck" where
  "classify_gap last_ts min_ts = (case ts_cmp last_ts min_ts of
     Less \<Rightarrow> Gap last_ts min_ts | Equal \<Rightarrow> GapOk True | Greater \<Rightarrow> GapOk False)"

definition detect_gap :: "'d bson_api \<Rightarrow> 'd list \<Rightarrow> OplogTimestamp \<Rightarrow> GapCheck" where
  "detect_gap api oplog last_ts = (case min_oplog_ts api oplog of
     None \<Rightarrow> OplogEmpty | Some min_ts \<Rightarrow> classify_gap last_ts min_ts)"

section \<open>The upper bound\<close>

fun boundary_loop :: "OplogTimestamp \<Rightarrow> (OplogTimestamp \<times> bool) list \<Rightarrow> OplogTimestamp" where
  "boundary_loop result [] = result"
| "boundary_loop result ((ts, partial) # seq) = (if \<not> partial then ts else boundary_loop ts seq)"

fun extend_boundary :: "OplogTimestamp \<Rightarrow> (OplogTimestamp \<times> bool) list \<Rightarrow> OplogTimestamp" where
  "extend_boundary upper [] = upper"
| "extend_boundary upper ((ts, False) # seq) = upper"
| "extend_boundary upper ((ts, True) # seq) = boundary_loop upper ((ts, True) # seq)"

text \<open>The cursor of the extension: \<open>None\<close> is the immediate return on a first entry that is whole.\<close>

fun read_seq ::
  "'d bson_api \<Rightarrow> (OplogTimestamp \<times> bool) list \<Rightarrow> 'd list \<Rightarrow> (OplogTimestamp \<times> bool) list option" where
  "read_seq api acc [] = Some acc"
| "read_seq api acc (d # ds) =
     (let partial = is_partial_txn api d in
      if acc = [] \<and> \<not> partial then None
      else let acc' = (case ts_of api d of Some ts \<Rightarrow> acc @ [(ts, partial)] | None \<Rightarrow> acc) in
        if \<not> partial then Some acc' else read_seq api acc' ds)"

definition at_or_after :: "'d bson_api \<Rightarrow> OplogTimestamp \<Rightarrow> 'd \<Rightarrow> bool" where
  "at_or_after api upper d = (case ts_of api d of Some ts \<Rightarrow> upper \<le> ts | None \<Rightarrow> False)"

definition extend_upper_past_partial_txn ::
  "'d bson_api \<Rightarrow> 'd list \<Rightarrow> OplogTimestamp \<Rightarrow> OplogTimestamp" where
  "extend_upper_past_partial_txn api oplog upper =
     (case read_seq api [] (filter (at_or_after api upper) oplog) of
        None \<Rightarrow> upper
      | Some seq \<Rightarrow> extend_boundary upper seq)"

text \<open>The latest timestamp of one snapshot, extended on a later one; a failed query is \<open>None\<close>.\<close>

definition resolve_upper_bound ::
  "'d bson_api \<Rightarrow> 'd list option \<Rightarrow> 'd list option \<Rightarrow> OplogTimestamp option option" where
  "resolve_upper_bound api at_latest at_extend = (case at_latest of
     None \<Rightarrow> None
   | Some oplog \<Rightarrow> (case latest_oplog_ts api oplog of
       None \<Rightarrow> Some None
     | Some latest \<Rightarrow> map_option (\<lambda>o2. Some (extend_upper_past_partial_txn api o2 latest)) at_extend))"

section \<open>The capture\<close>

definition in_slice :: "'d bson_api \<Rightarrow> OplogTimestamp \<Rightarrow> OplogTimestamp \<Rightarrow> 'd \<Rightarrow> bool" where
  "in_slice api last_ts upper d = (case ts_of api d of Some ts \<Rightarrow> last_ts < ts \<and> ts \<le> upper | None \<Rightarrow> False)"

text \<open>
  \<open>drain_cursor_to_writer\<close> and \<open>CaptureHandle::finish\<close>: the bytes of the matching documents, and
  their number or the error that stopped the cursor after some of them.
\<close>

definition capture_stream ::
  "'d bson_api \<Rightarrow> ('d \<Rightarrow> bytes) \<Rightarrow> 'd list \<Rightarrow> (nat \<times> CaptureError) option \<Rightarrow> OplogTimestamp \<Rightarrow>
   OplogTimestamp \<Rightarrow> bytes \<times> (CaptureError + u64)" where
  "capture_stream api raw oplog stop last_ts upper =
     (let ds = filter (in_slice api last_ts upper) oplog
      in case stop of
           None \<Rightarrow> (concat (map raw ds), Inr (word_of_nat (length ds)))
         | Some (n, e) \<Rightarrow> (concat (map raw (take n ds)), Inl e))"

text \<open>Two entries of the small document model, for the examples.\<close>

definition ex_body :: "u8 \<Rightarrow> ex_doc" where
  "ex_body s = ExDoc [(''ts'', BTimestamp \<lparr>bs_time = ucast s, bs_increment = 1\<rparr>)]
     [(''op'', if s = 0 then ''n'' else ''i''), (''ns'', ''app.users'')]"

definition ex_raw :: "ex_doc \<Rightarrow> bytes" where
  "ex_raw d = (if d = ex_body 1 then ex_entry 1 else ex_entry 3)"

section \<open>The extension closes a transaction\<close>

text \<open>An oplog: every document has its timestamp, and they rise.\<close>

definition oplog_ok :: "'d bson_api \<Rightarrow> 'd list \<Rightarrow> bool" where
  "oplog_ok api oplog \<longleftrightarrow> (\<forall>d \<in> set oplog. ts_of api d \<noteq> None) \<and>
     sorted_wrt (<) (map (\<lambda>d. the (ts_of api d)) oplog)"

abbreviation op_ts :: "'d bson_api \<Rightarrow> 'd \<Rightarrow> OplogTimestamp" where
  "op_ts api d \<equiv> the (ts_of api d)"

lemma oplog_ok_filter: "oplog_ok api ds \<Longrightarrow> oplog_ok api (filter P ds)"
  by (auto simp: oplog_ok_def sorted_wrt_map intro: sorted_wrt_filter)

lemma oplog_ok_Cons:
  "oplog_ok api (d # ds) \<longleftrightarrow> ts_of api d \<noteq> None \<and> (\<forall>x \<in> set ds. op_ts api d < op_ts api x) \<and> oplog_ok api ds"
  by (auto simp: oplog_ok_def)

text \<open>Reading on from a partial entry stops at the first whole one, or at the end.\<close>

lemma read_seq_partial:
  assumes "oplog_ok api ds" and "acc \<noteq> [] \<or> (\<exists>d ds'. ds = d # ds' \<and> is_partial_txn api d)"
  shows "\<exists>ps rest. read_seq api acc ds = Some (acc @ map (\<lambda>d. (op_ts api d, is_partial_txn api d)) ps) \<and>
    ds = ps @ rest \<and> (\<forall>d \<in> set (butlast ps). is_partial_txn api d) \<and>
    (rest \<noteq> [] \<longrightarrow> ps \<noteq> [] \<and> \<not> is_partial_txn api (last ps))"
  using assms
proof (induction ds arbitrary: acc)
  case (Cons d ds)
  then obtain ts where ts: "ts_of api d = Some ts" and ok: "oplog_ok api ds"
    by (auto simp: oplog_ok_Cons)
  show ?case
  proof (cases "is_partial_txn api d")
    case True
    have "acc @ [(ts, True)] \<noteq> [] \<or> (\<exists>x xs. ds = x # xs \<and> is_partial_txn api x)" by simp
    from Cons.IH [OF ok this] obtain ps rest where
      p: "read_seq api (acc @ [(ts, True)]) ds =
        Some ((acc @ [(ts, True)]) @ map (\<lambda>d. (op_ts api d, is_partial_txn api d)) ps)"
      "ds = ps @ rest" "\<forall>d \<in> set (butlast ps). is_partial_txn api d"
      "rest \<noteq> [] \<longrightarrow> ps \<noteq> [] \<and> \<not> is_partial_txn api (last ps)"
      by blast
    have "read_seq api acc (d # ds) =
        Some (acc @ map (\<lambda>d. (op_ts api d, is_partial_txn api d)) (d # ps))"
      using p(1) True ts by (simp add: Let_def)
    moreover have "d # ds = (d # ps) @ rest" "\<forall>x \<in> set (butlast (d # ps)). is_partial_txn api x"
      "rest \<noteq> [] \<longrightarrow> d # ps \<noteq> [] \<and> \<not> is_partial_txn api (last (d # ps))"
      using p(2-4) True by auto
    ultimately show ?thesis by blast
  next
    case False
    with Cons.prems(2) have "acc \<noteq> []" by auto
    with False ts have "read_seq api acc (d # ds) =
        Some (acc @ map (\<lambda>d. (op_ts api d, is_partial_txn api d)) [d])"
      by (simp add: Let_def)
    with False show ?thesis
      by (intro exI [of _ "[d]"] exI [of _ ds]) simp
  qed
qed (auto intro: exI [of _ "[]"])

lemma boundary_loop_map:
  "ps \<noteq> [] \<Longrightarrow> \<forall>d \<in> set (butlast ps). is_partial_txn api d \<Longrightarrow>
     boundary_loop u (map (\<lambda>d. (op_ts api d, is_partial_txn api d)) ps) = op_ts api (last ps)"
proof (induction ps arbitrary: u)
  case (Cons d ps)
  then show ?case by (cases ps) auto
qed simp

lemma extend_upper_cases:
  assumes "oplog_ok api oplog"
  obtains (empty) "filter (at_or_after api upper) oplog = []"
      "extend_upper_past_partial_txn api oplog upper = upper"
  | (whole) d ds where "filter (at_or_after api upper) oplog = d # ds" "\<not> is_partial_txn api d"
      "extend_upper_past_partial_txn api oplog upper = upper"
  | (split) ps rest where "filter (at_or_after api upper) oplog = ps @ rest" "ps \<noteq> []"
      "is_partial_txn api (hd ps)" "\<forall>d \<in> set (butlast ps). is_partial_txn api d"
      "rest \<noteq> [] \<longrightarrow> \<not> is_partial_txn api (last ps)"
      "extend_upper_past_partial_txn api oplog upper = op_ts api (last ps)"
proof (cases "filter (at_or_after api upper) oplog")
  case Nil
  with empty show ?thesis by (simp add: extend_upper_past_partial_txn_def)
next
  case (Cons d ds)
  show ?thesis
  proof (cases "is_partial_txn api d")
    case False
    with Cons whole show ?thesis by (simp add: extend_upper_past_partial_txn_def)
  next
    case True
    let ?F = "map (\<lambda>d. (op_ts api d, is_partial_txn api d))"
    have "oplog_ok api (d # ds)"
      using oplog_ok_filter [OF assms, of "at_or_after api upper"] Cons by simp
    moreover have "[] \<noteq> [] \<or> (\<exists>x xs. d # ds = x # xs \<and> is_partial_txn api x)"
      using True by blast
    ultimately obtain ps rest where
      p: "read_seq api [] (d # ds) = Some (?F ps)" "d # ds = ps @ rest"
      "\<forall>d \<in> set (butlast ps). is_partial_txn api d"
      "rest \<noteq> [] \<longrightarrow> ps \<noteq> [] \<and> \<not> is_partial_txn api (last ps)"
      using read_seq_partial [of api "d # ds" "[]"] by (metis append_Nil)
    then have ne: "ps \<noteq> []" "hd ps = d"
      by (cases ps; cases rest; auto)+
    have "extend_upper_past_partial_txn api oplog upper = extend_boundary upper (?F ps)"
      using p(1) Cons by (simp add: extend_upper_past_partial_txn_def)
    also have "\<dots> = boundary_loop upper (?F ps)"
      using ne True by (cases ps) auto
    also have "\<dots> = op_ts api (last ps)"
      using ne(1) p(3) by (rule boundary_loop_map)
    finally show ?thesis
      using split [of ps rest] p Cons ne True by simp
  qed
qed

text \<open>the upper bound of a slice does not cut a split transaction: it is at or after the latest
  entry, every entry from there up to it is a partial piece, and the bound itself is an entry that
  is not partial, unless the transaction has not been written to its end, when the bound covers all
  that is there.\<close>

theorem upper_bound_closes:
  assumes "resolve_upper_bound api (Some o1) (Some o2) = Some (Some u)"
    and "latest_oplog_ts api o1 = Some t"
    and "oplog_ok api o2" and "d0 \<in> set o2" and "ts_of api d0 = Some t"
  shows "t \<le> u \<and>
    (\<forall>d \<in> set o2. t \<le> op_ts api d \<and> op_ts api d < u \<longrightarrow> is_partial_txn api d) \<and>
    ((\<exists>d \<in> set o2. op_ts api d = u \<and> \<not> is_partial_txn api d) \<or>
     (\<forall>d \<in> set o2. t \<le> op_ts api d \<longrightarrow> is_partial_txn api d \<and> op_ts api d \<le> u))"
proof -
  let ?ds = "filter (at_or_after api t) o2"
  have u: "extend_upper_past_partial_txn api o2 t = u"
    using assms(1,2) by (simp add: resolve_upper_bound_def)
  have mem: "d \<in> set ?ds \<longleftrightarrow> d \<in> set o2 \<and> t \<le> op_ts api d" for d
    using assms(3) by (auto simp: at_or_after_def oplog_ok_def split: option.splits)
  have ok: "oplog_ok api ?ds"
    using assms(3) by (rule oplog_ok_filter)
  have d0: "d0 \<in> set ?ds"
    using assms(4,5) mem by simp
  show ?thesis
    using assms(3)
  proof (cases rule: extend_upper_cases [where upper = t])
    case empty
    with d0 show ?thesis by simp
  next
    case (whole d ds)
    have "d \<in> set ?ds"
      using whole(1) by simp
    then have "t \<le> op_ts api d"
      using mem by blast
    moreover have "op_ts api d \<le> t"
      using d0 ok assms(5) unfolding whole(1) by (auto simp: oplog_ok_Cons)
    ultimately show ?thesis
      using whole u mem \<open>d \<in> set ?ds\<close> by force
  next
    case (split ps rest)
    from split(2) obtain qs l where l: "ps = qs @ [l]"
      using append_butlast_last_id by metis
    have ds: "?ds = qs @ l # rest" and ul: "u = op_ts api l"
      using split u l by simp_all
    have ord: "\<forall>x \<in> set qs. op_ts api x < u" "\<forall>x \<in> set rest. u < op_ts api x"
      using ok unfolding ds ul oplog_ok_def by (auto simp: sorted_wrt_append)
    have before: "x \<in> set qs \<or> x = l \<or> x \<in> set rest" if "x \<in> set ?ds" for x
      using that unfolding ds by auto
    have l_in: "l \<in> set o2" "t \<le> u"
      using mem [of l] ds ul by auto
    have "is_partial_txn api d" if "d \<in> set o2" "t \<le> op_ts api d" "op_ts api d < u" for d
      using before [of d] that mem ord split(4) l ul by (auto dest: less_asym)
    moreover have "is_partial_txn api d \<and> op_ts api d \<le> u"
      if "d \<in> set o2" "t \<le> op_ts api d" "is_partial_txn api l" for d
    proof -
      have "d \<in> set qs \<or> d = l \<or> d \<in> set rest"
        using before mem that by blast
      then show ?thesis
        using that ord split(4,5) l ul by (auto intro: less_imp_le)
    qed
    ultimately show ?thesis
      using l_in ul by auto
  qed
qed

lemmas ex_capture = resolve_upper_bound_def latest_oplog_ts_def first_ts_def ts_of_def oplog_ok_def
  extend_upper_past_partial_txn_def at_or_after_def is_partial_txn_def ex_api_def ex_body_def ex_raw_def
  from_bson_def ts_le_iff

theorem upper_bound_closes_witness:
  "OplogTs 3 1 \<le> OplogTs 3 1 \<and>
   ((\<exists>d \<in> set [ex_body 1, ex_body 3]. op_ts ex_api d = OplogTs 3 1 \<and> \<not> is_partial_txn ex_api d) \<or>
    (\<forall>d \<in> set [ex_body 1, ex_body 3].
       \<not> (OplogTs 3 1 \<le> op_ts ex_api d \<and> \<not> (is_partial_txn ex_api d \<and> op_ts ex_api d \<le> OplogTs 3 1))))"
  using upper_bound_closes [of ex_api "[ex_body 3]" "[ex_body 1, ex_body 3]" "OplogTs 3 1" "OplogTs 3 1" "ex_body 3"]
  by (simp add: ex_capture)

section \<open>What a slice holds\<close>

text \<open>The raw form of a document, which the reader of the replay takes off the stream again.\<close>

definition raw_ok :: "'d bson_api \<Rightarrow> ('d \<Rightarrow> bytes) \<Rightarrow> 'd \<Rightarrow> bool" where
  "raw_ok api raw d \<longleftrightarrow>
     (\<forall>rest. read_bson_doc api (raw d @ rest) = Inr (Some (d, length (raw d), rest)))"

lemma read_entries_raw:
  "\<forall>d \<in> set ds. raw_ok api raw d \<Longrightarrow>
     read_entries api None (concat (map raw ds)) = (map (\<lambda>d. (d, length (raw d))) ds, None)"
proof (induction ds)
  case Nil
  show ?case by (simp add: read_entries.simps read_bson_doc_def)
next
  case (Cons d ds)
  then have "read_bson_doc api (concat (map raw (d # ds))) =
      Inr (Some (d, length (raw d), concat (map raw ds)))"
    by (simp add: raw_ok_def)
  from read_entries_next [OF this past_limit_None] Cons show ?case by simp
qed

lemma captured_reads:
  assumes "capture_stream api raw oplog stop from_ts upper = (bs, Inr n)"
    and "\<forall>d \<in> set oplog. raw_ok api raw d"
  shows "map fst (fst (read_entries api None bs)) = filter (in_slice api from_ts upper) oplog \<and>
    snd (read_entries api None bs) = None \<and>
    n = word_of_nat (length (filter (in_slice api from_ts upper) oplog))"
proof -
  have "stop = None"
    using assms(1) by (auto simp: capture_stream_def Let_def split: option.splits)
  with assms show ?thesis
    by (auto simp: capture_stream_def Let_def read_entries_raw comp_def)
qed

text \<open>what is captured is what is replayed: the bytes of a slice that was captured to its end are
  read back by the replay as exactly the entries of the oplog after the last backup and up to the
  bound, in their order, without an error, and the count of the manifest is their number.\<close>

theorem capture_replays:
  assumes "capture_stream api raw oplog stop from_ts upper = (bs, Inr n)"
    and "\<forall>d \<in> set oplog. raw_ok api raw d"
  shows "map fst (fst (read_entries api None bs)) = filter (in_slice api from_ts upper) oplog \<and>
    snd (read_entries api None bs) = None \<and>
    n = word_of_nat (length (filter (in_slice api from_ts upper) oplog))"
  by (rule captured_reads [OF assms])

theorem capture_replays_witness:
  "map fst (fst (read_entries ex_api None (ex_entry 3))) =
     filter (in_slice ex_api (OplogTs 1 1) (OplogTs 3 1)) [ex_body 1, ex_body 3]"
proof -
  have r: "capture_stream ex_api ex_raw [ex_body 1, ex_body 3] None (OplogTs 1 1) (OplogTs 3 1) =
      (ex_entry 3, Inr 1)"
    by (simp add: ex_capture capture_stream_def in_slice_def Let_def ts_less_iff)
  have "\<forall>d \<in> set [ex_body 1, ex_body 3]. raw_ok ex_api ex_raw d"
    by (simp add: raw_ok_def ex_capture ex_eval)
  from capture_replays [OF r this] show ?thesis
    by (rule conjunct1)
qed

text \<open>The window check: a slice from a point that is still in the oplog misses no entry.\<close>

lemma detect_gap_Ok:
  "detect_gap api oplog from_ts = GapOk risk \<longleftrightarrow>
     (\<exists>m. min_oplog_ts api oplog = Some m \<and> m \<le> from_ts \<and> (risk \<longleftrightarrow> m = from_ts))"
  by (cases "min_oplog_ts api oplog"; cases risk)
    (auto simp: detect_gap_def classify_gap_def ts_cmp_eq split: ordering.splits)

section \<open>A split transaction\<close>

text \<open>
  A transaction written as two \<open>applyOps\<close> entries of one session; the flag of the first piece stands
  where the replay looks for it, in the command document \<open>o\<close>.
\<close>

definition txn_doc :: "u8 \<Rightarrow> ex_doc" where
  "txn_doc s = ExDoc
     [(''ts'', BTimestamp \<lparr>bs_time = ucast s, bs_increment = 1\<rparr>),
      (''lsid'', BDocument (ExDoc [] [])),
      (''o'', BDocument (ExDoc
         [(''applyOps'', BArray [BDocument (ExDoc [] [(''op'', ''i''),
            (''ns'', if s = 1 then ''app.a'' else ''app.b'')])])]
         (if s = 1 then [(''partialTxn'', ''true'')] else [])))]
     [(''op'', ''c''), (''ns'', ''admin.$cmd'')]"

definition txn_api :: "ex_doc bson_api" where
  "txn_api = ex_api\<lparr>
     doc_get_i64 := (\<lambda>d k. if k = ''txnNumber'' then Some 7 else None),
     doc_get_bool := (\<lambda>d k. case d of ExDoc ps ss \<Rightarrow> if map_of ss k = Some ''true'' then Some True else None),
     doc_from_reader := (\<lambda>bs. Some (txn_doc (bs ! 4)))\<rparr>"

definition txn_raw :: "ex_doc \<Rightarrow> bytes" where
  "txn_raw d = (if d = txn_doc 1 then ex_entry 1 else ex_entry 2)"

text \<open>the extension over a split transaction looks for the flag at the top of an entry, the replay
  in its command document. With the flag where the replay reads it the bound stays between the two
  pieces, and the two slices replay to the second piece alone, where one slice replays to both.\<close>

theorem split_transaction_loses_ops:
  "let oplog = [txn_doc 1, txn_doc 2];
       s1 = fst (capture_stream txn_api txn_raw oplog None (OplogTs 0 0) (OplogTs 1 1));
       s2 = fst (capture_stream txn_api txn_raw oplog None (OplogTs 1 1) (OplogTs 2 1));
       s12 = fst (capture_stream txn_api txn_raw oplog None (OplogTs 0 0) (OplogTs 2 1));
       ops = (\<lambda>bs. concat (snd (apply_stream txn_api (\<lambda>_ _. True) None bs)))
   in resolve_upper_bound txn_api (Some [txn_doc 1]) (Some oplog) = Some (Some (OplogTs 1 1)) \<and>
      length (ops s12) = 2 \<and> ops s1 = [] \<and> ops s2 = [last (ops s12)]"
proof -
  note defs = ts_of_def from_bson_def is_partial_txn_def txn_api_def txn_doc_def ex_api_def
  have ts: "ts_of txn_api (txn_doc s) = Some (OplogTs (ucast s) 1)" for s
    by (simp add: defs)
  have part: "\<not> is_partial_txn txn_api (txn_doc s)" for s
    by (simp add: defs)
  have "txn_doc 1 \<noteq> txn_doc 2"
    by (simp add: txn_doc_def)
  then have raw: "txn_raw (txn_doc 1) = ex_entry 1" "txn_raw (txn_doc 2) = ex_entry 2"
    by (simp_all add: txn_raw_def)
  have read: "read_bson_doc txn_api (ex_entry s @ rest) = Inr (Some (txn_doc s, 5, rest))" for s rest
    by (simp add: read_bson_doc_def ex_entry_def le_u32_def MAX_ENTRY_BYTES_def Let_def txn_api_def)
  have slices: "fst (capture_stream txn_api txn_raw [txn_doc 1, txn_doc 2] None (OplogTs 0 0) (OplogTs 1 1)) = ex_entry 1"
    "fst (capture_stream txn_api txn_raw [txn_doc 1, txn_doc 2] None (OplogTs 1 1) (OplogTs 2 1)) = ex_entry 2"
    "fst (capture_stream txn_api txn_raw [txn_doc 1, txn_doc 2] None (OplogTs 0 0) (OplogTs 2 1)) =
       ex_entry 1 @ ex_entry 2"
    by (simp_all add: capture_stream_def in_slice_def ts raw ts_le_iff ts_less_iff)
  have nil: "read_bson_doc txn_api [] = Inr None"
    by (simp add: read_bson_doc_def)
  obtain x1 where x1: "classify_entry txn_api (txn_doc 1) = TxnBuffer (''#'' @ show_int 7) [x1]"
    by (simp add: classify_entry_def txn_doc_def txn_api_def ex_run ex_api_def inner_txn_ops_def
        map_filter_def)
  obtain x2 where x2: "classify_entry txn_api (txn_doc 2) = TxnBufferThenCommit (''#'' @ show_int 7) [x2]"
    by (simp add: classify_entry_def txn_doc_def txn_api_def ex_run ex_api_def inner_txn_ops_def
        map_filter_def)
  note run = apply_stream_def empty_state_def and_then_def handle_action_def unwrap_or_def flush_def
    apply_ops_def finish_stream_def txn_extend_def txn_commit_def chunks.simps MAX_BATCH_OPS_def
  have s1: "concat (snd (apply_stream txn_api (\<lambda>_ _. True) None (ex_entry 1))) = []"
    using read [of 1 "[]"]
    by (simp add: apply_loop.simps nil x1 run)
  have s2: "concat (snd (apply_stream txn_api (\<lambda>_ _. True) None (ex_entry 2))) = [x2]"
    using read [of 2 "[]"]
    by (simp add: apply_loop.simps nil x2 run)
  have s12: "concat (snd (apply_stream txn_api (\<lambda>_ _. True) None (ex_entry 1 @ ex_entry 2))) = [x1, x2]"
    using read [of 1 "ex_entry 2"] read [of 2 "[]"]
    by (simp add: apply_loop.simps nil x1 x2 run)
  have "resolve_upper_bound txn_api (Some [txn_doc 1]) (Some [txn_doc 1, txn_doc 2]) = Some (Some (OplogTs 1 1))"
    by (simp add: resolve_upper_bound_def latest_oplog_ts_def first_ts_def ts
        extend_upper_past_partial_txn_def at_or_after_def part ts_le_iff)
  with s1 s2 s12 show ?thesis
    by (simp add: Let_def slices)
qed

end
