(* ===== verification/XB_Incremental.thy ===== *)
theory XB_Incremental
  imports XB_Catalogue XB_Oplog_Capture
begin

text \<open>
  The incremental backup of MongoDB (\<open>pipeline/incremental.rs\<close>): the choice of the base, the gap
  check, the capture with the same storing order as a full backup, the empty slice, and the promotion
  to a full backup. The oplog is read at five moments, each with a snapshot of its own; listing and
  reading the destination succeed, every write and delete may fail. The lemmas show that a run keeps
  the catalogue healthy and that a captured slice extends its chain by exactly the new entries.
\<close>

section \<open>Requests and results\<close>

datatype promotion_reason =
    OplogIsEmpty
  | WindowRolled OplogTimestamp OplogTimestamp
  | CaptureRolled

datatype IncrementalOutcome =
    Captured (ic_backup_id: string) (ic_base_id: string) (ic_oplog_count: u64) (ic_oplog_range: OplogRange)
      (ic_stored_size: u64)
  | PromotedToFull BackupOutcome promotion_reason

record BaseSelection =
  full_base_id :: string
  tip_id :: string
  last_backup_ts :: OplogTimestamp

text \<open>
  What the run meets: the server, whether the reader connects, the snapshots of the oplog (\<open>None\<close> for a
  failed query), where the capture cursor breaks, the raw form of a document, the stage factory by the
  number of the call, and the server as the promotion finds it.
\<close>

record 'd incr_env =
  ie_server :: "ServerMeta option"
  ie_reader :: bool
  ie_min :: "'d list option"
  ie_latest :: "'d list option"
  ie_extend :: "'d list option"
  ie_capture :: "'d list"
  ie_stop :: "(nat \<times> CaptureError) option"
  ie_raw :: "'d \<Rightarrow> bytes"
  ie_factory :: "nat \<Rightarrow> ((bytes \<Rightarrow> bytes option) \<times> BackupMeta) option"
  ie_full :: mongo_env

section \<open>The base\<close>

definition base_candidates :: "store \<Rightarrow> string list" where
  "base_candidates s = rev (sort (List.map_filter (strip_suffix (''/'' @ MANIFEST_FILE)) (sto_list s)))"

text \<open>A tip that is an incremental stands on a full backup that can carry it.\<close>

definition base_is_ok :: "codec \<Rightarrow> store \<Rightarrow> string \<Rightarrow> bool" where
  "base_is_ok c s b = (case store_read c s b of
     Some m \<Rightarrow> m_backup_type m = Full \<and> m_status m = Complete \<and> \<not> m_selective m
   | None \<Rightarrow> False)"

definition chain_base :: "codec \<Rightarrow> store \<Rightarrow> BackupManifest \<Rightarrow> string option" where
  "chain_base c s m = (case m_backup_type m of
     Full \<Rightarrow> Some (m_id m)
   | Incremental \<Rightarrow> (case m_base_id m of
       None \<Rightarrow> None
     | Some b \<Rightarrow> (if base_is_ok c s b then Some b else None)))"

fun select_base_loop ::
  "codec \<Rightarrow> store \<Rightarrow> bool \<Rightarrow> bool \<Rightarrow> string list \<Rightarrow> (bool \<times> bool) + BaseSelection" where
  "select_base_loop c s incomplete selective [] = Inl (incomplete, selective)"
| "select_base_loop c s incomplete selective (i # is) = (case store_read c s i of
     None \<Rightarrow> select_base_loop c s incomplete selective is
   | Some m \<Rightarrow>
       (if m_status m \<noteq> Complete then select_base_loop c s True selective is
        else if m_selective m then select_base_loop c s incomplete True is
        else case m_oplog_range m of
          None \<Rightarrow> select_base_loop c s incomplete selective is
        | Some r \<Rightarrow> (case chain_base c s m of
            None \<Rightarrow> select_base_loop c s incomplete selective is
          | Some b \<Rightarrow> Inr \<lparr>full_base_id = b, tip_id = m_id m, last_backup_ts = end_ts r\<rparr>)))"

definition select_base :: "codec \<Rightarrow> store \<Rightarrow> backup_error + BaseSelection" where
  "select_base c s = (case select_base_loop c s False False (base_candidates s) of
     Inr sel \<Rightarrow> Inr sel
   | Inl (incomplete, selective) \<Rightarrow> Inl (NoBase
       (if base_candidates s = [] then EmptyStore
        else if selective then OnlySelective
        else if incomplete then OnlyIncomplete
        else NoneEligible)))"

section \<open>The manifest of a slice\<close>

definition build_incremental_manifest ::
  "string \<Rightarrow> string \<Rightarrow> string \<Rightarrow> ServerMeta \<Rightarrow> u64 \<Rightarrow> string \<Rightarrow> OplogRange \<Rightarrow> u64 \<Rightarrow> BackupMeta \<Rightarrow> BackupManifest"
  where
  "build_incremental_manifest now i base sm stored checksum rng entries meta = \<lparr>
     m_format_version = FORMAT_VERSION, m_id = i, m_created_at = now, m_backup_type = Incremental,
     m_base_id = Some base, m_topology = ReplicaSet, m_server_version = server_version sm,
     m_tool_versions = \<lparr>mongodump = None, archive_format = None\<rparr>, m_selective = False,
     m_original_size_bytes = stored, m_stored_size_bytes = stored,
     m_compression = bm_compression meta, m_encryption = bm_encryption meta,
     m_checksum_sha256 = checksum, m_oplog_range = Some rng, m_oplog_count = Some entries,
     m_promoted_from_gap = False, m_mysql_binlog = None, m_table_rows = None, m_table_digests = None,
     m_status = Complete\<rparr>"

definition empty_sha256 :: "codec \<Rightarrow> string" where
  "empty_sha256 c = sha256_hex c []"

text \<open>The clean-up of this pipeline, which knows no index file.\<close>

definition slice_paths :: "string \<Rightarrow> string list" where
  "slice_paths i = [data_path i, manifest_path i, manifest_sha_path i]"

definition slice_cleanup :: "string \<Rightarrow> world \<Rightarrow> world" where
  "slice_cleanup i w = fold io_delete (slice_paths i) w"

definition write_slice_manifest ::
  "codec \<Rightarrow> BackupManifest \<Rightarrow> world \<Rightarrow> (backup_error + unit) \<times> world" where
  "write_slice_manifest c m w = (case manifest_write c m w of
     (Inl e, w1) \<Rightarrow> (Inl e, slice_cleanup (m_id m) w1)
   | (Inr u, w1) \<Rightarrow> (Inr u, w1))"

definition outcome_of_slice :: "BackupManifest \<Rightarrow> string \<Rightarrow> u64 \<Rightarrow> OplogRange \<Rightarrow> IncrementalOutcome" where
  "outcome_of_slice m base entries rng = Captured (m_id m) base entries rng (m_stored_size_bytes m)"

text \<open>An empty slice has a manifest and no data.\<close>

definition record_empty_slice ::
  "codec \<Rightarrow> string \<Rightarrow> ServerMeta \<Rightarrow> BaseSelection \<Rightarrow> world \<Rightarrow> (backup_error + IncrementalOutcome) \<times> world"
  where
  "record_empty_slice c now sm base w =
     (let (i, w1) = new_id w;
          rng = \<lparr>start_ts = last_backup_ts base, end_ts = last_backup_ts base\<rparr>;
          m = build_incremental_manifest now i (full_base_id base) sm 0 (empty_sha256 c) rng 0 no_meta
      in case write_slice_manifest c m w1 of
           (Inl e, w2) \<Rightarrow> (Inl e, w2)
         | (Inr _, w2) \<Rightarrow> (Inr (outcome_of_slice m (full_base_id base) 0 rng), w2))"

section \<open>Promotion to a full backup\<close>

text \<open>The mark is written over the manifest; a failure to read or write it is only logged.\<close>

definition mark_promoted :: "codec \<Rightarrow> string \<Rightarrow> world \<Rightarrow> world" where
  "mark_promoted c i w = (case store_read c (w_store w) i of
     Some m \<Rightarrow> snd (manifest_write c (m\<lparr>m_promoted_from_gap := True\<rparr>) w)
   | None \<Rightarrow> w)"

definition promote_to_full ::
  "codec \<Rightarrow> bool \<Rightarrow> 'd incr_env \<Rightarrow> Engine \<Rightarrow> nat \<Rightarrow> promotion_reason \<Rightarrow> string \<Rightarrow> world \<Rightarrow>
   (backup_error + IncrementalOutcome) \<times> world" where
  "promote_to_full c legacy env engine k reason now w = (case ie_factory env k of
     None \<Rightarrow> (Inl StageSetupFailed, w)
   | Some (stages, meta) \<Rightarrow>
       (case run_full_backup_with_rows c legacy (ie_full env)
          \<lparr>rq_engine = engine, rq_db = None, rq_collection = None\<rparr> meta stages False now w of
          (Inl e, w1) \<Rightarrow> (Inl e, w1)
        | (Inr out, w1) \<Rightarrow> (Inr (PromotedToFull out reason), mark_promoted c (bo_backup_id out) w1)))"

section \<open>The run\<close>

text \<open>From the capture on: store the stream, judge its end, write the manifest.\<close>

definition capture_slice ::
  "codec \<Rightarrow> bool \<Rightarrow> 'd bson_api \<Rightarrow> 'd incr_env \<Rightarrow> Engine \<Rightarrow> ServerMeta \<Rightarrow> BaseSelection \<Rightarrow> OplogTimestamp \<Rightarrow>
   string \<Rightarrow> world \<Rightarrow> (backup_error + IncrementalOutcome) \<times> world" where
  "capture_slice c legacy api env engine sm base upper now w = (case ie_factory env 0 of
     None \<Rightarrow> (Inl StageSetupFailed, w)
   | Some (stages, meta) \<Rightarrow>
       (let (bs, res) = capture_stream api (ie_raw env) (ie_capture env) (ie_stop env) (last_backup_ts base) upper;
            (i, w1) = new_id w
        in case stages bs of
             None \<Rightarrow> (Inl (UploadFailed (data_path i)), slice_cleanup i (ignore_fault w1))
           | Some b \<Rightarrow>
               (case io_put (data_path i) b w1 of
                  (False, w2) \<Rightarrow> (Inl (UploadFailed (data_path i)), slice_cleanup i w2)
                | (True, w2) \<Rightarrow>
                    (case res of
                       Inl LateGap \<Rightarrow> promote_to_full c legacy env engine 1 CaptureRolled now (slice_cleanup i w2)
                     | Inl OtherCaptureError \<Rightarrow> (Inl CaptureFailed, slice_cleanup i w2)
                     | Inr entries \<Rightarrow>
                         (if entries = 0 then record_empty_slice c now sm base (slice_cleanup i w2)
                          else
                            let rng = \<lparr>start_ts = last_backup_ts base, end_ts = upper\<rparr>;
                                m = build_incremental_manifest now i (full_base_id base) sm
                                      (word_of_nat (length b)) (sha256_hex c b) rng entries meta
                            in (case write_slice_manifest c m w2 of
                                  (Inl e, w3) \<Rightarrow> (Inl e, w3)
                                | (Inr _, w3) \<Rightarrow> (Inr (outcome_of_slice m (full_base_id base) entries rng), w3)))))))"

definition run_incremental_backup ::
  "codec \<Rightarrow> bool \<Rightarrow> 'd bson_api \<Rightarrow> 'd incr_env \<Rightarrow> Engine \<Rightarrow> string \<Rightarrow> world \<Rightarrow>
   (backup_error + IncrementalOutcome) \<times> world" where
  "run_incremental_backup c legacy api env engine now w = (case ie_server env of
     None \<Rightarrow> (Inl ServerFailed, w)
   | Some sm \<Rightarrow>
       (if \<not> supports_oplog sm then (Inl NotReplicaSet, w)
        else case select_base c (w_store w) of
          Inl e \<Rightarrow> (Inl e, w)
        | Inr base \<Rightarrow>
            (if \<not> ie_reader env then (Inl ServerFailed, w)
             else case ie_min env of
               None \<Rightarrow> (Inl ServerFailed, w)
             | Some oplog \<Rightarrow>
                 (case detect_gap api oplog (last_backup_ts base) of
                    OplogEmpty \<Rightarrow> promote_to_full c legacy env engine 0 OplogIsEmpty now w
                  | Gap from_ts min_ts \<Rightarrow>
                      promote_to_full c legacy env engine 0 (WindowRolled from_ts min_ts) now w
                  | GapOk boundary_risk \<Rightarrow>
                      (case resolve_upper_bound api (ie_latest env) (ie_extend env) of
                         None \<Rightarrow> (Inl ServerFailed, w)
                       | Some bound \<Rightarrow>
                           (let upper = unwrap_or bound (last_backup_ts base)
                            in if upper \<le> last_backup_ts base then record_empty_slice c now sm base w
                               else capture_slice c legacy api env engine sm base upper now w))))))"

section \<open>The base that is chosen\<close>

lemma set_base_candidates: "i \<in> set (base_candidates s) \<longleftrightarrow> sto_get s (manifest_path i) \<noteq> None"
proof -
  have "i \<in> set (base_candidates s) \<longleftrightarrow> (\<exists>p \<in> set (sto_list s). strip_suffix (''/'' @ MANIFEST_FILE) p = Some i)"
    by (simp add: base_candidates_def set_map_filter)
  also have "\<dots> \<longleftrightarrow> sto_get s (manifest_path i) \<noteq> None"
    by (simp only: strip_suffix_manifest) auto
  finally show ?thesis .
qed

lemma sorted_base_candidates: "sorted (rev (base_candidates s))"
  by (simp add: base_candidates_def)

text \<open>What one id offers.\<close>

definition pick :: "codec \<Rightarrow> store \<Rightarrow> string \<Rightarrow> BaseSelection option" where
  "pick c s i = (case select_base_loop c s False False [i] of Inr sel \<Rightarrow> Some sel | Inl _ \<Rightarrow> None)"

lemma pick_Some:
  "pick c s i = Some sel \<longleftrightarrow> (\<exists>m r b. store_read c s i = Some m \<and> m_status m = Complete \<and>
     \<not> m_selective m \<and> m_oplog_range m = Some r \<and> chain_base c s m = Some b \<and>
     sel = \<lparr>full_base_id = b, tip_id = m_id m, last_backup_ts = end_ts r\<rparr>)"
  by (auto simp: pick_def split: option.splits)

lemma select_base_loop_Cons:
  "pick c s i = Some sel \<Longrightarrow> select_base_loop c s f g (i # ids) = Inr sel"
  "pick c s i = None \<Longrightarrow> \<exists>f' g'. select_base_loop c s f g (i # ids) = select_base_loop c s f' g' ids"
  by (auto simp: pick_def split: option.splits if_splits) blast?

lemma select_base_loop_Inr:
  "select_base_loop c s f g ids = Inr sel \<Longrightarrow>
     \<exists>xs i ys. ids = xs @ i # ys \<and> pick c s i = Some sel \<and> (\<forall>j \<in> set xs. pick c s j = None)"
proof (induction ids arbitrary: f g)
  case (Cons i ids)
  show ?case
  proof (cases "pick c s i")
    case None
    with Cons.prems obtain f' g' where "select_base_loop c s f' g' ids = Inr sel"
      using select_base_loop_Cons(2) by metis
    from Cons.IH [OF this] obtain xs k ys where
      "ids = xs @ k # ys" "pick c s k = Some sel" "\<forall>j \<in> set xs. pick c s j = None"
      by blast
    with None show ?thesis
      by (intro exI [of _ "i # xs"] exI [of _ k] exI [of _ ys]) simp
  next
    case (Some sel')
    from select_base_loop_Cons(1) [OF this] Cons.prems Some show ?thesis
      by (intro exI [of _ "[]"] exI [of _ i] exI [of _ ids]) simp
  qed
qed simp

text \<open>The tip is the newest id that can be picked.\<close>

lemma select_base_Inr:
  assumes "select_base c s = Inr sel"
  obtains i where "pick c s i = Some sel" and "\<forall>j. pick c s j \<noteq> None \<longrightarrow> j \<le> i"
proof -
  from assms have "select_base_loop c s False False (base_candidates s) = Inr sel"
    by (auto simp: select_base_def split: sum.splits)
  from select_base_loop_Inr [OF this] obtain xs i ys where
    p: "base_candidates s = xs @ i # ys" "pick c s i = Some sel" "\<forall>j \<in> set xs. pick c s j = None"
    by blast
  have "j \<le> i" if "pick c s j \<noteq> None" for j
  proof -
    have "j \<in> set (base_candidates s)"
      using that by (auto simp: set_base_candidates pick_Some store_read_def split: option.splits)
    with p that have "j = i \<or> j \<in> set ys" by auto
    then show ?thesis
      using sorted_base_candidates [of s] p(1) by (auto simp: sorted_append)
  qed
  with p(2) that show ?thesis by blast
qed

lemma catalogue_node:
  assumes "store_ok c s" and "store_read c s i = Some m"
  shows "from_manifest m \<in> set (catalogue c s) \<and> m_id m = i"
  using assms set_catalogue [OF assms(1)] by (auto simp: store_ok_def)

lemma healthy_distinct: "healthy nodes \<Longrightarrow> distinct (map cn_id nodes)"
  by (simp add: healthy_def ordered_ids_def)

text \<open>The chosen base carries a good chain, and the starting point is the end of that chain.\<close>

lemma select_base_good:
  assumes ok: "store_ok c s" and h: "healthy (catalogue c s)" and sel: "select_base c s = Inr sel"
  shows "good_chain (catalogue c s) (full_base_id sel) (last_backup_ts sel)"
proof -
  obtain i where i: "pick c s i = Some sel" "\<forall>j. pick c s j \<noteq> None \<longrightarrow> j \<le> i"
    using select_base_Inr [OF sel] .
  then obtain m r b where m: "store_read c s i = Some m" "m_status m = Complete" "\<not> m_selective m"
    "m_oplog_range m = Some r" "chain_base c s m = Some b"
    "sel = \<lparr>full_base_id = b, tip_id = m_id m, last_backup_ts = end_ts r\<rparr>"
    by (auto simp: pick_Some)
  let ?n = "from_manifest m"
  have n: "?n \<in> set (catalogue c s)" "m_id m = i"
    using catalogue_node [OF ok m(1)] by auto
  have "\<exists>base \<in> set (catalogue c s). usable_base base \<and> cn_id base = b \<and> cn_oplog_range base \<noteq> None \<and>
      (cn_id ?n = b \<or> incr_of b ?n)"
  proof (cases "m_backup_type m")
    case Full
    with m n show ?thesis
      by (intro bexI [of _ ?n]) (auto simp: chain_base_def usable_base_def)
  next
    case Incremental
    with m(5) obtain bm where bm: "m_base_id m = Some b" "store_read c s b = Some bm"
      "m_backup_type bm = Full" "m_status bm = Complete" "\<not> m_selective bm"
      by (auto simp: chain_base_def base_is_ok_def split: option.splits if_splits)
    have base: "from_manifest bm \<in> set (catalogue c s)" "m_id bm = b" "usable_base (from_manifest bm)"
      using catalogue_node [OF ok bm(2)] bm by (auto simp: usable_base_def)
    have inc: "incr_of b ?n"
      using Incremental bm(1) by (simp add: incr_of_def)
    have "cn_oplog_range (from_manifest bm) \<noteq> None"
      using h base n inc m(4) unfolding healthy_def untracked_def
      by (metis from_manifest_simps(1,6) option.simps(9) option.distinct(1))
    with base inc show ?thesis by fastforce
  qed
  then obtain base where base: "base \<in> set (catalogue c s)" "usable_base base" "cn_id base = b"
    "cn_oplog_range base \<noteq> None" "cn_id ?n = b \<or> incr_of b ?n"
    by blast
  with h obtain e where e: "good_chain (catalogue c s) b e"
    unfolding healthy_def tracked_chain_def by blast
  have "cn_id x \<le> cn_id ?n" if x: "x \<in> set (catalogue c s)" "cn_id x = b \<or> incr_of b x" for x
  proof -
    from x(1) obtain j mx where mx: "store_read c s j = Some mx" "x = from_manifest mx"
      using set_catalogue [OF ok] by blast
    obtain base' b0 b1 where g: "find_node (catalogue c s) b = Some base'" "usable_base base'"
      "cn_oplog_range base' = Some (b0, b1)"
      "\<forall>n \<in> set (catalogue c s). incr_of b n \<longrightarrow> cn_status n = Complete \<and> \<not> cn_selective n \<and> cn_oplog_range n \<noteq> None"
      using e unfolding good_chain_def by blast
    have base': "base' \<in> set (catalogue c s)" "cn_id base' = b"
      using find_node_Some [OF g(1)] by auto
    then obtain bi bm where bm: "store_read c s bi = Some bm" "base' = from_manifest bm"
      using set_catalogue [OF ok] by blast
    then have "bi = b"
      using base' catalogue_node [OF ok bm(1)] by simp
    have "pick c s j \<noteq> None"
    proof (cases "incr_of b x")
      case True
      then have "chain_base c s mx = Some b"
        using g(2) bm \<open>bi = b\<close> mx(2)
        by (auto simp: chain_base_def base_is_ok_def incr_of_def usable_base_def)
      moreover have "cn_status x = Complete" "\<not> cn_selective x" "cn_oplog_range x \<noteq> None"
        using g(4) x(1) True by blast+
      then have "m_status mx = Complete" "\<not> m_selective mx" "m_oplog_range mx \<noteq> None"
        using mx(2) by auto
      ultimately have "\<exists>sel. pick c s j = Some sel"
        using mx(1) unfolding pick_Some by blast
      then show ?thesis by blast
    next
      case False
      then have "x = base'"
        using x base' healthy_distinct [OF h] by (metis distinct_map inj_onD)
      with mx(2) g(2,3) have "m_status mx = Complete" "\<not> m_selective mx" "m_oplog_range mx \<noteq> None"
        "chain_base c s mx \<noteq> None"
        by (auto simp: usable_base_def chain_base_def)
      then have "\<exists>sel. pick c s j = Some sel"
        using mx(1) unfolding pick_Some by blast
      then show ?thesis by blast
    qed
    then show ?thesis
      using i(2) mx catalogue_node [OF ok mx(1)] n(2) by simp
  qed
  then have "node_end_ts ?n = Some e"
    using good_chain_tip [OF e healthy_distinct [OF h] n(1) base(5)] by blast
  with m(4,6) e show ?thesis
    by (simp add: node_end_ts_def)
qed

section \<open>Steps of the run on the destination\<close>

lemma slice_paths_sub: "set (slice_paths i) \<subseteq> set (backup_paths i)"
  by (auto simp: slice_paths_def backup_paths_def)

lemma slice_cleanup_clean:
  assumes "same_oracle w w1" and "\<forall>p. p \<notin> set (slice_paths i) \<longrightarrow> look w1 p = look w p"
  shows "failed_clean i w (slice_cleanup i w1)" and "w_drawn (slice_cleanup i w1) = w_drawn w1"
  using failed_clean_deletes [OF assms slice_paths_sub] delete_all_effect
  unfolding slice_cleanup_def by blast+

lemma write_slice_Inr:
  assumes "write_slice_manifest c m w = (Inr u, w')"
  shows "same_oracle w w' \<and> w_drawn w' = w_drawn w \<and>
    look w' = (look w)(manifest_path (m_id m) \<mapsto> to_json c m,
      manifest_sha_path (m_id m) \<mapsto> to_bytes (sidecar_checksum c (to_json c m)))"
  using assms manifest_write_cases [of c m w]
  by (auto simp: write_slice_manifest_def split: prod.splits sum.splits)

lemma write_slice_Inl:
  assumes "write_slice_manifest c m w = (Inl e, w')" and "same_oracle w0 w"
    and "\<forall>p. p \<notin> set (slice_paths (m_id m)) \<longrightarrow> look w p = look w0 p"
  shows "failed_clean (m_id m) w0 w'"
proof -
  from assms(1) obtain w1 where w1: "manifest_write c m w = (Inl e, w1)" "w' = slice_cleanup (m_id m) w1"
    by (auto simp: write_slice_manifest_def split: prod.splits sum.splits)
  have "\<forall>p. p \<notin> set (slice_paths (m_id m)) \<longrightarrow> look w1 p = look w0 p"
    using manifest_write_frame [OF w1(1)] assms(3) by (auto simp: slice_paths_def)
  moreover have "same_oracle w0 w1"
    using manifest_write_cases [OF w1(1)] assms(2) same_oracle_trans by blast
  ultimately show ?thesis
    unfolding w1(2) by (intro slice_cleanup_clean)
qed

text \<open>
  What a captured slice does to the catalogue: one node more, which extends the chain of its base from
  its end.
\<close>

definition extends ::
  "codec \<Rightarrow> world \<Rightarrow> world \<Rightarrow> BackupManifest \<Rightarrow> string \<Rightarrow> OplogRange \<Rightarrow> bytes option \<Rightarrow> bool" where
  "extends c w w' m b rng data \<longleftrightarrow> published c w' m data \<and> incr_of b (from_manifest m) \<and>
     m_oplog_range m = Some rng \<and> m_status m = Complete \<and> (\<forall>n \<in> set (catalogue c (w_store w)). cn_id n < m_id m) \<and>
     mset (catalogue c (w_store w')) = mset (catalogue c (w_store w) @ [from_manifest m]) \<and>
     good_chain (catalogue c (w_store w)) b (start_ts rng) \<and>
     good_chain (catalogue c (w_store w')) b (end_ts rng)"

lemma incremental_manifest_simps:
  "m_id (build_incremental_manifest now i b sm z ck rng n meta) = i"
  "m_checksum_sha256 (build_incremental_manifest now i b sm z ck rng n meta) = ck"
  "m_oplog_range (build_incremental_manifest now i b sm z ck rng n meta) = Some rng"
  "m_oplog_count (build_incremental_manifest now i b sm z ck rng n meta) = Some n"
  "m_status (build_incremental_manifest now i b sm z ck rng n meta) = Complete"
  "m_selective (build_incremental_manifest now i b sm z ck rng n meta) = False"
  "m_base_id (build_incremental_manifest now i b sm z ck rng n meta) = Some b"
  "m_stored_size_bytes (build_incremental_manifest now i b sm z ck rng n meta) = z"
  "incr_of b' (from_manifest (build_incremental_manifest now i b sm z ck rng n meta)) \<longleftrightarrow> b' = b"
  by (auto simp: build_incremental_manifest_def incr_of_def)

lemma extends_world:
  assumes ok: "world_ok c w" and so: "same_oracle w w'" and t: "touches_drawn w w'"
    and k: "w_drawn w \<le> k" "k < w_drawn w'" and laws: "codec_laws c"
    and pub: "published c w' m data" and id: "m_id m = w_uuid w k"
    and same: "\<forall>i. i \<noteq> w_uuid w k \<longrightarrow> look w' (manifest_path i) = look w (manifest_path i)"
    and m: "incr_of b (from_manifest m)" "m_oplog_range m = Some rng" "m_status m = Complete" "\<not> m_selective m"
    and g: "good_chain (catalogue c (w_store w)) b (start_ts rng)" "start_ts rng \<le> end_ts rng"
  shows "world_ok c w' \<and> extends c w w' m b rng data"
proof -
  have less: "\<forall>n \<in> set (catalogue c (w_store w)). cn_id n < m_id m"
    using catalogue_ids_less [OF ok k(1)] id by simp
  have "healthy (catalogue c (w_store w) @ [from_manifest m]) \<and>
      good_chain (catalogue c (w_store w) @ [from_manifest m]) b (end_ts rng)"
    using ok m less by (intro healthy_extend [OF _ g(1) m(1) _ g(2)]) (simp_all add: world_ok_def)
  moreover from this world_ok_published [OF ok so t k pub laws id same]
  have w: "world_ok c w'" "mset (catalogue c (w_store w')) = mset (catalogue c (w_store w) @ [from_manifest m])"
    by blast+
  ultimately have "good_chain (catalogue c (w_store w')) b (end_ts rng)"
    using good_chain_mset [OF _ w(2) [symmetric]] healthy_distinct by blast
  with w pub m g less show ?thesis
    by (simp add: extends_def)
qed

text \<open>Two worlds with the same objects have the same catalogue.\<close>

lemma extends_from:
  "look w1 = look w \<Longrightarrow> extends c w1 w' m b rng data \<Longrightarrow> extends c w w' m b rng data"
  using catalogue_cong [of "w_store w1" "w_store w" c] by (simp add: extends_def)

definition sha_of_empty :: "codec \<Rightarrow> bool" where
  "sha_of_empty c \<longleftrightarrow> sha256_hex c [] = EMPTY_SHA256"

lemma record_empty_world:
  assumes run: "record_empty_slice c now sm base w = (r, w')"
    and ok: "world_ok c w" and rel: "reliable_deletes w" and laws: "codec_laws c" "sha_of_empty c"
    and g: "good_chain (catalogue c (w_store w)) (full_base_id base) (last_backup_ts base)"
  shows "world_ok c w' \<and> (case r of
      Inl e \<Rightarrow> look w' = look w
    | Inr out \<Rightarrow> \<exists>m rng. out = outcome_of_slice m (full_base_id base) 0 rng \<and>
        start_ts rng = last_backup_ts base \<and> end_ts rng = last_backup_ts base \<and>
        m_oplog_count m = Some 0 \<and> extends c w w' m (full_base_id base) rng None)"
proof -
  let ?i = "w_uuid w (w_drawn w)" and ?w1 = "w\<lparr>w_drawn := Suc (w_drawn w)\<rparr>"
  define rng where "rng = \<lparr>start_ts = last_backup_ts base, end_ts = last_backup_ts base\<rparr>"
  define m where "m = build_incremental_manifest now ?i (full_base_id base) sm 0 (empty_sha256 c) rng 0 no_meta"
  have w1: "same_oracle w ?w1" "look ?w1 = look w" "w_drawn ?w1 = Suc (w_drawn w)"
    by (simp_all add: same_oracle_def)
  note ms = incremental_manifest_simps [where now = now and i = ?i and b = "full_base_id base" and sm = sm
      and z = 0 and ck = "empty_sha256 c" and rng = rng and n = 0 and meta = no_meta, folded m_def]
  obtain r1 w2 where r1: "write_slice_manifest c m ?w1 = (r1, w2)"
    by fastforce
  have w': "w' = w2" "r = (case r1 of Inl e \<Rightarrow> Inl e | Inr _ \<Rightarrow> Inr (outcome_of_slice m (full_base_id base) 0 rng))"
    using run r1
    by (auto simp: record_empty_slice_def new_id_def m_def [symmetric] rng_def [symmetric] Let_def split: sum.splits)
  show ?thesis
  proof (cases r1)
    case (Inl e)
    have "failed_clean (m_id m) w w2"
      using write_slice_Inl [OF r1 [unfolded Inl] w1(1)] w1(2) by simp
    then have "world_ok c w2 \<and> look w2 = look w"
      using failed_clean_world_ok [OF _ ok rel] ms(1) by simp
    with w' Inl show ?thesis by simp
  next
    case (Inr u)
    note p = write_slice_Inr [OF r1 [unfolded Inr]]
    have lk: "look w2 = (look w)(manifest_path ?i \<mapsto> to_json c m,
        manifest_sha_path ?i \<mapsto> to_bytes (sidecar_checksum c (to_json c m)))"
      using p w1(2) ms(1) by simp
    have "look w (data_path ?i) = None"
      using ok by (simp add: world_ok_def ids_ahead_def fresh_def)
    with lk laws(2) have pub: "published c w2 m None"
      by (simp add: published_def artifact_at_def ms data_matches_def empty_sha256_def sha_of_empty_def)
    have so: "same_oracle w w2" "w_drawn w2 = Suc (w_drawn w)"
      using p w1 same_oracle_trans by auto
    have "only_touches ?i w w2"
      using lk by (auto simp: only_touches_def)
    then have t: "touches_drawn w w2"
      using so(2) by (intro touches_drawn_only [where k = "w_drawn w"]) simp_all
    have "world_ok c w2 \<and> extends c w w2 m (full_base_id base) rng None"
      using so(2) lk g
      by (intro extends_world [OF ok so(1) t _ _ laws(1) pub, where k = "w_drawn w"])
        (simp_all add: ms rng_def)
    moreover have "start_ts rng = last_backup_ts base" "end_ts rng = last_backup_ts base"
      by (simp_all add: rng_def)
    ultimately show ?thesis
      using w' Inr ms(4) by (simp, intro exI [of _ m] exI [of _ rng]) simp
  qed
qed

lemma from_manifest_promoted [simp]: "from_manifest (m\<lparr>m_promoted_from_gap := p\<rparr>) = from_manifest m"
  by (simp add: from_manifest_def)

text \<open>The mark moves nothing the catalogue shows.\<close>

lemma mark_promoted_effect:
  assumes "store_read c (w_store w) i = Some m" and "m_id m = i" and "codec_laws c"
  shows "same_oracle w (mark_promoted c i w) \<and> only_touches i w (mark_promoted c i w) \<and>
    w_drawn (mark_promoted c i w) = w_drawn w \<and>
    (\<exists>m'. store_read c (w_store (mark_promoted c i w)) i = Some m' \<and> from_manifest m' = from_manifest m)"
proof -
  let ?m = "m\<lparr>m_promoted_from_gap := True\<rparr>"
  obtain r w' where w': "manifest_write c ?m w = (r, w')"
    by fastforce
  have eq: "mark_promoted c i w = w'"
    using assms(1) w' by (simp add: mark_promoted_def)
  have "look w' (manifest_path i) = look w (manifest_path i) \<or> look w' (manifest_path i) = Some (to_json c ?m)"
    using w' assms(2) by (auto simp: manifest_write_def io_put_def split: if_splits)
  then have "store_read c (w_store w') i = Some m \<or> store_read c (w_store w') i = Some ?m"
    using assms(1,3) by (auto simp: store_read_def codec_laws_def codec_ok_def)
  then show ?thesis
    using manifest_write_cases [OF w'] assms(2) unfolding eq by fastforce
qed

lemma promote_world:
  assumes run: "promote_to_full c legacy env engine k reason now w = (r, w')"
    and ok: "world_ok c w" and rel: "reliable_deletes w" and laws: "codec_laws c"
  shows "world_ok c w' \<and> (case r of
      Inl e \<Rightarrow> catalogue c (w_store w') = catalogue c (w_store w)
    | Inr out \<Rightarrow> \<exists>o' m. out = PromotedToFull o' reason \<and> m_id m = bo_backup_id o' \<and>
        m_backup_type m = Full \<and> m_status m = Complete \<and> \<not> m_selective m \<and>
        mset (catalogue c (w_store w')) = mset (catalogue c (w_store w) @ [from_manifest m]))"
proof (cases "ie_factory env k")
  case None
  with run ok show ?thesis by (auto simp: promote_to_full_def)
next
  case (Some f)
  define rq where "rq = \<lparr>rq_engine = engine, rq_db = None, rq_collection = None\<rparr>"
  obtain r1 w1 where r1: "run_full_backup_with_rows c legacy (ie_full env) rq (snd f) (fst f) False now w = (r1, w1)"
    by fastforce
  note full = full_backup_world [OF r1 ok rel laws]
  show ?thesis
  proof (cases r1)
    case (Inl e)
    with run Some r1 have "r = Inl e" "w' = w1"
      by (auto simp: promote_to_full_def rq_def [symmetric] split: prod.splits)
    with full Inl show ?thesis by simp
  next
    case (Inr out)
    with full obtain m b where m: "out = outcome_of_manifest m" "m_id m = w_uuid w (w_drawn w)"
      "m_backup_type m = Full" "published c w1 m (Some b)" "w_drawn w1 = Suc (w_drawn w)"
      "same_oracle w w1" "only_touches (m_id m) w w1" "m_base_id m = None" "m_status m = Complete"
      "m_selective m = is_selective rq"
      by blast
    have w': "r = Inr (PromotedToFull out reason)" "w' = mark_promoted c (m_id m) w1"
      using run Some r1 Inr m(1)
      by (auto simp: promote_to_full_def rq_def [symmetric] outcome_of_manifest_def split: prod.splits)
    have "store_read c (w_store w1) (m_id m) = Some m"
      using published_read [OF m(4) laws] .
    from mark_promoted_effect [OF this refl laws] obtain m' where
      mk: "same_oracle w1 w'" "only_touches (m_id m) w1 w'" "w_drawn w' = w_drawn w1"
      "store_read c (w_store w') (m_id m) = Some m'" "from_manifest m' = from_manifest m"
      unfolding w'(2) by blast
    then have id: "m_id m' = m_id m"
      by (metis from_manifest_simps(1))
    have so: "same_oracle w w'" and ot: "only_touches (m_id m) w w'"
      using mk m same_oracle_trans only_touches_trans by blast+
    have "touches_drawn w w'"
      using ot m(2,5) mk(3) by (intro touches_drawn_only [where k = "w_drawn w"]) auto
    moreover have "\<forall>i. i \<noteq> w_uuid w (w_drawn w) \<longrightarrow> look w' (manifest_path i) = look w (manifest_path i)"
      using ot m(2) by (auto simp: only_touches_def backup_paths_def)
    moreover have "healthy (catalogue c (w_store w) @ [from_manifest m'])"
      using ok m catalogue_ids_less [OF ok order_refl] unfolding mk(5)
      by (intro healthy_new_full) (simp_all add: world_ok_def)
    ultimately have "world_ok c w' \<and>
        mset (catalogue c (w_store w')) = mset (catalogue c (w_store w) @ [from_manifest m'])"
      using mk(3,4) m(2,5) id
      by (intro world_ok_publish [OF ok so, where k = "w_drawn w"]) auto
    moreover have "\<not> m_selective m"
      using m(10) by (simp add: rq_def is_selective_def)
    ultimately show ?thesis
      using w'(1) m mk(5) by (auto simp: outcome_of_manifest_def)
  qed
qed

section \<open>The contract of a run\<close>

text \<open>What each outcome says of the destination before and after.\<close>

definition run_result ::
  "codec \<Rightarrow> 'd bson_api \<Rightarrow> 'd incr_env \<Rightarrow> world \<Rightarrow> world \<Rightarrow> backup_error + IncrementalOutcome \<Rightarrow> bool" where
  "run_result c api env w w' r = (case r of
     Inl e \<Rightarrow> catalogue c (w_store w') = catalogue c (w_store w)
   | Inr (Captured i b n rng z) \<Rightarrow> (\<exists>m data. m_id m = i \<and> m_oplog_count m = Some n \<and>
       m_stored_size_bytes m = z \<and> extends c w w' m b rng data \<and> start_ts rng \<le> end_ts rng \<and>
       (if n = 0 then data = None \<and> end_ts rng = start_ts rng
        else \<exists>stages meta bs. ie_factory env 0 = Some (stages, meta) \<and> stages bs = data \<and>
          capture_stream api (ie_raw env) (ie_capture env) (ie_stop env) (start_ts rng) (end_ts rng) = (bs, Inr n)))
   | Inr (PromotedToFull o' reason) \<Rightarrow> (\<exists>m. m_id m = bo_backup_id o' \<and> m_backup_type m = Full \<and>
       m_status m = Complete \<and> \<not> m_selective m \<and>
       mset (catalogue c (w_store w')) = mset (catalogue c (w_store w) @ [from_manifest m])))"

lemma promote_result:
  assumes "promote_to_full c legacy env engine k reason now w1 = (r, w')"
    and "world_ok c w1" and "reliable_deletes w1" and "codec_laws c" and "look w1 = look w"
  shows "world_ok c w' \<and> run_result c api env w w' r"
proof -
  have "catalogue c (w_store w1) = catalogue c (w_store w)"
    using assms(5) by (intro catalogue_cong) simp
  with promote_world [OF assms(1-4)] show ?thesis
    by (fastforce simp: run_result_def split: sum.splits)
qed

lemma record_empty_result:
  assumes "record_empty_slice c now sm base w1 = (r, w')"
    and "world_ok c w1" and "reliable_deletes w1" and "codec_laws c" "sha_of_empty c"
    and "good_chain (catalogue c (w_store w)) (full_base_id base) (last_backup_ts base)" and "look w1 = look w"
  shows "world_ok c w' \<and> run_result c api env w w' r"
proof -
  have cat: "catalogue c (w_store w1) = catalogue c (w_store w)"
    using assms(7) by (intro catalogue_cong) simp
  note e = record_empty_world [OF assms(1-5), unfolded cat, OF assms(6)]
  show ?thesis
  proof (cases r)
    case (Inl e1)
    with e assms(7) have "look w' = look w" by simp
    then have "catalogue c (w_store w') = catalogue c (w_store w)"
      by (intro catalogue_cong) simp
    with e Inl show ?thesis by (simp add: run_result_def)
  next
    case (Inr out)
    with e obtain m rng where m: "out = outcome_of_slice m (full_base_id base) 0 rng"
      "start_ts rng = last_backup_ts base" "end_ts rng = last_backup_ts base" "m_oplog_count m = Some 0"
      "extends c w1 w' m (full_base_id base) rng None"
      by auto
    with extends_from [OF assms(7) m(5)] e Inr show ?thesis
      by (auto simp: run_result_def outcome_of_slice_def)
  qed
qed

text \<open>From the stored data on: every end either publishes the slice or removes it.\<close>

lemma capture_world:
  assumes run: "capture_slice c legacy api env engine sm base upper now w = (r, w')"
    and ok: "world_ok c w" and rel: "reliable_deletes w" and laws: "codec_laws c" "sha_of_empty c"
    and g: "good_chain (catalogue c (w_store w)) (full_base_id base) (last_backup_ts base)"
    and up: "last_backup_ts base \<le> upper"
  shows "world_ok c w' \<and> run_result c api env w w' r"
proof (cases "ie_factory env 0")
  case None
  with run ok show ?thesis by (auto simp: capture_slice_def run_result_def)
next
  case (Some f)
  obtain stages meta where f: "ie_factory env 0 = Some (stages, meta)"
    using Some by (cases f) auto
  let ?i = "w_uuid w (w_drawn w)" and ?w1 = "w\<lparr>w_drawn := Suc (w_drawn w)\<rparr>"
  have w1: "same_oracle w ?w1" "look ?w1 = look w" "w_drawn ?w1 = Suc (w_drawn w)"
    by (simp_all add: same_oracle_def)
  obtain bs res where cap: "capture_stream api (ie_raw env) (ie_capture env) (ie_stop env)
      (last_backup_ts base) upper = (bs, res)"
    by fastforce
  have failed: "world_ok c (slice_cleanup ?i x) \<and> look (slice_cleanup ?i x) = look w \<and>
      reliable_deletes (slice_cleanup ?i x)"
    if x: "same_oracle w x" "\<forall>p. p \<notin> set (slice_paths ?i) \<longrightarrow> look x p = look w p" for x
  proof -
    note fc = slice_cleanup_clean(1) [OF x]
    from failed_clean_world_ok [OF fc ok rel] have "world_ok c (slice_cleanup ?i x)" "look (slice_cleanup ?i x) = look w"
      by blast+
    moreover have "reliable_deletes (slice_cleanup ?i x)"
      using fc rel same_oracle_reliable unfolding failed_clean_def by blast
    ultimately show ?thesis by blast
  qed
  have error: "world_ok c w' \<and> run_result c api env w w' r"
    if "r = Inl e" "w' = slice_cleanup ?i x" "same_oracle w x"
      "\<forall>p. p \<notin> set (slice_paths ?i) \<longrightarrow> look x p = look w p" for e x
  proof -
    from failed [OF that(3,4)] have "catalogue c (w_store w') = catalogue c (w_store w)"
      unfolding that(2) by (intro catalogue_cong) simp
    with failed [OF that(3,4)] that(1,2) show ?thesis by (simp add: run_result_def)
  qed
  show ?thesis
  proof (cases "stages bs")
    case None
    with run f cap have "r = Inl (UploadFailed (data_path ?i))" "w' = slice_cleanup ?i (ignore_fault ?w1)"
      by (auto simp: capture_slice_def new_id_def Let_def)
    then show ?thesis
      by (rule error) (simp_all add: ignore_fault_def same_oracle_def)
  next
    case (Some b)
    obtain put w2 where put: "io_put (data_path ?i) b ?w1 = (put, w2)"
      by fastforce
    note p = io_put_cases [OF put]
    have so2: "same_oracle w w2" "w_drawn w2 = Suc (w_drawn w)"
      using p w1 same_oracle_trans by auto
    have fr2: "\<forall>p. p \<notin> set (slice_paths ?i) \<longrightarrow> look w2 p = look w p"
      using p w1(2) by (auto simp: slice_paths_def)
    note fail2 = failed [OF so2(1) fr2]
    have look2: "look (slice_cleanup ?i w2) = look w"
      using fail2 by blast
    show ?thesis
    proof (cases put)
      case False
      with run f cap Some put have "r = Inl (UploadFailed (data_path ?i))" "w' = slice_cleanup ?i w2"
        by (auto simp: capture_slice_def new_id_def Let_def)
      then show ?thesis
        using so2(1) fr2 by (rule error)
    next
      case True
      note rest = run [unfolded capture_slice_def f option.case prod.case cap Let_def new_id_def
          \<open>stages bs = Some b\<close> put]
      note put_ok = \<open>put\<close>
      show ?thesis
      proof (cases res)
        case (Inl ce)
        show ?thesis
        proof (cases ce)
          case LateGap
          with rest Inl put_ok have "promote_to_full c legacy env engine 1 CaptureRolled now (slice_cleanup ?i w2) = (r, w')"
            by simp
          then show ?thesis
            using fail2 by (intro promote_result [OF _ _ _ laws(1) look2]) auto
        next
          case OtherCaptureError
          with rest Inl put_ok have "r = Inl CaptureFailed" "w' = slice_cleanup ?i w2"
            by auto
          then show ?thesis
            using so2(1) fr2 by (rule error)
        qed
      next
        case (Inr n)
        show ?thesis
        proof (cases "n = 0")
          case True
          with rest Inr put_ok have "record_empty_slice c now sm base (slice_cleanup ?i w2) = (r, w')"
            by simp
          then show ?thesis
            using fail2 by (intro record_empty_result [OF _ _ _ laws g look2]) auto
        next
          case False
          define rng where "rng = \<lparr>start_ts = last_backup_ts base, end_ts = upper\<rparr>"
          define m where "m = build_incremental_manifest now ?i (full_base_id base) sm
            (word_of_nat (length b)) (sha256_hex c b) rng n meta"
          note ms = incremental_manifest_simps [where now = now and i = ?i and b = "full_base_id base"
              and sm = sm and z = "word_of_nat (length b)" and ck = "sha256_hex c b" and rng = rng
              and n = n and meta = meta, folded m_def]
          obtain r3 w3 where r3: "write_slice_manifest c m w2 = (r3, w3)"
            by fastforce
          have w': "w' = w3" "r = (case r3 of Inl e \<Rightarrow> Inl e
              | Inr _ \<Rightarrow> Inr (outcome_of_slice m (full_base_id base) n rng))"
            using rest Inr False r3 put_ok
            by (auto simp: m_def [symmetric] rng_def [symmetric] split: sum.splits)
          show ?thesis
          proof (cases r3)
            case (Inl e)
            have "failed_clean (m_id m) w w3"
              using write_slice_Inl [OF r3 [unfolded Inl] so2(1)] fr2 ms(1) by simp
            then have "world_ok c w3 \<and> look w3 = look w"
              using failed_clean_world_ok [OF _ ok rel] ms(1) by simp
            with w' Inl show ?thesis
              by (auto simp: run_result_def intro!: catalogue_cong)
          next
            case (Inr u)
            note q = write_slice_Inr [OF r3 [unfolded Inr]]
            have lk: "look w3 = (look w)(data_path ?i \<mapsto> b, manifest_path ?i \<mapsto> to_json c m,
                manifest_sha_path ?i \<mapsto> to_bytes (sidecar_checksum c (to_json c m)))"
              using q p put_ok w1(2) ms(1) by simp
            have pub: "published c w3 m (Some b)"
              using lk by (simp add: published_def artifact_at_def ms data_matches_def)
            have so: "same_oracle w w3" "w_drawn w3 = Suc (w_drawn w)"
              using q so2 same_oracle_trans by auto
            have "only_touches ?i w w3"
              using lk by (auto simp: only_touches_def)
            then have t: "touches_drawn w w3"
              using so(2) by (intro touches_drawn_only [where k = "w_drawn w"]) simp_all
            have "world_ok c w3 \<and> extends c w w3 m (full_base_id base) rng (Some b)"
              using so(2) lk g up
              by (intro extends_world [OF ok so(1) t _ _ laws(1) pub, where k = "w_drawn w"])
                (simp_all add: ms rng_def)
            moreover have "start_ts rng = last_backup_ts base" "end_ts rng = upper"
              by (simp_all add: rng_def)
            ultimately show ?thesis
              using w' Inr ms(1,4) False f \<open>stages bs = Some b\<close> cap up \<open>res = Inr n\<close>
              by (auto simp: run_result_def outcome_of_slice_def)
          qed
        qed
      qed
    qed
  qed
qed

lemma incremental_world:
  assumes run: "run_incremental_backup c legacy api env engine now w = (r, w')"
    and ok: "world_ok c w" and rel: "reliable_deletes w" and laws: "codec_laws c" "sha_of_empty c"
  shows "world_ok c w' \<and> run_result c api env w w' r"
proof (cases "\<exists>sm base oplog. ie_server env = Some sm \<and> supports_oplog sm \<and>
    select_base c (w_store w) = Inr base \<and> ie_reader env \<and> ie_min env = Some oplog")
  case False
  then have "w' = w" "\<exists>e. r = Inl e"
    using run by (auto simp: run_incremental_backup_def split: option.splits sum.splits if_splits)
  with ok show ?thesis by (auto simp: run_result_def)
next
  case True
  then obtain sm base oplog where e: "ie_server env = Some sm" "supports_oplog sm"
    "select_base c (w_store w) = Inr base" "ie_reader env" "ie_min env = Some oplog"
    by blast
  have g: "good_chain (catalogue c (w_store w)) (full_base_id base) (last_backup_ts base)"
    using ok e(3) by (intro select_base_good) (simp_all add: world_ok_def)
  note rest = run [unfolded run_incremental_backup_def e option.case sum.case]
  show ?thesis
  proof (cases "detect_gap api oplog (last_backup_ts base)")
    case (GapOk risk)
    show ?thesis
    proof (cases "resolve_upper_bound api (ie_latest env) (ie_extend env)")
      case None
      with rest e GapOk ok show ?thesis by (auto simp: run_result_def)
    next
      case (Some bound)
      define upper where "upper = unwrap_or bound (last_backup_ts base)"
      show ?thesis
      proof (cases "upper \<le> last_backup_ts base")
        case True
        with rest e GapOk Some have "record_empty_slice c now sm base w = (r, w')"
          by (simp add: upper_def Let_def)
        then show ?thesis
          by (rule record_empty_result [OF _ ok rel laws g refl])
      next
        case False
        with rest e GapOk Some have "capture_slice c legacy api env engine sm base upper now w = (r, w')"
          by (simp add: upper_def Let_def)
        moreover have "last_backup_ts base \<le> upper"
          using False by simp
        ultimately show ?thesis
          by (rule capture_world [OF _ ok rel laws g])
      qed
    qed
  next
    case OplogEmpty
    with rest e have "promote_to_full c legacy env engine 0 OplogIsEmpty now w = (r, w')"
      by simp
    then show ?thesis
      by (rule promote_result [OF _ ok rel laws(1) refl])
  next
    case (Gap a b)
    with rest e have "promote_to_full c legacy env engine 0 (WindowRolled a b) now w = (r, w')"
      by simp
    then show ?thesis
      by (rule promote_result [OF _ ok rel laws(1) refl])
  qed
qed

section \<open>Any sequence of runs\<close>

text \<open>The oracle of the deletes is never changed.\<close>

lemma del_fails_delete [simp]: "w_del_fails (fold io_delete ps w) = w_del_fails w"
  by (induction ps arbitrary: w) (simp_all add: io_delete_def)

lemma del_fails_slice_cleanup [simp]: "w_del_fails (slice_cleanup i w) = w_del_fails w"
  by (simp add: slice_cleanup_def)

lemma del_fails_put: "io_put p b w = (r, w') \<Longrightarrow> w_del_fails w' = w_del_fails w"
  by (auto simp: io_put_def split: if_splits)

lemma del_fails_manifest: "manifest_write c m w = (r, w') \<Longrightarrow> w_del_fails w' = w_del_fails w"
  using manifest_write_cases by (simp add: same_oracle_def)

lemma del_fails_slice: "write_slice_manifest c m w = (r, w') \<Longrightarrow> w_del_fails w' = w_del_fails w"
  by (auto simp: write_slice_manifest_def dest: del_fails_manifest split: prod.splits sum.splits)

lemma del_fails_full:
  assumes "run_full_backup_with_rows c legacy env rq meta stages digest now w = (r, w')"
  shows "w_del_fails w' = w_del_fails w"
  using assms
  by (cases rule: run_full_cases)
    (auto simp: failed_clean_def same_oracle_def elim!: store_dump_stream_Inr)

lemma del_fails_promote:
  "promote_to_full c legacy env engine k reason now w = (r, w') \<Longrightarrow> w_del_fails w' = w_del_fails w"
  by (auto simp: promote_to_full_def mark_promoted_def split: prod.splits sum.splits option.splits
      dest!: del_fails_full) (metis del_fails_manifest prod.collapse)

lemma del_fails_empty:
  "record_empty_slice c now sm base w = (r, w') \<Longrightarrow> w_del_fails w' = w_del_fails w"
  by (auto simp: record_empty_slice_def new_id_def Let_def split: prod.splits sum.splits
      dest!: del_fails_slice)

lemma del_fails_capture:
  "capture_slice c legacy api env engine sm base upper now w = (r, w') \<Longrightarrow> w_del_fails w' = w_del_fails w"
  by (auto simp: capture_slice_def new_id_def ignore_fault_def Let_def
      split: prod.splits sum.splits option.splits bool.splits CaptureError.splits if_splits
      dest!: del_fails_slice del_fails_empty del_fails_promote del_fails_put)

lemma del_fails_incremental:
  "run_incremental_backup c legacy api env engine now w = (r, w') \<Longrightarrow> w_del_fails w' = w_del_fails w"
  by (auto simp: run_incremental_backup_def Let_def
      split: prod.splits sum.splits option.splits if_splits GapCheck.splits
      dest!: del_fails_empty del_fails_promote del_fails_capture)

text \<open>A run of either kind, with whatever it meets, and sequences of them.\<close>

inductive backup_run :: "codec \<Rightarrow> 'd bson_api \<Rightarrow> world \<Rightarrow> world \<Rightarrow> bool" for c api where
  full_run: "run_full_backup_with_rows c legacy menv rq meta stages digest now w = (r, w') \<Longrightarrow>
     backup_run c api w w'"
| incremental_run: "run_incremental_backup c legacy api env engine now w = (r, w') \<Longrightarrow> backup_run c api w w'"

inductive backup_runs :: "codec \<Rightarrow> 'd bson_api \<Rightarrow> world \<Rightarrow> world \<Rightarrow> bool" for c api where
  no_run: "backup_runs c api w w"
| more_runs: "backup_runs c api w w1 \<Longrightarrow> backup_run c api w1 w2 \<Longrightarrow> backup_runs c api w w2"

lemma backup_run_world:
  assumes "backup_run c api w w'" and "world_ok c w" and "reliable_deletes w"
    and "codec_laws c" "sha_of_empty c"
  shows "world_ok c w' \<and> reliable_deletes w'"
  using assms
proof (cases rule: backup_run.cases)
  case full_run
  with assms full_backup_world [OF full_run] del_fails_full [OF full_run] show ?thesis
    by (simp add: reliable_deletes_def)
next
  case incremental_run
  with assms incremental_world [OF incremental_run] del_fails_incremental [OF incremental_run] show ?thesis
    by (simp add: reliable_deletes_def)
qed

lemma backup_runs_world:
  assumes "backup_runs c api w w'" and "world_ok c w" and "reliable_deletes w"
    and "codec_laws c" "sha_of_empty c"
  shows "world_ok c w' \<and> reliable_deletes w'"
  using assms
proof (induction rule: backup_runs.induct)
  case (more_runs w w1 w2)
  then show ?case
    using backup_run_world [OF more_runs.hyps(2)] by blast
qed simp

section \<open>Properties\<close>

text \<open>The report of a base in a catalogue where its chain is good.\<close>

lemma good_chain_report:
  assumes "good_chain nodes b e" and "base_of nodes t = Some b"
  shows "report_is_continuous (verify_chain nodes t)"
    and "cr_incremental_ids (verify_chain nodes t) = map cn_id (sorted_incrs nodes b)"
    and "base_of nodes b = Some b"
proof -
  obtain base where b: "find_node nodes b = Some base" "usable_base base"
    using assms(1) unfolding good_chain_def by blast
  show "report_is_continuous (verify_chain nodes t)"
    using good_chain_continuous [OF assms] .
  show "cr_incremental_ids (verify_chain nodes t) = map cn_id (sorted_incrs nodes b)"
    using assms(2) b by (simp add: verify_chain_base_of judge_base_def)
  show "base_of nodes b = Some b"
    using b by (simp add: base_of_def usable_base_def)
qed

lemma extends_report:
  assumes "extends c w w' m b rng data" and "healthy (catalogue c (w_store w'))"
  shows "report_is_continuous (verify_chain_for c (w_store w') (m_id m)) \<and>
    cr_incremental_ids (verify_chain_for c (w_store w') (m_id m)) =
      cr_incremental_ids (verify_chain_for c (w_store w) b) @ [m_id m]"
proof -
  let ?N = "catalogue c (w_store w)" and ?N' = "catalogue c (w_store w')" and ?n = "from_manifest m"
  from assms(1) have e: "mset ?N' = mset (?N @ [?n])" "incr_of b ?n" "good_chain ?N b (start_ts rng)"
    "good_chain ?N' b (end_ts rng)" "m_oplog_range m = Some rng" "\<forall>n \<in> set ?N. cn_id n < m_id m"
    by (simp_all add: extends_def)
  have d: "distinct (map cn_id ?N')"
    using healthy_distinct [OF assms(2)] .
  have "?n \<in> set ?N'"
    using mset_eq_setD [OF e(1)] by simp
  then have base: "base_of ?N' (m_id m) = Some b"
    using find_node_distinct [OF d, of ?n] e(2) by (simp add: base_of_def incr_of_def)
  have "sorted_incrs ?N' b = sorted_incrs (?N @ [?n]) b"
    using sorted_incrs_cong_mset [OF d e(1)] .
  also have "\<dots> = sorted_incrs ?N b @ [?n]"
    using e by (intro sorted_incrs_snoc) auto
  finally have "map cn_id (sorted_incrs ?N' b) = map cn_id (sorted_incrs ?N b) @ [m_id m]"
    by simp
  moreover have "base_of ?N b = Some b"
    using e(3) unfolding good_chain_def base_of_def usable_base_def by auto
  ultimately show ?thesis
    unfolding verify_chain_for_def
    using good_chain_report(1,2) [OF e(4) base] good_chain_report(2) [OF e(3)] by simp
qed

text \<open>C4: a slice that is captured extends its chain: on a destination where every chain is good, the
  new backup verifies, the chain with it is continuous, and the chain is the one before with the new
  id behind all others, whatever writes and queries fail on the way.\<close>

theorem incremental_extends_chain:
  assumes "run_incremental_backup c legacy api env engine now w = (Inr (Captured i b n rng z), w')"
    and "world_ok c w" and "reliable_deletes w" and "codec_laws c" and "sha_of_empty c"
  shows "report_is_continuous (verify_chain_for c (w_store w') i) \<and>
    cr_incremental_ids (verify_chain_for c (w_store w') i) =
      cr_incremental_ids (verify_chain_for c (w_store w) b) @ [i] \<and>
    (\<exists>m. m_id m = i \<and> m_oplog_count m = Some n \<and> m_oplog_range m = Some rng \<and>
       verify_backup c stack (w_store w') i False = Inr (sound_report m))"
proof -
  from incremental_world [OF assms] obtain m data where m: "m_id m = i" "m_oplog_count m = Some n"
    "extends c w w' m b rng data" "world_ok c w'"
    by (auto simp: run_result_def)
  then have "published c w' m data" "m_oplog_range m = Some rng"
    by (simp_all add: extends_def)
  moreover from this have "verify_backup c stack (w_store w') i False = Inr (sound_report m)"
    using published_verifies [of c w' m data stack] m(1) assms(4) by (simp add: codec_laws_def)
  ultimately show ?thesis
    using extends_report [OF m(3)] m by (auto simp: world_ok_def)
qed

text \<open>C7: runs keep the catalogue: on a destination where every chain is good, any sequence of full
  and incremental backups, whether they succeed, fail at any write or query, or are promoted, leaves
  the chain of every complete full backup with an oplog range continuous. Assumed: the deletes with
  which a failed run cleans up succeed (\<open>reliable_deletes\<close>; any write may fail), and the ids that are
  drawn are new and grow (part of \<open>world_ok\<close>: they are time-ordered UUIDs).\<close>

theorem runs_keep_chains:
  assumes "backup_runs c api w w'" and "world_ok c w" and "reliable_deletes w"
    and "codec_laws c" and "sha_of_empty c"
    and "n \<in> set (catalogue c (w_store w'))" and "usable_base n" and "cn_oplog_range n \<noteq> None"
  shows "report_is_continuous (verify_chain_for c (w_store w') (cn_id n))"
proof -
  have h: "healthy (catalogue c (w_store w'))"
    using backup_runs_world [OF assms(1-5)] by (simp add: world_ok_def)
  then obtain e where e: "good_chain (catalogue c (w_store w')) (cn_id n) e"
    using assms(6-8) unfolding healthy_def tracked_chain_def by blast
  have "find_node (catalogue c (w_store w')) (cn_id n) = Some n"
    using find_node_distinct [OF healthy_distinct [OF h] assms(6)] .
  then have "base_of (catalogue c (w_store w')) (cn_id n) = Some (cn_id n)"
    using assms(7) by (simp add: base_of_def usable_base_def)
  then show ?thesis
    unfolding verify_chain_for_def by (rule good_chain_continuous [OF e])
qed

text \<open>an incremental backup that fails leaves every chain as it was: no node is added or lost.\<close>

theorem failed_incremental_frame:
  assumes "run_incremental_backup c legacy api env engine now w = (Inl e, w')"
    and "world_ok c w" and "reliable_deletes w" and "codec_laws c" and "sha_of_empty c"
  shows "verify_chain_for c (w_store w') t = verify_chain_for c (w_store w) t"
  using incremental_world [OF assms] by (simp add: run_result_def verify_chain_for_def)

text \<open>C6: a slice holds every entry of its interval: if at the moment of the capture the oplog has lost
  no entry of the interval, the stored data are the stages' image of bytes that the replay reads back
  as exactly the entries of the whole oplog after the last backup and up to the bound, in order.\<close>

theorem captured_slice_exact:
  assumes "run_incremental_backup c legacy api env engine now w = (Inr (Captured i b n rng z), w')"
    and "world_ok c w" and "reliable_deletes w" and "codec_laws c" and "sha_of_empty c"
    and "n \<noteq> 0" and "\<forall>d \<in> set oplog. raw_ok api (ie_raw env) d"
    and "oplog = gone @ ie_capture env" and "\<forall>d \<in> set gone. \<not> in_slice api (start_ts rng) (end_ts rng) d"
  shows "\<exists>stages meta bs. ie_factory env 0 = Some (stages, meta) \<and> look w' (data_path i) = stages bs \<and>
    map fst (fst (read_entries api None bs)) = filter (in_slice api (start_ts rng) (end_ts rng)) oplog \<and>
    snd (read_entries api None bs) = None"
proof -
  from incremental_world [OF assms(1-5)] assms(6) obtain m data stages meta bs where
    m: "m_id m = i" "extends c w w' m b rng data" "ie_factory env 0 = Some (stages, meta)" "stages bs = data"
    "capture_stream api (ie_raw env) (ie_capture env) (ie_stop env) (start_ts rng) (end_ts rng) = (bs, Inr n)"
    by (auto simp: run_result_def)
  have "look w' (data_path i) = stages bs"
    using m(1,2,4) by (simp add: extends_def published_def artifact_at_def)
  moreover have "\<forall>d \<in> set (ie_capture env). raw_ok api (ie_raw env) d"
    using assms(7,8) by simp
  note capture_replays_raw = this
  have "map fst (fst (read_entries api None bs)) = filter (in_slice api (start_ts rng) (end_ts rng)) (ie_capture env)
      \<and> snd (read_entries api None bs) = None"
    using captured_reads [OF m(5) capture_replays_raw] by blast
  moreover have "filter (in_slice api (start_ts rng) (end_ts rng)) gone = []"
    using assms(9) by (simp add: filter_empty_conv)
  ultimately show ?thesis
    using m(3) assms(8) by auto
qed

section \<open>A concrete destination\<close>

text \<open>One full backup \<open>a\<close>, an oplog with an entry at its end and one after it; ids grow by a letter.\<close>

definition base_mf :: BackupManifest where
  "base_mf = sample_manifest\<lparr>m_id := ''a'', m_checksum_sha256 := ''s'',
     m_oplog_range := Some \<lparr>start_ts = OplogTs 1 0, end_ts = OplogTs 1 1\<rparr>\<rparr>"

definition base_world :: world where
  "base_world = \<lparr>w_store = put_objects (artifact_objects number_codec base_mf (Some [7])) [],
     w_calls = 0, w_put_fails = (\<lambda>_. False), w_del_fails = (\<lambda>_. False),
     w_uuid = (\<lambda>k. replicate (Suc k) (CHR ''b'')), w_drawn = 0\<rparr>"

definition incr_sample :: "ex_doc incr_env" where
  "incr_sample = \<lparr>ie_server = me_server ex_mongo, ie_reader = True,
     ie_min = Some [ex_body 1, ex_body 3], ie_latest = Some [ex_body 1, ex_body 3],
     ie_extend = Some [ex_body 1, ex_body 3], ie_capture = [ex_body 1, ex_body 3], ie_stop = None,
     ie_raw = ex_raw, ie_factory = (\<lambda>_. Some (Some, no_meta)), ie_full = ex_mongo\<rparr>"

lemma number_codec_empty: "sha_of_empty number_codec"
  by (simp add: sha_of_empty_def number_codec_def)

lemma base_look:
  "sto_get (w_store base_world) p = (if p = manifest_sha_path ''a'' then Some (to_bytes (sidecar_checksum number_codec (to_json number_codec base_mf)))
     else if p = manifest_path ''a'' then Some (to_json number_codec base_mf)
     else if p = data_path ''a'' then Some [7] else None)"
  by (simp add: base_world_def artifact_objects_def manifest_objects_def base_mf_def sto_get_def sto_put_def)

lemma base_read: "store_read number_codec (w_store base_world) i = (if i = ''a'' then Some base_mf else None)"
  by (simp add: store_read_def base_look)

lemma base_catalogue: "catalogue number_codec (w_store base_world) = [from_manifest base_mf]"
proof -
  have "collect_manifest_ids ([] :: store) = []"
    by (simp add: collect_manifest_ids_def sto_list_def map_filter_def sort_dedup_def)
  then have "catalogue number_codec [] = []"
    by (simp add: catalogue_def manifests_def map_filter_def)
  moreover have "mset (catalogue number_codec (w_store base_world)) =
      mset (catalogue number_codec [] @ [from_manifest base_mf])"
    by (rule catalogue_add [where i = "''a''"])
      (simp_all add: base_read base_look valid_id_def sto_get_def [of "[]"])
  ultimately show ?thesis by simp
qed

lemma base_world_ok: "world_ok number_codec base_world"
proof -
  have "usable_base (from_manifest base_mf)" "m_id base_mf = ''a''" "m_base_id base_mf = None"
    "m_backup_type base_mf = Full"
    by (simp_all add: base_mf_def sample_manifest_def usable_base_def)
  then have "healthy ([] @ [from_manifest base_mf])"
    by (intro healthy_new_full) (simp_all add: healthy_def ordered_ids_def)
  then have "healthy (catalogue number_codec (w_store base_world))"
    by (simp add: base_catalogue)
  moreover have "store_ok number_codec (w_store base_world)"
    using \<open>m_id base_mf = ''a''\<close> by (auto simp: store_ok_def base_look base_read valid_id_def split: if_splits)
  moreover have "fresh (replicate (Suc k) (CHR ''b'')) base_world" for k
    by (simp add: fresh_def base_look)
  moreover have "''a'' < replicate (Suc k) (CHR ''b'')" for k
    by (simp add: less_char_def)
  moreover have "w_uuid base_world k = replicate (Suc k) (CHR ''b'')" "w_drawn base_world = 0" for k
    by (simp_all add: base_world_def)
  ultimately show ?thesis
    using replicate_b_less \<open>m_id base_mf = ''a''\<close>
    by (simp add: world_ok_def ids_ahead_def base_catalogue valid_id_def)
qed

lemma base_reliable: "reliable_deletes base_world"
  by (simp add: reliable_deletes_def base_world_def)

text \<open>A destination with one complete full backup that has a range: it is chosen, whatever its engine.\<close>

lemma single_selected:
  assumes "m_id m = ''a''" and "m_status m = Complete" and "\<not> m_selective m" and "m_oplog_range m = Some r"
    and "m_backup_type m = Full" and "s = put_objects (artifact_objects number_codec m (Some [7])) []"
  shows "select_base number_codec s = Inr \<lparr>full_base_id = ''a'', tip_id = ''a'', last_backup_ts = end_ts r\<rparr>"
proof -
  have get: "sto_get s (manifest_path i) = (if i = ''a'' then Some (to_json number_codec m) else None)" for i
    by (auto simp: assms(1,6) artifact_objects_def manifest_objects_def sto_get_def sto_put_def split: if_splits)
  then have pick: "pick number_codec s ''a'' = Some \<lparr>full_base_id = ''a'', tip_id = ''a'', last_backup_ts = end_ts r\<rparr>"
    using assms(1-5) by (simp add: pick_Some store_read_def chain_base_def)
  have "set (base_candidates s) = {''a''}"
    by (auto simp: set_base_candidates get split: if_splits)
  moreover have "length (base_candidates s) \<le> 1"
    by (simp add: base_candidates_def assms(1,6) artifact_objects_def manifest_objects_def sto_put_def
        sto_list_def map_filter_def strip_suffix_def path_defs)
  ultimately have "base_candidates s = [''a'']"
    by (cases "base_candidates s" rule: remdups_adj.cases) auto
  then show ?thesis
    using select_base_loop_Cons(1) [OF pick] by (simp add: select_base_def)
qed

lemma base_selected:
  "select_base number_codec (w_store base_world) =
     Inr \<lparr>full_base_id = ''a'', tip_id = ''a'', last_backup_ts = OplogTs 1 1\<rparr>"
  using single_selected [of base_mf _ "w_store base_world"]
  by (simp add: base_mf_def sample_manifest_def base_world_def)

text \<open>The run on it: the entry after the base becomes a slice.\<close>

definition sample_rng :: OplogRange where
  "sample_rng = \<lparr>start_ts = OplogTs 1 1, end_ts = OplogTs 3 1\<rparr>"

lemma sample_ts: "ts_of ex_api (ex_body s) = Some (OplogTs (ucast s) 1)" "\<not> is_partial_txn ex_api (ex_body s)"
  by (simp_all add: ex_capture)

lemma sample_bound:
  "resolve_upper_bound ex_api (Some [ex_body 1, ex_body 3]) (Some [ex_body 1, ex_body 3]) = Some (Some (OplogTs 3 1))"
  "resolve_upper_bound ex_api (Some [ex_body 1, ex_body 2, ex_body 3]) (Some [ex_body 1, ex_body 2, ex_body 3]) =
     Some (Some (OplogTs 3 1))"
  by (simp_all add: resolve_upper_bound_def latest_oplog_ts_def first_ts_def sample_ts
      extend_upper_past_partial_txn_def at_or_after_def ts_le_iff)

lemma sample_gap: "detect_gap ex_api (ex_body 1 # ds) (OplogTs 1 1) = GapOk True"
  by (simp add: detect_gap_Ok min_oplog_ts_def first_ts_def sample_ts)

lemma sample_capture:
  "capture_stream ex_api ex_raw [ex_body 1, ex_body 3] None (OplogTs 1 1) (OplogTs 3 1) = (ex_entry 3, Inr 1)"
  "capture_stream ex_api ex_raw [ex_body 3] None (OplogTs 1 1) (OplogTs 3 1) = (ex_entry 3, Inr 1)"
  by (simp_all add: capture_stream_def in_slice_def sample_ts ts_less_iff ts_le_iff)
    (simp_all add: ex_raw_def ex_body_def)

lemma base_run:
  assumes "ie_server env = me_server ex_mongo" and "ie_reader env" and "ie_min env = Some (ex_body 1 # ds)"
    and "resolve_upper_bound ex_api (ie_latest env) (ie_extend env) = Some (Some (OplogTs 3 1))"
    and "ie_factory env 0 = Some (Some, no_meta)"
    and "capture_stream ex_api (ie_raw env) (ie_capture env) (ie_stop env) (OplogTs 1 1) (OplogTs 3 1) =
      (ex_entry 3, Inr 1)"
    and "w_store w = w_store base_world" and "\<And>k. w_calls w \<le> k \<Longrightarrow> \<not> w_put_fails w k"
    and "w_uuid w (w_drawn w) = i"
  shows "\<exists>w'. run_incremental_backup number_codec False ex_api env Native ''t'' w =
     (Inr (Captured i ''a'' 1 sample_rng 5), w') \<and> look w' (data_path i) = Some (ex_entry 3)"
proof -
  obtain sm where sm: "me_server ex_mongo = Some sm" "supports_oplog sm"
    by (simp add: ex_mongo_def supports_oplog_def)
  have "\<not> OplogTs 3 1 \<le> OplogTs 1 1"
    by (simp add: ts_le_iff)
  then show ?thesis
    using assms sm
    by (simp add: run_incremental_backup_def base_selected sample_gap unwrap_or_def capture_slice_def
        new_id_def io_put_def write_slice_manifest_def manifest_write_def incremental_manifest_simps
        outcome_of_slice_def sample_rng_def Let_def ex_entry_def)
qed

lemma sample_run:
  "\<exists>w'. run_incremental_backup number_codec False ex_api incr_sample Native ''t'' base_world =
     (Inr (Captured ''b'' ''a'' 1 sample_rng 5), w')"
  using base_run [of incr_sample "[ex_body 3]" base_world] sample_bound(1) sample_capture(1)
  by (auto simp: incr_sample_def base_world_def)

theorem incremental_extends_chain_witness:
  "\<exists>w' :: world. report_is_continuous (verify_chain_for number_codec (w_store w') ''b'') \<and>
    cr_incremental_ids (verify_chain_for number_codec (w_store w') ''b'') =
      cr_incremental_ids (verify_chain_for number_codec (w_store base_world) ''a'') @ [''b'']"
proof -
  obtain w' where run: "run_incremental_backup number_codec False ex_api incr_sample Native ''t'' base_world =
     (Inr (Captured ''b'' ''a'' 1 sample_rng 5), w')"
    using sample_run by blast
  from incremental_extends_chain [OF run base_world_ok base_reliable number_codec_laws number_codec_empty,
      where stack = "\<lambda>_. None"]
  show ?thesis by blast
qed

text \<open>Two runs: the first fails at the sidecar of its manifest and cleans up, the second captures.\<close>

definition faulty_world :: world where
  "faulty_world = base_world\<lparr>w_put_fails := (\<lambda>k. k = 2)\<rparr>"

lemma faulty_world_ok: "world_ok number_codec faulty_world" "reliable_deletes faulty_world"
  using base_world_ok base_reliable
  by (simp_all add: faulty_world_def world_ok_def ids_ahead_def fresh_def reliable_deletes_def)

lemma faulty_run:
  "\<exists>w'. run_incremental_backup number_codec False ex_api incr_sample Native ''t'' faulty_world =
     (Inl (UploadFailed (manifest_sha_path ''b'')), w') \<and> w_store w' = w_store base_world \<and>
     w_calls w' = 6 \<and> w_put_fails w' = (\<lambda>k. k = 2) \<and> w_uuid w' (w_drawn w') = ''bb''"
proof -
  have io: "w_put_fails faulty_world = (\<lambda>k. k = 2)" "w_uuid faulty_world = (\<lambda>k. replicate (Suc k) (CHR ''b''))"
    "w_drawn faulty_world = 0" "w_calls faulty_world = 0" "w_del_fails faulty_world = (\<lambda>_. False)"
    "w_store faulty_world = w_store base_world"
    by (simp_all add: faulty_world_def base_world_def)
  obtain sm where sm: "me_server ex_mongo = Some sm" "supports_oplog sm"
    by (simp add: ex_mongo_def supports_oplog_def)
  have "\<not> OplogTs 3 1 \<le> OplogTs 1 1"
    by (simp add: ts_le_iff)
  moreover have "\<forall>e \<in> set (w_store base_world). fst e \<noteq> data_path ''b'' \<and> fst e \<noteq> manifest_path ''b'' \<and>
      fst e \<noteq> manifest_sha_path ''b''"
    by (simp add: base_world_def artifact_objects_def manifest_objects_def base_mf_def sto_put_def)
  ultimately show ?thesis
    using sm sample_bound(1) sample_capture(1)
    by (simp add: run_incremental_backup_def base_selected sample_gap [of "[ex_body 3]"] unwrap_or_def capture_slice_def
        incr_sample_def new_id_def io_put_def io write_slice_manifest_def manifest_write_def incremental_manifest_simps
        Let_def slice_cleanup_def slice_paths_def io_delete_def sto_put_def sto_delete_def)
qed

theorem runs_keep_chains_witness:
  "\<exists>w'. backup_runs number_codec ex_api faulty_world w' \<and> look w' (data_path ''bb'') = Some (ex_entry 3) \<and>
     report_is_continuous (verify_chain_for number_codec (w_store w') ''a'')"
proof -
  obtain w1 where w1: "run_incremental_backup number_codec False ex_api incr_sample Native ''t'' faulty_world =
      (Inl (UploadFailed (manifest_sha_path ''b'')), w1)"
    and io: "w_store w1 = w_store base_world" "w_calls w1 = 6" "w_put_fails w1 = (\<lambda>k. k = 2)"
      "w_uuid w1 (w_drawn w1) = ''bb''"
    using faulty_run by blast
  obtain w2 where w2: "run_incremental_backup number_codec False ex_api incr_sample Native ''t'' w1 =
      (Inr (Captured ''bb'' ''a'' 1 sample_rng 5), w2)" "look w2 (data_path ''bb'') = Some (ex_entry 3)"
    using base_run [of incr_sample "[ex_body 3]" w1 "''bb''"] io sample_bound(1) sample_capture(1)
    by (auto simp: incr_sample_def)
  have runs: "backup_runs number_codec ex_api faulty_world w2"
    using no_run incremental_run [OF w1] incremental_run [OF w2(1)] by (metis more_runs)
  have ok: "world_ok number_codec w1" "reliable_deletes w1"
    using incremental_world [OF w1 faulty_world_ok number_codec_laws number_codec_empty] del_fails_incremental [OF w1]
      faulty_world_ok(2) by (simp_all add: reliable_deletes_def)
  then have "\<exists>n. mset (catalogue number_codec (w_store w2)) = mset (catalogue number_codec (w_store w1) @ [n])"
    using incremental_world [OF w2(1) _ _ number_codec_laws number_codec_empty]
    by (auto simp: run_result_def extends_def)
  then obtain n where "mset (catalogue number_codec (w_store w2)) = mset ([from_manifest base_mf] @ [n])"
    by (auto simp: io base_catalogue)
  then have "from_manifest base_mf \<in> set (catalogue number_codec (w_store w2))"
    using mset_eq_setD by fastforce
  moreover have "usable_base (from_manifest base_mf)" "cn_oplog_range (from_manifest base_mf) \<noteq> None"
    "cn_id (from_manifest base_mf) = ''a''"
    by (simp_all add: base_mf_def sample_manifest_def usable_base_def)
  ultimately have "report_is_continuous (verify_chain_for number_codec (w_store w2) ''a'')"
    using runs_keep_chains [OF runs faulty_world_ok number_codec_laws number_codec_empty] by metis
  then show ?thesis
    using runs w2(2) by blast
qed

theorem failed_incremental_frame_witness:
  "\<exists>e w'. run_incremental_backup number_codec False ex_api (incr_sample\<lparr>ie_reader := False\<rparr>) Native ''t'' base_world =
      (Inl e, w') \<and>
    verify_chain_for number_codec (w_store w') ''a'' = verify_chain_for number_codec (w_store base_world) ''a''"
proof -
  have "\<exists>w'. run_incremental_backup number_codec False ex_api (incr_sample\<lparr>ie_reader := False\<rparr>) Native ''t'' base_world =
      (Inl ServerFailed, w')"
    by (simp add: run_incremental_backup_def incr_sample_def ex_mongo_def supports_oplog_def base_selected)
  then obtain w' where run: "run_incremental_backup number_codec False ex_api (incr_sample\<lparr>ie_reader := False\<rparr>)
      Native ''t'' base_world = (Inl ServerFailed, w')"
    by blast
  from failed_incremental_frame [OF run base_world_ok base_reliable number_codec_laws number_codec_empty] run
  show ?thesis by blast
qed

theorem captured_slice_exact_witness:
  "\<exists>(w' :: world) bs. look w' (data_path ''b'') = Some bs \<and>
    map fst (fst (read_entries ex_api None bs)) = [ex_body 3]"
proof -
  obtain w' where run: "run_incremental_backup number_codec False ex_api incr_sample Native ''t'' base_world =
     (Inr (Captured ''b'' ''a'' 1 sample_rng 5), w')"
    using sample_run by blast
  have "\<forall>d \<in> set [ex_body 1, ex_body 3]. raw_ok ex_api (ie_raw incr_sample) d"
    by (simp add: raw_ok_def ex_capture ex_eval incr_sample_def)
  from captured_slice_exact [OF run base_world_ok base_reliable number_codec_laws number_codec_empty _ this, of "[]"]
  have "\<exists>stages meta bs. ie_factory incr_sample 0 = Some (stages, meta) \<and> look w' (data_path ''b'') = stages bs \<and>
    map fst (fst (read_entries ex_api None bs)) =
      filter (in_slice ex_api (start_ts sample_rng) (end_ts sample_rng)) [ex_body 1, ex_body 3] \<and>
    snd (read_entries ex_api None bs) = None"
    by (simp add: incr_sample_def)
  moreover have "filter (in_slice ex_api (start_ts sample_rng) (end_ts sample_rng)) [ex_body 1, ex_body 3] = [ex_body 3]"
    by (simp add: sample_rng_def in_slice_def sample_ts ts_less_iff ts_le_iff)
  moreover have "ie_factory incr_sample 0 = Some (Some, no_meta)"
    by (simp add: incr_sample_def)
  ultimately obtain bs where "look w' (data_path ''b'') = Some bs"
    "map fst (fst (read_entries ex_api None bs)) = [ex_body 3]"
    by force
  then show ?thesis
    by (intro exI conjI)
qed

text \<open>the window is checked once, before the capture opens its cursor. When the oplog rolls over in
  between, the run still reports a captured slice over the whole interval, although an entry of the
  interval is in no slice: the cursor starts at what is left and nothing compares it with the base.\<close>

theorem gap_race_loses_entries:
  "let env = incr_sample\<lparr>ie_min := Some [ex_body 1, ex_body 2, ex_body 3],
         ie_latest := Some [ex_body 1, ex_body 2, ex_body 3],
         ie_extend := Some [ex_body 1, ex_body 2, ex_body 3], ie_capture := [ex_body 3]\<rparr>
   in (\<exists>w'. run_incremental_backup number_codec False ex_api env Native ''t'' base_world =
        (Inr (Captured ''b'' ''a'' 1 sample_rng 5), w') \<and> look w' (data_path ''b'') = Some (ex_entry 3)) \<and>
      in_slice ex_api (start_ts sample_rng) (end_ts sample_rng) (ex_body 2)"
proof -
  have "in_slice ex_api (start_ts sample_rng) (end_ts sample_rng) (ex_body 2)"
    by (simp add: in_slice_def sample_ts sample_rng_def ts_less_iff ts_le_iff)
  then show ?thesis
    unfolding Let_def
    by (intro conjI base_run [where ds = "[ex_body 2, ex_body 3]"])
      (simp_all add: incr_sample_def sample_bound sample_capture base_world_def)
qed

text \<open>the choice of the base looks at no engine: a complete full backup of files, whose range
  counts generations, is chosen as the base of a MongoDB incremental.\<close>

theorem select_base_ignores_engine:
  "let m = base_mf\<lparr>m_tool_versions := \<lparr>mongodump = None, archive_format = Some ''xb-file-tar-v1''\<rparr>\<rparr>;
       s = put_objects (artifact_objects number_codec m (Some [7])) []
   in kind_of m = File \<and> select_base number_codec s =
        Inr \<lparr>full_base_id = ''a'', tip_id = ''a'', last_backup_ts = OplogTs 1 1\<rparr>"
  unfolding Let_def
  by (subst single_selected [where r = "\<lparr>start_ts = OplogTs 1 0, end_ts = OplogTs 1 1\<rparr>", OF _ _ _ _ _ refl])
    (simp_all add: base_mf_def sample_manifest_def kind_of_def from_archive_format_def starts_with_def)

section \<open>The mark of a promotion\<close>

text \<open>A destination whose fifth write fails, an oplog that is empty.\<close>

definition mark_codec :: codec where
  "mark_codec = \<lparr>
     sha256_hex = (\<lambda>bs. if bs = [1] then ''p'' else ''q''),
     to_json = (\<lambda>m. if m_promoted_from_gap m then [1] else [2]),
     from_json = (\<lambda>bs. Some (base_mf\<lparr>m_promoted_from_gap := (bs = [1]), m_id := ''b''\<rparr>))\<rparr>"

definition mark_world :: world where
  "mark_world = base_world\<lparr>w_put_fails := (\<lambda>k. k = 4)\<rparr>"

text \<open>a promoted full backup is reported as a success even when the mark of the promotion was
  written only in half: the manifest then carries the mark and the sidecar does not match it, so the
  backup that the run reports fails its verification.\<close>

theorem promotion_mark_breaks_sidecar:
  "\<exists>w' out. promote_to_full mark_codec False incr_sample Native 0 OplogIsEmpty ''t'' mark_world =
      (Inr (PromotedToFull out OplogIsEmpty), w') \<and> bo_backup_id out = ''b'' \<and>
    verify_manifest_sidecar mark_codec (w_store w') ''b'' = False"
proof -
  have w: "w_put_fails mark_world = (\<lambda>k. k = 4)" "w_uuid mark_world 0 = ''b''" "w_drawn mark_world = 0"
    "w_calls mark_world = 0"
    by (simp_all add: mark_world_def base_world_def)
  have codec: "to_json mark_codec m = (if m_promoted_from_gap m then [1] else [2])"
    "from_json mark_codec bs = Some (base_mf\<lparr>m_promoted_from_gap := (bs = [1]), m_id := ''b''\<rparr>)"
    "sha256_hex mark_codec bs = (if bs = [1] then ''p'' else ''q'')" for m bs
    by (simp_all add: mark_codec_def)
  have side: "parse_sidecar (sidecar_checksum mark_codec bs) = Some (sha256_hex mark_codec bs)" for bs
    by (rule parse_sidecar_checksum) (simp_all add: codec is_whitespace_def)
  show ?thesis
    by (simp add: promote_to_full_def incr_sample_def ex_backup_defs w Let_def outcome_of_manifest_def
        build_manifest_def full_manifest_def mark_promoted_def store_read_def codec
        verify_manifest_sidecar_def side eq_ignore_ascii_case_def ascii_lower_def)
qed

end
