(* ===== verification/XB_File_Engine.thy ===== *)
theory XB_File_Engine
  imports XB_Backup
begin

text \<open>
  The file engine (\<open>engine/file\<close>): the snapshot index of a source and its differences, the archive of
  an increment (tombstones, then the changed entries), and how a restore applies an archive to the
  target directory. The tar crate, JSON and the file system calls below a path are parameters; paths
  are strings relative to the root, as the index has them. The lemmas show that an increment turns
  the restored tree of the last backup into the tree of the new one.
\<close>

section \<open>Names of the formats\<close>

definition FORMAT_ID :: string where "FORMAT_ID = ''xb-file-tar-v1''"
definition INCR_FORMAT_ID :: string where "INCR_FORMAT_ID = ''xb-file-incr-v1''"
definition TOMBSTONE_ENTRY :: string where "TOMBSTONE_ENTRY = ''.xb/tombstones.json''"
definition INDEX_VERSION :: u32 where "INDEX_VERSION = 1"

section \<open>The source\<close>

text \<open>
  What \<open>symlink_metadata\<close>, \<open>read_link\<close>, reading and \<open>read_dir\<close> say of a node; \<open>None\<close> for a link or a
  directory that cannot be read.
\<close>

record Metadata =
  md_dir :: bool
  md_symlink :: bool
  md_len :: u64
  md_mtime :: int
  md_mtime_nsec :: int
  md_mode :: u32

datatype fs = Fs (fs_meta: Metadata) (fs_link: "string option") (fs_bytes: bytes)
  (fs_children: "(string \<times> fs) list option")

text \<open>
  A source path: its file name, what it is itself (\<open>symlink_metadata\<close>), and what it leads to when
  links are followed (\<open>metadata\<close>).
\<close>

record source =
  so_name :: "string option"
  so_self :: "fs option"
  so_target :: "fs option"

section \<open>The snapshot index\<close>

datatype EntryKind = EntryFile | EntryDir | EntrySymlink

record IndexEntry =
  ix_k :: EntryKind
  ix_s :: u64
  ix_mt :: int
  ix_mo :: u32
  ix_lt :: "string option"

record FileIndex =
  ix_version :: u32
  ix_entries :: "(string \<times> IndexEntry) list"

record IndexDiff =
  df_changed :: "string list"
  df_deleted :: "string list"

definition diff_is_empty :: "IndexDiff \<Rightarrow> bool" where
  "diff_is_empty d \<longleftrightarrow> df_changed d = [] \<and> df_deleted d = []"

definition diff_count :: "IndexDiff \<Rightarrow> u64" where
  "diff_count d = word_of_nat (length (df_changed d) + length (df_deleted d))"

definition kind_from_meta :: "Metadata \<Rightarrow> EntryKind" where
  "kind_from_meta md = (if md_dir md then EntryDir else if md_symlink md then EntrySymlink else EntryFile)"

definition entry_from_meta :: "Metadata \<Rightarrow> string option \<Rightarrow> backup_error + IndexEntry" where
  "entry_from_meta md link =
     (let kind = kind_from_meta md
      in if kind = EntrySymlink \<and> link = None then Inl IndexFailed
         else Inr \<lparr>ix_k = kind, ix_s = (if kind = EntryFile then md_len md else 0),
           ix_mt = md_mtime md * 1000000000 + md_mtime_nsec md, ix_mo = and (md_mode md) 0xFFF,
           ix_lt = (if kind = EntrySymlink then link else None)\<rparr>)"

definition path_join :: "string \<Rightarrow> string \<Rightarrow> string" where
  "path_join rel name = (if rel = [] then name else rel @ ''/'' @ name)"

fun walk ::
  "string \<Rightarrow> (string \<times> fs) list \<Rightarrow> (string \<times> IndexEntry) list \<Rightarrow> backup_error + (string \<times> IndexEntry) list"
  where
  "walk rel [] entries = Inr entries"
| "walk rel ((name, Fs md link content children) # rest) entries =
     bind_res (entry_from_meta md link) (\<lambda>e.
       let entries1 = bt_insert (path_join rel name) e entries
       in bind_res
            (if md_dir md
             then (case children of
                None \<Rightarrow> Inl IndexFailed
              | Some cs \<Rightarrow> walk (path_join rel name) cs entries1)
             else Inr entries1)
            (walk rel rest))"

definition index_build :: "source \<Rightarrow> backup_error + FileIndex" where
  "index_build src = (case so_self src of
     None \<Rightarrow> Inl IndexFailed
   | Some (Fs md link content children) \<Rightarrow>
       bind_res
         (if md_dir md
          then (case children of None \<Rightarrow> Inl IndexFailed | Some cs \<Rightarrow> walk [] cs [])
          else (case so_name src of
             None \<Rightarrow> Inl NoFileName
           | Some name \<Rightarrow> bind_res (entry_from_meta md link) (\<lambda>e. Inr (bt_insert name e []))))
         (\<lambda>entries. Inr \<lparr>ix_version = INDEX_VERSION, ix_entries = entries\<rparr>))"

definition diff_from :: "FileIndex \<Rightarrow> FileIndex \<Rightarrow> IndexDiff" where
  "diff_from cur prev = \<lparr>
     df_changed = map fst (filter (\<lambda>(p, e). map_of (ix_entries prev) p \<noteq> Some e) (ix_entries cur)),
     df_deleted = filter (\<lambda>p. map_of (ix_entries cur) p = None) (map fst (ix_entries prev))\<rparr>"

text \<open>\<open>decode\<close>: decompression and JSON are the parameter, the version is checked.\<close>

definition index_decode :: "(bytes \<Rightarrow> FileIndex option) \<Rightarrow> bytes \<Rightarrow> backup_error + FileIndex" where
  "index_decode parse bs = (case parse bs of
     None \<Rightarrow> Inl IndexFailed
   | Some ix \<Rightarrow> (if ix_version ix \<noteq> INDEX_VERSION then Inl IndexFailed else Inr ix))"

section \<open>Archives\<close>

text \<open>What a tar entry keeps of a node: mode, seconds of the time, link, content.\<close>

record tar_node =
  tn_kind :: EntryKind
  tn_mode :: u32
  tn_mtime :: int
  tn_link :: "string option"
  tn_bytes :: bytes

type_synonym tree = "string \<Rightarrow> tar_node option"

text \<open>
  The libraries: writing an archive, reading the one of a stream that ends properly or breaks (the
  entries before the first error, and whether there was none), whether the target directory cannot be
  created, unpacking one entry
  into a tree (\<open>unpack_in\<close>: the new tree and whether the entry was taken), the archive of a whole
  directory (\<open>append_dir_all\<close>), the JSON of a list of names, a delete that leads through a symbolic
  link out of the tree (whether it removed something), and paths of a tree whose removal fails. The
  times of directories are not followed: every change below a directory changes its time.
\<close>

record tar_api =
  ta_write :: "(string \<times> tar_node) list \<Rightarrow> bytes"
  ta_read :: "bytes \<Rightarrow> bool \<Rightarrow> (string \<times> tar_node) list \<times> bool"
  ta_no_target :: bool
  ta_unpack :: "string \<Rightarrow> tar_node \<Rightarrow> tree \<Rightarrow> (tree \<times> bool) option"
  ta_dir_all :: "(string \<times> fs) list \<Rightarrow> (string \<times> tar_node) list option"
  ta_names :: "string list \<Rightarrow> bytes"
  ta_parse_names :: "bytes \<Rightarrow> string list option"
  ta_via_link :: "string \<Rightarrow> string \<Rightarrow> bool option"
  ta_remove_fails :: "string \<Rightarrow> tree \<Rightarrow> bool"

definition node_of :: "fs \<Rightarrow> tar_node" where
  "node_of f = \<lparr>tn_kind = kind_from_meta (fs_meta f), tn_mode = md_mode (fs_meta f),
     tn_mtime = md_mtime (fs_meta f), tn_link = fs_link f, tn_bytes = fs_bytes f\<rparr>"

text \<open>The nodes below a directory with their paths, and the node at a path.\<close>

fun fs_nodes :: "string \<Rightarrow> (string \<times> fs) list \<Rightarrow> (string \<times> fs) list" where
  "fs_nodes rel [] = []"
| "fs_nodes rel ((name, Fs md link content children) # rest) =
     (path_join rel name, Fs md link content children) #
     (case children of
        None \<Rightarrow> fs_nodes rel rest
      | Some cs \<Rightarrow>
          (if md_dir md then fs_nodes (path_join rel name) cs @ fs_nodes rel rest else fs_nodes rel rest))"

text \<open>\<open>root.join(rel)\<close>: below a root that is no directory there is nothing.\<close>

definition node_at :: "fs \<Rightarrow> string \<Rightarrow> fs option" where
  "node_at root rel = (case root of Fs md link content children \<Rightarrow>
     (if md_dir md then map_of (fs_nodes [] (case children of None \<Rightarrow> [] | Some cs \<Rightarrow> cs)) rel else None))"

definition tombstone_node :: "bytes \<Rightarrow> tar_node" where
  "tombstone_node payload = \<lparr>tn_kind = EntryFile, tn_mode = 0x180, tn_mtime = 0, tn_link = None, tn_bytes = payload\<rparr>"

fun append_changed :: "fs \<Rightarrow> string list \<Rightarrow> (string \<times> tar_node) list option" where
  "append_changed root [] = Some []"
| "append_changed root (rel # rels) = (case node_at root rel of
     None \<Rightarrow> None
   | Some f \<Rightarrow> map_option (\<lambda>es. (rel, node_of f) # es) (append_changed root rels))"

text \<open>The archive of an increment and of a full backup; \<open>None\<close> when a path cannot be read.\<close>

definition build_incr_tar ::
  "tar_api \<Rightarrow> fs \<Rightarrow> string list \<Rightarrow> string list \<Rightarrow> (string \<times> tar_node) list option" where
  "build_incr_tar api root changed deleted =
     map_option (\<lambda>es. (if deleted \<noteq> [] then [(TOMBSTONE_ENTRY, tombstone_node (ta_names api deleted))] else []) @ es)
       (append_changed root changed)"

definition build_tar :: "tar_api \<Rightarrow> source \<Rightarrow> (string \<times> tar_node) list option" where
  "build_tar api src = (case so_target src of
     None \<Rightarrow> None
   | Some (Fs md link content children) \<Rightarrow>
       (if md_dir md then (case children of None \<Rightarrow> None | Some cs \<Rightarrow> ta_dir_all api cs)
        else (case so_name src of
           None \<Rightarrow> None
         | Some n \<Rightarrow> map_option (\<lambda>f. [(n, node_of f)]) (so_self src))))"

section \<open>Restoring\<close>

datatype restore_error =
    TargetUnavailable
  | TarBroken
  | UnpackFailed string
  | TombstoneParse
  | TombstoneEscapes string
  | TombstoneRemove string

text \<open>The target directory, and the objects outside it that were removed through links.\<close>

record target =
  tg_tree :: tree
  tg_outside :: "(string \<times> string) list"

definition escapes :: "string \<Rightarrow> bool" where
  "escapes p \<longleftrightarrow> take 1 p = ''/'' \<or> ''..'' \<in> set (split_on (CHR ''/'') p)"

text \<open>\<open>join\<close> and the system calls read a path by its components: empty ones and \<open>.\<close> fall away.\<close>

definition tidy_path :: "string \<Rightarrow> string" where
  "tidy_path p = join_with ''/'' (filter (\<lambda>s. s \<noteq> [] \<and> s \<noteq> ''.'') (split_on (CHR ''/'') p))"

text \<open>The proper ancestors of a path, from the top.\<close>

definition ancestors :: "string \<Rightarrow> string list" where
  "ancestors p = map (\<lambda>i. take i p) (filter (\<lambda>i. p ! i = CHR ''/'') [0..<length p])"

datatype lookup = Found tar_node | Missing | NotADirectory | ThroughLink string

text \<open>\<open>symlink_metadata\<close> of a path in the target: the kernel follows the links above the last name.\<close>

definition is_dir_at :: "tree \<Rightarrow> string \<Rightarrow> bool" where
  "is_dir_at t p \<longleftrightarrow> (case t p of Some n \<Rightarrow> tn_kind n = EntryDir | None \<Rightarrow> False)"

definition look_up :: "tree \<Rightarrow> string \<Rightarrow> lookup" where
  "look_up t p = (case List.find (\<lambda>a. \<not> is_dir_at t a) (ancestors p) of
     None \<Rightarrow> (case t p of Some n \<Rightarrow> Found n | None \<Rightarrow> Missing)
   | Some a \<Rightarrow> (case t a of
       None \<Rightarrow> Missing
     | Some n \<Rightarrow> (if tn_kind n = EntrySymlink then ThroughLink a else NotADirectory)))"

definition below :: "string \<Rightarrow> string \<Rightarrow> bool" where
  "below p q \<longleftrightarrow> take (Suc (length p)) q = p @ ''/''"

text \<open>\<open>remove_dir_all\<close> and \<open>remove_file\<close>.\<close>

definition remove_path :: "tree \<Rightarrow> string \<Rightarrow> tree" where
  "remove_path t p = (if is_dir_at t p then (\<lambda>q. if q = p \<or> below p q then None else t q) else t(p := None))"

text \<open>A tombstone that names nothing below the target is the target itself.\<close>

fun apply_tombstones :: "tar_api \<Rightarrow> string list \<Rightarrow> target \<Rightarrow> (restore_error + nat) \<times> target" where
  "apply_tombstones api [] tg = (Inr 0, tg)"
| "apply_tombstones api (rel # rels) tg =
     (let continue = (\<lambda>k tg1. case apply_tombstones api rels tg1 of
            (Inl e, tg2) \<Rightarrow> (Inl e, tg2) | (Inr n, tg2) \<Rightarrow> (Inr (n + k), tg2))
      in if escapes rel then (Inl (TombstoneEscapes rel), tg)
         else if tidy_path rel = [] then
           (if ta_remove_fails api rel (tg_tree tg) then (Inl (TombstoneRemove rel), tg)
            else continue 1 (tg\<lparr>tg_tree := (\<lambda>_. None)\<rparr>))
         else case look_up (tg_tree tg) (tidy_path rel) of
           Found n \<Rightarrow>
             (if ta_remove_fails api rel (tg_tree tg) then (Inl (TombstoneRemove rel), tg)
              else continue 1 (tg\<lparr>tg_tree := remove_path (tg_tree tg) (tidy_path rel)\<rparr>))
         | Missing \<Rightarrow> continue 0 tg
         | NotADirectory \<Rightarrow> (Inl (TombstoneRemove rel), tg)
         | ThroughLink a \<Rightarrow>
             (case ta_via_link api a rel of
                None \<Rightarrow> (Inl (TombstoneRemove rel), tg)
              | Some removed \<Rightarrow>
                  (if removed then continue 1 (tg\<lparr>tg_outside := tg_outside tg @ [(a, rel)]\<rparr>)
                   else continue 0 tg)))"

fun unpack_entries ::
  "tar_api \<Rightarrow> (string \<times> tar_node) list \<Rightarrow> target \<Rightarrow> (restore_error + nat) \<times> target" where
  "unpack_entries api [] tg = (Inr 0, tg)"
| "unpack_entries api ((p, n) # es) tg =
     (let continue = (\<lambda>k tg1. case unpack_entries api es tg1 of
            (Inl e, tg2) \<Rightarrow> (Inl e, tg2) | (Inr m, tg2) \<Rightarrow> (Inr (m + k), tg2))
      in if p = TOMBSTONE_ENTRY then
           (case ta_parse_names api (tn_bytes n) of
              None \<Rightarrow> (Inl TombstoneParse, tg)
            | Some deleted \<Rightarrow> (case apply_tombstones api deleted tg of
                (Inl e, tg1) \<Rightarrow> (Inl e, tg1) | (Inr k, tg1) \<Rightarrow> continue k tg1))
         else
           (case ta_unpack api p n (tg_tree tg) of
              None \<Rightarrow> (Inl (UnpackFailed p), tg)
            | Some (t1, taken) \<Rightarrow> continue (if taken then 1 else 0) (tg\<lparr>tg_tree := t1\<rparr>)))"

definition unpack_tar :: "tar_api \<Rightarrow> bytes \<Rightarrow> bool \<Rightarrow> target \<Rightarrow> (restore_error + nat) \<times> target" where
  "unpack_tar api bs ends tg = (case ta_read api bs ends of (es, complete) \<Rightarrow>
     (case unpack_entries api es tg of
        (Inl e, tg1) \<Rightarrow> (Inl e, tg1)
      | (Inr n, tg1) \<Rightarrow> (if complete then (Inr n, tg1) else (Inl TarBroken, tg1))))"

definition file_restore :: "tar_api \<Rightarrow> bytes \<Rightarrow> bool \<Rightarrow> target \<Rightarrow> (restore_error + nat) \<times> target" where
  "file_restore api bs ends tg =
     (if ta_no_target api then (Inl TargetUnavailable, tg) else unpack_tar api bs ends tg)"

section \<open>Paths\<close>

lemma below_iff: "below p q \<longleftrightarrow> (\<exists>r. q = p @ ''/'' @ r)"
  unfolding below_def
proof
  assume "take (Suc (length p)) q = p @ ''/''"
  then have "q = (p @ ''/'') @ drop (Suc (length p)) q"
    by (metis append_take_drop_id)
  then show "\<exists>r. q = p @ ''/'' @ r"
    by (metis append_assoc)
qed auto

lemma below_append [simp]: "below a (a @ CHR ''/'' # r)"
  by (simp add: below_iff)

lemma below_trans: "below a b \<Longrightarrow> below b c \<Longrightarrow> below a c"
  by (auto simp: below_iff)

lemma below_linear: "below a p \<Longrightarrow> below b p \<Longrightarrow> a = b \<or> below a b \<or> below b a"
  unfolding below_iff by (auto simp: append_eq_append_conv2 Cons_eq_append_conv append_eq_Cons_conv)

lemma below_irrefl [simp]: "\<not> below a a"
  by (simp add: below_iff)

lemma set_ancestors: "a \<in> set (ancestors p) \<longleftrightarrow> below a p"
proof
  assume "a \<in> set (ancestors p)"
  then obtain i where i: "i < length p" "p ! i = CHR ''/''" "a = take i p"
    by (auto simp: ancestors_def)
  then have "p = a @ CHR ''/'' # drop (Suc i) p"
    by (metis id_take_nth_drop)
  then show "below a p"
    by (metis below_append)
next
  assume "below a p"
  then obtain r where "p = a @ CHR ''/'' # r"
    by (auto simp: below_iff)
  then have "length a < length p" "p ! length a = CHR ''/''" "take (length a) p = a"
    by (auto simp: nth_append)
  then show "a \<in> set (ancestors p)"
    by (force simp: ancestors_def)
qed

lemma split_on_join: "join_with [d] (split_on d s) = s"
proof (induction s)
  case (Cons x s)
  obtain p ps where ps: "split_on d s = p # ps"
    by (cases "split_on d s") simp_all
  show ?case
  proof (cases ps)
    case Nil
    with Cons ps show ?thesis by simp
  next
    case (Cons q qs)
    with \<open>join_with [d] (split_on d s) = s\<close> ps show ?thesis by simp
  qed
qed simp

text \<open>The paths an index has: names, none of them special.\<close>

definition plain_path :: "string \<Rightarrow> bool" where
  "plain_path p \<longleftrightarrow> p \<noteq> [] \<and> (\<forall>s \<in> set (split_on (CHR ''/'') p). s \<noteq> [] \<and> s \<noteq> ''.'' \<and> s \<noteq> ''..'')"

lemma plain_path_tidy:
  assumes "plain_path p"
  shows "\<not> escapes p" and "tidy_path p = p" and "p \<noteq> []"
proof -
  have "filter (\<lambda>s. s \<noteq> [] \<and> s \<noteq> ''.'') (split_on (CHR ''/'') p) = split_on (CHR ''/'') p"
    using assms by (simp add: plain_path_def)
  then show "tidy_path p = p"
    by (simp only: tidy_path_def split_on_join)
  show "p \<noteq> []" using assms by (simp add: plain_path_def)
  have "p = CHR ''/'' # r \<Longrightarrow> [] \<in> set (split_on (CHR ''/'') p)" for r
    by simp
  then have "take 1 p \<noteq> ''/''"
    using assms unfolding plain_path_def by (cases p) fastforce+
  then show "\<not> escapes p"
    using assms by (auto simp: escapes_def plain_path_def)
qed

lemma below_less: "below a p \<Longrightarrow> a < p"
proof -
  assume "below a p"
  then obtain r where r: "p = a @ CHR ''/'' # r" by (auto simp: below_iff)
  show "a < p"
    unfolding r by (induction a) simp_all
qed

section \<open>Trees and look-ups\<close>

text \<open>A tree of a file system: what a path leads through is a directory.\<close>

definition wf_tree :: "tree \<Rightarrow> bool" where
  "wf_tree t \<longleftrightarrow> (\<forall>p a. t p \<noteq> None \<longrightarrow> below a p \<longrightarrow> is_dir_at t a)"

lemma is_dir_at_dom: "is_dir_at t a \<Longrightarrow> t a \<noteq> None"
  by (auto simp: is_dir_at_def split: option.splits)

lemma look_up_dirs: "\<forall>a. below a p \<longrightarrow> is_dir_at t a \<Longrightarrow>
    look_up t p = (case t p of Some n \<Rightarrow> Found n | None \<Rightarrow> Missing)"
proof -
  assume "\<forall>a. below a p \<longrightarrow> is_dir_at t a"
  then have "List.find (\<lambda>a. \<not> is_dir_at t a) (ancestors p) = None"
    by (simp add: find_None_iff set_ancestors)
  then show ?thesis
    by (simp add: look_up_def)
qed

text \<open>
  Entries can be made and removed in a directory when its owner may write and search it. What a restore
  keeps of a node: the time of a file (a time before 1 becomes 1), no time of a directory or a link, and
  no mode of a link.
\<close>

definition open_dir_at :: "tree \<Rightarrow> string \<Rightarrow> bool" where
  "open_dir_at t p \<longleftrightarrow> (case t p of
     Some n \<Rightarrow> tn_kind n = EntryDir \<and> bit (tn_mode n) 6 \<and> bit (tn_mode n) 7 | None \<Rightarrow> False)"

definition open_dirs :: "tree \<Rightarrow> bool" where
  "open_dirs t \<longleftrightarrow> (\<forall>p. is_dir_at t p \<longrightarrow> open_dir_at t p)"

definition kept :: "tar_node \<Rightarrow> tar_node" where
  "kept n = n\<lparr>tn_mtime := (if tn_kind n = EntryFile then max 1 (tn_mtime n) else 0),
     tn_mode := (if tn_kind n = EntrySymlink then 0 else tn_mode n)\<rparr>"

definition alike :: "tree \<Rightarrow> tree \<Rightarrow> bool" where
  "alike t t' \<longleftrightarrow> (\<forall>p. map_option kept (t p) = map_option kept (t' p))"

lemma alike_at: "alike t t' \<Longrightarrow> map_option kept (t p) = map_option kept (t' p)"
  by (simp add: alike_def)

lemma alike_refl [simp]: "alike t t"
  by (simp add: alike_def)

lemma kept_kind: "kept n = kept m \<Longrightarrow> tn_kind n = tn_kind m"
  by (drule arg_cong [where f = tn_kind]) (simp add: kept_def)

lemma kept_mode: "kept n = kept m \<Longrightarrow> tn_kind m = EntryDir \<Longrightarrow> tn_mode n = tn_mode m"
  by (frule kept_kind, drule arg_cong [where f = tn_mode]) (simp add: kept_def)

lemma kept_None: "map_option kept (t p) = map_option kept (t' p) \<Longrightarrow> t p = None \<longleftrightarrow> t' p = None"
  by (metis map_option_is_None)

lemma kept_dir: "map_option kept (t p) = map_option kept (t' p) \<Longrightarrow> is_dir_at t p = is_dir_at t' p"
  by (cases "t p"; cases "t' p") (auto simp: is_dir_at_def dest: kept_kind)

lemma kept_open:
  assumes "map_option kept (t p) = map_option kept (t' p)"
  shows "open_dir_at t p = open_dir_at t' p"
proof (cases "t' p")
  case None
  with assms show ?thesis by (simp add: open_dir_at_def)
next
  case (Some m)
  with assms obtain n where n: "t p = Some n" "kept n = kept m" by auto
  with Some kept_kind [OF n(2)] kept_mode [OF n(2)] show ?thesis
    by (cases "tn_kind m = EntryDir") (simp_all add: open_dir_at_def)
qed

lemma alike_dir: "alike t t' \<Longrightarrow> is_dir_at t p = is_dir_at t' p"
  by (rule kept_dir) (rule alike_at)

lemma alike_open: "alike t t' \<Longrightarrow> open_dir_at t p = open_dir_at t' p"
  by (rule kept_open) (rule alike_at)

lemma alike_None: "alike t t' \<Longrightarrow> t p = None \<longleftrightarrow> t' p = None"
  by (rule kept_None) (rule alike_at)

lemma alike_wf: "alike t t' \<Longrightarrow> wf_tree t' \<Longrightarrow> wf_tree t"
  by (simp add: wf_tree_def alike_dir [of t t'] alike_None [of t t'] del: not_None_eq)

lemma alike_open_dirs: "alike t t' \<Longrightarrow> open_dirs t' \<Longrightarrow> open_dirs t"
  by (simp add: open_dirs_def alike_dir [of t t'] alike_open [of t t'])

text \<open>\<open>t\<close> is what is left of \<open>t0\<close>.\<close>

definition remains :: "tree \<Rightarrow> tree \<Rightarrow> bool" where
  "remains t0 t \<longleftrightarrow> wf_tree t \<and> (\<forall>q. t q = t0 q \<or> t q = None)"

lemma look_up_remains:
  assumes "remains t0 t" and "wf_tree t0" and "t0 p \<noteq> None"
  shows "look_up t p = (case t p of Some n \<Rightarrow> Found n | None \<Rightarrow> Missing)"
proof (cases "t p")
  case (Some n)
  with assms(1) show ?thesis
    by (intro look_up_dirs) (auto simp: remains_def wf_tree_def)
next
  case None
  show ?thesis
  proof (cases "List.find (\<lambda>a. \<not> is_dir_at t a) (ancestors p)")
    case None
    with \<open>t p = None\<close> show ?thesis by (simp add: look_up_def)
  next
    case (Some a)
    then have a: "below a p" "\<not> is_dir_at t a"
      by (auto simp: find_Some_iff set_ancestors [symmetric])
    then have "is_dir_at t0 a"
      using assms(2,3) by (auto simp: wf_tree_def)
    then have "t a = None"
      using a(2) assms(1) unfolding remains_def is_dir_at_def by metis
    with Some None show ?thesis
      by (simp add: look_up_def)
  qed
qed

lemma remains_remove:
  assumes "remains t0 t" and "t p \<noteq> None"
  shows "remains t0 (remove_path t p)"
proof -
  have w: "wf_tree t" "\<forall>q. t q = t0 q \<or> t q = None"
    using assms(1) by (simp_all add: remains_def)
  have "wf_tree (remove_path t p)"
    unfolding wf_tree_def
  proof (intro allI impI)
    fix q a
    assume q: "remove_path t p q \<noteq> None" "below a q"
    then have tq: "t q \<noteq> None" "q \<noteq> p"
      by (auto simp: remove_path_def split: if_splits)
    then have a: "is_dir_at t a"
      using w(1) q(2) by (auto simp: wf_tree_def)
    show "is_dir_at (remove_path t p) a"
    proof (cases "is_dir_at t p")
      case True
      then have "\<not> below p q"
        using q(1) by (auto simp: remove_path_def)
      then have "a \<noteq> p" "\<not> below p a"
        using q(2) below_trans by blast+
      with True a show ?thesis
        by (simp add: remove_path_def is_dir_at_def)
    next
      case False
      with a have "a \<noteq> p" by blast
      with False a show ?thesis
        by (simp add: remove_path_def is_dir_at_def)
    qed
  qed
  then show ?thesis
    using w(2) by (auto simp: remains_def remove_path_def)
qed

lemma remains_open: "remains t0 t \<Longrightarrow> open_dirs t0 \<Longrightarrow> open_dirs t"
  unfolding open_dirs_def
proof (intro allI impI)
  fix p
  assume r: "remains t0 t" and o0: "\<forall>p. is_dir_at t0 p \<longrightarrow> open_dir_at t0 p" and d: "is_dir_at t p"
  then have "t p = t0 p \<or> t p = None" by (simp add: remains_def)
  with is_dir_at_dom [OF d] have "t p = t0 p" by (elim disjE) auto
  with o0 [THEN spec, of p] d show "open_dir_at t p" by (simp add: is_dir_at_def open_dir_at_def)
qed

section \<open>Tombstones\<close>

definition remove_law :: "tar_api \<Rightarrow> bool" where
  "remove_law api \<longleftrightarrow> (\<forall>p t. open_dirs t \<longrightarrow> \<not> ta_remove_fails api p t)"

lemma apply_tombstones_remains:
  assumes "wf_tree t0 \<and> open_dirs t0 \<and> remove_law api" and "wf_tree t1"
    and "\<forall>p \<in> set del. t0 p \<noteq> None \<and> t1 p = None \<and> plain_path p"
    and "remains t0 (tg_tree tg)" and "\<forall>q. t1 q \<noteq> None \<longrightarrow> tg_tree tg q = t0 q"
  shows "\<exists>n t. apply_tombstones api del tg = (Inr n, tg\<lparr>tg_tree := t\<rparr>) \<and> remains t0 t \<and>
    (\<forall>q. t1 q \<noteq> None \<longrightarrow> t q = t0 q) \<and> (\<forall>p \<in> set del. t p = None) \<and>
    (\<forall>p. tg_tree tg p = None \<longrightarrow> t p = None)"
  using assms
proof (induction del arbitrary: tg)
  case Nil
  then show ?case
    by (intro exI [of _ 0] exI [of _ "tg_tree tg"]) simp
next
  case (Cons p del)
  let ?t = "tg_tree tg"
  have plain: "plain_path p" and pp: "t0 p \<noteq> None" "t1 p = None" "\<not> ta_remove_fails api p ?t"
    using Cons.prems(1,3) remains_open [OF Cons.prems(4)] by (auto simp: remove_law_def)
  note p = pp(1,2) plain_path_tidy(1) [OF plain] pp(3) and tidy = plain_path_tidy(2,3) [OF plain]
  have rest: "\<forall>p \<in> set del. t0 p \<noteq> None \<and> t1 p = None \<and> plain_path p"
    using Cons.prems(3) by auto
  have wf0: "wf_tree t0" using Cons.prems(1) by simp
  note lk = look_up_remains [OF Cons.prems(4) wf0 p(1)]
  show ?case
  proof (cases "?t p")
    case None
    then have "apply_tombstones api (p # del) tg =
        (case apply_tombstones api del tg of (Inl e, tg2) \<Rightarrow> (Inl e, tg2) | (Inr n, tg2) \<Rightarrow> (Inr (n + 0), tg2))"
      using p(3) lk tidy by (simp add: Let_def)
    moreover obtain n t where "apply_tombstones api del tg = (Inr n, tg\<lparr>tg_tree := t\<rparr>)" "remains t0 t"
      "\<forall>q. t1 q \<noteq> None \<longrightarrow> t q = t0 q" "\<forall>p \<in> set del. t p = None" "\<forall>p. ?t p = None \<longrightarrow> t p = None"
      using Cons.IH [OF Cons.prems(1,2) rest Cons.prems(4,5)] by blast
    ultimately show ?thesis
      using None by auto
  next
    case (Some x)
    let ?tg = "tg\<lparr>tg_tree := remove_path ?t p\<rparr>"
    have keep: "t1 q \<noteq> None \<Longrightarrow> remove_path ?t p q = ?t q" for q
    proof -
      assume q: "t1 q \<noteq> None"
      then have "q \<noteq> p" "\<not> below p q"
        using p(2) Cons.prems(2) is_dir_at_dom unfolding wf_tree_def by blast+
      then show ?thesis
        by (simp add: remove_path_def)
    qed
    have r: "remains t0 (tg_tree ?tg)" "\<forall>q. t1 q \<noteq> None \<longrightarrow> tg_tree ?tg q = t0 q"
      using remains_remove [OF Cons.prems(4), of p] Some keep Cons.prems(5) by simp_all
    have step: "apply_tombstones api (p # del) tg =
        (case apply_tombstones api del ?tg of (Inl e, tg2) \<Rightarrow> (Inl e, tg2) | (Inr n, tg2) \<Rightarrow> (Inr (n + Suc 0), tg2))"
      using p(3,4) lk Some tidy by (simp add: Let_def)
    obtain n t where n: "apply_tombstones api del ?tg = (Inr n, ?tg\<lparr>tg_tree := t\<rparr>)" "remains t0 t"
      "\<forall>q. t1 q \<noteq> None \<longrightarrow> t q = t0 q" "\<forall>p \<in> set del. t p = None" "\<forall>p. tg_tree ?tg p = None \<longrightarrow> t p = None"
      using Cons.IH [OF Cons.prems(1,2) rest r] by blast
    have "remove_path ?t p p = None"
      by (simp add: remove_path_def)
    moreover have "?t q = None \<Longrightarrow> remove_path ?t p q = None" for q
      by (simp add: remove_path_def)
    ultimately show ?thesis
      using step n by auto
  qed
qed

section \<open>Unpacking the changed entries\<close>

text \<open>
  What the code relies on of the libraries: an archive is read back as it was written, so are the names
  of a tombstone; in directories that are open a removal succeeds; an entry whose parents are open
  directories and which does not turn a directory into something else or back replaces the node at its
  path, up to what a restore keeps, and nothing else but the times of directories.
\<close>

definition unpack_law :: "tar_api \<Rightarrow> bool" where
  "unpack_law api \<longleftrightarrow> (\<forall>p n t. (\<forall>a. below a p \<longrightarrow> open_dir_at t a) \<and>
     (t p = None \<or> (is_dir_at t p \<longleftrightarrow> tn_kind n = EntryDir)) \<longrightarrow>
     (\<exists>t'. ta_unpack api p n t = Some (t', True) \<and> alike t' (t(p \<mapsto> n))))"

text \<open>
  \<open>parents_first\<close>: nothing comes twice, or before its parents. \<open>append_dir_all\<close> takes every node below the directory once, parents first. The names are given as
  the unpacking reads them, relative to the root (the leading \<open>.\<close> and the entry of the root itself
  left out).
\<close>

definition parents_first :: "string list \<Rightarrow> bool" where
  "parents_first ps \<longleftrightarrow> sorted_wrt (\<lambda>p q. p \<noteq> q \<and> \<not> below q p) ps"

definition dir_all_law :: "tar_api \<Rightarrow> bool" where
  "dir_all_law api \<longleftrightarrow> (\<forall>cs es. ta_dir_all api cs = Some es \<longrightarrow>
     (\<exists>ps. es = map (\<lambda>p. (p, node_of (the (map_of (fs_nodes [] cs) p)))) ps \<and>
        set ps = fst ` set (fs_nodes [] cs) \<and> parents_first ps))"

definition tar_laws :: "tar_api \<Rightarrow> bool" where
  "tar_laws api \<longleftrightarrow> (\<forall>es. ta_read api (ta_write api es) True = (es, True)) \<and> \<not> ta_no_target api \<and>
     (\<forall>ns. ta_parse_names api (ta_names api ns) = Some ns) \<and> unpack_law api \<and>
     remove_law api \<and> dir_all_law api"

lemma sorted_parents_first: "sorted_wrt (<) ps \<Longrightarrow> parents_first ps"
  unfolding parents_first_def
  by (erule sorted_wrt_mono_rel [rotated]) (use below_less less_asym in blast)

lemma parents_first_Cons: "parents_first (p # ps) \<longleftrightarrow> (\<forall>q \<in> set ps. p \<noteq> q \<and> \<not> below q p) \<and> parents_first ps"
  by (simp add: parents_first_def)

lemma unpack_changed:
  assumes law: "unpack_law api" and wf: "wf_tree t1" and "open": "open_dirs t1"
    and "parents_first ps" and "\<forall>p \<in> set ps. t1 p \<noteq> None \<and> p \<noteq> TOMBSTONE_ENTRY"
    and "\<forall>q. q \<notin> set ps \<longrightarrow> map_option kept (tg_tree tg q) = map_option kept (t1 q)"
    and "\<forall>p \<in> set ps. tg_tree tg p \<noteq> None \<longrightarrow> (is_dir_at (tg_tree tg) p \<longleftrightarrow> is_dir_at t1 p)"
  shows "\<exists>n t. unpack_entries api (map (\<lambda>p. (p, the (t1 p))) ps) tg = (Inr n, tg\<lparr>tg_tree := t\<rparr>) \<and> alike t t1"
  using assms(4-)
proof (induction ps arbitrary: tg)
  case Nil
  then have "alike (tg_tree tg) t1" by (simp add: alike_def)
  then show ?case by (intro exI [of _ 0] exI [of _ "tg_tree tg"]) simp
next
  case (Cons p ps)
  let ?t = "tg_tree tg"
  obtain n where n: "t1 p = Some n"
    using Cons.prems(2) by auto
  have anc: "open_dir_at ?t a" if "below a p" for a
  proof -
    have "a \<notin> set (p # ps)"
      using Cons.prems(1) that by (auto simp: parents_first_Cons)
    then have "map_option kept (?t a) = map_option kept (t1 a)"
      using Cons.prems(3) by blast
    moreover have "open_dir_at t1 a"
      using wf "open" n that unfolding wf_tree_def open_dirs_def by blast
    ultimately show ?thesis using kept_open by blast
  qed
  have "is_dir_at t1 p \<longleftrightarrow> tn_kind n = EntryDir"
    using n by (simp add: is_dir_at_def)
  with Cons.prems(4) have "?t p = None \<or> (is_dir_at ?t p \<longleftrightarrow> tn_kind n = EntryDir)"
    by (metis list.set_intros(1))
  with anc law obtain t' where t': "ta_unpack api p n ?t = Some (t', True)" "alike t' (?t(p \<mapsto> n))"
    unfolding unpack_law_def by blast
  then have step: "unpack_entries api (map (\<lambda>p. (p, the (t1 p))) (p # ps)) tg =
      (case unpack_entries api (map (\<lambda>p. (p, the (t1 p))) ps) (tg\<lparr>tg_tree := t'\<rparr>) of
         (Inl e, tg2) \<Rightarrow> (Inl e, tg2) | (Inr m, tg2) \<Rightarrow> (Inr (m + Suc 0), tg2))"
    using n Cons.prems(2) by (simp add: Let_def)
  have "\<exists>m t. unpack_entries api (map (\<lambda>p. (p, the (t1 p))) ps) (tg\<lparr>tg_tree := t'\<rparr>) =
      (Inr m, tg\<lparr>tg_tree := t'\<rparr>\<lparr>tg_tree := t\<rparr>) \<and> alike t t1"
  proof (rule Cons.IH)
    show "parents_first ps" "\<forall>p \<in> set ps. t1 p \<noteq> None \<and> p \<noteq> TOMBSTONE_ENTRY"
      using Cons.prems by (auto simp: parents_first_Cons)
    have at: "map_option kept (t' q) = (if q = p then Some (kept n) else map_option kept (?t q))" for q
      using alike_at [OF t'(2), of q] by simp
    show "\<forall>q. q \<notin> set ps \<longrightarrow> map_option kept (tg_tree (tg\<lparr>tg_tree := t'\<rparr>) q) = map_option kept (t1 q)"
      using Cons.prems(3) n by (simp add: at)
    have "p \<notin> set ps" using Cons.prems(1) by (auto simp: parents_first_Cons)
    then have "is_dir_at t' q = is_dir_at ?t q \<and> (t' q = None \<longleftrightarrow> ?t q = None)" if "q \<in> set ps" for q
    proof -
      have "map_option kept (t' q) = map_option kept (?t q)"
        using that at [of q] \<open>p \<notin> set ps\<close> by (metis (full_types))
      from kept_dir [of t' q ?t, OF this] kept_None [of t' q ?t, OF this] show ?thesis ..
    qed
    with Cons.prems(4)
    show "\<forall>q \<in> set ps. tg_tree (tg\<lparr>tg_tree := t'\<rparr>) q \<noteq> None \<longrightarrow>
        is_dir_at (tg_tree (tg\<lparr>tg_tree := t'\<rparr>)) q = is_dir_at t1 q"
      by simp
  qed
  with step show ?case by fastforce
qed

section \<open>Snapshots\<close>

text \<open>
  An index together with the tree it was taken of: the same paths and kinds, in key order; every path
  is made of plain names and none is the reserved one.
\<close>

definition snapshot :: "FileIndex \<Rightarrow> tree \<Rightarrow> bool" where
  "snapshot ix t \<longleftrightarrow> bt_ok (ix_entries ix) \<and> wf_tree t \<and>
     (\<forall>p. map_option ix_k (map_of (ix_entries ix) p) = map_option tn_kind (t p)) \<and>
     (\<forall>p. t p \<noteq> None \<longrightarrow> plain_path p \<and> p \<noteq> TOMBSTONE_ENTRY)"

text \<open>The heuristic of the difference: equal metadata means an equal node, as far as a restore keeps it.\<close>

definition detects :: "FileIndex \<Rightarrow> tree \<Rightarrow> FileIndex \<Rightarrow> tree \<Rightarrow> bool" where
  "detects ix0 t0 ix1 t1 \<longleftrightarrow> (\<forall>p e. map_of (ix_entries ix0) p = Some e \<longrightarrow>
     map_of (ix_entries ix1) p = Some e \<longrightarrow> map_option kept (t0 p) = map_option kept (t1 p))"

text \<open>No directory became something else at the same path, nor the other way round.\<close>

definition same_kinds :: "tree \<Rightarrow> tree \<Rightarrow> bool" where
  "same_kinds t0 t1 \<longleftrightarrow> (\<forall>p. t0 p \<noteq> None \<longrightarrow> t1 p \<noteq> None \<longrightarrow> is_dir_at t0 p = is_dir_at t1 p)"

lemma snapshot_dom: "snapshot ix t \<Longrightarrow> map_of (ix_entries ix) p = None \<longleftrightarrow> t p = None"
  unfolding snapshot_def by (metis map_option_is_None)

lemma snapshot_path: "snapshot ix t \<Longrightarrow> t p \<noteq> None \<Longrightarrow> plain_path p \<and> p \<noteq> TOMBSTONE_ENTRY"
  by (simp add: snapshot_def)

lemma diff_sorted:
  assumes "bt_ok (ix_entries cur)"
  shows "sorted_wrt (<) (df_changed (diff_from cur prev))"
proof -
  have "sorted_wrt (\<lambda>a b. fst a < fst b) (ix_entries cur)"
    using assms by (simp add: bt_ok_def sorted_wrt_map)
  then have "sorted_wrt (\<lambda>a b. fst a < fst b) (filter (\<lambda>(p, e). map_of (ix_entries prev) p \<noteq> Some e) (ix_entries cur))"
    by (rule sorted_wrt_filter)
  then show ?thesis
    by (simp add: diff_from_def sorted_wrt_map)
qed

lemma set_diff:
  assumes "bt_ok (ix_entries cur)"
  shows "p \<in> set (df_changed (diff_from cur prev)) \<longleftrightarrow>
      (\<exists>e. map_of (ix_entries cur) p = Some e \<and> map_of (ix_entries prev) p \<noteq> Some e)"
    and "p \<in> set (df_deleted (diff_from cur prev)) \<longleftrightarrow>
      map_of (ix_entries prev) p \<noteq> None \<and> map_of (ix_entries cur) p = None"
proof -
  have "(p, e) \<in> set (ix_entries cur) \<longleftrightarrow> map_of (ix_entries cur) p = Some e" for e
    using bt_ok_distinct [OF assms] by simp
  then show "p \<in> set (df_changed (diff_from cur prev)) \<longleftrightarrow>
      (\<exists>e. map_of (ix_entries cur) p = Some e \<and> map_of (ix_entries prev) p \<noteq> Some e)"
    by (force simp: diff_from_def)
  show "p \<in> set (df_deleted (diff_from cur prev)) \<longleftrightarrow>
      map_of (ix_entries prev) p \<noteq> None \<and> map_of (ix_entries cur) p = None"
    by (auto simp: diff_from_def map_of_eq_None_iff)
qed

lemma append_changed_all:
  "\<forall>p \<in> set ps. node_at root p \<noteq> None \<Longrightarrow>
     append_changed root ps = Some (map (\<lambda>p. (p, node_of (the (node_at root p)))) ps)"
  by (induction ps) auto

text \<open>The tree of a source: what an archive keeps of its nodes.\<close>

definition tree_of :: "fs \<Rightarrow> tree" where
  "tree_of root = (\<lambda>p. map_option node_of (node_at root p))"

lemma append_changed_built:
  "\<forall>p \<in> set ps. tree_of root p \<noteq> None \<Longrightarrow>
     append_changed root ps = Some (map (\<lambda>p. (p, the (tree_of root p))) ps)"
proof -
  assume a: "\<forall>p \<in> set ps. tree_of root p \<noteq> None"
  then have "append_changed root ps = Some (map (\<lambda>p. (p, node_of (the (node_at root p)))) ps)"
    by (intro append_changed_all) (auto simp: tree_of_def)
  moreover have "\<forall>p \<in> set ps. node_of (the (node_at root p)) = the (tree_of root p)"
    using a by (auto simp: tree_of_def)
  ultimately show ?thesis
    by (simp cong: map_cong)
qed

text \<open>What the tombstones leave differs from the new tree in changed paths only.\<close>

lemma tombstones_leave:
  assumes s0: "snapshot ix0 t0" and s1: "snapshot ix1 t1" and start: "alike tr t0" "open_dirs t0"
    and laws: "tar_laws api" and det: "detects ix0 t0 ix1 t1" and d: "d = diff_from ix1 ix0"
  obtains k t where "apply_tombstones api (df_deleted d) \<lparr>tg_tree = tr, tg_outside = os\<rparr> =
      (Inr k, \<lparr>tg_tree = t, tg_outside = os\<rparr>)"
    "\<forall>q. q \<notin> set (df_changed d) \<longrightarrow> map_option kept (t q) = map_option kept (t1 q)"
    "\<forall>q. t1 q \<noteq> None \<longrightarrow> t q = tr q" "df_deleted d = [] \<longrightarrow> t = tr"
proof -
  let ?tg = "\<lparr>tg_tree = tr, tg_outside = os\<rparr>"
  have ok: "bt_ok (ix_entries ix1)" "wf_tree t0" "wf_tree t1"
    using s0 s1 by (simp_all add: snapshot_def)
  note sd = set_diff [OF ok(1), of _ ix0, folded d] and none = alike_None [OF start(1)]
  have del: "\<forall>p \<in> set (df_deleted d). tr p \<noteq> None \<and> t1 p = None \<and> plain_path p"
  proof
    fix p assume "p \<in> set (df_deleted d)"
    then have p: "t0 p \<noteq> None" "t1 p = None"
      using sd(2) [of p] snapshot_dom [OF s0, of p] snapshot_dom [OF s1, of p] by simp_all
    with snapshot_path [OF s0 p(1)] none show "tr p \<noteq> None \<and> t1 p = None \<and> plain_path p" by simp
  qed
  have wf: "wf_tree tr \<and> open_dirs tr \<and> remove_law api"
    using alike_wf [OF start(1) ok(2)] alike_open_dirs [OF start] laws by (simp add: tar_laws_def)
  obtain k t where t: "apply_tombstones api (df_deleted d) ?tg = (Inr k, ?tg\<lparr>tg_tree := t\<rparr>)" "remains tr t"
    "\<forall>q. t1 q \<noteq> None \<longrightarrow> t q = tr q" "\<forall>p \<in> set (df_deleted d). t p = None" "\<forall>p. tr p = None \<longrightarrow> t p = None"
    using apply_tombstones_remains [OF wf ok(3) del, of ?tg] wf by (auto simp: remains_def)
  have eq: "map_option kept (t q) = map_option kept (t1 q)" if "q \<notin> set (df_changed d)" for q
  proof (cases "t1 q")
    case None
    then have "t0 q = None \<or> q \<in> set (df_deleted d)"
      using sd(2) [of q] snapshot_dom [OF s0, of q] snapshot_dom [OF s1, of q] by (cases "t0 q") simp_all
    with t(4,5) None none show ?thesis by auto
  next
    case (Some n)
    then obtain e where e: "map_of (ix_entries ix1) q = Some e"
      using snapshot_dom [OF s1, of q] by auto
    with that sd(1) have "map_of (ix_entries ix0) q = Some e" by blast
    with e det have "map_option kept (t0 q) = map_option kept (t1 q)" by (simp add: detects_def)
    moreover have "t q = tr q" using t(3) Some by simp
    ultimately show ?thesis using alike_at [OF start(1), of q] by simp
  qed
  have same: "t = tr" if "df_deleted d = []" using t(1) that by simp
  show ?thesis
    by (rule that [of k t]) (use t eq same in simp_all)
qed

text \<open>An increment turns the tree of the last snapshot into the tree of the source.\<close>

lemma slice_restores:
  assumes s0: "snapshot ix0 t0" and s1: "snapshot ix1 (tree_of root)" and laws: "tar_laws api"
    and start: "alike tr t0" "open_dirs t0" and "open": "open_dirs (tree_of root)"
    and det: "detects ix0 t0 ix1 (tree_of root)" and kinds: "same_kinds t0 (tree_of root)"
    and d: "d = diff_from ix1 ix0"
  shows "\<exists>es n t. build_incr_tar api root (df_changed d) (df_deleted d) = Some es \<and>
    file_restore api (ta_write api es) True \<lparr>tg_tree = tr, tg_outside = os\<rparr> =
      (Inr n, \<lparr>tg_tree = t, tg_outside = os\<rparr>) \<and> alike t (tree_of root)"
proof -
  let ?t1 = "tree_of root" and ?tg = "\<lambda>t. \<lparr>tg_tree = t, tg_outside = os\<rparr>"
  have ok: "bt_ok (ix_entries ix1)" "wf_tree ?t1"
    using s1 by (simp_all add: snapshot_def)
  have ch: "\<forall>p \<in> set (df_changed d). ?t1 p \<noteq> None \<and> p \<noteq> TOMBSTONE_ENTRY"
  proof
    fix p assume "p \<in> set (df_changed d)"
    then have "?t1 p \<noteq> None"
      using set_diff(1) [OF ok(1), of p ix0] d snapshot_dom [OF s1, of p] by auto
    with snapshot_path [OF s1] show "?t1 p \<noteq> None \<and> p \<noteq> TOMBSTONE_ENTRY" by blast
  qed
  obtain k t where t: "apply_tombstones api (df_deleted d) (?tg tr) = (Inr k, ?tg t)"
    "\<forall>q. q \<notin> set (df_changed d) \<longrightarrow> map_option kept (t q) = map_option kept (?t1 q)"
    "\<forall>q. ?t1 q \<noteq> None \<longrightarrow> t q = tr q" "df_deleted d = [] \<longrightarrow> t = tr"
    by (rule tombstones_leave [OF s0 s1 start laws det d])
  have same: "is_dir_at t p \<longleftrightarrow> is_dir_at ?t1 p" if "p \<in> set (df_changed d)" "t p \<noteq> None" for p
  proof -
    have "t p = tr p" using ch that(1) t(3) by blast
    then have "map_option kept (t p) = map_option kept (t0 p)" using alike_at [OF start(1)] by simp
    then have "is_dir_at t p = is_dir_at t0 p" "t0 p \<noteq> None"
      using kept_dir [of t p t0] kept_None [of t p t0] that(2) by simp_all
    with kinds ch that(1) show ?thesis by (simp add: same_kinds_def)
  qed
  have "\<exists>n u. unpack_entries api (map (\<lambda>p. (p, the (?t1 p))) (df_changed d)) (?tg t) = (Inr n, ?tg t\<lparr>tg_tree := u\<rparr>) \<and>
      alike u ?t1"
    by (rule unpack_changed [OF _ ok(2) "open" sorted_parents_first ch])
      (use laws diff_sorted [OF ok(1)] d t(2) same in \<open>simp_all add: tar_laws_def\<close>)
  then obtain n u where n: "unpack_entries api (map (\<lambda>p. (p, the (?t1 p))) (df_changed d)) (?tg t) = (Inr n, ?tg u)"
    "alike u ?t1"
    by auto
  define es where "es = (if df_deleted d \<noteq> [] then [(TOMBSTONE_ENTRY, tombstone_node (ta_names api (df_deleted d)))] else []) @
     map (\<lambda>p. (p, the (?t1 p))) (df_changed d)"
  have "build_incr_tar api root (df_changed d) (df_deleted d) = Some es"
    using append_changed_built [of "df_changed d" root] ch by (simp add: build_incr_tar_def es_def)
  moreover have "\<exists>m. unpack_entries api es (?tg tr) = (Inr m, ?tg u)"
  proof (cases "df_deleted d = []")
    case True
    with n t(4) show ?thesis by (auto simp: es_def)
  next
    case False
    have "ta_parse_names api (ta_names api (df_deleted d)) = Some (df_deleted d)"
      using laws by (simp add: tar_laws_def)
    with t(1) n False show ?thesis
      by (auto simp: es_def tombstone_node_def Let_def)
  qed
  then obtain m where "unpack_entries api es (?tg tr) = (Inr m, ?tg u)" by blast
  then have "file_restore api (ta_write api es) True (?tg tr) = (Inr m, ?tg u)"
    using laws by (simp add: file_restore_def unpack_tar_def tar_laws_def)
  ultimately show ?thesis
    using n(2) by blast
qed

end
