(* ===== verification/XB_File_Index.thy ===== *)
theory XB_File_Index
  imports XB_File_Engine
begin

text \<open>
  The index of a directory and its tree (\<open>engine/file/index.rs\<close>): walking a source whose names are
  names of files gives a snapshot of its tree, so that the lemmas on increments and archives apply to
  what the program reads from disk.
\<close>

section \<open>Directories with proper names\<close>

text \<open>A name that \<open>read_dir\<close> can yield, and a directory in which no name comes twice.\<close>

definition file_name_ok :: "string \<Rightarrow> bool" where
  "file_name_ok s \<longleftrightarrow> s \<noteq> [] \<and> CHR ''/'' \<notin> set s \<and> s \<noteq> ''.'' \<and> s \<noteq> ''..''"

fun names_ok :: "(string \<times> fs) list \<Rightarrow> bool" where
  "names_ok [] = True"
| "names_ok ((name, Fs md link content children) # rest) =
     (file_name_ok name \<and> name \<notin> fst ` set rest \<and> names_ok rest \<and>
      (case children of None \<Rightarrow> True | Some cs \<Rightarrow> names_ok cs))"

lemma path_join_inj:
  assumes "file_name_ok m" and "file_name_ok n"
    and "k = path_join rel m \<or> below (path_join rel m) k" and "k = path_join rel n \<or> below (path_join rel n) k"
  shows "m = n"
proof -
  have first: "takeWhile (\<lambda>c. c \<noteq> CHR ''/'') (m @ r) = m" if "file_name_ok m" "r = [] \<or> r = CHR ''/'' # s" for m r s
  proof -
    have "takeWhile (\<lambda>c. c \<noteq> CHR ''/'') (m @ r) = m @ takeWhile (\<lambda>c. c \<noteq> CHR ''/'') r"
      using that(1) by (intro takeWhile_append2) (auto simp: file_name_ok_def)
    with that(2) show ?thesis by auto
  qed
  define pre where "pre = (if rel = [] then [] else rel @ ''/'')"
  have j: "path_join rel x = pre @ x" for x
    by (simp add: path_join_def pre_def)
  obtain r s where r: "k = pre @ m @ r" "r = [] \<or> r = CHR ''/'' # s"
    using assms(3) by (auto simp: j below_iff)
  obtain r' s' where r': "k = pre @ n @ r'" "r' = [] \<or> r' = CHR ''/'' # s'"
    using assms(4) by (auto simp: j below_iff)
  from r(1) r'(1) have "m @ r = n @ r'" by simp
  with first [OF assms(1) r(2)] first [OF assms(2) r'(2)] show ?thesis by simp
qed

lemma path_join_nonempty: "file_name_ok name \<Longrightarrow> path_join rel name \<noteq> []"
  by (simp add: path_join_def file_name_ok_def)

lemma below_join: "rel \<noteq> [] \<Longrightarrow> below rel (path_join rel name)"
  by (simp add: path_join_def)

text \<open>Induction along the nodes, and the nodes below one entry.\<close>

lemma fs_induct [case_names 1 2]:
  assumes "\<And>rel. P rel []"
    and "\<And>rel name md link content children rest.
      (\<And>cs. md_dir md \<Longrightarrow> children = Some cs \<Longrightarrow> P (path_join rel name) cs) \<Longrightarrow> P rel rest \<Longrightarrow>
      P rel ((name, Fs md link content children) # rest)"
  shows "P rel cs"
proof (induction rel cs rule: fs_nodes.induct)
  case (1 rel)
  show ?case by (rule assms(1))
next
  case (2 rel name md link content children rest)
  then show ?case
    by (intro assms(2)) (cases children; cases "md_dir md"; simp)+
qed

definition sub_nodes :: "string \<Rightarrow> Metadata \<Rightarrow> (string \<times> fs) list option \<Rightarrow> (string \<times> fs) list" where
  "sub_nodes rel md children =
     (case children of Some cs \<Rightarrow> (if md_dir md then fs_nodes rel cs else []) | None \<Rightarrow> [])"

lemma sub_nodes_simps [simp]:
  "sub_nodes rel md None = []" "\<not> md_dir md \<Longrightarrow> sub_nodes rel md children = []"
  "md_dir md \<Longrightarrow> sub_nodes rel md (Some cs) = fs_nodes rel cs"
  by (simp_all add: sub_nodes_def split: option.splits)

lemma set_fs_nodes1:
  "x \<in> set (fs_nodes rel ((name, Fs md link content children) # rest)) \<longleftrightarrow>
     x = (path_join rel name, Fs md link content children) \<or>
     (\<exists>cs. md_dir md \<and> children = Some cs \<and> x \<in> set (fs_nodes (path_join rel name) cs)) \<or>
     x \<in> set (fs_nodes rel rest)"
  by (cases children) simp_all

lemma set_fs_nodes2:
  "k \<in> fst ` set (fs_nodes rel ((name, Fs md link content children) # rest)) \<longleftrightarrow>
     k = path_join rel name \<or>
     (\<exists>cs. md_dir md \<and> children = Some cs \<and> k \<in> fst ` set (fs_nodes (path_join rel name) cs)) \<or>
     k \<in> fst ` set (fs_nodes rel rest)"
  unfolding image_iff Bex_def set_fs_nodes1 by force

lemmas set_fs_nodes = set_fs_nodes1 set_fs_nodes2

declare fs_nodes.simps(2) [simp del]
lemma fs_nodes_Cons:
  "fs_nodes rel ((name, Fs md link content children) # rest) =
     (path_join rel name, Fs md link content children) # sub_nodes (path_join rel name) md children @ fs_nodes rel rest"
  by (simp add: fs_nodes.simps(2) sub_nodes_def split: option.splits)

lemma fs_nodes_prefix:
  "k \<in> fst ` set (fs_nodes rel cs) \<Longrightarrow> names_ok cs \<Longrightarrow>
     \<exists>name \<in> fst ` set cs. file_name_ok name \<and> (k = path_join rel name \<or> below (path_join rel name) k)"
proof (induction rel cs rule: fs_induct)
  case (1 rel)
  then show ?case by simp
next
  case (2 rel name md link content children rest)
  have name: "file_name_ok name" using "2.prems"(2) by simp
  consider "k = path_join rel name"
    | cs where "md_dir md" "children = Some cs" "k \<in> fst ` set (fs_nodes (path_join rel name) cs)"
    | "k \<in> fst ` set (fs_nodes rel rest)"
    using "2.prems"(1) unfolding set_fs_nodes by blast
  then show ?case
  proof cases
    case 1
    with name show ?thesis by simp
  next
    case (2 cs)
    with "2.IH"(1) [OF 2(1,2,3)] "2.prems"(2) obtain n where n: "file_name_ok n"
      "k = path_join (path_join rel name) n \<or> below (path_join (path_join rel name) n) k"
      by auto
    have "below (path_join rel name) (path_join (path_join rel name) n)"
      by (rule below_join [OF path_join_nonempty [OF name]])
    with n(2) have "below (path_join rel name) k"
      using below_trans by blast
    with name show ?thesis by simp
  next
    case 3
    with "2.IH"(2) "2.prems"(2) show ?thesis by auto
  qed
qed

lemma distinct_fs_nodes: "names_ok cs \<Longrightarrow> distinct (map fst (fs_nodes rel cs))"
proof (induction rel cs rule: fs_induct)
  case (1 rel)
  then show ?case by simp
next
  case (2 rel name md link content children rest)
  let ?j = "path_join rel name"
  let ?sub = "sub_nodes ?j md children"
  have name: "file_name_ok name" "names_ok rest" "name \<notin> fst ` set rest" using "2.prems" by simp_all
  have sub: "below ?j k" if k: "k \<in> fst ` set ?sub" for k
  proof -
    obtain cs where cs: "md_dir md" "children = Some cs" "k \<in> fst ` set (fs_nodes ?j cs)"
      using k by (cases "md_dir md"; cases children) simp_all
    then obtain n where "k = path_join ?j n \<or> below (path_join ?j n) k"
      using fs_nodes_prefix [OF cs(3)] "2.prems" by auto
    moreover have "below ?j (path_join ?j n)"
      by (rule below_join [OF path_join_nonempty [OF name(1)]])
    ultimately show ?thesis using below_trans by blast
  qed
  have rest: "\<not> (k = ?j \<or> below ?j k)" if k: "k \<in> fst ` set (fs_nodes rel rest)" for k
  proof -
    obtain n where "n \<in> fst ` set rest" "file_name_ok n" "k = path_join rel n \<or> below (path_join rel n) k"
      using fs_nodes_prefix [OF k name(2)] by auto
    then show ?thesis
      using path_join_inj [of n name k rel] name by blast
  qed
  have "distinct (map fst ?sub)"
    using "2.IH"(1) "2.prems" by (cases children; cases "md_dir md") simp_all
  moreover have "?j \<notin> fst ` set ?sub" "?j \<notin> fst ` set (fs_nodes rel rest)"
    using sub rest by (metis below_irrefl) (use rest in blast)
  moreover have "fst ` set ?sub \<inter> fst ` set (fs_nodes rel rest) = {}"
    using sub rest by blast
  ultimately show ?case
    using "2.IH"(2) name(2) by (simp add: fs_nodes_Cons)
qed

section \<open>What leads to a node is a directory\<close>

lemma below_path_join:
  assumes "below a (path_join rel name)" and "file_name_ok name"
  shows "rel \<noteq> [] \<and> (a = rel \<or> below a rel)"
proof -
  obtain r where r: "path_join rel name = a @ CHR ''/'' # r"
    using assms(1) by (auto simp: below_iff)
  have n: "CHR ''/'' \<notin> set name" using assms(2) by (simp add: file_name_ok_def)
  have "rel \<noteq> []"
    using r n by (auto simp: path_join_def)
  with r have "rel @ CHR ''/'' # name = a @ CHR ''/'' # r"
    by (simp add: path_join_def)
  then consider us where "rel = a @ us" "us @ CHR ''/'' # name = CHR ''/'' # r"
    | us where "rel @ us = a" "CHR ''/'' # name = us @ CHR ''/'' # r"
    unfolding append_eq_append_conv2 by blast
  then have "a = rel \<or> below a rel"
  proof cases
    case (1 us)
    then show ?thesis by (cases us) auto
  next
    case (2 us)
    with n show ?thesis by (cases us) auto
  qed
  with \<open>rel \<noteq> []\<close> show ?thesis by blast
qed

lemma fs_nodes_parents:
  "(k, f) \<in> set (fs_nodes rel cs) \<Longrightarrow> names_ok cs \<Longrightarrow> below a k \<Longrightarrow>
     (rel \<noteq> [] \<and> (a = rel \<or> below a rel)) \<or> (\<exists>g. (a, g) \<in> set (fs_nodes rel cs) \<and> md_dir (fs_meta g))"
proof (induction rel cs rule: fs_induct)
  case (1 rel)
  then show ?case by simp
next
  case (2 rel name md link content children rest)
  let ?j = "path_join rel name"
  have name: "file_name_ok name" "names_ok rest" using "2.prems" by simp_all
  consider "k = ?j" | cs where "md_dir md" "children = Some cs" "(k, f) \<in> set (fs_nodes ?j cs)"
    | "(k, f) \<in> set (fs_nodes rel rest)"
    using "2.prems"(1) unfolding set_fs_nodes by blast
  then show ?case
  proof cases
    case 1
    with "2.prems"(3) below_path_join [OF _ name(1)] show ?thesis by blast
  next
    case (2 cs)
    have "names_ok cs" using "2.prems"(2) 2(2) by simp
    with "2.IH"(1) [OF 2(1,2,3) _ "2.prems"(3)]
    consider "a = ?j" | "below a ?j" | g where "(a, g) \<in> set (fs_nodes ?j cs)" "md_dir (fs_meta g)"
      by blast
    then show ?thesis
    proof cases
      case 1
      with 2(1) show ?thesis unfolding set_fs_nodes by auto
    next
      case 2
      with below_path_join [OF _ name(1)] show ?thesis by blast
    next
      case (3 g)
      with 2 show ?thesis unfolding set_fs_nodes by blast
    qed
  next
    case 3
    with "2.IH"(2) [OF 3 name(2) "2.prems"(3)] show ?thesis unfolding set_fs_nodes by auto
  qed
qed

lemma plain_path_join:
  fixes name rel :: string
  assumes "file_name_ok name" and "rel = [] \<or> plain_path rel"
  shows "plain_path (path_join rel name)"
proof -
  have word: "split_on (CHR ''/'') name = [name]"
    using assms(1) by (simp add: file_name_ok_def split_on_word)
  show ?thesis
  proof (cases "rel = []")
    case True
    with word assms(1) show ?thesis
      by (auto simp: plain_path_def path_join_def file_name_ok_def)
  next
    case False
    then have "split_on (CHR ''/'') (path_join rel name) = split_on (CHR ''/'') rel @ [name]"
      using word split_on_append [of "CHR ''/''" rel name] by (simp add: path_join_def)
    with False assms show ?thesis
      by (auto simp: plain_path_def file_name_ok_def path_join_def)
  qed
qed

lemma fs_nodes_inside:
  "k \<in> fst ` set (fs_nodes rel cs) \<Longrightarrow> names_ok cs \<Longrightarrow> rel = [] \<or> plain_path rel \<Longrightarrow> plain_path k"
proof (induction rel cs rule: fs_induct)
  case (2 rel name md link content children rest)
  then have "plain_path (path_join rel name)"
    using plain_path_join by simp
  with 2 show ?case
    unfolding set_fs_nodes by (elim disjE exE conjE) simp_all
qed simp

section \<open>Walking a directory\<close>

lemma kind_of_entry:
  "entry_from_meta md link = Inr e \<Longrightarrow> ix_k e = kind_from_meta md"
  by (auto simp: entry_from_meta_def Let_def split: if_splits)

text \<open>The index entries of the nodes, inserted in the order of the walk.\<close>

definition entry_of :: "fs \<Rightarrow> IndexEntry" where
  "entry_of f = projr (entry_from_meta (fs_meta f) (fs_link f))"

lemma walk_nodes:
  "walk rel cs es = Inr es' \<Longrightarrow>
     es' = fold (\<lambda>(p, f) m. bt_insert p (entry_of f) m) (fs_nodes rel cs) es \<and>
     (\<forall>(p, f) \<in> set (fs_nodes rel cs). \<exists>e. entry_from_meta (fs_meta f) (fs_link f) = Inr e)"
proof (induction rel cs es arbitrary: es' rule: walk.induct)
  case (1 rel es)
  then show ?case by simp
next
  case (2 rel name md link content children rest es)
  let ?j = "path_join rel name"
  obtain e where e: "entry_from_meta md link = Inr e"
    using "2.prems" by (auto simp: bind_res_Inr_iff)
  let ?es1 = "bt_insert ?j e es"
  let ?sub = "if md_dir md then (case children of None \<Rightarrow> Inl IndexFailed | Some cs \<Rightarrow> walk ?j cs ?es1)
      else Inr ?es1"
  obtain es2 where es2: "?sub = Inr es2" "walk rel rest es2 = Inr es'"
    using "2.prems" e by (auto simp: bind_res_Inr_iff Let_def)
  note r = "2.IH"(2) [OF refl es2(2)]
  have head: "entry_of (Fs md link content children) = e"
    by (simp add: entry_of_def e)
  show ?case
  proof (cases "md_dir md")
    case False
    with es2(1) r e head show ?thesis by (simp add: fs_nodes_Cons)
  next
    case True
    then obtain cs where cs: "children = Some cs" "walk ?j cs ?es1 = Inr es2"
      using es2(1) by (auto split: option.splits)
    note s = "2.IH"(1) [OF refl True cs]
    from True cs(1) s r e head show ?thesis by (auto simp: fs_nodes_Cons)
  qed
qed

lemma fold_bt_insert:
  "bt_ok m \<Longrightarrow> distinct (map fst nodes) \<Longrightarrow>
     bt_ok (fold (\<lambda>(p, f) m. bt_insert p (g f) m) nodes m) \<and>
     map_of (fold (\<lambda>(p, f) m. bt_insert p (g f) m) nodes m) p =
       (case map_of nodes p of Some f \<Rightarrow> Some (g f) | None \<Rightarrow> map_of m p)"
proof (induction nodes arbitrary: m)
  case Nil
  then show ?case by simp
next
  case (Cons n nodes)
  obtain q f where n: "n = (q, f)" by (cases n)
  from Cons.prems n have "q \<notin> fst ` set nodes" by simp
  then have "map_of nodes q = None" by (simp add: map_of_eq_None_iff)
  with Cons.IH [of "bt_insert q (g f) m"] Cons.prems n show ?case
    by (auto split: option.splits)
qed

text \<open>The reserved name, as \<open>reject_reserved_paths\<close> (\<open>pipeline/backup.rs\<close>) looks for it.\<close>

definition reject_reserved_paths :: "FileIndex \<Rightarrow> backup_error + unit" where
  "reject_reserved_paths ix =
     (if \<exists>(p, e) \<in> set (ix_entries ix). p = ''.xb'' \<or> take 4 p = ''.xb/'' then Inl ReservedPath else Inr ())"

text \<open>The source is a directory, seen the same with and without following links.\<close>

definition dir_source :: "source \<Rightarrow> fs \<Rightarrow> bool" where
  "dir_source src root \<longleftrightarrow> so_self src = Some root \<and> so_target src = Some root \<and> md_dir (fs_meta root) \<and>
     (\<forall>cs. fs_children root = Some cs \<longrightarrow> names_ok cs)"

lemma node_at_dir:
  "md_dir (fs_meta root) \<Longrightarrow> fs_children root = Some cs \<Longrightarrow> node_at root p = map_of (fs_nodes [] cs) p"
  by (cases root) (simp add: node_at_def)

lemma is_dir_node_of: "tn_kind (node_of f) = EntryDir \<longleftrightarrow> md_dir (fs_meta f)"
  by (simp add: node_of_def kind_from_meta_def)

lemma index_snapshot:
  assumes "index_build src = Inr ix" and "dir_source src root" and "reject_reserved_paths ix = Inr ()"
  shows "snapshot ix (tree_of root)"
proof -
  have root: "so_self src = Some root" "md_dir (fs_meta root)"
    using assms(2) by (simp_all add: dir_source_def)
  obtain cs where cs: "fs_children root = Some cs" "names_ok cs" "walk [] cs [] = Inr (ix_entries ix)"
    using assms(1,2) root by (cases root) (auto simp: index_build_def dir_source_def bind_res_Inr_iff split: option.splits)
  note at = node_at_dir [OF root(2) cs(1)]
  note w = walk_nodes [OF cs(3)]
  note f = fold_bt_insert [OF bt_ok_Nil distinct_fs_nodes [OF cs(2), of "[]"], of entry_of]
  have ixs: "ix_entries ix = fold (\<lambda>(p, f) m. bt_insert p (entry_of f) m) (fs_nodes [] cs) []"
    using w by blast
  have entries: "map_of (ix_entries ix) p = map_option entry_of (node_at root p)" for p
    unfolding ixs at using f [of p] by (auto split: option.splits)
  have kind: "ix_k (entry_of g) = tn_kind (node_of g)" if "node_at root p = Some g" for p g
  proof -
    have "(p, g) \<in> set (fs_nodes [] cs)" using that at by (simp add: map_of_SomeD)
    with w obtain e where "entry_from_meta (fs_meta g) (fs_link g) = Inr e" by blast
    with kind_of_entry [OF this] show ?thesis by (simp add: entry_of_def node_of_def)
  qed
  have kinds: "map_option ix_k (map_of (ix_entries ix) p) = map_option tn_kind (tree_of root p)" for p
    using kind [of p] by (cases "node_at root p") (simp_all add: entries tree_of_def)
  have "bt_ok (ix_entries ix)"
    unfolding ixs using f by blast
  moreover have "wf_tree (tree_of root)"
    unfolding wf_tree_def
  proof (intro allI impI)
    fix p a assume p: "tree_of root p \<noteq> None" "below a p"
    then obtain g where "(p, g) \<in> set (fs_nodes [] cs)"
      by (auto simp: tree_of_def at dest: map_of_SomeD)
    from fs_nodes_parents [OF this cs(2) p(2)] obtain h where h: "(a, h) \<in> set (fs_nodes [] cs)" "md_dir (fs_meta h)"
      by auto
    then have "node_at root a = Some h"
      using distinct_fs_nodes [OF cs(2)] by (simp add: at)
    with h(2) show "is_dir_at (tree_of root) a"
      by (simp add: is_dir_at_def tree_of_def is_dir_node_of)
  qed
  moreover have "plain_path p \<and> p \<noteq> TOMBSTONE_ENTRY" if p: "tree_of root p \<noteq> None" for p
  proof
    from p obtain g where g: "node_at root p = Some g" by (auto simp: tree_of_def)
    then have "p \<in> fst ` set (fs_nodes [] cs)" by (force simp: at dest: map_of_SomeD)
    then show "plain_path p"
      using fs_nodes_inside cs(2) by blast
    have "map_of (ix_entries ix) p = Some (entry_of g)"
      using entries g by simp
    then have "(p, entry_of g) \<in> set (ix_entries ix)" by (rule map_of_SomeD)
    with assms(3) show "p \<noteq> TOMBSTONE_ENTRY"
      by (force simp: reject_reserved_paths_def TOMBSTONE_ENTRY_def split: if_splits)
  qed
  ultimately show ?thesis
    using kinds by (simp add: snapshot_def)
qed

section \<open>The archive of a full backup\<close>

lemma full_restores:
  assumes laws: "tar_laws api" and s: "snapshot ix (tree_of root)" and src: "dir_source src root"
    and "open": "open_dirs (tree_of root)" and es: "build_tar api src = Some es"
  shows "\<exists>n t. file_restore api (ta_write api es) True \<lparr>tg_tree = (\<lambda>_. None), tg_outside = os\<rparr> =
    (Inr n, \<lparr>tg_tree = t, tg_outside = os\<rparr>) \<and> alike t (tree_of root)"
proof -
  let ?t = "tree_of root"
  obtain cs where cs: "fs_children root = Some cs" "ta_dir_all api cs = Some es" "md_dir (fs_meta root)"
    using src es by (cases root) (auto simp: dir_source_def build_tar_def split: option.splits)
  note at = node_at_dir [OF cs(3,1)]
  obtain ps where ps: "es = map (\<lambda>p. (p, node_of (the (map_of (fs_nodes [] cs) p)))) ps"
    "set ps = fst ` set (fs_nodes [] cs)" "parents_first ps"
    using laws cs(2) unfolding tar_laws_def dir_all_law_def by metis
  have dom: "p \<in> set ps \<longleftrightarrow> ?t p \<noteq> None" for p
    unfolding ps(2) by (simp add: tree_of_def at map_of_eq_None_iff)
  have "es = map (\<lambda>p. (p, the (?t p))) ps"
    unfolding ps(1) using dom by (auto simp: tree_of_def at)
  moreover have "\<exists>n t. unpack_entries api (map (\<lambda>p. (p, the (?t p))) ps) \<lparr>tg_tree = (\<lambda>_. None), tg_outside = os\<rparr> =
      (Inr n, \<lparr>tg_tree = (\<lambda>_. None), tg_outside = os\<rparr>\<lparr>tg_tree := t\<rparr>) \<and> alike t ?t"
  proof (rule unpack_changed [OF _ _ "open" ps(3)])
    show "unpack_law api" using laws by (simp add: tar_laws_def)
    show "wf_tree ?t" using s by (simp add: snapshot_def)
    show "\<forall>p \<in> set ps. ?t p \<noteq> None \<and> p \<noteq> TOMBSTONE_ENTRY"
      using dom snapshot_path [OF s] by blast
    show "\<forall>q. q \<notin> set ps \<longrightarrow>
        map_option kept (tg_tree \<lparr>tg_tree = (\<lambda>_. None), tg_outside = os\<rparr> q) = map_option kept (?t q)"
      using dom by auto
  qed simp
  ultimately show ?thesis
    using laws by (fastforce simp: file_restore_def unpack_tar_def tar_laws_def)
qed

end
