(* ===== verification/XB_File.thy ===== *)
theory XB_File
  imports XB_Incremental XB_File_Index
begin

text \<open>
  The pipelines of the file engine: full and incremental backups (\<open>pipeline/backup.rs\<close>) and the restore
  of a chain (\<open>pipeline/restore.rs\<close>). A file backup stores its data, its index beside them and the
  manifest last; its oplog range holds generations in place of times. The source is given as the index
  walk and the dump meet it, so it may change between the two. The lemmas say what a run leaves behind
  when it succeeds and when it fails.
\<close>

section \<open>Data\<close>

definition FILE_CHAIN_START :: OplogTimestamp where
  "FILE_CHAIN_START = OplogTs 1 0"

text \<open>The index as bytes: encoding can fail, decoding checks the form.\<close>

record index_codec =
  ix_encode :: "FileIndex \<Rightarrow> bytes option"
  ix_parse :: "bytes \<Rightarrow> FileIndex option"

text \<open>
  What a run meets: the source when the index is made and when it is dumped, and the bytes that a
  dump has written when it breaks off.
\<close>

record file_env =
  fe_indexed :: source
  fe_dumped :: source
  fe_partial :: bytes

record FileIncrementalOutcome =
  fi_backup_id :: string
  fi_base_id :: "string option"
  fi_change_count :: u64
  fi_stored_size :: u64
  fi_promoted :: bool

record FileChain =
  fc_base_id :: string
  fc_head_id :: string
  fc_head_gen :: u32

section \<open>The index beside the data\<close>

definition write_file_index_or_cleanup ::
  "index_codec \<Rightarrow> string \<Rightarrow> FileIndex \<Rightarrow> world \<Rightarrow> (backup_error + unit) \<times> world" where
  "write_file_index_or_cleanup ic i ix w = (case ix_encode ic ix of
     None \<Rightarrow> (Inl IndexFailed, w)
   | Some bs \<Rightarrow> (case io_put (file_index_path i) bs w of
       (False, w1) \<Rightarrow> (Inl (UploadFailed (file_index_path i)), cleanup i w1)
     | (True, w1) \<Rightarrow> (Inr (), w1)))"

definition read_file_index :: "index_codec \<Rightarrow> store \<Rightarrow> string \<Rightarrow> backup_error + FileIndex" where
  "read_file_index ic s i = (case sto_get s (file_index_path i) of
     None \<Rightarrow> Inl IndexFailed
   | Some bs \<Rightarrow> index_decode (ix_parse ic) bs)"

text \<open>The index of the source, refused when it holds the reserved name.\<close>

definition source_index :: "source \<Rightarrow> backup_error + FileIndex" where
  "source_index src = bind_res (index_build src) (\<lambda>ix. bind_res (reject_reserved_paths ix) (\<lambda>_. Inr ix))"

section \<open>Full backup\<close>

text \<open>A dump: the archive and a good end, or what was written and a failure.\<close>

definition archive_dump :: "tar_api \<Rightarrow> bytes \<Rightarrow> (string \<times> tar_node) list option \<Rightarrow> unit dump" where
  "archive_dump api partial entries = (case entries of
     None \<Rightarrow> \<lparr>d_bytes = partial, d_result = None\<rparr>
   | Some es \<Rightarrow> \<lparr>d_bytes = ta_write api es, d_result = Some ()\<rparr>)"

definition file_full_manifest :: "string \<Rightarrow> unit StoredDump \<Rightarrow> BackupMeta \<Rightarrow> bool \<Rightarrow> BackupManifest" where
  "file_full_manifest now sd meta promoted =
     full_manifest (sd_backup_id sd) now Standalone ''-'' FORMAT_ID False sd
       (Some \<lparr>start_ts = FILE_CHAIN_START, end_ts = FILE_CHAIN_START\<rparr>) meta promoted None None None"

definition run_file_full_backup_inner ::
  "codec \<Rightarrow> index_codec \<Rightarrow> tar_api \<Rightarrow> (bytes \<Rightarrow> bytes option) \<Rightarrow> BackupMeta \<Rightarrow> file_env \<Rightarrow> string \<Rightarrow> bool \<Rightarrow>
   world \<Rightarrow> (backup_error + BackupOutcome) \<times> world" where
  "run_file_full_backup_inner c ic api stages meta env now promoted w =
     (case source_index (fe_indexed env) of
        Inl e \<Rightarrow> (Inl e, w)
      | Inr ix \<Rightarrow>
          (if so_target (fe_dumped env) = None then (Inl SourceUnavailable, w)
           else case store_dump_stream c stages
               (archive_dump api (fe_partial env) (build_tar api (fe_dumped env))) w of
             (Inl e, w1) \<Rightarrow> (Inl e, w1)
           | (Inr sd, w1) \<Rightarrow> (case write_file_index_or_cleanup ic (sd_backup_id sd) ix w1 of
               (Inl e, w2) \<Rightarrow> (Inl e, w2)
             | (Inr _, w2) \<Rightarrow> publish c (file_full_manifest now sd meta promoted) w2)))"

definition run_file_full_backup ::
  "codec \<Rightarrow> index_codec \<Rightarrow> tar_api \<Rightarrow> (bytes \<Rightarrow> bytes option) \<Rightarrow> BackupMeta \<Rightarrow> file_env \<Rightarrow> string \<Rightarrow>
   world \<Rightarrow> (backup_error + BackupOutcome) \<times> world" where
  "run_file_full_backup c ic api stages meta env now w =
     run_file_full_backup_inner c ic api stages meta env now False w"

section \<open>The chain a slice extends\<close>

definition is_file_full :: "BackupManifest \<Rightarrow> bool" where
  "is_file_full m \<longleftrightarrow> m_backup_type m = Full \<and> m_status m = Complete \<and>
     archive_format (m_tool_versions m) = Some FORMAT_ID"

definition newer_file_base :: "BackupManifest option \<Rightarrow> BackupManifest \<Rightarrow> BackupManifest option" where
  "newer_file_base base m =
     (if is_file_full m \<and> (case base of None \<Rightarrow> True | Some b \<Rightarrow> m_id b < m_id m) then Some m else base)"

definition in_file_chain :: "string \<Rightarrow> BackupManifest \<Rightarrow> bool" where
  "in_file_chain b m \<longleftrightarrow> m_backup_type m = Incremental \<and> m_status m = Complete \<and> m_base_id m = Some b \<and>
     archive_format (m_tool_versions m) = Some INCR_FORMAT_ID"

definition later_head :: "string \<Rightarrow> BackupManifest \<Rightarrow> u32 \<times> string \<Rightarrow> u32 \<times> string" where
  "later_head b m h = (case h of (head_gen, head_id) \<Rightarrow>
     (if \<not> in_file_chain b m then h
      else case m_oplog_range m of
        None \<Rightarrow> h
      | Some r \<Rightarrow>
          (let gen = ts_t (end_ts r)
           in if head_gen < gen \<or> (gen = head_gen \<and> head_id < m_id m) then (gen, m_id m) else h)))"

definition collect_file_chain :: "codec \<Rightarrow> store \<Rightarrow> FileChain option" where
  "collect_file_chain c s =
     (let ms = manifests c s
      in case fold (\<lambda>m base. newer_file_base base m) ms None of
           None \<Rightarrow> None
         | Some base \<Rightarrow>
             (case fold (later_head (m_id base)) ms (ts_t FILE_CHAIN_START, m_id base) of
                (gen, i) \<Rightarrow> Some \<lparr>fc_base_id = m_id base, fc_head_id = i, fc_head_gen = gen\<rparr>))"

section \<open>Incremental backup\<close>

definition file_incr_manifest ::
  "string \<Rightarrow> string \<Rightarrow> string \<Rightarrow> u64 \<Rightarrow> u64 \<Rightarrow> string \<Rightarrow> OplogRange \<Rightarrow> u64 \<Rightarrow> BackupMeta \<Rightarrow> BackupManifest" where
  "file_incr_manifest now i base original stored checksum rng changes meta = \<lparr>
     m_format_version = FORMAT_VERSION, m_id = i, m_created_at = now, m_backup_type = Incremental,
     m_base_id = Some base, m_topology = Standalone, m_server_version = ''-'',
     m_tool_versions = \<lparr>mongodump = None, archive_format = Some INCR_FORMAT_ID\<rparr>, m_selective = False,
     m_original_size_bytes = original, m_stored_size_bytes = stored,
     m_compression = bm_compression meta, m_encryption = bm_encryption meta,
     m_checksum_sha256 = checksum, m_oplog_range = Some rng, m_oplog_count = Some changes,
     m_promoted_from_gap = False, m_mysql_binlog = None, m_table_rows = None, m_table_digests = None,
     m_status = Complete\<rparr>"

definition publish_slice ::
  "codec \<Rightarrow> index_codec \<Rightarrow> FileIndex \<Rightarrow> BackupManifest \<Rightarrow> string \<Rightarrow> u64 \<Rightarrow> world \<Rightarrow>
   (backup_error + FileIncrementalOutcome) \<times> world" where
  "publish_slice c ic ix m base changes w = (case write_file_index_or_cleanup ic (m_id m) ix w of
     (Inl e, w1) \<Rightarrow> (Inl e, w1)
   | (Inr _, w1) \<Rightarrow> (case write_manifest_or_cleanup c m w1 of
       (Inl e, w2) \<Rightarrow> (Inl e, w2)
     | (Inr _, w2) \<Rightarrow> (Inr \<lparr>fi_backup_id = m_id m, fi_base_id = Some base, fi_change_count = changes,
           fi_stored_size = m_stored_size_bytes m, fi_promoted = False\<rparr>, w2)))"

text \<open>The slice against the index of the head; one without changes has no data.\<close>

definition file_slice ::
  "codec \<Rightarrow> index_codec \<Rightarrow> tar_api \<Rightarrow> (bytes \<Rightarrow> bytes option) \<Rightarrow> BackupMeta \<Rightarrow> file_env \<Rightarrow> string \<Rightarrow>
   FileChain \<Rightarrow> FileIndex \<Rightarrow> FileIndex \<Rightarrow> world \<Rightarrow> (backup_error + FileIncrementalOutcome) \<times> world" where
  "file_slice c ic api stages meta env now ch prev cur w =
     (let d = diff_from cur prev; start = OplogTs (fc_head_gen ch) 0
      in if diff_is_empty d then
           (let (i, w1) = new_id w
            in publish_slice c ic cur
                 (file_incr_manifest now i (fc_base_id ch) 0 0 (empty_sha256 c)
                    \<lparr>start_ts = start, end_ts = start\<rparr> (diff_count d) meta)
                 (fc_base_id ch) (diff_count d) w1)
         else case so_target (fe_dumped env) of
           None \<Rightarrow> (Inl SourceUnavailable, w)
         | Some root \<Rightarrow>
             (case store_dump_stream c stages (archive_dump api (fe_partial env)
                 (build_incr_tar api root (df_changed d) (df_deleted d))) w of
                (Inl e, w1) \<Rightarrow> (Inl e, w1)
              | (Inr sd, w1) \<Rightarrow>
                  publish_slice c ic cur
                    (file_incr_manifest now (sd_backup_id sd) (fc_base_id ch) (sd_original_size sd)
                       (sd_stored_size sd) (sd_checksum sd)
                       \<lparr>start_ts = start, end_ts = OplogTs (fc_head_gen ch + 1) 0\<rparr> (diff_count d) meta)
                    (fc_base_id ch) (diff_count d) w1))"

definition run_file_incremental_backup ::
  "codec \<Rightarrow> index_codec \<Rightarrow> tar_api \<Rightarrow> (bytes \<Rightarrow> bytes option) \<Rightarrow> BackupMeta \<Rightarrow> file_env \<Rightarrow> string \<Rightarrow>
   world \<Rightarrow> (backup_error + FileIncrementalOutcome) \<times> world" where
  "run_file_incremental_backup c ic api stages meta env now w = (case collect_file_chain c (w_store w) of
     None \<Rightarrow> (Inl NoFileBase, w)
   | Some ch \<Rightarrow>
       (case read_file_index ic (w_store w) (fc_head_id ch) of
          Inl _ \<Rightarrow>
            (case run_file_full_backup_inner c ic api stages meta env now True w of
               (Inl e, w1) \<Rightarrow> (Inl e, w1)
             | (Inr out, w1) \<Rightarrow> (Inr \<lparr>fi_backup_id = bo_backup_id out, fi_base_id = None,
                 fi_change_count = 0, fi_stored_size = bo_stored_size out, fi_promoted = True\<rparr>, w1))
        | Inr prev \<Rightarrow>
            (case source_index (fe_indexed env) of
               Inl e \<Rightarrow> (Inl e, w)
             | Inr cur \<Rightarrow> file_slice c ic api stages meta env now ch prev cur w)))"

section \<open>Restoring a chain\<close>

definition is_file_manifest :: "BackupManifest \<Rightarrow> bool" where
  "is_file_manifest m \<longleftrightarrow> archive_format (m_tool_versions m) = Some FORMAT_ID \<or>
     archive_format (m_tool_versions m) = Some INCR_FORMAT_ID"

definition collect_file_nodes :: "codec \<Rightarrow> store \<Rightarrow> ChainNode list" where
  "collect_file_nodes c s =
     map from_manifest (filter is_file_manifest (manifests c s))"

datatype file_restore_error =
    ManifestUnreadable string
  | NoBaseId
  | ChainNotContinuous
  | NotInChain
  | StagesUnavailable
  | DataUnreadable string
  | SliceFailed restore_error

definition restore_plan :: "codec \<Rightarrow> store \<Rightarrow> BackupManifest \<Rightarrow> file_restore_error + string list" where
  "restore_plan c s m = (case m_backup_type m of
     Full \<Rightarrow> Inr [m_id m]
   | Incremental \<Rightarrow> (case m_base_id m of
       None \<Rightarrow> Inl NoBaseId
     | Some b \<Rightarrow>
         (let report = verify_chain (collect_file_nodes c s) b
          in if \<not> report_is_continuous report then Inl ChainNotContinuous
             else case position (\<lambda>i. i = m_id m) (cr_incremental_ids report) of
               None \<Rightarrow> Inl NotInChain
             | Some pos \<Rightarrow> Inr (b # take (Suc pos) (cr_incremental_ids report)))))"

fun restore_slices ::
  "codec \<Rightarrow> tar_api \<Rightarrow> unstage \<Rightarrow> store \<Rightarrow> string list \<Rightarrow> target \<Rightarrow> (file_restore_error + nat) \<times> target" where
  "restore_slices c api unstage s [] tg = (Inr 0, tg)"
| "restore_slices c api unstage s (i # is) tg = (case store_read c s i of
     None \<Rightarrow> (Inl (ManifestUnreadable i), tg)
   | Some m \<Rightarrow>
       (if m_oplog_count m = Some 0 then restore_slices c api unstage s is tg
        else case unstage m of
          None \<Rightarrow> (Inl StagesUnavailable, tg)
        | Some f \<Rightarrow> (case sto_get s (data_path i) of
            None \<Rightarrow> (Inl (DataUnreadable i), tg)
          | Some raw \<Rightarrow> (case f raw of (bs, ends) \<Rightarrow>
              (case file_restore api bs ends tg of
                 (Inl e, tg1) \<Rightarrow> (Inl (SliceFailed e), tg1)
               | (Inr _, tg1) \<Rightarrow> (case restore_slices c api unstage s is tg1 of
                   (Inl e, tg2) \<Rightarrow> (Inl e, tg2)
                 | (Inr n, tg2) \<Rightarrow> (Inr (Suc n), tg2)))))))"

definition file_chain_restore ::
  "codec \<Rightarrow> tar_api \<Rightarrow> unstage \<Rightarrow> store \<Rightarrow> string \<Rightarrow> target \<Rightarrow> (file_restore_error + nat) \<times> target" where
  "file_chain_restore c api unstage s i tg = (case store_read c s i of
     None \<Rightarrow> (Inl (ManifestUnreadable i), tg)
   | Some m \<Rightarrow> (case restore_plan c s m of
       Inl e \<Rightarrow> (Inl e, tg)
     | Inr ids \<Rightarrow> restore_slices c api unstage s ids tg))"

section \<open>What a run stores\<close>

text \<open>The index codec gives back what it wrote.\<close>

definition index_laws :: "index_codec \<Rightarrow> bool" where
  "index_laws ic \<longleftrightarrow> (\<forall>ix. \<exists>bs. ix_encode ic ix = Some bs \<and> ix_parse ic bs = Some ix)"

text \<open>The backup that the run from \<open>w\<close> to \<open>w'\<close> has published, with its index.\<close>

definition file_stored ::
  "codec \<Rightarrow> index_codec \<Rightarrow> world \<Rightarrow> world \<Rightarrow> BackupManifest \<Rightarrow> bytes option \<Rightarrow> FileIndex \<Rightarrow> bool" where
  "file_stored c ic w w' m data ix \<longleftrightarrow> published c w' m data \<and>
     (\<exists>bs. ix_encode ic ix = Some bs \<and> look w' (file_index_path (m_id m)) = Some bs) \<and>
     only_touches (m_id m) w w' \<and> same_oracle w w' \<and> w_drawn w' = Suc (w_drawn w) \<and>
     m_id m = w_uuid w (w_drawn w)"

lemma write_index_Inr:
  assumes "write_file_index_or_cleanup ic i ix w = (Inr u, w')"
  shows "\<exists>bs. ix_encode ic ix = Some bs \<and> same_oracle w w' \<and> w_drawn w' = w_drawn w \<and>
    look w' = (look w)(file_index_path i \<mapsto> bs)"
  using assms io_put_cases
  by (fastforce simp: write_file_index_or_cleanup_def split: option.splits prod.splits bool.splits)

lemma write_index_Inl:
  assumes "write_file_index_or_cleanup ic i ix w1 = (Inl e, w')" and "index_laws ic"
    and "same_oracle w w1" and "only_touches i w w1"
  shows "failed_clean i w w'"
proof -
  obtain bs where "ix_encode ic ix = Some bs"
    using assms(2) unfolding index_laws_def by blast
  with assms(1) obtain w2 where w2: "io_put (file_index_path i) bs w1 = (False, w2)" "w' = cleanup i w2"
    by (auto simp: write_file_index_or_cleanup_def split: prod.splits bool.splits)
  from io_put_cases [OF w2(1)] assms(3,4) have "same_oracle w w2" "only_touches i w w2"
    using same_oracle_trans by (auto simp: only_touches_def)
  then show ?thesis
    unfolding w2(2) by (rule failed_clean_cleanup)
qed

text \<open>The index and then the manifest, behind data that are stored or that an empty slice has none of.\<close>

lemma stored_behind_data:
  assumes w1: "same_oracle w w1" "w_drawn w1 = Suc (w_drawn w)" "look w1 = (look w)(data_path i := data)"
    and ix: "write_file_index_or_cleanup ic i ix w1 = (Inr u, w2)"
    and mf: "write_manifest_or_cleanup c m w2 = (Inr v, w')"
    and m: "m_id m = i" "i = w_uuid w (w_drawn w)" "data_matches c m data"
  shows "file_stored c ic w w' m data ix"
proof -
  obtain bs where bs: "ix_encode ic ix = Some bs" "same_oracle w1 w2" "w_drawn w2 = w_drawn w1"
    "look w2 = (look w1)(file_index_path i \<mapsto> bs)"
    using write_index_Inr [OF ix] by blast
  note p = write_or_cleanup_Inr [OF mf]
  have "look w' = (look w)(data_path i := data, file_index_path i \<mapsto> bs, manifest_path i \<mapsto> to_json c m,
      manifest_sha_path i \<mapsto> to_bytes (sidecar_checksum c (to_json c m)))"
    using w1(3) bs(4) p m(1) by simp
  then have "artifact_at c (w_store w') m data" "look w' (file_index_path i) = Some bs" "only_touches i w w'"
    using m(1) by (auto simp: artifact_at_def only_touches_def)
  moreover have "same_oracle w w'" "w_drawn w' = Suc (w_drawn w)"
    using w1 bs p same_oracle_trans by auto
  ultimately show ?thesis
    using bs(1) m by (simp add: file_stored_def published_def)
qed

lemma failed_behind_data:
  assumes w1: "same_oracle w w1" "look w1 = (look w)(data_path i := data)"
    and ix: "write_file_index_or_cleanup ic i ix w1 = (Inr u, w2)"
    and mf: "write_manifest_or_cleanup c m w2 = (Inl e, w')" and m: "m_id m = i"
  shows "failed_clean i w w'"
proof -
  have "only_touches i w w2" "same_oracle w w2"
    using write_index_Inr [OF ix] w1 same_oracle_trans by (auto simp: only_touches_def)
  with write_or_cleanup_Inl [OF mf] m show ?thesis by blast
qed

lemma store_archive_Inr:
  assumes "store_dump_stream c stages (archive_dump api partial entries) w = (Inr sd, w1)"
  obtains es b where "entries = Some es" "stages (ta_write api es) = Some b" "sd_backup_id sd = w_uuid w (w_drawn w)"
    "sd_checksum sd = sha256_hex c b" "look w1 = (look w)(data_path (w_uuid w (w_drawn w)) \<mapsto> b)"
    "same_oracle w w1" "w_drawn w1 = Suc (w_drawn w)"
proof -
  let ?d = "archive_dump api partial entries"
  obtain b where b: "stages (d_bytes ?d) = Some b" "d_result ?d = Some (sd_output sd)"
    "sd_backup_id sd = w_uuid w (w_drawn w)" "sd_checksum sd = sha256_hex c b"
    "look w1 = (look w)(data_path (sd_backup_id sd) \<mapsto> b)" "same_oracle w w1" "w_drawn w1 = Suc (w_drawn w)"
    using store_dump_stream_Inr [OF assms] by metis
  then obtain es where "entries = Some es"
    by (auto simp: archive_dump_def split: option.splits)
  with b that show ?thesis
    by (simp add: archive_dump_def)
qed

lemma file_full_manifest_simps [simp]:
  "m_id (file_full_manifest now sd meta p) = sd_backup_id sd"
  "m_checksum_sha256 (file_full_manifest now sd meta p) = sd_checksum sd"
  "m_backup_type (file_full_manifest now sd meta p) = Full"
  "m_status (file_full_manifest now sd meta p) = Complete"
  "m_selective (file_full_manifest now sd meta p) = False"
  "m_base_id (file_full_manifest now sd meta p) = None"
  "m_oplog_range (file_full_manifest now sd meta p) =
     Some \<lparr>start_ts = FILE_CHAIN_START, end_ts = FILE_CHAIN_START\<rparr>"
  "m_oplog_count (file_full_manifest now sd meta p) = None"
  "m_compression (file_full_manifest now sd meta p) = bm_compression meta"
  "m_encryption (file_full_manifest now sd meta p) = bm_encryption meta"
  "archive_format (m_tool_versions (file_full_manifest now sd meta p)) = Some FORMAT_ID"
  by (simp_all add: file_full_manifest_def full_manifest_def)

lemma file_incr_manifest_simps [simp]:
  "m_id (file_incr_manifest now i b og st ck rng n meta) = i"
  "m_checksum_sha256 (file_incr_manifest now i b og st ck rng n meta) = ck"
  "m_backup_type (file_incr_manifest now i b og st ck rng n meta) = Incremental"
  "m_status (file_incr_manifest now i b og st ck rng n meta) = Complete"
  "m_selective (file_incr_manifest now i b og st ck rng n meta) = False"
  "m_base_id (file_incr_manifest now i b og st ck rng n meta) = Some b"
  "m_oplog_range (file_incr_manifest now i b og st ck rng n meta) = Some rng"
  "m_oplog_count (file_incr_manifest now i b og st ck rng n meta) = Some n"
  "m_compression (file_incr_manifest now i b og st ck rng n meta) = bm_compression meta"
  "m_encryption (file_incr_manifest now i b og st ck rng n meta) = bm_encryption meta"
  "archive_format (m_tool_versions (file_incr_manifest now i b og st ck rng n meta)) = Some INCR_FORMAT_ID"
  by (simp_all add: file_incr_manifest_def)

lemma file_full_cases:
  assumes run: "run_file_full_backup_inner c ic api stages meta env now promoted w = (r, w')" and laws: "index_laws ic"
  obtains (refused) e where "r = Inl e" "w' = w"
  | (core) e where "r = Inl e" "failed_clean (w_uuid w (w_drawn w)) w w'"
  | (finished) sd ix es b where "r = Inr (outcome_of_manifest (file_full_manifest now sd meta promoted))"
      "file_stored c ic w w' (file_full_manifest now sd meta promoted) (Some b) ix"
      "source_index (fe_indexed env) = Inr ix" "build_tar api (fe_dumped env) = Some es"
      "stages (ta_write api es) = Some b"
proof (cases "source_index (fe_indexed env)")
  case (Inl e)
  with run show ?thesis
    by (auto simp: run_file_full_backup_inner_def intro: refused)
next
  case ix: (Inr ix)
  show ?thesis
  proof (cases "so_target (fe_dumped env) = None")
    case True
    with run ix show ?thesis
      by (auto simp: run_file_full_backup_inner_def intro: refused)
  next
    case open_ok: False
    let ?dump = "archive_dump api (fe_partial env) (build_tar api (fe_dumped env))" and ?i = "w_uuid w (w_drawn w)"
    obtain r1 w1 where r1: "store_dump_stream c stages ?dump w = (r1, w1)" by fastforce
    show ?thesis
    proof (cases r1)
      case (Inl e)
      with run ix open_ok r1 have "r = Inl e" "w' = w1"
        by (auto simp: run_file_full_backup_inner_def)
      with store_dump_stream_Inl [OF r1 [unfolded Inl]] show ?thesis by (auto intro: core)
    next
      case sd: (Inr sd)
      let ?m = "file_full_manifest now sd meta promoted"
      obtain es b where b: "build_tar api (fe_dumped env) = Some es" "stages (ta_write api es) = Some b"
        "sd_backup_id sd = ?i" "sd_checksum sd = sha256_hex c b" "look w1 = (look w)(data_path ?i \<mapsto> b)"
        "same_oracle w w1" "w_drawn w1 = Suc (w_drawn w)"
        using store_archive_Inr [OF r1 [unfolded sd]] by metis
      obtain r2 w2 where r2: "write_file_index_or_cleanup ic ?i ix w1 = (r2, w2)" by fastforce
      show ?thesis
      proof (cases r2)
        case (Inl e)
        with run ix open_ok r1 sd r2 b(3) have "r = Inl e" "w' = w2"
          by (auto simp: run_file_full_backup_inner_def)
        moreover have "only_touches ?i w w1"
          using b(5) by (intro only_touches_put) auto
        ultimately show ?thesis
          using write_index_Inl [OF r2 [unfolded Inl] laws b(6)] by (auto intro: core)
      next
        case ixw: (Inr u)
        with run ix open_ok r1 sd r2 b(3) have pub: "publish c ?m w2 = (r, w')"
          by (auto simp: run_file_full_backup_inner_def)
        obtain r3 w3 where r3: "write_manifest_or_cleanup c ?m w2 = (r3, w3)" by fastforce
        show ?thesis
        proof (cases r3)
          case (Inl e)
          with pub r3 have "r = Inl e" "w' = w3" by (auto simp: publish_def)
          with failed_behind_data [OF b(6,5) r2 [unfolded ixw] r3 [unfolded Inl]] b(3) show ?thesis
            by (auto intro: core)
        next
          case (Inr v)
          with pub r3 have "r = Inr (outcome_of_manifest ?m)" "w' = w3" by (auto simp: publish_def)
          moreover have "file_stored c ic w w3 ?m (Some b) ix"
            using b by (intro stored_behind_data [OF b(6,7,5) r2 [unfolded ixw] r3 [unfolded Inr]])
              (simp_all add: data_matches_def)
          ultimately show ?thesis
            using ix b(1,2) by (intro finished) auto
        qed
      qed
    qed
  qed
qed

lemma publish_slice_cases:
  assumes run: "publish_slice c ic ix m base n w1 = (r, w')" and laws: "index_laws ic"
    and w1: "same_oracle w w1" "w_drawn w1 = Suc (w_drawn w)" "look w1 = (look w)(data_path i := data)"
    and m: "m_id m = i" "i = w_uuid w (w_drawn w)" "data_matches c m data"
  shows "(\<exists>e. r = Inl e \<and> failed_clean i w w') \<or>
    (r = Inr \<lparr>fi_backup_id = i, fi_base_id = Some base, fi_change_count = n,
       fi_stored_size = m_stored_size_bytes m, fi_promoted = False\<rparr> \<and> file_stored c ic w w' m data ix)"
proof -
  obtain r2 w2 where r2: "write_file_index_or_cleanup ic i ix w1 = (r2, w2)" by fastforce
  obtain r3 w3 where r3: "write_manifest_or_cleanup c m w2 = (r3, w3)" by fastforce
  have touches: "only_touches i w w1"
    using w1(3) by (intro only_touches_put) auto
  show ?thesis
  proof (cases r2)
    case (Inl e)
    with run r2 m(1) have "r = Inl e" "w' = w2" by (auto simp: publish_slice_def)
    with write_index_Inl [OF r2 [unfolded Inl] laws w1(1) touches] show ?thesis by auto
  next
    case ixw: (Inr u)
    show ?thesis
    proof (cases r3)
      case (Inl e)
      with run r2 r3 ixw m(1) have "r = Inl e" "w' = w3" by (auto simp: publish_slice_def)
      with failed_behind_data [OF w1(1,3) r2 [unfolded ixw] r3 [unfolded Inl] m(1)] show ?thesis by auto
    next
      case (Inr v)
      with run r2 r3 ixw m(1) have "r = Inr \<lparr>fi_backup_id = i, fi_base_id = Some base, fi_change_count = n,
          fi_stored_size = m_stored_size_bytes m, fi_promoted = False\<rparr>" "w' = w3"
        by (auto simp: publish_slice_def)
      with stored_behind_data [OF w1 r2 [unfolded ixw] r3 [unfolded Inr] m] show ?thesis by auto
    qed
  qed
qed

text \<open>What the data of a slice are, and where it ends.\<close>

definition slice_data ::
  "tar_api \<Rightarrow> (bytes \<Rightarrow> bytes option) \<Rightarrow> file_env \<Rightarrow> IndexDiff \<Rightarrow> u32 \<Rightarrow> bytes option \<Rightarrow> OplogTimestamp \<Rightarrow> bool" where
  "slice_data api stages env d gen data upper \<longleftrightarrow>
     (if diff_is_empty d then data = None \<and> upper = OplogTs gen 0
      else upper = OplogTs (gen + 1) 0 \<and> (\<exists>root es b. so_target (fe_dumped env) = Some root \<and>
        build_incr_tar api root (df_changed d) (df_deleted d) = Some es \<and> stages (ta_write api es) = Some b \<and>
        data = Some b))"

lemma file_slice_cases:
  assumes run: "file_slice c ic api stages meta env now ch prev cur w = (r, w')"
    and laws: "index_laws ic" "sha_of_empty c" and new: "fresh (w_uuid w (w_drawn w)) w"
    and d: "d = diff_from cur prev"
  obtains (refused) e where "r = Inl e" "w' = w"
  | (core) e where "r = Inl e" "failed_clean (w_uuid w (w_drawn w)) w w'"
  | (finished) og st ck upper m data where
      "m = file_incr_manifest now (w_uuid w (w_drawn w)) (fc_base_id ch) og st ck
         \<lparr>start_ts = OplogTs (fc_head_gen ch) 0, end_ts = upper\<rparr> (diff_count d) meta"
      "r = Inr \<lparr>fi_backup_id = w_uuid w (w_drawn w), fi_base_id = Some (fc_base_id ch),
         fi_change_count = diff_count d, fi_stored_size = m_stored_size_bytes m, fi_promoted = False\<rparr>"
      "file_stored c ic w w' m data cur" "slice_data api stages env d (fc_head_gen ch) data upper"
proof (cases "diff_is_empty d")
  case True
  let ?i = "w_uuid w (w_drawn w)" and ?w1 = "w\<lparr>w_drawn := Suc (w_drawn w)\<rparr>" and ?start = "OplogTs (fc_head_gen ch) 0"
  let ?m = "file_incr_manifest now ?i (fc_base_id ch) 0 0 (empty_sha256 c)
      \<lparr>start_ts = ?start, end_ts = ?start\<rparr> (diff_count d) meta"
  have run': "publish_slice c ic cur ?m (fc_base_id ch) (diff_count d) ?w1 = (r, w')"
    using run True by (simp add: file_slice_def new_id_def Let_def d)
  have w1: "same_oracle w ?w1" "w_drawn ?w1 = Suc (w_drawn w)" "look ?w1 = (look w)(data_path ?i := None)"
    using new by (auto simp: same_oracle_def fresh_def)
  have "diff_count d = 0"
    using True by (simp add: diff_is_empty_def diff_count_def)
  then have "data_matches c ?m None"
    using laws(2) by (simp add: data_matches_def empty_sha256_def sha_of_empty_def)
  from publish_slice_cases [OF run' laws(1) w1 _ refl this] True show ?thesis
    by (auto simp: slice_data_def intro: core finished)
next
  case changed: False
  show ?thesis
  proof (cases "so_target (fe_dumped env)")
    case None
    with run changed show ?thesis
      by (auto simp: file_slice_def Let_def d intro: refused)
  next
    case root: (Some root)
    let ?i = "w_uuid w (w_drawn w)"
    let ?entries = "build_incr_tar api root (df_changed d) (df_deleted d)"
    obtain r1 w1 where r1: "store_dump_stream c stages (archive_dump api (fe_partial env) ?entries) w = (r1, w1)"
      by fastforce
    show ?thesis
    proof (cases r1)
      case (Inl e)
      with run changed root r1 have "r = Inl e" "w' = w1"
        by (auto simp: file_slice_def Let_def d)
      with store_dump_stream_Inl [OF r1 [unfolded Inl]] show ?thesis by (auto intro: core)
    next
      case sd: (Inr sd)
      obtain es b where b: "?entries = Some es" "stages (ta_write api es) = Some b" "sd_backup_id sd = ?i"
        "sd_checksum sd = sha256_hex c b" "look w1 = (look w)(data_path ?i \<mapsto> b)"
        "same_oracle w w1" "w_drawn w1 = Suc (w_drawn w)"
        using store_archive_Inr [OF r1 [unfolded sd]] by metis
      let ?m = "file_incr_manifest now ?i (fc_base_id ch) (sd_original_size sd) (sd_stored_size sd) (sd_checksum sd)
          \<lparr>start_ts = OplogTs (fc_head_gen ch) 0, end_ts = OplogTs (fc_head_gen ch + 1) 0\<rparr> (diff_count d) meta"
      have run': "publish_slice c ic cur ?m (fc_base_id ch) (diff_count d) w1 = (r, w')"
        using run changed root r1 sd b(3) by (simp add: file_slice_def Let_def d)
      have "data_matches c ?m (Some b)"
        using b(4) by (simp add: data_matches_def)
      from publish_slice_cases [OF run' laws(1) b(6,7,5) _ refl this] changed root b(1,2) show ?thesis
        by (auto simp: slice_data_def intro: core finished)
    qed
  qed
qed

end
