(* ===== verification/XB_File_Chain.thy ===== *)
theory XB_File_Chain
  imports XB_File
begin

text \<open>
  Chains of the file engine. A destination whose file backups form good chains stays so under full and
  incremental file backups; the head that a run extends is the end of its chain; and restoring a backup
  gives the tree its source had, for a full backup and, by what the slices say of each other, for every
  increment on it.
\<close>

section \<open>The nodes of the file engine\<close>

text \<open>What the pipelines write in a manifest of theirs.\<close>

definition file_shape :: "BackupManifest \<Rightarrow> bool" where
  "file_shape m \<longleftrightarrow> m_status m = Complete \<and> \<not> m_selective m \<and> (case m_backup_type m of
     Full \<Rightarrow> archive_format (m_tool_versions m) = Some FORMAT_ID \<and>
       m_oplog_range m = Some \<lparr>start_ts = FILE_CHAIN_START, end_ts = FILE_CHAIN_START\<rparr>
   | Incremental \<Rightarrow> archive_format (m_tool_versions m) = Some INCR_FORMAT_ID \<and>
       (\<exists>r. m_oplog_range m = Some r \<and> ts_i (end_ts r) = 0))"

definition file_ok :: "codec \<Rightarrow> world \<Rightarrow> bool" where
  "file_ok c w \<longleftrightarrow> store_ok c (w_store w) \<and> ids_ahead c w \<and> healthy (collect_file_nodes c (w_store w)) \<and>
     (\<forall>m \<in> set (manifests c (w_store w)). is_file_manifest m \<longrightarrow> file_shape m)"

lemma set_file_nodes:
  "n \<in> set (collect_file_nodes c s) \<longleftrightarrow> (\<exists>m \<in> set (manifests c s). is_file_manifest m \<and> n = from_manifest m)"
  by (auto simp: collect_file_nodes_def)

lemma file_nodes_sub: "n \<in> set (collect_file_nodes c s) \<Longrightarrow> n \<in> set (catalogue c s)"
  by (auto simp: collect_file_nodes_def catalogue_def)

lemma file_nodes_less:
  "file_ok c w \<Longrightarrow> \<forall>n \<in> set (collect_file_nodes c (w_store w)). cn_id n < w_uuid w (w_drawn w)"
  using file_nodes_sub by (fastforce simp: file_ok_def ids_ahead_def)

lemma file_ok_unchanged:
  assumes "file_ok c w" and "same_oracle w w'" and "look w' = look w"
  shows "file_ok c w'"
proof -
  have m: "manifests c (w_store w') = manifests c (w_store w)"
    using assms(3) by (intro manifests_cong) simp
  then have "ids_ahead c w'"
    using assms by (intro ids_ahead_step [OF _ assms(2)]) (auto simp: file_ok_def touches_drawn_def catalogue_def)
  moreover have "store_ok c (w_store w')"
    using assms(1,3) by (simp add: file_ok_def store_ok_def store_read_def)
  ultimately show ?thesis
    using assms(1) m by (simp add: file_ok_def collect_file_nodes_def)
qed

lemma file_ok_failed:
  assumes "file_ok c w" and "failed_clean (w_uuid w (w_drawn w)) w w'" and "reliable_deletes w"
  shows "file_ok c w' \<and> look w' = look w"
proof -
  have "fresh (w_uuid w (w_drawn w)) w"
    using assms(1) by (simp add: file_ok_def ids_ahead_def)
  with assms show ?thesis
    using file_ok_unchanged by (auto simp: failed_clean_def)
qed

lemma file_stored_manifests:
  assumes ok: "file_ok c w" and st: "file_stored c ic w w' m data ix" and laws: "codec_laws c"
  shows "mset (manifests c (w_store w')) = mset (manifests c (w_store w) @ [m])"
    and "store_read c (w_store w') (m_id m) = Some m"
    and "\<forall>i. i \<noteq> m_id m \<longrightarrow> look w' (manifest_path i) = look w (manifest_path i) \<and>
      look w' (data_path i) = look w (data_path i) \<and> look w' (file_index_path i) = look w (file_index_path i)"
proof -
  have id: "m_id m = w_uuid w (w_drawn w)" "only_touches (m_id m) w w'" "published c w' m data"
    using st unfolding file_stored_def by blast+
  show same: "\<forall>i. i \<noteq> m_id m \<longrightarrow> look w' (manifest_path i) = look w (manifest_path i) \<and>
      look w' (data_path i) = look w (data_path i) \<and> look w' (file_index_path i) = look w (file_index_path i)"
    using id(2) backup_paths_inj data_path_in unfolding only_touches_def by metis
  show rd: "store_read c (w_store w') (m_id m) = Some m"
    using published_read [OF id(3) laws] .
  have "valid_id (m_id m)" "look w (manifest_path (m_id m)) = None"
    using ok id(1) by (auto simp: file_ok_def ids_ahead_def fresh_def)
  then show "mset (manifests c (w_store w')) = mset (manifests c (w_store w) @ [m])"
    using same by (intro manifests_add [OF _ _ rd]) auto
qed

lemma file_ok_stored:
  assumes ok: "file_ok c w" and st: "file_stored c ic w w' m data ix" and laws: "codec_laws c"
    and m: "is_file_manifest m" "file_shape m"
    and h: "healthy (collect_file_nodes c (w_store w) @ [from_manifest m])"
  shows "file_ok c w'"
    and "mset (collect_file_nodes c (w_store w')) = mset (collect_file_nodes c (w_store w) @ [from_manifest m])"
proof -
  note ms = file_stored_manifests [OF ok st laws]
  have id: "m_id m = w_uuid w (w_drawn w)" "only_touches (w_uuid w (w_drawn w)) w w'" "same_oracle w w'"
    "w_drawn w' = Suc (w_drawn w)"
    using st unfolding file_stored_def by metis+
  show nodes: "mset (collect_file_nodes c (w_store w')) = mset (collect_file_nodes c (w_store w) @ [from_manifest m])"
    unfolding collect_file_nodes_def mset_map mset_filter ms(1) using m(1) by simp
  have sets: "set (manifests c (w_store w')) = insert m (set (manifests c (w_store w)))"
    using mset_eq_setD [OF ms(1)] by simp
  have "store_ok c (w_store w')"
    unfolding store_ok_def
  proof (intro conjI allI impI)
    fix i
    have v: "valid_id (m_id m)"
      using ok id(1) by (simp add: file_ok_def ids_ahead_def)
    show "valid_id i" if "look w' (manifest_path i) \<noteq> None"
      using ok ms(3) v that unfolding file_ok_def store_ok_def by metis
    show "m_id x = i" if "store_read c (w_store w') i = Some x" for x
      using ok ms(2,3) that unfolding file_ok_def store_ok_def
      by (metis option.inject store_read_cong)
  qed
  moreover have "ids_ahead c w'"
  proof (rule ids_ahead_step [OF _ id(3)])
    show "ids_ahead c w" using ok by (simp add: file_ok_def)
    show "touches_drawn w w'"
      using id by (intro touches_drawn_only [where k = "w_drawn w"]) simp_all
    show "\<forall>n \<in> set (catalogue c (w_store w')). n \<in> set (catalogue c (w_store w)) \<or>
        (\<exists>k \<ge> w_drawn w. k < w_drawn w' \<and> cn_id n = w_uuid w k)"
      using id(1,4) by (auto simp: catalogue_def sets)
  qed
  moreover have "healthy (collect_file_nodes c (w_store w'))"
    using healthy_mset [OF nodes [symmetric] h] .
  ultimately show "file_ok c w'"
    using ok m(2) sets by (auto simp: file_ok_def)
qed

section \<open>The head of the chain\<close>

lemma newest_base:
  "fold (\<lambda>m base. newer_file_base base m) ms base = Some m \<Longrightarrow> base = Some m \<or> (m \<in> set ms \<and> is_file_full m)"
  by (induction ms arbitrary: base) (fastforce simp: newer_file_base_def split: if_splits)+

text \<open>The order in which the head is sought.\<close>

definition head_le :: "u32 \<times> string \<Rightarrow> u32 \<times> string \<Rightarrow> bool" where
  "head_le x y \<longleftrightarrow> fst x < fst y \<or> (fst x = fst y \<and> snd x \<le> snd y)"

definition head_key :: "BackupManifest \<Rightarrow> u32 \<times> string" where
  "head_key m = (ts_t (end_ts (the (m_oplog_range m))), m_id m)"

lemma head_le_trans: "head_le x y \<Longrightarrow> head_le y z \<Longrightarrow> head_le x z"
  by (auto simp: head_le_def)

lemma head_le_antisym: "head_le x y \<Longrightarrow> head_le y x \<Longrightarrow> x = y"
  by (auto simp: head_le_def prod_eq_iff)

lemma head_le_refl [simp]: "head_le x x"
  by (simp add: head_le_def)

lemma later_head_step:
  "head_le h (later_head b m h)"
  "in_file_chain b m \<Longrightarrow> m_oplog_range m \<noteq> None \<Longrightarrow> head_le (head_key m) (later_head b m h)"
  "later_head b m h = h \<or> in_file_chain b m \<and> m_oplog_range m \<noteq> None \<and> later_head b m h = head_key m"
  by (cases h; auto simp: later_head_def head_le_def head_key_def Let_def not_less split: option.splits)+

lemma head_above_start: "head_le h (fold (later_head b) ms h)"
proof (induction ms arbitrary: h)
  case (Cons m ms)
  show ?case
    using head_le_trans [OF later_head_step(1) Cons.IH] by simp
qed simp

lemma head_above:
  "m \<in> set ms \<Longrightarrow> in_file_chain b m \<Longrightarrow> m_oplog_range m \<noteq> None \<Longrightarrow>
     head_le (head_key m) (fold (later_head b) ms h)"
proof (induction ms arbitrary: h)
  case (Cons x ms)
  show ?case
  proof (cases "m = x")
    case True
    with Cons.prems later_head_step(2) [of b m h] head_above_start [of "later_head b x h" b ms] show ?thesis
      by (auto intro: head_le_trans)
  next
    case False
    with Cons show ?thesis by simp
  qed
qed simp

lemma head_found:
  "fold (later_head b) ms h = h \<or>
     (\<exists>m \<in> set ms. in_file_chain b m \<and> m_oplog_range m \<noteq> None \<and> fold (later_head b) ms h = head_key m)"
proof (induction ms arbitrary: h)
  case (Cons x ms)
  with later_head_step(3) [of b x h] show ?case
    by (metis fold_simps(2) list.set_intros)
qed simp

lemma linked_ends_le:
  "linked e rs \<Longrightarrow> \<forall>r \<in> set rs. fst r \<le> snd r \<Longrightarrow> r \<in> set rs \<Longrightarrow> snd r \<le> last (e # map snd rs)"
proof (induction e rs rule: linked.induct)
  case (2 e s t rs)
  then show ?case
    using linked_last [of t rs] by auto
qed simp

lemma last_greatest: "sorted_wrt (<) (x # xs) \<Longrightarrow> y \<in> set (x # xs) \<Longrightarrow> (y :: string) \<le> last (x # xs)"
  by (induction xs arbitrary: x) auto

text \<open>The slices on a base, as manifests.\<close>

lemma file_incrs:
  assumes "file_ok c w"
  shows "n \<in> set (sorted_incrs (collect_file_nodes c (w_store w)) b) \<longleftrightarrow>
    (\<exists>m \<in> set (manifests c (w_store w)). in_file_chain b m \<and> n = from_manifest m)"
proof
  assume "n \<in> set (sorted_incrs (collect_file_nodes c (w_store w)) b)"
  then obtain m where m: "m \<in> set (manifests c (w_store w))" "is_file_manifest m" "n = from_manifest m" "incr_of b n"
    by (auto simp: set_file_nodes)
  moreover have "file_shape m"
    using assms m by (simp add: file_ok_def)
  ultimately show "\<exists>m \<in> set (manifests c (w_store w)). in_file_chain b m \<and> n = from_manifest m"
    by (auto simp: in_file_chain_def incr_of_def file_shape_def)
next
  assume "\<exists>m \<in> set (manifests c (w_store w)). in_file_chain b m \<and> n = from_manifest m"
  then show "n \<in> set (sorted_incrs (collect_file_nodes c (w_store w)) b)"
    by (auto simp: set_file_nodes in_file_chain_def incr_of_def is_file_manifest_def)
qed

lemma in_chain_shape:
  assumes "file_ok c w" and "m \<in> set (manifests c (w_store w))" and "in_file_chain b m"
  obtains r where "m_oplog_range m = Some r" "ts_i (end_ts r) = 0"
    "node_range (from_manifest m) = (start_ts r, end_ts r)" "head_key m = (ts_t (end_ts r), m_id m)"
proof -
  have "file_shape m"
    using assms by (auto simp: file_ok_def in_file_chain_def is_file_manifest_def)
  with assms(3) that show ?thesis
    by (auto simp: file_shape_def in_file_chain_def node_range_def head_key_def)
qed

lemma file_base:
  assumes ok: "file_ok c w" and mb: "mb \<in> set (manifests c (w_store w))" "is_file_full mb"
  obtains e where "good_chain (collect_file_nodes c (w_store w)) (m_id mb) e"
    "e = last (FILE_CHAIN_START # map snd (slice_ranges (collect_file_nodes c (w_store w)) (m_id mb)))"
    "linked FILE_CHAIN_START (slice_ranges (collect_file_nodes c (w_store w)) (m_id mb))"
proof -
  let ?N = "collect_file_nodes c (w_store w)"
  have f: "is_file_manifest mb" using mb(2) by (simp add: is_file_full_def is_file_manifest_def)
  then have sh: "file_shape mb" using ok mb(1) by (simp add: file_ok_def)
  have n: "from_manifest mb \<in> set ?N"
    using f mb(1) by (auto simp: set_file_nodes)
  have h: "healthy ?N" using ok by (simp add: file_ok_def)
  have base: "usable_base (from_manifest mb)"
    "cn_oplog_range (from_manifest mb) = Some (FILE_CHAIN_START, FILE_CHAIN_START)"
    using sh mb(2) by (auto simp: usable_base_def file_shape_def is_file_full_def)
  then obtain e where e: "good_chain ?N (m_id mb) e"
    using h n unfolding healthy_def tracked_chain_def by fastforce
  moreover have "find_node ?N (m_id mb) = Some (from_manifest mb)"
    using find_node_distinct [OF healthy_distinct [OF h] n] by simp
  ultimately have "e = last (FILE_CHAIN_START # map snd (slice_ranges ?N (m_id mb)))"
    "linked FILE_CHAIN_START (slice_ranges ?N (m_id mb))"
    using base(2) by (auto simp: good_chain_def chain_end_def)
  with e that show ?thesis by blast
qed

text \<open>The head is the last backup of the chain, and its generation the end of the chain.\<close>

lemma file_head:
  assumes ok: "file_ok c w" and ch: "collect_file_chain c (w_store w) = Some ch"
  shows "good_chain (collect_file_nodes c (w_store w)) (fc_base_id ch) (OplogTs (fc_head_gen ch) 0) \<and>
    fc_head_id ch = last (fc_base_id ch # map cn_id (sorted_incrs (collect_file_nodes c (w_store w)) (fc_base_id ch)))"
proof -
  let ?N = "collect_file_nodes c (w_store w)" and ?b = "fc_base_id ch" and ?ms = "manifests c (w_store w)"
  let ?start = "(ts_t FILE_CHAIN_START, ?b)"
  obtain mb where mb: "fold (\<lambda>m base. newer_file_base base m) ?ms None = Some mb" "?b = m_id mb"
    "fold (later_head ?b) ?ms ?start = (fc_head_gen ch, fc_head_id ch)"
    using ch by (auto simp: collect_file_chain_def Let_def split: option.splits prod.splits)
  from newest_base [OF mb(1)] have full: "mb \<in> set ?ms" "is_file_full mb"
    by simp_all
  obtain e where e: "good_chain ?N ?b e" "e = last (FILE_CHAIN_START # map snd (slice_ranges ?N ?b))"
    "linked FILE_CHAIN_START (slice_ranges ?N ?b)"
    using file_base [OF ok full] mb(2) by metis
  from e(1) obtain b1 where g: "linked b1 (slice_ranges ?N ?b)" "\<forall>r \<in> set (slice_ranges ?N ?b). fst r \<le> snd r"
    "sorted_wrt (<) (?b # map cn_id (sorted_incrs ?N ?b))" "e = last (b1 # map snd (slice_ranges ?N ?b))"
    by (auto simp: good_chain_def chain_end_def)
  let ?tip = "last (?b # map cn_id (sorted_incrs ?N ?b))"
  note incrs = file_incrs [OF ok]
  have below: "head_le (head_key m) (ts_t e, ?tip)" if m: "m \<in> set ?ms" "in_file_chain ?b m" for m
  proof -
    obtain r where r: "node_range (from_manifest m) = (start_ts r, end_ts r)" "head_key m = (ts_t (end_ts r), m_id m)"
      "m_oplog_range m = Some r" "ts_i (end_ts r) = 0"
      using in_chain_shape [OF ok m] by metis
    have n: "from_manifest m \<in> set (sorted_incrs ?N ?b)"
      using incrs m by blast
    then have "(start_ts r, end_ts r) \<in> set (slice_ranges ?N ?b)"
      using r(1) by (force simp: slice_ranges_def)
    from linked_ends_le [OF g(1,2) this] g(4) have "end_ts r \<le> e" by simp
    moreover have "m_id m \<le> ?tip"
      using n by (intro last_greatest [OF g(3)]) force
    ultimately show ?thesis
      using r(2) by (auto simp: head_le_def ts_le_iff)
  qed
  have start: "head_le ?start (ts_t e, ?tip)"
  proof -
    have "FILE_CHAIN_START \<le> e"
      using linked_last [OF e(3) g(2)] e(2) by simp
    moreover have "?b \<le> ?tip"
      by (intro last_greatest [OF g(3)]) simp
    ultimately show ?thesis
      by (auto simp: head_le_def ts_le_iff)
  qed
  have "ts_i e = 0 \<and> head_le (ts_t e, ?tip) (fold (later_head ?b) ?ms ?start)"
  proof (cases "sorted_incrs ?N ?b" rule: rev_cases)
    case Nil
    with e(2) show ?thesis
      using head_above_start [of ?start ?b ?ms] by (simp add: slice_ranges_def FILE_CHAIN_START_def)
  next
    case (snoc ns n)
    then have "n \<in> set (sorted_incrs ?N ?b)" by simp
    then obtain m where m: "m \<in> set ?ms" "in_file_chain ?b m" "n = from_manifest m"
      using incrs by blast
    obtain r where r: "m_oplog_range m = Some r" "ts_i (end_ts r) = 0"
      "node_range (from_manifest m) = (start_ts r, end_ts r)" "head_key m = (ts_t (end_ts r), m_id m)"
      using in_chain_shape [OF ok m(1,2)] by metis
    have "e = end_ts r" "?tip = m_id m"
      using e(2) snoc m(3) r(3) by (simp_all add: slice_ranges_def)
    with r head_above [OF m(1,2), of ?start] show ?thesis by simp
  qed
  moreover have "head_le (fold (later_head ?b) ?ms ?start) (ts_t e, ?tip)"
    using head_found [of ?b ?ms ?start] below start by auto
  ultimately have "fold (later_head ?b) ?ms ?start = (ts_t e, ?tip)" "ts_i e = 0"
    using head_le_antisym by blast+
  with mb(3) e(1) show ?thesis
    by (cases e) simp
qed

section \<open>What a backup restores\<close>

abbreviation empty_target :: "(string \<times> string) list \<Rightarrow> target" where
  "empty_target os \<equiv> \<lparr>tg_tree = (\<lambda>_. None), tg_outside = os\<rparr>"

text \<open>
  The backup \<open>i\<close> can be read back: its index is the snapshot of the tree \<open>t\<close>, whose directories are open,
  and restoring it into an empty directory gives a tree like \<open>t\<close> and touches nothing else.
\<close>

definition restores ::
  "codec \<Rightarrow> index_codec \<Rightarrow> tar_api \<Rightarrow> unstage \<Rightarrow> store \<Rightarrow> string \<Rightarrow> FileIndex \<Rightarrow> tree \<Rightarrow> bool" where
  "restores c ic api unstage s i ix t \<longleftrightarrow> read_file_index ic s i = Inr ix \<and> snapshot ix t \<and>
     open_dirs t \<and> (\<forall>os. \<exists>n t'. file_chain_restore c api unstage s i (empty_target os) =
        (Inr n, \<lparr>tg_tree = t', tg_outside = os\<rparr>) \<and> alike t' t)"

lemma undone:
  "stages_undone stages meta unstage \<Longrightarrow> m_compression m = bm_compression meta \<Longrightarrow>
     m_encryption m = bm_encryption meta \<Longrightarrow> stages bs = Some b \<Longrightarrow> \<exists>f. unstage m = Some f \<and> f b = (bs, True)"
  unfolding stages_undone_def by metis

lemma restore_slices_append:
  "restore_slices c api unstage s (is @ js) tg = (case restore_slices c api unstage s is tg of
     (Inl e, tg1) \<Rightarrow> (Inl e, tg1)
   | (Inr n, tg1) \<Rightarrow> (case restore_slices c api unstage s js tg1 of
       (Inl e, tg2) \<Rightarrow> (Inl e, tg2) | (Inr k, tg2) \<Rightarrow> (Inr (n + k), tg2)))"
  by (induction "is" arbitrary: tg) (auto split: option.splits prod.splits sum.splits)

lemma restore_slices_cong:
  "\<forall>i \<in> set is. sto_get s (manifest_path i) = sto_get s' (manifest_path i) \<and>
     sto_get s (data_path i) = sto_get s' (data_path i) \<Longrightarrow>
   restore_slices c api unstage s is tg = restore_slices c api unstage s' is tg"
proof (induction "is" arbitrary: tg)
  case (Cons i "is")
  then have same: "store_read c s i = store_read c s' i" "sto_get s (data_path i) = sto_get s' (data_path i)"
    "\<And>tg. restore_slices c api unstage s is tg = restore_slices c api unstage s' is tg"
    by (auto intro: store_read_cong)
  show ?case
    unfolding restore_slices.simps same ..
qed simp

lemma file_stored_index:
  assumes "file_stored c ic w w' m data ix" and "index_laws ic" and "ix_version ix = INDEX_VERSION"
  shows "read_file_index ic (w_store w') (m_id m) = Inr ix"
proof -
  obtain bs where bs: "ix_encode ic ix = Some bs" "look w' (file_index_path (m_id m)) = Some bs"
    using assms(1) unfolding file_stored_def by blast
  with assms(2) have "ix_parse ic bs = Some ix"
    unfolding index_laws_def by (metis option.inject)
  with bs assms(3) show ?thesis
    by (simp add: read_file_index_def index_decode_def)
qed

lemma file_stored_data: "file_stored c ic w w' m data ix \<Longrightarrow> look w' (data_path (m_id m)) = data"
  unfolding file_stored_def published_def artifact_at_def by blast

lemma source_index_built:
  assumes "source_index src = Inr ix" and "dir_source src root"
  shows "snapshot ix (tree_of root)" "ix_version ix = INDEX_VERSION"
proof -
  from assms(1) have b: "index_build src = Inr ix" "reject_reserved_paths ix = Inr ()"
    by (auto simp: source_index_def bind_res_Inr_iff)
  then show "snapshot ix (tree_of root)"
    using index_snapshot assms(2) by blast
  show "ix_version ix = INDEX_VERSION"
    using b(1) by (auto simp: index_build_def bind_res_Inr_iff split: option.splits fs.splits)
qed

text \<open>A quiet source: a directory that the index and the dump see alike.\<close>

definition quiet_source :: "file_env \<Rightarrow> fs \<Rightarrow> bool" where
  "quiet_source env root \<longleftrightarrow> dir_source (fe_indexed env) root \<and> fe_dumped env = fe_indexed env"

definition libraries_ok :: "codec \<Rightarrow> index_codec \<Rightarrow> tar_api \<Rightarrow> bool" where
  "libraries_ok c ic api \<longleftrightarrow> codec_laws c \<and> sha_of_empty c \<and> index_laws ic \<and> tar_laws api"

lemma full_restored:
  assumes st: "file_stored c ic w w' (file_full_manifest now sd meta promoted) (Some b) ix"
    and ix: "source_index (fe_indexed env) = Inr ix" and es: "build_tar api (fe_dumped env) = Some es"
    and b: "stages (ta_write api es) = Some b" and src: "quiet_source env root" and "open": "open_dirs (tree_of root)"
    and laws: "libraries_ok c ic api" "stages_undone stages meta unstage"
  shows "restores c ic api unstage (w_store w') (sd_backup_id sd) ix (tree_of root)"
proof -
  let ?m = "file_full_manifest now sd meta promoted"
  have dir: "dir_source (fe_indexed env) root" "fe_dumped env = fe_indexed env"
    using src by (simp_all add: quiet_source_def)
  note built = source_index_built [OF ix dir(1)]
  have rd: "store_read c (w_store w') (sd_backup_id sd) = Some ?m"
    using st laws(1) published_read by (fastforce simp: file_stored_def libraries_ok_def)
  have data: "look w' (data_path (sd_backup_id sd)) = Some b"
    using file_stored_data [OF st] by simp
  obtain f where f: "unstage ?m = Some f" "f b = (ta_write api es, True)"
    using undone [OF laws(2) _ _ b, of ?m] by auto
  have "\<exists>n t. file_chain_restore c api unstage (w_store w') (sd_backup_id sd) (empty_target os) =
      (Inr n, \<lparr>tg_tree = t, tg_outside = os\<rparr>) \<and> alike t (tree_of root)" for os
    using full_restores [OF _ built(1) dir(1) "open", of api es os] laws(1) es dir(2) f data rd
    by (auto simp: file_chain_restore_def restore_plan_def libraries_ok_def)
  moreover have "read_file_index ic (w_store w') (sd_backup_id sd) = Inr ix"
    using file_stored_index [OF st _ built(2)] laws(1) by (simp add: libraries_ok_def)
  ultimately show ?thesis
    using built(1) "open" by (simp add: restores_def)
qed

section \<open>The slice behind the head\<close>

lemma good_chain_base_of: "good_chain nodes b e \<Longrightarrow> base_of nodes b = Some b"
  by (auto simp: good_chain_def base_of_def usable_base_def)

lemma good_chain_ids: "good_chain nodes b e \<Longrightarrow> sorted_wrt (<) (map cn_id (sorted_incrs nodes b))"
  by (auto simp: good_chain_def)

text \<open>The plan of the last slice is the whole chain.\<close>

lemma plan_last:
  assumes g: "good_chain (collect_file_nodes c s) b e"
    and ids: "map cn_id (sorted_incrs (collect_file_nodes c s) b) = is @ [m_id m]"
    and m: "m_backup_type m = Incremental" "m_base_id m = Some b"
  shows "restore_plan c s m = Inr (b # is @ [m_id m])"
proof -
  have "position (\<lambda>i. i = m_id m) (is @ [m_id m]) = Some (length is)"
    using good_chain_ids [OF g] unfolding ids
    by (intro position_eqI) (auto simp: sorted_wrt_append nth_append dest!: nth_mem)
  with m good_chain_report(1,2) [OF g good_chain_base_of [OF g]] ids show ?thesis
    by (simp add: restore_plan_def Let_def)
qed

lemma head_restore:
  assumes ok: "file_ok c w" and ch: "collect_file_chain c (w_store w) = Some ch"
  shows "file_chain_restore c api unstage (w_store w) (fc_head_id ch) tg =
    restore_slices c api unstage (w_store w)
      (fc_base_id ch # map cn_id (sorted_incrs (collect_file_nodes c (w_store w)) (fc_base_id ch))) tg"
proof -
  let ?N = "collect_file_nodes c (w_store w)" and ?b = "fc_base_id ch" and ?ms = "manifests c (w_store w)"
  note h = file_head [OF ok ch]
  have st: "store_ok c (w_store w)" using ok by (simp add: file_ok_def)
  have read: "store_read c (w_store w) (m_id m) = Some m" if "m \<in> set ?ms" for m
    using that st set_manifests [OF st] unfolding store_ok_def by metis
  show ?thesis
  proof (cases "sorted_incrs ?N ?b" rule: rev_cases)
    case Nil
    obtain mb where mb: "mb \<in> set ?ms" "is_file_full mb" "m_id mb = ?b"
      using ch newest_base by (force simp: collect_file_chain_def Let_def split: option.splits prod.splits)
    then have "store_read c (w_store w) ?b = Some mb" "m_backup_type mb = Full"
      using read [OF mb(1)] by (auto simp: is_file_full_def)
    with Nil h mb(3) show ?thesis
      by (simp add: file_chain_restore_def restore_plan_def)
  next
    case (snoc ns n)
    then have "n \<in> set (sorted_incrs ?N ?b)" by simp
    then obtain m where m: "m \<in> set ?ms" "in_file_chain ?b m" "n = from_manifest m"
      using file_incrs [OF ok] by blast
    have "fc_head_id ch = m_id m"
      using h snoc m(3) by simp
    moreover have "restore_plan c (w_store w) m = Inr (?b # map cn_id ns @ [m_id m])"
      using h snoc m(2,3) by (intro plan_last) (auto simp: in_file_chain_def)
    ultimately show ?thesis
      using read [OF m(1)] snoc m(3) by (simp add: file_chain_restore_def)
  qed
qed

text \<open>The numbers of a slice fit their types: the generation and the count of changes.\<close>

definition slice_fits :: "IndexDiff \<Rightarrow> u32 \<Rightarrow> bool" where
  "slice_fits d gen \<longleftrightarrow> gen + 1 \<noteq> 0 \<and> length (df_changed d) + length (df_deleted d) < 2 ^ 64"

lemma fits_count:
  assumes "slice_fits d gen"
  shows "diff_count d = 0 \<longleftrightarrow> diff_is_empty d"
proof -
  let ?n = "length (df_changed d) + length (df_deleted d)"
  have "?n < 2 ^ LENGTH(64)"
    using assms by (simp add: slice_fits_def)
  then have "unat (diff_count d) = ?n"
    unfolding diff_count_def by (rule of_nat_inverse [OF refl])
  then show ?thesis
    by (auto simp: diff_is_empty_def unat_eq_0 [symmetric])
qed

lemma slice_end:
  assumes "slice_data api stages env d gen data upper" and "slice_fits d gen"
  shows "OplogTs gen 0 \<le> upper \<and> ts_i upper = 0"
proof -
  have "gen < gen + 1"
    using assms(2) unatSuc [of gen] by (simp add: slice_fits_def word_less_nat_alt add.commute)
  with assms(1) show ?thesis
    by (auto simp: slice_data_def ts_le_iff split: if_splits)
qed

lemma slice_chain:
  assumes ok: "file_ok c w" and ch: "collect_file_chain c (w_store w) = Some ch"
    and m: "m = file_incr_manifest now i (fc_base_id ch) og sz ck \<lparr>start_ts = OplogTs (fc_head_gen ch) 0, end_ts = upper\<rparr>
      (diff_count d) meta"
    and st: "file_stored c ic w w' m data cur"
    and sd: "slice_data api stages env d (fc_head_gen ch) data upper" "slice_fits d (fc_head_gen ch)"
    and laws: "codec_laws c"
  shows "file_ok c w'"
    and "restore_plan c (w_store w') m = Inr (fc_base_id ch #
      map cn_id (sorted_incrs (collect_file_nodes c (w_store w)) (fc_base_id ch)) @ [m_id m])"
    and "sorted_incrs (collect_file_nodes c (w_store w')) (fc_base_id ch) =
      sorted_incrs (collect_file_nodes c (w_store w)) (fc_base_id ch) @ [from_manifest m]"
proof -
  let ?N = "collect_file_nodes c (w_store w)" and ?N' = "collect_file_nodes c (w_store w')"
    and ?b = "fc_base_id ch" and ?n = "from_manifest m"
  note g = file_head [OF ok ch, THEN conjunct1] and e = slice_end [OF sd]
  have id: "m_id m = w_uuid w (w_drawn w)" using st by (simp add: file_stored_def)
  then have less: "\<forall>n \<in> set ?N. cn_id n < cn_id ?n"
    using file_nodes_less [OF ok] by simp
  have n: "incr_of ?b ?n" "cn_oplog_range ?n = Some (OplogTs (fc_head_gen ch) 0, upper)"
    "cn_status ?n = Complete" "\<not> cn_selective ?n"
    by (simp_all add: m incr_of_def)
  have h: "healthy (?N @ [?n]) \<and> good_chain (?N @ [?n]) ?b upper"
    using ok e less n by (intro healthy_extend [OF _ g n(1,2)]) (simp_all add: file_ok_def)
  have shape: "is_file_manifest m" "file_shape m"
    using e by (simp_all add: m is_file_manifest_def file_shape_def)
  note new = file_ok_stored [OF ok st laws shape h [THEN conjunct1]]
  show "file_ok c w'" by (rule new(1))
  have d: "distinct (map cn_id (?N @ [?n]))" "distinct (map cn_id ?N')"
    using h new(1) healthy_distinct unfolding file_ok_def by blast+
  have "good_chain ?N' ?b upper"
    using good_chain_mset [OF d(1) new(2) [symmetric]] h by blast
  moreover show "sorted_incrs ?N' ?b = sorted_incrs ?N ?b @ [?n]"
    using sorted_incrs_cong_mset [OF d(2) new(2)] sorted_incrs_snoc [OF g n(1,2) less] by simp
  ultimately show "restore_plan c (w_store w') m = Inr (?b # map cn_id (sorted_incrs ?N ?b) @ [m_id m])"
    by (intro plan_last) (simp_all add: m)
qed

lemma slice_restored:
  assumes ok: "file_ok c w" and ch: "collect_file_chain c (w_store w) = Some ch"
    and prev: "restores c ic api unstage (w_store w) (fc_head_id ch) prev t0"
    and m: "m = file_incr_manifest now i (fc_base_id ch) og sz ck \<lparr>start_ts = OplogTs (fc_head_gen ch) 0, end_ts = upper\<rparr>
      (diff_count d) meta"
    and st: "file_stored c ic w w' m data cur"
    and d: "d = diff_from cur prev"
    and sd: "slice_data api stages env d (fc_head_gen ch) data upper" "slice_fits d (fc_head_gen ch)"
    and ix: "source_index (fe_indexed env) = Inr cur" and src: "quiet_source env root"
    and same: "detects prev t0 cur (tree_of root)" "same_kinds t0 (tree_of root)" and "open": "open_dirs (tree_of root)"
    and laws: "libraries_ok c ic api" "stages_undone stages meta unstage"
  shows "restores c ic api unstage (w_store w') (m_id m) cur (tree_of root)"
proof -
  let ?ids = "fc_base_id ch # map cn_id (sorted_incrs (collect_file_nodes c (w_store w)) (fc_base_id ch))"
  have l: "codec_laws c" "index_laws ic" "tar_laws api" using laws(1) by (simp_all add: libraries_ok_def)
  have dir: "dir_source (fe_indexed env) root" "fe_dumped env = fe_indexed env" "so_target (fe_dumped env) = Some root"
    using src by (auto simp: quiet_source_def dir_source_def)
  note built = source_index_built [OF ix dir(1)]
  have s0: "snapshot prev t0" using prev by (simp add: restores_def)
  note plan = slice_chain(2) [OF ok ch m st sd l(1)] and ms = file_stored_manifests [OF ok st l(1)]
  have old: "i \<in> set ?ids \<Longrightarrow> i \<noteq> m_id m" for i
  proof -
    assume i: "i \<in> set ?ids"
    have "\<exists>n \<in> set (collect_file_nodes c (w_store w)). cn_id n = fc_base_id ch"
      using file_head [OF ok ch] find_node_Some unfolding good_chain_def by blast
    with i obtain n where "n \<in> set (collect_file_nodes c (w_store w))" "cn_id n = i" by auto
    moreover have "m_id m = w_uuid w (w_drawn w)" using st by (simp add: file_stored_def)
    ultimately show "i \<noteq> m_id m" using file_nodes_less [OF ok] by force
  qed
  have restore: "file_chain_restore c api unstage (w_store w') (m_id m) (empty_target os) =
      restore_slices c api unstage (w_store w') (?ids @ [m_id m]) (empty_target os)" for os
    using plan ms(2) by (simp add: file_chain_restore_def)
  have s00: "open_dirs t0" using prev by (simp add: restores_def)
  have "\<exists>n t. file_chain_restore c api unstage (w_store w') (m_id m) (empty_target os) =
      (Inr n, \<lparr>tg_tree = t, tg_outside = os\<rparr>) \<and> alike t (tree_of root)" for os
  proof -
    let ?tg = "\<lambda>t. \<lparr>tg_tree = t, tg_outside = os\<rparr>"
    obtain n tr where n: "file_chain_restore c api unstage (w_store w) (fc_head_id ch) (empty_target os) = (Inr n, ?tg tr)"
      "alike tr t0"
      using prev unfolding restores_def by blast
    have "restore_slices c api unstage (w_store w) ?ids (empty_target os) =
        restore_slices c api unstage (w_store w') ?ids (empty_target os)"
      using ms(3) old by (intro restore_slices_cong) auto
    then have pre: "restore_slices c api unstage (w_store w') ?ids (empty_target os) = (Inr n, ?tg tr)"
      using n(1) head_restore [OF ok ch] by simp
    obtain es k t where es: "build_incr_tar api root (df_changed d) (df_deleted d) = Some es"
      "file_restore api (ta_write api es) True (?tg tr) = (Inr k, ?tg t)" "alike t (tree_of root)"
      using slice_restores [OF s0 built(1) l(3) n(2) s00 "open" same d] by blast
    have "\<exists>k. restore_slices c api unstage (w_store w') [m_id m] (?tg tr) = (Inr k, ?tg t)"
    proof (cases "diff_is_empty d")
      case True
      then have "t = tr"
        using es(1,2) l(3) by (auto simp: diff_is_empty_def build_incr_tar_def file_restore_def unpack_tar_def tar_laws_def)
      moreover have "m_oplog_count m = Some 0"
        using True fits_count [OF sd(2)] by (simp add: m)
      ultimately show ?thesis using ms(2) by simp
    next
      case False
      then obtain b where b: "stages (ta_write api es) = Some b" "data = Some b"
        using sd(1) es(1) dir(3) by (auto simp: slice_data_def)
      obtain f where f: "unstage m = Some f" "f b = (ta_write api es, True)"
        using undone [OF laws(2) _ _ b(1), of m] by (auto simp: m)
      have "look w' (data_path (m_id m)) = Some b"
        using file_stored_data [OF st] b(2) by simp
      moreover have "m_oplog_count m \<noteq> Some 0"
        using False fits_count [OF sd(2)] by (simp add: m)
      ultimately show ?thesis using ms(2) f es(2) by simp
    qed
    then obtain k where k: "restore_slices c api unstage (w_store w') [m_id m] (?tg tr) = (Inr k, ?tg t)" by blast
    have "restore_slices c api unstage (w_store w') (?ids @ [m_id m]) (empty_target os) = (Inr (n + k), ?tg t)"
      unfolding restore_slices_append pre by (simp only: prod.case sum.case k)
    with restore es(3) show ?thesis by simp
  qed
  moreover have "read_file_index ic (w_store w') (m_id m) = Inr cur"
    using file_stored_index [OF st l(2) built(2)] .
  ultimately show ?thesis
    using built(1) "open" by (simp add: restores_def)
qed

section \<open>Runs\<close>

lemma full_file_ok:
  assumes ok: "file_ok c w" and st: "file_stored c ic w w' (file_full_manifest now sd meta promoted) data ix"
    and laws: "codec_laws c"
  shows "file_ok c w'"
proof -
  let ?m = "file_full_manifest now sd meta promoted" and ?N = "collect_file_nodes c (w_store w)"
  have "sd_backup_id sd = w_uuid w (w_drawn w)" using st by (simp add: file_stored_def)
  then have "healthy (?N @ [from_manifest ?m])"
    using ok file_nodes_less [OF ok] by (intro healthy_new_full) (simp_all add: file_ok_def)
  then show ?thesis
    by (intro file_ok_stored(1) [OF ok st laws]) (simp_all add: is_file_manifest_def file_shape_def)
qed

text \<open>The newest full backup.\<close>

lemma newest_base_None: "fold (\<lambda>m base. newer_file_base base m) ms base = None \<longleftrightarrow> base = None \<and> (\<forall>m \<in> set ms. \<not> is_file_full m)"
  by (induction ms arbitrary: base) (auto simp: newer_file_base_def split: option.splits)

lemma newest_base_above:
  assumes "fold (\<lambda>m base. newer_file_base base m) ms base = Some y"
  shows "(\<forall>x \<in> set ms. is_file_full x \<longrightarrow> m_id x \<le> m_id y) \<and> (\<forall>x. base = Some x \<longrightarrow> m_id x \<le> m_id y)"
  using assms
proof (induction ms arbitrary: base)
  case (Cons m ms)
  then have IH: "\<forall>x \<in> set ms. is_file_full x \<longrightarrow> m_id x \<le> m_id y"
    "\<forall>x. newer_file_base base m = Some x \<longrightarrow> m_id x \<le> m_id y"
    by fastforce+
  have "is_file_full m \<longrightarrow> m_id m \<le> m_id y" "\<forall>x. base = Some x \<longrightarrow> m_id x \<le> m_id y"
    using IH(2) by (cases base; auto simp: newer_file_base_def not_less split: if_splits intro: order_trans less_imp_le)+
  with IH(1) show ?case by simp
qed simp

lemma chain_base_unique:
  assumes ok: "file_ok c w" and full: "m \<in> set (manifests c (w_store w))" "is_file_full m"
    and newest: "\<forall>x \<in> set (manifests c (w_store w)). is_file_full x \<longrightarrow> m_id x \<le> m_id m"
  obtains ch where "collect_file_chain c (w_store w) = Some ch" "fc_base_id ch = m_id m"
proof -
  let ?fold = "fold (\<lambda>m base. newer_file_base base m) (manifests c (w_store w)) None"
  obtain y where y: "?fold = Some y"
    using full newest_base_None [of "manifests c (w_store w)" None] by (cases ?fold) auto
  then have "y \<in> set (manifests c (w_store w))" "is_file_full y" "m_id m \<le> m_id y"
    using newest_base [OF y] newest_base_above [OF y] full by auto
  with newest have "m_id y = m_id m" by (simp add: order_antisym)
  moreover obtain gen i where "fold (later_head (m_id y)) (manifests c (w_store w)) (ts_t FILE_CHAIN_START, m_id y) = (gen, i)"
    by fastforce
  ultimately show ?thesis
    using y that [of "\<lparr>fc_base_id = m_id y, fc_head_id = i, fc_head_gen = gen\<rparr>"]
    by (simp add: collect_file_chain_def)
qed

lemma chain_base_newest:
  assumes "collect_file_chain c s = Some ch"
  obtains m where "m \<in> set (manifests c s)" "is_file_full m" "m_id m = fc_base_id ch"
    "\<forall>x \<in> set (manifests c s). is_file_full x \<longrightarrow> m_id x \<le> m_id m"
proof -
  obtain y where y: "fold (\<lambda>m base. newer_file_base base m) (manifests c s) None = Some y" "fc_base_id ch = m_id y"
    using assms by (auto simp: collect_file_chain_def Let_def split: option.splits prod.splits)
  with newest_base [OF y(1)] newest_base_above [OF y(1)] that show ?thesis by auto
qed

lemma good_chain_unique: "good_chain nodes b e \<Longrightarrow> good_chain nodes b e' \<Longrightarrow> e = e'"
  unfolding good_chain_def by force

lemma full_is_head:
  assumes ok: "file_ok c w" and st: "file_stored c ic w w' (file_full_manifest now sd meta promoted) data ix"
    and laws: "codec_laws c"
  obtains ch where "collect_file_chain c (w_store w') = Some ch" "fc_head_id ch = sd_backup_id sd"
    "fc_head_gen ch = 1"
proof -
  let ?m = "file_full_manifest now sd meta promoted" and ?N' = "collect_file_nodes c (w_store w')"
  note ok' = full_file_ok [OF ok st laws] and ms = file_stored_manifests [OF ok st laws]
  have sets: "set (manifests c (w_store w')) = insert ?m (set (manifests c (w_store w)))"
    using mset_eq_setD [OF ms(1)] by simp
  have id: "sd_backup_id sd = w_uuid w (w_drawn w)" using st by (simp add: file_stored_def)
  have less: "m_id x < sd_backup_id sd" if "x \<in> set (manifests c (w_store w))" for x
    using ok that id by (fastforce simp: file_ok_def ids_ahead_def catalogue_def)
  then have "\<forall>x \<in> set (manifests c (w_store w')). is_file_full x \<longrightarrow> m_id x \<le> m_id ?m"
    by (auto simp: sets dest: less_imp_le)
  then obtain ch where ch: "collect_file_chain c (w_store w') = Some ch" "fc_base_id ch = sd_backup_id sd"
    using chain_base_unique [OF ok', of ?m] sets by (auto simp: is_file_full_def)
  have none: "sorted_incrs ?N' (sd_backup_id sd) = []"
  proof (rule ccontr)
    assume "sorted_incrs ?N' (sd_backup_id sd) \<noteq> []"
    then obtain n where n: "n \<in> set ?N'" "incr_of (sd_backup_id sd) n"
      using set_sorted_incrs [of ?N' "sd_backup_id sd"] by (metis (mono_tags) list.set_sel(1) mem_Collect_eq)
    then have "n \<noteq> from_manifest ?m" by (auto simp: incr_of_def)
    with n obtain x where "x \<in> set (manifests c (w_store w))" "n = from_manifest x"
      by (auto simp: set_file_nodes sets)
    then have "cn_id n < sd_backup_id sd" using less by simp
    moreover have "sd_backup_id sd < cn_id n"
      using ok' n unfolding file_ok_def healthy_def ordered_ids_def incr_of_def by blast
    ultimately show False by simp
  qed
  have full: "?m \<in> set (manifests c (w_store w'))" "is_file_full ?m"
    by (simp_all add: sets is_file_full_def)
  obtain e where "good_chain ?N' (sd_backup_id sd) e" "e = FILE_CHAIN_START"
    using file_base [OF ok' full] none by (auto simp: slice_ranges_def)
  with file_head [OF ok' ch(1)] ch(2) have "OplogTs (fc_head_gen ch) 0 = FILE_CHAIN_START"
    using good_chain_unique by metis
  then have "fc_head_gen ch = 1" by (simp add: FILE_CHAIN_START_def)
  with file_head [OF ok' ch(1)] none ch that show ?thesis by simp
qed

lemma slice_is_head:
  assumes ok: "file_ok c w" and ch: "collect_file_chain c (w_store w) = Some ch"
    and m: "m = file_incr_manifest now i (fc_base_id ch) og sz ck \<lparr>start_ts = OplogTs (fc_head_gen ch) 0, end_ts = upper\<rparr>
      (diff_count d) meta"
    and st: "file_stored c ic w w' m data cur"
    and sd: "slice_data api stages env d (fc_head_gen ch) data upper" "slice_fits d (fc_head_gen ch)"
    and laws: "codec_laws c"
  obtains ch' where "collect_file_chain c (w_store w') = Some ch'" "fc_head_id ch' = m_id m"
proof -
  note ok' = slice_chain(1) [OF assms] and ids = slice_chain(3) [OF assms]
    and ms = file_stored_manifests [OF ok st laws]
  have sets: "set (manifests c (w_store w')) = insert m (set (manifests c (w_store w)))"
    using mset_eq_setD [OF ms(1)] by simp
  obtain mb where mb: "mb \<in> set (manifests c (w_store w))" "is_file_full mb" "m_id mb = fc_base_id ch"
    "\<forall>x \<in> set (manifests c (w_store w)). is_file_full x \<longrightarrow> m_id x \<le> m_id mb"
    using chain_base_newest [OF ch] by metis
  have "\<not> is_file_full m" by (simp add: m is_file_full_def)
  then obtain ch' where ch': "collect_file_chain c (w_store w') = Some ch'" "fc_base_id ch' = fc_base_id ch"
    using chain_base_unique [OF ok' _ mb(2)] mb sets by auto
  have "fc_head_id ch' = m_id m"
    using file_head [OF ok' ch'(1)] ch'(2) ids by simp
  with ch'(1) that show ?thesis by blast
qed

text \<open>
  A history of the file engine: a full backup of a quiet source with open directories, then incremental
  backups, each of such a source whose changes show in the metadata and keep the kinds of paths, with
  failed runs of either kind in between. The last state is the destination and the source of the last backup with its index.
\<close>

inductive file_history ::
  "codec \<Rightarrow> index_codec \<Rightarrow> tar_api \<Rightarrow> unstage \<Rightarrow> world \<Rightarrow> FileIndex \<Rightarrow> fs \<Rightarrow> bool"
  for c :: codec and ic :: index_codec and api :: tar_api and unstage :: unstage where
  first_full: "file_ok c w \<Longrightarrow> reliable_deletes w \<Longrightarrow>
    run_file_full_backup c ic api stages meta env now w = (Inr out, w') \<Longrightarrow> stages_undone stages meta unstage \<Longrightarrow>
    quiet_source env root \<Longrightarrow> open_dirs (tree_of root) \<Longrightarrow> source_index (fe_indexed env) = Inr ix \<Longrightarrow>
    file_history c ic api unstage w' ix root"
| next_increment: "file_history c ic api unstage w ix root \<Longrightarrow>
    run_file_incremental_backup c ic api stages meta env now w = (Inr out, w') \<Longrightarrow>
    stages_undone stages meta unstage \<Longrightarrow> quiet_source env root' \<Longrightarrow> open_dirs (tree_of root') \<Longrightarrow>
    source_index (fe_indexed env) = Inr ix' \<Longrightarrow> detects ix (tree_of root) ix' (tree_of root') \<Longrightarrow>
    same_kinds (tree_of root) (tree_of root') \<Longrightarrow>
    (\<And>ch. collect_file_chain c (w_store w) = Some ch \<Longrightarrow> slice_fits (diff_from ix' ix) (fc_head_gen ch)) \<Longrightarrow>
    file_history c ic api unstage w' ix' root'"
| failed_full: "file_history c ic api unstage w ix root \<Longrightarrow>
    run_file_full_backup c ic api stages meta env now w = (Inl e, w') \<Longrightarrow> file_history c ic api unstage w' ix root"
| failed_increment: "file_history c ic api unstage w ix root \<Longrightarrow>
    run_file_incremental_backup c ic api stages meta env now w = (Inl e, w') \<Longrightarrow>
    file_history c ic api unstage w' ix root"

text \<open>The head of the destination restores the source of the last backup.\<close>

definition head_restores ::
  "codec \<Rightarrow> index_codec \<Rightarrow> tar_api \<Rightarrow> unstage \<Rightarrow> world \<Rightarrow> FileIndex \<Rightarrow> fs \<Rightarrow> bool" where
  "head_restores c ic api unstage w ix root \<longleftrightarrow> file_ok c w \<and> reliable_deletes w \<and>
     (\<exists>ch. collect_file_chain c (w_store w) = Some ch \<and>
        restores c ic api unstage (w_store w) (fc_head_id ch) ix (tree_of root))"

lemma restores_cong:
  assumes "\<forall>p. sto_get s p = sto_get s' p"
  shows "restores c ic api unstage s i ix t = restores c ic api unstage s' i ix t"
proof -
  have m: "manifests c s = manifests c s'"
    using assms by (intro manifests_cong) simp
  have "restore_slices c api unstage s is tg = restore_slices c api unstage s' is tg" for "is" tg
    using assms by (intro restore_slices_cong) simp
  moreover have "restore_plan c s = restore_plan c s'"
    unfolding restore_plan_def collect_file_nodes_def m ..
  moreover have "store_read c s = store_read c s'"
    using assms by (intro ext store_read_cong) simp
  ultimately have "file_chain_restore c api unstage s i tg = file_chain_restore c api unstage s' i tg" for tg
    unfolding file_chain_restore_def by presburger
  with assms show ?thesis
    by (simp add: restores_def read_file_index_def)
qed

lemma head_restores_same:
  assumes "head_restores c ic api unstage w ix root" and "same_oracle w w'" and "look w' = look w"
  shows "head_restores c ic api unstage w' ix root"
proof -
  have "manifests c (w_store w') = manifests c (w_store w)"
    using assms(3) by (intro manifests_cong) simp
  then have "collect_file_chain c (w_store w') = collect_file_chain c (w_store w)"
    by (simp add: collect_file_chain_def)
  moreover have "restores c ic api unstage (w_store w') i ix t = restores c ic api unstage (w_store w) i ix t" for i t
    using assms(3) by (intro restores_cong) simp
  ultimately show ?thesis
    using assms file_ok_unchanged same_oracle_reliable by (auto simp: head_restores_def)
qed

lemma failed_full_same:
  assumes "run_file_full_backup_inner c ic api stages meta env now promoted w = (Inl e, w')"
    and "file_ok c w" and "reliable_deletes w" and "index_laws ic"
  shows "same_oracle w w' \<and> look w' = look w"
  using assms(1,4)
proof (cases rule: file_full_cases)
  case (core e)
  with file_ok_failed [OF assms(2) core(2) assms(3)] show ?thesis
    by (simp add: failed_clean_def)
qed simp_all

lemma incremental_cases:
  assumes run: "run_file_incremental_backup c ic api stages meta env now w = (r, w')"
    and laws: "index_laws ic" "sha_of_empty c" and ok: "file_ok c w"
  obtains (refused) e where "r = Inl e" "w' = w"
  | (core) e where "r = Inl e" "failed_clean (w_uuid w (w_drawn w)) w w'"
  | (promoted) ch e sd ix es b where "collect_file_chain c (w_store w) = Some ch"
      "read_file_index ic (w_store w) (fc_head_id ch) = Inl e"
      "r = Inr \<lparr>fi_backup_id = sd_backup_id sd, fi_base_id = None, fi_change_count = 0,
         fi_stored_size = sd_stored_size sd, fi_promoted = True\<rparr>"
      "file_stored c ic w w' (file_full_manifest now sd meta True) (Some b) ix"
      "source_index (fe_indexed env) = Inr ix" "build_tar api (fe_dumped env) = Some es"
      "stages (ta_write api es) = Some b"
  | (slice) ch prev cur og st ck upper m data where "collect_file_chain c (w_store w) = Some ch"
      "read_file_index ic (w_store w) (fc_head_id ch) = Inr prev" "source_index (fe_indexed env) = Inr cur"
      "m = file_incr_manifest now (w_uuid w (w_drawn w)) (fc_base_id ch) og st ck
         \<lparr>start_ts = OplogTs (fc_head_gen ch) 0, end_ts = upper\<rparr> (diff_count (diff_from cur prev)) meta"
      "r = Inr \<lparr>fi_backup_id = w_uuid w (w_drawn w), fi_base_id = Some (fc_base_id ch),
         fi_change_count = diff_count (diff_from cur prev), fi_stored_size = m_stored_size_bytes m, fi_promoted = False\<rparr>"
      "file_stored c ic w w' m data cur" "slice_data api stages env (diff_from cur prev) (fc_head_gen ch) data upper"
proof (cases "collect_file_chain c (w_store w)")
  case None
  with run show ?thesis
    by (auto simp: run_file_incremental_backup_def intro: refused)
next
  case ch: (Some ch)
  show ?thesis
  proof (cases "read_file_index ic (w_store w) (fc_head_id ch)")
    case gap: (Inl e)
    obtain r1 w1 where r1: "run_file_full_backup_inner c ic api stages meta env now True w = (r1, w1)" by fastforce
    from r1 laws(1) show ?thesis
    proof (cases rule: file_full_cases)
      case (refused e')
      with run ch gap r1 show ?thesis
        by (auto simp: run_file_incremental_backup_def intro: that(1))
    next
      case (core e')
      with run ch gap r1 show ?thesis
        by (auto simp: run_file_incremental_backup_def intro: that(2))
    next
      case (finished sd ix es b)
      with run ch gap r1 show ?thesis
        by (intro that(3) [of ch e sd b ix es])
          (auto simp: run_file_incremental_backup_def outcome_of_manifest_def file_full_manifest_def full_manifest_def)
    qed
  next
    case prev: (Inr prev)
    show ?thesis
    proof (cases "source_index (fe_indexed env)")
      case (Inl e)
      with run ch prev show ?thesis
        by (auto simp: run_file_incremental_backup_def intro: refused)
    next
      case cur: (Inr cur)
      have run': "file_slice c ic api stages meta env now ch prev cur w = (r, w')"
        using run ch prev cur by (simp add: run_file_incremental_backup_def)
      have "fresh (w_uuid w (w_drawn w)) w"
        using ok by (simp add: file_ok_def ids_ahead_def)
      from run' laws this refl show ?thesis
      proof (cases rule: file_slice_cases)
        case (refused e)
        then show ?thesis by (rule that(1))
      next
        case (core e)
        then show ?thesis by (rule that(2))
      next
        case (finished og st ck upper m data)
        then show ?thesis
          by (intro slice [OF ch prev cur]) simp_all
      qed
    qed
  qed
qed

lemma failed_increment_same:
  assumes "run_file_incremental_backup c ic api stages meta env now w = (Inl e, w')"
    and "file_ok c w" and "reliable_deletes w" and "index_laws ic" "sha_of_empty c"
  shows "same_oracle w w' \<and> look w' = look w"
  using assms(1,4,5,2)
proof (cases rule: incremental_cases)
  case (core e)
  with file_ok_failed [OF assms(2) core(2) assms(3)] show ?thesis
    by (simp add: failed_clean_def)
qed simp_all

lemma increment_head:
  assumes head: "head_restores c ic api unstage w ix root"
    and run: "run_file_incremental_backup c ic api stages meta env now w = (Inr out, w')"
    and src: "quiet_source env root'" "source_index (fe_indexed env) = Inr ix'" "open_dirs (tree_of root')"
    and same: "detects ix (tree_of root) ix' (tree_of root')" "same_kinds (tree_of root) (tree_of root')"
    and fits: "\<And>ch. collect_file_chain c (w_store w) = Some ch \<Longrightarrow> slice_fits (diff_from ix' ix) (fc_head_gen ch)"
    and laws: "libraries_ok c ic api" "stages_undone stages meta unstage"
  shows "head_restores c ic api unstage w' ix' root' \<and> \<not> fi_promoted out \<and>
    restores c ic api unstage (w_store w') (fi_backup_id out) ix' (tree_of root')"
proof -
  have l: "index_laws ic" "sha_of_empty c" "codec_laws c" using laws(1) by (simp_all add: libraries_ok_def)
  have ok: "file_ok c w" "reliable_deletes w" using head by (simp_all add: head_restores_def)
  obtain ch0 where ch0: "collect_file_chain c (w_store w) = Some ch0"
    "restores c ic api unstage (w_store w) (fc_head_id ch0) ix (tree_of root)"
    using head by (auto simp: head_restores_def)
  then have rd: "read_file_index ic (w_store w) (fc_head_id ch0) = Inr ix"
    by (simp add: restores_def)
  from run l(1,2) ok(1) show ?thesis
  proof (cases rule: incremental_cases)
    case (promoted ch e sd ix es b)
    with ch0 rd show ?thesis by simp
  next
    case (slice ch prev cur og st ck upper m data)
    with ch0 rd src(2) have eq: "ch = ch0" "prev = ix" "cur = ix'" by simp_all
    note sl = slice [unfolded eq] and f = fits [OF ch0(1)]
    note st = sl(6) and sd = sl(7)
    have res: "restores c ic api unstage (w_store w') (m_id m) ix' (tree_of root')"
      using slice_restored [OF ok(1) ch0 sl(4) st refl sd f src(2,1) same src(3) laws] .
    have "file_ok c w'"
      using slice_chain(1) [OF ok(1) ch0(1) sl(4) st sd f l(3)] .
    moreover obtain ch' where "collect_file_chain c (w_store w') = Some ch'" "fc_head_id ch' = m_id m"
      using slice_is_head [OF ok(1) ch0(1) sl(4) st sd f l(3)] .
    moreover have "reliable_deletes w'"
      using st ok(2) same_oracle_reliable by (auto simp: file_stored_def)
    moreover have "m_id m = fi_backup_id out" "\<not> fi_promoted out"
      using sl(4,5) by simp_all
    ultimately show ?thesis
      using res by (auto simp: head_restores_def)
  qed simp_all
qed

lemma full_head:
  assumes run: "run_file_full_backup c ic api stages meta env now w = (Inr out, w')"
    and ok: "file_ok c w" "reliable_deletes w"
    and src: "quiet_source env root" "source_index (fe_indexed env) = Inr ix" "open_dirs (tree_of root)"
    and laws: "libraries_ok c ic api" "stages_undone stages meta unstage"
  shows "head_restores c ic api unstage w' ix root \<and>
    restores c ic api unstage (w_store w') (bo_backup_id out) ix (tree_of root) \<and> same_oracle w w' \<and>
    (\<forall>ch. collect_file_chain c (w_store w') = Some ch \<longrightarrow> fc_head_gen ch = 1)"
proof -
  have l: "index_laws ic" "codec_laws c" using laws(1) by (simp_all add: libraries_ok_def)
  from run have run': "run_file_full_backup_inner c ic api stages meta env now False w = (Inr out, w')"
    by (simp add: run_file_full_backup_def)
  from run' l(1) show ?thesis
  proof (cases rule: file_full_cases)
    case (finished sd ix0 es b)
    with src(2) have ix: "ix0 = ix" by simp
    note st = finished(2) [unfolded ix]
    have res: "restores c ic api unstage (w_store w') (sd_backup_id sd) ix (tree_of root)"
      using full_restored [OF st src(2) finished(4,5) src(1,3) laws] .
    moreover obtain ch where "collect_file_chain c (w_store w') = Some ch" "fc_head_id ch = sd_backup_id sd"
      "fc_head_gen ch = 1"
      using full_is_head [OF ok(1) st l(2)] .
    moreover have "file_ok c w'" "reliable_deletes w'" "same_oracle w w'"
      using full_file_ok [OF ok(1) st l(2)] st ok(2) same_oracle_reliable by (auto simp: file_stored_def)
    moreover have "bo_backup_id out = sd_backup_id sd"
      using finished(1) by (simp add: outcome_of_manifest_def)
    ultimately show ?thesis
      by (auto simp: head_restores_def)
  qed simp_all
qed

lemma history_head:
  "file_history c ic api unstage w ix root \<Longrightarrow> libraries_ok c ic api \<Longrightarrow> head_restores c ic api unstage w ix root"
proof (induction rule: file_history.induct)
  case (first_full w stages meta env now out w' root ix)
  then show ?case using full_head by blast
next
  case (next_increment w ix root stages meta env now out w' root' ix')
  then show ?case using increment_head by blast
next
  case (failed_full w ix root stages meta env now e w')
  then have h: "head_restores c ic api unstage w ix root" by blast
  with failed_full show ?case
    using failed_full_same [OF failed_full(2) [unfolded run_file_full_backup_def]] head_restores_same [OF h]
    by (simp add: head_restores_def libraries_ok_def)
next
  case (failed_increment w ix root stages meta env now e w')
  then have h: "head_restores c ic api unstage w ix root" by blast
  with failed_increment show ?case
    using failed_increment_same [OF failed_increment(2)] head_restores_same [OF h]
    by (simp add: head_restores_def libraries_ok_def)
qed

end
