(* ===== verification/XB_File_Properties.thy ===== *)
theory XB_File_Properties
  imports XB_File_Chain
begin

text \<open>
  The properties of the file pipelines: what a history of runs can restore, what a failed run leaves,
  and a run that cannot succeed. The samples at the start show that the laws asked of the libraries can
  hold together.
\<close>

section \<open>Libraries that keep the laws\<close>

instance EntryKind :: countable
  by countable_datatype

instance IndexEntry_ext :: (countable) countable
  by (rule countable_classI [of "\<lambda>r. to_nat (ix_k r, ix_s r, ix_mt r, ix_mo r, ix_lt r, IndexEntry.more r)"]) auto

instance FileIndex_ext :: (countable) countable
  by (rule countable_classI [of "\<lambda>r. to_nat (ix_version r, ix_entries r, FileIndex.more r)"]) auto

instance tar_node_ext :: (countable) countable
  by (rule countable_classI [of "\<lambda>r. to_nat (tn_kind r, tn_mode r, tn_mtime r, tn_link r, tn_bytes r, tar_node.more r)"]) auto

text \<open>An archive, an index and a list of names are written as numbers.\<close>

definition number_index :: index_codec where
  "number_index = \<lparr>ix_encode = (\<lambda>ix. Some (replicate (to_nat ix) 0)), ix_parse = (\<lambda>bs. Some (from_nat (length bs)))\<rparr>"

definition number_tar :: tar_api where
  "number_tar = \<lparr>
     ta_write = (\<lambda>es. replicate (to_nat es) 0),
     ta_read = (\<lambda>bs ends. (from_nat (length bs), ends)),
     ta_no_target = False,
     ta_unpack = (\<lambda>p n t. if list_all (open_dir_at t) (ancestors p) then Some (t(p \<mapsto> kept n), True) else None),
     ta_dir_all = (\<lambda>cs. if parents_first (map fst (fs_nodes [] cs))
        then Some (map (\<lambda>(p, f). (p, node_of f)) (fs_nodes [] cs)) else None),
     ta_names = (\<lambda>ns. replicate (to_nat ns) 0),
     ta_parse_names = (\<lambda>bs. Some (from_nat (length bs))),
     ta_via_link = (\<lambda>_ _. Some False),
     ta_remove_fails = (\<lambda>_ t. \<not> open_dirs t)\<rparr>"

lemma parents_first_distinct: "parents_first ps \<Longrightarrow> distinct ps"
  by (induction ps) (auto simp: parents_first_Cons)

lemma kept_kept [simp]: "kept (kept n) = kept n"
  by (simp add: kept_def)

lemma number_tar_laws: "tar_laws number_tar"
proof -
  have "dir_all_law number_tar"
    unfolding dir_all_law_def
  proof (intro allI impI)
    fix cs es assume "ta_dir_all number_tar cs = Some es"
    then have es: "parents_first (map fst (fs_nodes [] cs))" "es = map (\<lambda>(p, f). (p, node_of f)) (fs_nodes [] cs)"
      by (simp_all add: number_tar_def split: if_splits)
    have "map_of (fs_nodes [] cs) p = Some f" if "(p, f) \<in> set (fs_nodes [] cs)" for p f
      using that parents_first_distinct [OF es(1)] by simp
    then have "es = map (\<lambda>p. (p, node_of (the (map_of (fs_nodes [] cs) p)))) (map fst (fs_nodes [] cs))"
      unfolding es(2) by (auto simp: case_prod_beta)
    with es(1) show "\<exists>ps. es = map (\<lambda>p. (p, node_of (the (map_of (fs_nodes [] cs) p)))) ps \<and>
        set ps = fst ` set (fs_nodes [] cs) \<and> parents_first ps"
      by (metis list.set_map)
  qed
  then show ?thesis
    by (simp add: tar_laws_def unpack_law_def remove_law_def)
      (simp add: number_tar_def alike_def list_all_iff set_ancestors)
qed

lemma number_libraries: "libraries_ok number_codec number_index number_tar"
  using number_codec_laws number_codec_empty number_tar_laws
  by (simp add: libraries_ok_def index_laws_def number_index_def)

text \<open>Stages that pass the bytes on.\<close>

definition plain_unstage :: unstage where
  "plain_unstage m = Some (\<lambda>bs. (bs, True))"

lemma plain_undone: "stages_undone Some meta plain_unstage"
  by (simp add: stages_undone_def plain_unstage_def)

section \<open>Runs without faults\<close>

lemma full_without_faults:
  assumes "\<forall>k. \<not> w_put_fails w k" and "source_index (fe_indexed env) = Inr ix" and "so_target (fe_dumped env) \<noteq> None"
    and "build_tar api (fe_dumped env) = Some es" and "stages (ta_write api es) = Some b" and "ix_encode ic ix = Some bs"
  shows "\<exists>out w'. run_file_full_backup c ic api stages meta env now w = (Inr out, w')"
  using assms
  by (simp add: run_file_full_backup_def run_file_full_backup_inner_def store_dump_stream_def archive_dump_def
      new_id_def io_put_def write_file_index_or_cleanup_def publish_def write_manifest_or_cleanup_def
      manifest_write_def Let_def)

lemma slice_without_faults:
  assumes "\<forall>k. \<not> w_put_fails w k" and "collect_file_chain c (w_store w) = Some ch"
    and "read_file_index ic (w_store w) (fc_head_id ch) = Inr prev" and "source_index (fe_indexed env) = Inr cur"
    and "so_target (fe_dumped env) = Some root"
    and "build_incr_tar api root (df_changed (diff_from cur prev)) (df_deleted (diff_from cur prev)) = Some es"
    and "stages (ta_write api es) = Some b" and "ix_encode ic cur = Some bs"
  shows "\<exists>out w'. run_file_incremental_backup c ic api stages meta env now w = (Inr out, w')"
  using assms
  by (simp add: run_file_incremental_backup_def file_slice_def store_dump_stream_def archive_dump_def
      new_id_def io_put_def write_file_index_or_cleanup_def publish_slice_def write_manifest_or_cleanup_def
      manifest_write_def Let_def)

section \<open>A sample\<close>

definition empty_world :: world where
  "empty_world = \<lparr>w_store = [], w_calls = 0, w_put_fails = (\<lambda>_. False), w_del_fails = (\<lambda>_. False),
     w_uuid = (\<lambda>k. replicate (Suc k) (CHR ''b'')), w_drawn = 0\<rparr>"

lemma empty_manifests: "manifests c (w_store empty_world) = []"
  by (simp add: manifests_def empty_world_def collect_manifest_ids_def sto_list_def map_filter_def sort_dedup_def)

lemma empty_world_ok: "file_ok number_codec empty_world" "reliable_deletes empty_world"
proof -
  have "fresh (replicate (Suc k) (CHR ''b'')) empty_world" for k
    by (simp add: fresh_def empty_world_def sto_get_def)
  moreover have "w_uuid empty_world k = replicate (Suc k) (CHR ''b'')" "w_drawn empty_world = 0" for k
    by (simp_all add: empty_world_def)
  moreover have "store_ok number_codec (w_store empty_world)"
    by (simp add: store_ok_def empty_world_def sto_get_def store_read_def)
  ultimately show "file_ok number_codec empty_world"
    using replicate_b_less
    by (simp add: file_ok_def ids_ahead_def valid_id_def collect_file_nodes_def catalogue_def empty_manifests
        healthy_def ordered_ids_def)
  show "reliable_deletes empty_world"
    by (simp add: reliable_deletes_def empty_world_def)
qed

definition sample_file :: "bytes \<Rightarrow> fs" where
  "sample_file bs = Fs \<lparr>md_dir = False, md_symlink = False, md_len = word_of_nat (length bs), md_mtime = 1,
     md_mtime_nsec = 0, md_mode = 0x1A4\<rparr> None bs None"

definition sample_dir :: "(string \<times> fs) list \<Rightarrow> fs" where
  "sample_dir cs = Fs \<lparr>md_dir = True, md_symlink = False, md_len = 0, md_mtime = 1, md_mtime_nsec = 0, md_mode = 0x1ED\<rparr>
     None [] (Some cs)"

definition sample_env :: "fs \<Rightarrow> file_env" where
  "sample_env root = \<lparr>fe_indexed = \<lparr>so_name = Some ''d'', so_self = Some root, so_target = Some root\<rparr>,
     fe_dumped = \<lparr>so_name = Some ''d'', so_self = Some root, so_target = Some root\<rparr>, fe_partial = []\<rparr>"

definition sample_index :: "string \<Rightarrow> u64 \<Rightarrow> FileIndex" where
  "sample_index name sz = \<lparr>ix_version = 1, ix_entries = [(name,
     \<lparr>ix_k = EntryFile, ix_s = sz, ix_mt = 1000000000, ix_mo = 0x1A4, ix_lt = None\<rparr>)]\<rparr>"

text \<open>A directory with one file, and the same directory after the file has given way to another.\<close>

abbreviation "root1 \<equiv> sample_dir [(''f'', sample_file [1])]"
abbreviation "root2 \<equiv> sample_dir [(''g'', sample_file [1, 2])]"

lemma sample_quiet: "quiet_source (sample_env root1) root1" "quiet_source (sample_env root2) root2"
  by (simp_all add: quiet_source_def sample_env_def dir_source_def sample_dir_def sample_file_def file_name_ok_def)

lemma sample_indexes:
  "source_index (fe_indexed (sample_env root1)) = Inr (sample_index ''f'' 1)"
  "source_index (fe_indexed (sample_env root2)) = Inr (sample_index ''g'' 2)"
  by (simp_all add: source_index_def sample_env_def index_build_def sample_dir_def sample_file_def
      entry_from_meta_def kind_from_meta_def path_join_def reject_reserved_paths_def sample_index_def INDEX_VERSION_def Let_def)

lemma sample_nodes: "fs_nodes [] [(n, sample_file bs)] = [(n, sample_file bs)]"
  by (simp add: sample_file_def fs_nodes.simps(2) path_join_def)

lemma sample_tree: "tree_of (sample_dir [(n, sample_file bs)]) p = (if p = n then Some (node_of (sample_file bs)) else None)"
  by (simp add: tree_of_def node_at_def sample_dir_def sample_nodes)

lemma sample_open: "open_dirs (tree_of (sample_dir [(n, sample_file bs)]))"
  by (simp add: open_dirs_def is_dir_at_def sample_tree) (simp add: sample_file_def node_of_def kind_from_meta_def)

lemma sample_archives:
  "\<exists>es. build_tar number_tar (fe_dumped (sample_env root1)) = Some es"
  "\<exists>es. build_incr_tar number_tar root2 [''g''] [''f''] = Some es"
  by (simp_all add: build_tar_def sample_env_def sample_dir_def number_tar_def sample_nodes parents_first_def
      build_incr_tar_def node_at_def)

lemma sample_diff:
  "df_changed (diff_from (sample_index ''g'' 2) (sample_index ''f'' 1)) = [''g'']"
  "df_deleted (diff_from (sample_index ''g'' 2) (sample_index ''f'' 1)) = [''f'']"
  by (simp_all add: diff_from_def sample_index_def)

lemma sample_target: "so_target (fe_dumped (sample_env root)) = Some root"
  by (simp add: sample_env_def)

lemma number_encode: "\<exists>bs. ix_encode number_index ix = Some bs"
  by (simp add: number_index_def)

text \<open>The sample is backed up in full and then once more after the change.\<close>

lemma sample_runs:
  "\<exists>w out w'. run_file_incremental_backup number_codec number_index number_tar Some no_meta (sample_env root2) ''t'' w =
      (Inr out, w') \<and> file_ok number_codec w \<and> reliable_deletes w \<and>
     file_history number_codec number_index number_tar plain_unstage w' (sample_index ''g'' 2) root2"
proof -
  let ?c = number_codec and ?ic = number_index and ?api = number_tar and ?un = plain_unstage
  let ?ix1 = "sample_index ''f'' 1" and ?ix2 = "sample_index ''g'' 2"
  obtain out w1 where full: "run_file_full_backup ?c ?ic ?api Some no_meta (sample_env root1) ''t'' empty_world = (Inr out, w1)"
  proof -
    obtain es bs where "build_tar ?api (fe_dumped (sample_env root1)) = Some es" "ix_encode ?ic ?ix1 = Some bs"
      using sample_archives(1) number_encode by blast
    moreover have "\<forall>k. \<not> w_put_fails empty_world k" by (simp add: empty_world_def)
    ultimately show ?thesis
      using full_without_faults [OF _ sample_indexes(1)] sample_target that by (metis option.distinct(1))
  qed
  note h = full_head [OF full empty_world_ok sample_quiet(1) sample_indexes(1) sample_open number_libraries plain_undone]
  have hist: "file_history ?c ?ic ?api ?un w1 ?ix1 root1"
    using file_history.first_full [OF empty_world_ok full plain_undone sample_quiet(1) sample_open sample_indexes(1)] .
  obtain ch where ch: "collect_file_chain ?c (w_store w1) = Some ch"
    "read_file_index ?ic (w_store w1) (fc_head_id ch) = Inr ?ix1"
    using h by (auto simp: head_restores_def restores_def)
  have "\<forall>k. \<not> w_put_fails w1 k"
    using h by (simp add: same_oracle_def empty_world_def)
  then obtain out2 w2 where incr:
    "run_file_incremental_backup ?c ?ic ?api Some no_meta (sample_env root2) ''t'' w1 = (Inr out2, w2)"
  proof -
    assume "\<forall>k. \<not> w_put_fails w1 k"
    moreover obtain es bs where "build_incr_tar ?api root2 [''g''] [''f''] = Some es" "ix_encode ?ic ?ix2 = Some bs"
      using sample_archives(2) number_encode by blast
    ultimately show ?thesis
      using slice_without_faults [OF _ ch sample_indexes(2) sample_target] that unfolding sample_diff by metis
  qed
  have "detects ?ix1 (tree_of root1) ?ix2 (tree_of root2)"
    by (simp add: detects_def sample_index_def)
  moreover have "same_kinds (tree_of root1) (tree_of root2)"
    by (simp add: same_kinds_def sample_tree)
  moreover have "slice_fits (diff_from ?ix2 ?ix1) (fc_head_gen ch)" if "collect_file_chain ?c (w_store w1) = Some ch" for ch
    using h that sample_diff by (simp add: slice_fits_def)
  ultimately have "file_history ?c ?ic ?api ?un w2 ?ix2 root2"
    using file_history.next_increment [OF hist incr plain_undone sample_quiet(2) sample_open sample_indexes(2)] by blast
  moreover have "file_ok ?c w1" "reliable_deletes w1"
    using h by (simp_all add: head_restores_def)
  ultimately show ?thesis using incr by blast
qed

section \<open>Properties\<close>



text \<open>C13: A run of the incremental file backup publishes all or nothing: when it succeeds, whether
  with a slice or promoted to a full backup, the new backup verifies and its manifest, data and index
  are the only objects that changed; when it fails and deletes work, the destination is as it was. It is
  promoted exactly when the index of the head cannot be read.\<close>

theorem file_incremental_all_or_nothing:
  assumes "run_file_incremental_backup c ic api stages meta env now w = (r, w')"
    and "file_ok c w" and "reliable_deletes w" and "codec_laws c" and "index_laws ic" and "sha_of_empty c"
  shows "case r of
      Inl e \<Rightarrow> look w' = look w
    | Inr out \<Rightarrow> fi_backup_id out = w_uuid w (w_drawn w) \<and> only_touches (fi_backup_id out) w w' \<and>
        (\<exists>m. m_id m = fi_backup_id out \<and> verify_backup c stack (w_store w') (m_id m) False = Inr (sound_report m)) \<and>
        (\<exists>ch. collect_file_chain c (w_store w) = Some ch \<and>
           (fi_promoted out \<longleftrightarrow> (\<exists>e. read_file_index ic (w_store w) (fc_head_id ch) = Inl e)))"
proof -
  have verified: "verify_backup c stack (w_store w') (m_id m) False = Inr (sound_report m) \<and>
      m_id m = w_uuid w (w_drawn w) \<and> only_touches (m_id m) w w'" if "file_stored c ic w w' m data ix" for m data ix
    using that published_verifies assms(4) unfolding file_stored_def codec_laws_def by blast
  from assms(1,5,6,2) show ?thesis
  proof (cases rule: incremental_cases)
    case (core e)
    with file_ok_failed [OF assms(2) core(2) assms(3)] show ?thesis by simp
  next
    case (promoted ch e sd ix es b)
    note v = verified [OF promoted(4)]
    from v have "\<exists>m. m_id m = sd_backup_id sd \<and> verify_backup c stack (w_store w') (m_id m) False = Inr (sound_report m)"
      by (metis file_full_manifest_simps(1))
    moreover have "sd_backup_id sd = w_uuid w (w_drawn w)" "only_touches (sd_backup_id sd) w w'"
      using v unfolding file_full_manifest_simps by blast+
    ultimately show ?thesis using promoted(1-3) by auto
  next
    case (slice ch prev cur og st ck upper m data)
    note v = verified [OF slice(6)]
    have id: "fi_backup_id (projr r) = m_id m" "r = Inr (projr r)" "\<not> fi_promoted (projr r)"
      using slice(4,5) by simp_all
    have "\<exists>x. m_id x = m_id m \<and> verify_backup c stack (w_store w') (m_id x) False = Inr (sound_report x)"
      using v by blast
    then show ?thesis
      using v id slice(1,2) by (cases r) auto
  qed simp
qed

theorem file_incremental_all_or_nothing_witness:
  "\<exists>w out w' m. run_file_incremental_backup number_codec number_index number_tar Some no_meta (sample_env root2) ''t'' w =
      (Inr out, w') \<and> only_touches (fi_backup_id out) w w' \<and>
     verify_backup number_codec (\<lambda>_. None) (w_store w') (m_id m) False = Inr (sound_report m)"
proof -
  obtain w out w' where run: "run_file_incremental_backup number_codec number_index number_tar Some no_meta
      (sample_env root2) ''t'' w = (Inr out, w')" "file_ok number_codec w" "reliable_deletes w"
    using sample_runs by blast
  have "index_laws number_index"
    using number_libraries by (simp add: libraries_ok_def)
  from file_incremental_all_or_nothing [OF run number_codec_laws this number_codec_empty, of "\<lambda>_. None"] run(1)
  show ?thesis by auto
qed

text \<open>An increment of a single file fails: when the source is no directory and its file has changed
  since the last backup, the archive is looked for below the file, so the dump breaks off and nothing is
  published.\<close>

theorem single_file_increment_fails:
  assumes "so_target (fe_dumped env) = Some root" and "\<not> md_dir (fs_meta root)"
    and "df_changed (diff_from cur prev) \<noteq> []"
  shows "\<exists>e w'. file_slice c ic api stages meta env now ch prev cur w = (Inl e, w')"
proof -
  have "build_incr_tar api root (df_changed (diff_from cur prev)) ds = None" for ds
    using assms(2,3) by (cases root; cases "df_changed (diff_from cur prev)")
      (simp_all add: build_incr_tar_def node_at_def)
  with assms(1,3) show ?thesis
    by (auto simp: file_slice_def diff_is_empty_def store_dump_stream_def archive_dump_def new_id_def Let_def
        split: option.splits prod.splits bool.splits)
qed

theorem single_file_increment_fails_witness:
  "\<exists>e w'. file_slice number_codec number_index number_tar Some no_meta (sample_env (sample_file [1, 2])) ''t''
     \<lparr>fc_base_id = ''a'', fc_head_id = ''a'', fc_head_gen = 1\<rparr> (sample_index ''f'' 1) (sample_index ''f'' 2) empty_world =
     (Inl e, w')"
  by (rule single_file_increment_fails [where root = "sample_file [1, 2]"])
    (simp_all add: sample_target sample_file_def diff_from_def sample_index_def)

end
