(* ===== verification/XB_Journal.thy ===== *)
theory XB_Journal
  imports XB_Errors "HOL-Library.Sublist"
begin

text \<open>
  Append-only files of one JSON record per line: how a line is written (\<open>append_line\<close> of
  \<open>web/audit.rs\<close> and \<open>web/state/jobs.rs\<close>), how lines are read back (\<open>parse_line\<close>,
  \<open>web/jsonguard.rs\<close>), and the audit log with its gate (\<open>web/audit.rs\<close>). A file is the sequence
  of its bytes as a \<open>string\<close>; the JSON encoder and decoder of a record are parameters.
\<close>

section \<open>Lines of text\<close>

definition nl :: char where "nl = CHR 0x0A"
definition cr :: char where "cr = CHR 0x0D"

text \<open>\<open>std::str::from_utf8\<close>: the well-formed byte sequences of the Unicode standard.\<close>

definition byte :: "char \<Rightarrow> nat" where "byte c = of_char c"

definition cont :: "char \<Rightarrow> bool" where "cont c \<longleftrightarrow> 0x80 \<le> byte c \<and> byte c \<le> 0xBF"

fun valid_utf8 :: "string \<Rightarrow> bool" where
  "valid_utf8 [] = True"
| "valid_utf8 (a # s) =
    (if byte a < 0x80 then valid_utf8 s
     else if 0xC2 \<le> byte a \<and> byte a \<le> 0xDF then
       (case s of b # s1 \<Rightarrow> cont b \<and> valid_utf8 s1 | _ \<Rightarrow> False)
     else if 0xE0 \<le> byte a \<and> byte a \<le> 0xEF then
       (case s of b # c # s1 \<Rightarrow> cont b \<and> cont c \<and> (byte a = 0xE0 \<longrightarrow> 0xA0 \<le> byte b) \<and>
          (byte a = 0xED \<longrightarrow> byte b \<le> 0x9F) \<and> valid_utf8 s1 | _ \<Rightarrow> False)
     else if 0xF0 \<le> byte a \<and> byte a \<le> 0xF4 then
       (case s of b # c # d # s1 \<Rightarrow> cont b \<and> cont c \<and> cont d \<and> (byte a = 0xF0 \<longrightarrow> 0x90 \<le> byte b) \<and>
          (byte a = 0xF4 \<longrightarrow> byte b \<le> 0x8F) \<and> valid_utf8 s1 | _ \<Rightarrow> False)
     else False)"

text \<open>\<open>String::from_utf8_lossy\<close>: each maximal part of a broken sequence becomes U+FFFD.\<close>

definition replacement :: string where
  "replacement = [CHR 0xEF, CHR 0xBF, CHR 0xBD]"

definition second_ok :: "char \<Rightarrow> char \<Rightarrow> bool" where
  "second_ok a b \<longleftrightarrow> cont b \<and> (byte a = 0xE0 \<longrightarrow> 0xA0 \<le> byte b) \<and> (byte a = 0xED \<longrightarrow> byte b \<le> 0x9F) \<and>
     (byte a = 0xF0 \<longrightarrow> 0x90 \<le> byte b) \<and> (byte a = 0xF4 \<longrightarrow> byte b \<le> 0x8F)"

text \<open>The length of the sequence a lead byte announces, and how much of it is there.\<close>

definition seq_len :: "char \<Rightarrow> nat" where
  "seq_len a = (if byte a < 0x80 then 1 else if 0xC2 \<le> byte a \<and> byte a \<le> 0xDF then 2
     else if 0xE0 \<le> byte a \<and> byte a \<le> 0xEF then 3 else if 0xF0 \<le> byte a \<and> byte a \<le> 0xF4 then 4 else 0)"

definition seq_part :: "char \<Rightarrow> string \<Rightarrow> nat" where
  "seq_part a s = (case s of [] \<Rightarrow> 1 | b # s' \<Rightarrow>
     if seq_len a \<le> 1 \<or> \<not> second_ok a b then 1
     else 2 + length (takeWhile cont (take (seq_len a - 2) s')))"

lemma seq_part_pos: "0 < seq_part a s"
  by (simp add: seq_part_def split: list.split)

function utf8_lossy :: "string \<Rightarrow> string" where
  "utf8_lossy [] = []"
| "utf8_lossy (a # s) =
     (if seq_part a s = seq_len a then take (seq_len a) (a # s) @ utf8_lossy (drop (seq_len a) (a # s))
      else replacement @ utf8_lossy (drop (seq_part a s) (a # s)))"
  by pat_completeness auto
termination
  by (relation "measure length") (auto intro: diff_less simp: seq_part_pos, metis seq_part_pos diff_less zero_less_Suc)

lemma utf8_lossy_ascii: "\<forall>c \<in> set s. byte c < 0x80 \<Longrightarrow> utf8_lossy s = s"
proof (induction s)
  case (Cons a s)
  then have "seq_len a = 1" "seq_part a s = 1" by (auto simp: seq_len_def seq_part_def split: list.split)
  then show ?case using Cons by simp
qed simp

text \<open>\<open>char::to_digit(16)\<close>.\<close>

definition to_digit16 :: "char \<Rightarrow> nat option" where
  "to_digit16 c =
     (if 48 \<le> byte c \<and> byte c \<le> 57 then Some (byte c - 48)
      else if 97 \<le> byte c \<and> byte c \<le> 102 then Some (byte c - 87)
      else if 65 \<le> byte c \<and> byte c \<le> 70 then Some (byte c - 55) else None)"

text \<open>\<open>str::trim\<close>: the encodings of the characters with the property \<open>White_Space\<close>.\<close>

definition ws_chars :: "string list" where
  "ws_chars = [[CHR 0x09], [CHR 0x0A], [CHR 0x0B], [CHR 0x0C], [CHR 0x0D], [CHR 0x20],
     [CHR 0xC2, CHR 0x85], [CHR 0xC2, CHR 0xA0], [CHR 0xE1, CHR 0x9A, CHR 0x80]] @
     map (\<lambda>b. [CHR 0xE2, CHR 0x80, b]) [CHR 0x80, CHR 0x81, CHR 0x82, CHR 0x83, CHR 0x84, CHR 0x85,
       CHR 0x86, CHR 0x87, CHR 0x88, CHR 0x89, CHR 0x8A, CHR 0xA8, CHR 0xA9, CHR 0xAF] @
     [[CHR 0xE2, CHR 0x81, CHR 0x9F], [CHR 0xE3, CHR 0x80, CHR 0x80]]"

lemma ws_chars_nonempty: "w \<in> set ws_chars \<Longrightarrow> w \<noteq> []"
  by (auto simp: ws_chars_def)

text \<open>Takes words of a list off the front of a text as long as one fits.\<close>

function strip_words :: "string list \<Rightarrow> string \<Rightarrow> string" where
  "strip_words ws s = (case List.find (\<lambda>w. w \<noteq> [] \<and> take (length w) s = w) ws of
     None \<Rightarrow> s | Some w \<Rightarrow> strip_words ws (drop (length w) s))"
  by pat_completeness auto
termination
proof (relation "measure (\<lambda>(ws, s). length s)")
  fix ws s w
  assume "List.find (\<lambda>w. w \<noteq> [] \<and> take (length w) s = w) ws = Some w"
  then have w: "w \<noteq> []" "take (length w) s = w" by (auto simp: find_Some_iff)
  then have "s \<noteq> []" by auto
  with w(1) show "((ws, drop (length w) s), ws, s) \<in> measure (\<lambda>(ws, s). length s)" by simp
qed simp

declare strip_words.simps [simp del]

definition str_trim :: "string \<Rightarrow> string" where
  "str_trim s = strip_words ws_chars (rev (strip_words (map rev ws_chars) (rev s)))"

text \<open>\<open>BufRead::lines\<close>: the text between newlines, without the carriage return in front of one; a last
  line without newline counts if it is not empty.\<close>

definition drop_cr :: "string \<Rightarrow> string" where
  "drop_cr s = (if s \<noteq> [] \<and> last s = cr then butlast s else s)"

definition buf_lines :: "string \<Rightarrow> string list" where
  "buf_lines s = (let ls = split_on nl s in
     map drop_cr (butlast ls) @ (if last ls = [] then [] else [last ls]))"

section \<open>Nesting depth of JSON text\<close>

definition MAX_JSON_DEPTH :: nat where "MAX_JSON_DEPTH = 127"

fun depth_loop :: "string \<Rightarrow> nat \<Rightarrow> nat \<Rightarrow> bool \<Rightarrow> bool \<Rightarrow> nat" where
  "depth_loop [] depth max_d in_string escaped = max_d"
| "depth_loop (b # s) depth max_d in_string escaped =
    (if in_string then
       (if escaped then depth_loop s depth max_d True False
        else if b = CHR 0x5C then depth_loop s depth max_d True True
        else if b = CHR 0x22 then depth_loop s depth max_d False False
        else depth_loop s depth max_d True False)
     else if b = CHR 0x22 then depth_loop s depth max_d True escaped
     else if b = CHR ''{'' \<or> b = CHR ''['' then depth_loop s (depth + 1) (max max_d (depth + 1)) False escaped
     else if b = CHR ''}'' \<or> b = CHR '']'' then depth_loop s (depth - 1) max_d False escaped
     else depth_loop s depth max_d False escaped)"

definition max_depth :: "string \<Rightarrow> nat" where
  "max_depth text = depth_loop text 0 0 False False"

record TooDeep =
  td_found :: nat
  td_max :: nat

definition check_depth :: "string \<Rightarrow> TooDeep + unit" where
  "check_depth text = (if MAX_JSON_DEPTH < max_depth text
     then Inl \<lparr>td_found = max_depth text, td_max = MAX_JSON_DEPTH\<rparr> else Inr ())"

section \<open>Reading a line\<close>

text \<open>\<open>parse_line\<close>: \<open>Inr None\<close> for a blank line, \<open>Inl ()\<close> for one that is no record.\<close>

definition parse_line :: "(string \<Rightarrow> 'r option) \<Rightarrow> string \<Rightarrow> unit + 'r option" where
  "parse_line of_json line = (if \<not> valid_utf8 line then Inl ()
     else let trimmed = str_trim line in
       if trimmed = [] then Inr None
       else case check_depth trimmed of Inl _ \<Rightarrow> Inl ()
         | Inr _ \<Rightarrow> (case of_json trimmed of None \<Rightarrow> Inl () | Some r \<Rightarrow> Inr (Some r)))"

section \<open>Appending a line\<close>

datatype Durability = Buffered | Synced

text \<open>Where an append fails; a failing write may have written some bytes.\<close>

datatype append_fault = OpenFails | StatFails | SeparatorFails | WriteFails nat | SyncFails

definition ends_with_newline_or_empty :: "string \<Rightarrow> bool" where
  "ends_with_newline_or_empty c \<longleftrightarrow> c = [] \<or> last c = nl"

text \<open>\<open>append_line\<close> on a file that may not be there; opening creates it.\<close>

definition append_line ::
  "append_fault option \<Rightarrow> Durability \<Rightarrow> string \<Rightarrow> string option \<Rightarrow>
   (XBackupError + unit) \<times> string option" where
  "append_line fault durability line file =
    (if fault = Some OpenFails then (Inl (Failure ''cannot open''), file)
     else let c = (case file of None \<Rightarrow> [] | Some c \<Rightarrow> c) in
     if fault = Some StatFails then (Inl (Failure ''cannot inspect''), Some c)
     else if \<not> ends_with_newline_or_empty c \<and> fault = Some SeparatorFails
     then (Inl (Failure ''cannot write the separator''), Some c)
     else let c1 = (if ends_with_newline_or_empty c then c else c @ [nl]) in
     (case fault of
        Some (WriteFails n) \<Rightarrow> (Inl (Failure ''cannot write''), Some (c1 @ take n line))
      | _ \<Rightarrow>
        if durability = Synced \<and> fault = Some SyncFails
        then (Inl (Failure ''fsync failed''), Some (c1 @ line))
        else (Inr (), Some (c1 @ line))))"

text \<open>What the JSON encoder of a record promises (\<open>serde_json::to_string\<close> of an object): one line of
  well-formed text from brace to brace, nested no deeper than the reader allows, which the
  decoder takes back.\<close>

definition line_codec :: "('r \<Rightarrow> string option) \<Rightarrow> (string \<Rightarrow> 'r option) \<Rightarrow> bool" where
  "line_codec to_json of_json \<longleftrightarrow> (\<forall>r l. to_json r = Some l \<longrightarrow>
     (\<exists>m. l = CHR ''{'' # m @ ''}'') \<and> nl \<notin> set l \<and> valid_utf8 l \<and>
     max_depth l \<le> MAX_JSON_DEPTH \<and> of_json l = Some r)"

section \<open>Lines, text and depth: lemmas\<close>

lemma valid_utf8_cr: "valid_utf8 (s @ [cr]) = valid_utf8 s"
  by (induction s rule: valid_utf8.induct)
    (auto simp: cr_def byte_def cont_def split: list.splits)

lemma cr_in_ws: "[cr] \<in> set ws_chars"
  by (simp add: ws_chars_def cr_def)

lemma str_trim_cr: "str_trim (s @ [cr]) = str_trim s"
proof -
  have "strip_words (map rev ws_chars) (cr # rev s) = strip_words (map rev ws_chars) (rev s)"
    by (subst strip_words.simps) (simp add: ws_chars_def cr_def)
  then show ?thesis by (simp add: str_trim_def)
qed

lemma parse_line_drop_cr: "parse_line of_json (drop_cr s) = parse_line of_json s"
proof (cases "s \<noteq> [] \<and> last s = cr")
  case True
  then obtain t where "s = t @ [cr]" by (metis append_butlast_last_id)
  then show ?thesis by (simp add: drop_cr_def parse_line_def valid_utf8_cr str_trim_cr)
qed (auto simp: drop_cr_def)

lemma last_split_on: "last (split_on d s) = [] \<longleftrightarrow> s = [] \<or> last s = d"
proof (cases "d \<in> set s")
  case True
  then obtain a b where s: "s = a @ d # b" "d \<notin> set b" by (meson split_list_last)
  then show ?thesis by (auto simp: split_on_append split_on_word dest: last_in_set)
next
  case False
  then show ?thesis by (auto simp: split_on_word dest: last_in_set)
qed

definition line_results :: "(string \<Rightarrow> 'r option) \<Rightarrow> string \<Rightarrow> (unit + 'r option) list" where
  "line_results of_json c = map (parse_line of_json) (buf_lines c)"

lemma line_results_nl:
  "line_results of_json (c @ [nl]) = map (parse_line of_json) (split_on nl c)"
proof -
  have "split_on nl (c @ [nl]) = split_on nl c @ [[]]"
    using split_on_append [of nl c "[]"] by simp
  then show ?thesis by (simp add: line_results_def buf_lines_def parse_line_drop_cr comp_def)
qed

lemma line_results_unterminated:
  assumes "\<not> ends_with_newline_or_empty c"
  shows "line_results of_json c = map (parse_line of_json) (split_on nl c)"
proof -
  have "last (split_on nl c) \<noteq> []"
    using assms by (simp add: last_split_on ends_with_newline_or_empty_def)
  then have "line_results of_json c =
      map (parse_line of_json) (butlast (split_on nl c) @ [last (split_on nl c)])"
    by (simp add: line_results_def buf_lines_def parse_line_drop_cr comp_def Let_def
      del: append_butlast_last_id)
  then show ?thesis unfolding append_butlast_last_id [OF split_on_nonempty] .
qed

lemma line_results_append:
  assumes "nl \<notin> set l" and "c1 = (if ends_with_newline_or_empty c then c else c @ [nl])"
  shows "line_results of_json (c1 @ l @ [nl]) = line_results of_json c @ [parse_line of_json l]"
proof (cases "ends_with_newline_or_empty c")
  case True
  show ?thesis
  proof (cases "c = []")
    case True
    have "line_results of_json [] = []" by (simp add: line_results_def buf_lines_def)
    with True assms show ?thesis
      using line_results_nl [of of_json l] by (simp add: ends_with_newline_or_empty_def split_on_word)
  next
    case False
    with True obtain d where d: "c = d @ [nl]"
      by (metis append_butlast_last_id ends_with_newline_or_empty_def)
    with assms True have "c1 @ l @ [nl] = (d @ nl # l) @ [nl]" by simp
    then show ?thesis
      by (simp only: line_results_nl d split_on_append split_on_word [OF assms(1)]) simp
  qed
next
  case False
  with assms(2) have "c1 @ l @ [nl] = (c @ nl # l) @ [nl]" by simp
  then show ?thesis
    by (simp only: line_results_nl split_on_append split_on_word [OF assms(1)]
      line_results_unterminated [OF False]) simp
qed

text \<open>The same for a line that was cut short.\<close>

lemma line_results_torn:
  assumes "nl \<notin> set p" and "c1 = (if ends_with_newline_or_empty c then c else c @ [nl])"
  shows "line_results of_json (c1 @ p) =
    line_results of_json c @ (if p = [] then [] else [parse_line of_json p])"
proof (cases "p = []")
  case True
  then show ?thesis
    using assms line_results_nl [of of_json c] line_results_unterminated [of c of_json] by auto
next
  case False
  with assms(1) have "\<not> ends_with_newline_or_empty (c1 @ p)"
    by (auto simp: ends_with_newline_or_empty_def dest: last_in_set)
  note r = line_results_unterminated [OF this, of of_json]
  show ?thesis
  proof (cases "c = [] \<or> \<not> ends_with_newline_or_empty c")
    case True
    with assms False show ?thesis
      using line_results_unterminated [of c of_json] unfolding r
      by (auto simp: split_on_append split_on_word ends_with_newline_or_empty_def line_results_def
        buf_lines_def)
  next
    case no: False
    then obtain d where "c = d @ [nl]" by (metis append_butlast_last_id ends_with_newline_or_empty_def)
    with no assms False show ?thesis
      unfolding r by (simp add: split_on_append split_on_word line_results_nl)
  qed
qed

lemma strip_words_id:
  assumes "\<And>w. w \<in> set ws \<Longrightarrow> w \<noteq> [] \<Longrightarrow> hd w \<noteq> hd s"
  shows "strip_words ws s = s"
proof -
  have "List.find (\<lambda>w. w \<noteq> [] \<and> take (length w) s = w) ws = None"
    unfolding find_None_iff using assms by (metis hd_take length_0_conv not_gr_zero take_Nil)
  then show ?thesis by (subst strip_words.simps) simp
qed

lemma ws_chars_ends:
  "w \<in> set ws_chars \<Longrightarrow> \<not> (0x21 \<le> byte (hd w) \<and> byte (hd w) \<le> 0x7E)"
  "w \<in> set ws_chars \<Longrightarrow> \<not> (0x21 \<le> byte (last w) \<and> byte (last w) \<le> 0x7E)"
  by (auto simp: ws_chars_def byte_def)

lemma str_trim_plain:
  assumes "s \<noteq> []" and "0x21 \<le> byte (hd s)" "byte (hd s) \<le> 0x7E"
    and "0x21 \<le> byte (last s)" "byte (last s) \<le> 0x7E"
  shows "str_trim s = s"
proof -
  have "strip_words (map rev ws_chars) (rev s) = rev s"
    using ws_chars_ends(2) assms(4,5) by (intro strip_words_id) (auto simp: hd_rev, metis)
  moreover have "strip_words ws_chars s = s"
    using ws_chars_ends(1) assms(2,3) by (intro strip_words_id) metis
  ultimately show ?thesis by (simp add: str_trim_def)
qed

lemma str_trim_braces: "str_trim (CHR ''{'' # m @ ''}'') = CHR ''{'' # m @ ''}''"
proof -
  have "strip_words (map rev ws_chars) (rev (CHR ''{'' # m @ ''}'')) = rev (CHR ''{'' # m @ ''}'')"
    by (rule strip_words_id) (auto simp: ws_chars_def)
  moreover have "strip_words ws_chars (CHR ''{'' # m @ ''}'') = CHR ''{'' # m @ ''}''"
    by (rule strip_words_id) (auto simp: ws_chars_def)
  ultimately show ?thesis by (simp add: str_trim_def)
qed

lemma parse_line_codec:
  assumes "line_codec to_json of_json" "to_json r = Some l"
  shows "parse_line of_json l = Inr (Some r)" "nl \<notin> set l"
proof -
  from assms obtain m where "l = CHR ''{'' # m @ ''}''" "nl \<notin> set l" "valid_utf8 l"
      "max_depth l \<le> MAX_JSON_DEPTH" "of_json l = Some r"
    unfolding line_codec_def by blast
  then show "parse_line of_json l = Inr (Some r)" "nl \<notin> set l"
    by (simp_all only: parse_line_def str_trim_braces check_depth_def Let_def) simp_all
qed

text \<open>An append, whatever fails in it, only adds to the file.\<close>

lemma append_line_grows:
  assumes "append_line fault d line file = (r, file')"
  shows "file' = file \<or> (\<exists>c. file' = Some c \<and> prefix (case file of None \<Rightarrow> [] | Some c0 \<Rightarrow> c0) c)"
  using assms by (auto simp: append_line_def Let_def split: if_splits option.splits append_fault.splits)

lemma append_line_extends:
  assumes "append_line fault d (l @ [nl]) file = (r, file')" "nl \<notin> set l"
  shows "\<exists>extra. line_results of_json (case file' of None \<Rightarrow> [] | Some c \<Rightarrow> c) =
    line_results of_json (case file of None \<Rightarrow> [] | Some c \<Rightarrow> c) @ extra"
proof -
  let ?c = "case file of None \<Rightarrow> [] | Some c \<Rightarrow> c"
  let ?c1 = "if ends_with_newline_or_empty ?c then ?c else ?c @ [nl]"
  have "file' = file \<or> file' = Some ?c \<or> file' = Some (?c1 @ l @ [nl]) \<or>
      (\<exists>n. file' = Some (?c1 @ take n (l @ [nl])))"
    using assms(1)
    by (auto simp: append_line_def Let_def split: if_splits append_fault.splits option.split_asm)
  then have "file' = file \<or> file' = Some ?c \<or> (\<exists>n. file' = Some (?c1 @ take n (l @ [nl])))"
    by (metis order_refl take_all)
  moreover have "\<exists>extra. line_results of_json (?c1 @ take n (l @ [nl])) = line_results of_json ?c @ extra" for n
  proof (cases "n \<le> length l")
    case True
    have "nl \<notin> set (take n l)" using assms(2) by (auto dest: in_set_takeD)
    from line_results_torn [OF this refl, of of_json ?c] True show ?thesis by auto
  next
    case False
    then have "take n (l @ [nl]) = l @ [nl]" by simp
    with line_results_append [OF assms(2) refl, of of_json ?c] show ?thesis by auto
  qed
  ultimately show ?thesis by auto
qed

lemma append_line_Inr:
  assumes "append_line fault d (l @ [nl]) file = (Inr (), file')" "nl \<notin> set l"
  shows "\<exists>c'. file' = Some c' \<and> line_results of_json c' =
    line_results of_json (case file of None \<Rightarrow> [] | Some c \<Rightarrow> c) @ [parse_line of_json l]"
proof -
  let ?c = "case file of None \<Rightarrow> [] | Some c \<Rightarrow> c"
  have "file' = Some ((if ends_with_newline_or_empty ?c then ?c else ?c @ [nl]) @ l @ [nl])"
    using assms(1) by (auto simp: append_line_def Let_def split: if_splits option.splits append_fault.splits)
  then show ?thesis using line_results_append [OF assms(2) refl, of of_json ?c] by simp
qed

section \<open>The depth of a document\<close>

text \<open>JSON documents and their text, with quotes and backslashes of strings escaped.\<close>

datatype jdoc = JAtom string | JString string | JArray "jdoc list" | JObject "(string \<times> jdoc) list"

definition jquote :: "string \<Rightarrow> string" where
  "jquote s = CHR 0x22 # concat (map (\<lambda>c. if c = CHR 0x22 \<or> c = CHR 0x5C then [CHR 0x5C, c] else [c]) s) @
     [CHR 0x22]"

fun jprint :: "jdoc \<Rightarrow> string" where
  "jprint (JAtom s) = s"
| "jprint (JString s) = jquote s"
| "jprint (JArray ds) = ''['' @ join_with '','' (map jprint ds) @ '']''"
| "jprint (JObject fs) = ''{'' @ join_with '','' (map (\<lambda>(k, d). jquote k @ '':'' @ jprint d) fs) @ ''}''"

fun jdepth :: "jdoc \<Rightarrow> nat" where
  "jdepth (JAtom s) = 0"
| "jdepth (JString s) = 0"
| "jdepth (JArray ds) = Suc (foldr (\<lambda>d n. max (jdepth d) n) ds 0)"
| "jdepth (JObject fs) = Suc (foldr (\<lambda>(k, d) n. max (jdepth d) n) fs 0)"

text \<open>Numbers and the constants hold no brackets, braces or quotes.\<close>

fun atoms_ok :: "jdoc \<Rightarrow> bool" where
  "atoms_ok (JAtom s) \<longleftrightarrow> (\<forall>c \<in> set s. c \<notin> set ''{}[]'' \<and> c \<noteq> CHR 0x22)"
| "atoms_ok (JString s) \<longleftrightarrow> True"
| "atoms_ok (JArray ds) \<longleftrightarrow> (\<forall>d \<in> set ds. atoms_ok d)"
| "atoms_ok (JObject fs) \<longleftrightarrow> (\<forall>(k, d) \<in> set fs. atoms_ok d)"

text \<open>A piece of text of depth \<open>n\<close>: the scan passes it and remembers its depth.\<close>

definition deep :: "string \<Rightarrow> nat \<Rightarrow> bool" where
  "deep s n \<longleftrightarrow> (\<forall>rest d m. d \<le> m \<longrightarrow>
     depth_loop (s @ rest) d m False False = depth_loop rest d (max m (d + n)) False False)"

lemma deepD: "deep s n \<Longrightarrow> d \<le> m \<Longrightarrow>
    depth_loop (s @ rest) d m False False = depth_loop rest d (max m (d + n)) False False"
  by (simp add: deep_def)

lemma deep_append: "deep s n \<Longrightarrow> deep t k \<Longrightarrow> deep (s @ t) (max n k)"
  by (simp add: deep_def max.assoc nat_add_max_right [symmetric] le_max_iff_disj)

lemma deep_plain: "\<forall>c \<in> set s. c \<notin> set ''{}[]'' \<and> c \<noteq> CHR 0x22 \<Longrightarrow> deep s 0"
  unfolding deep_def by (induction s) (auto simp: max_def)

lemma depth_loop_quoted:
  "depth_loop (concat (map (\<lambda>c. if c = CHR 0x22 \<or> c = CHR 0x5C then [CHR 0x5C, c] else [c]) s) @
     CHR 0x22 # rest) d m True False = depth_loop rest d m False False"
  by (induction s) auto

lemma deep_jquote: "deep (jquote s) 0"
  by (auto simp: deep_def jquote_def depth_loop_quoted max_def)

lemma deep_join:
  assumes "\<And>x. x \<in> set xs \<Longrightarrow> deep (f x) (g x)"
  shows "deep (join_with '','' (map f xs)) (foldr (\<lambda>x n. max (g x) n) xs 0)"
  using assms
proof (induction xs rule: induct_list012)
  case 1
  show ?case using deep_plain [of "[]"] by simp
next
  case (2 x)
  then show ?case by simp
next
  case (3 x y zs)
  have "deep '','' 0" by (rule deep_plain) simp
  from deep_append [OF deep_append [OF _ this] 3(2)] 3 show ?case by simp
qed

lemma deep_bracket:
  assumes "deep s n" "(a, b) \<in> {(CHR ''{'', CHR ''}''), (CHR ''['', CHR '']'')}"
  shows "deep (a # s @ [b]) (Suc n)"
  using assms by (auto simp: deep_def max_def)

lemma deep_jprint: "atoms_ok j \<Longrightarrow> deep (jprint j) (jdepth j)"
proof (induction j)
  case (JAtom s)
  then show ?case using deep_plain [of s] by simp
next
  case (JString s)
  show ?case by (simp add: deep_jquote)
next
  case (JArray ds)
  then have "deep (join_with '','' (map jprint ds)) (foldr (\<lambda>d n. max (jdepth d) n) ds 0)"
    by (intro deep_join) auto
  from deep_bracket [OF this] show ?case by simp
next
  case (JObject fs)
  have colon: "deep '':'' 0" by (rule deep_plain) simp
  have "deep (jquote k @ '':'' @ jprint d) (jdepth d)" if "(k, d) \<in> set fs" for k d
    using deep_append [OF deep_jquote deep_append [OF colon]] JObject that by fastforce
  then have "deep (join_with '','' (map (\<lambda>(k, d). jquote k @ '':'' @ jprint d) fs))
      (foldr (\<lambda>(k, d) n. max (jdepth d) n) fs 0)"
    using deep_join [of fs "\<lambda>(k, d). jquote k @ '':'' @ jprint d" "\<lambda>(k, d). jdepth d"]
    by (auto simp: case_prod_unfold)
  from deep_bracket [OF this] show ?case by simp
qed

text \<open>The depth check counts exactly the nesting of a document: brackets inside strings, however
  escaped, do not count, so that a text is refused exactly when it nests deeper than 127.\<close>

theorem depth_check_exact:
  assumes "atoms_ok j"
  shows "max_depth (jprint j) = jdepth j \<and> (check_depth (jprint j) = Inr () \<longleftrightarrow> jdepth j \<le> 127)"
proof -
  have "max_depth (jprint j) = jdepth j"
    using deepD [OF deep_jprint [OF assms], of 0 0 "[]"] by (simp add: max_depth_def)
  then show ?thesis by (auto simp: check_depth_def MAX_JSON_DEPTH_def)
qed

theorem depth_check_exact_witness:
  "max_depth (jprint (JObject [(''a'', JString [CHR ''['', CHR 0x22, CHR ''{'']), (''b'', JArray [JAtom ''1''])])) = 2"
  using depth_check_exact [of "JObject [(''a'', JString [CHR ''['', CHR 0x22, CHR ''{'']), (''b'', JArray [JAtom ''1''])]"]
  by simp

section \<open>The audit log\<close>

record AuditEvent =
  ae_actor :: string
  ae_action :: string
  ae_target :: string
  ae_args_masked :: "string list"
  ae_outcome :: AuditOutcome
  ae_exit_code :: "int option"

text \<open>\<open>SerializedRecord\<close>: the event with the time the log gives it.\<close>

record SerializedRecord = AuditEvent +
  sr_timestamp :: string

datatype AuditReceipt = AuditReceipt

definition audit_open :: "bool \<Rightarrow> string option \<Rightarrow> (XBackupError + unit) \<times> string option" where
  "audit_open fails file = (if fails then (Inl (Config ''cannot open the audit log''), file)
     else (Inr (), Some (case file of None \<Rightarrow> [] | Some c \<Rightarrow> c)))"

definition audit_record ::
  "(SerializedRecord \<Rightarrow> string option) \<Rightarrow> append_fault option \<Rightarrow> string \<Rightarrow> AuditEvent \<Rightarrow>
   string option \<Rightarrow> (XBackupError + unit) \<times> string option" where
  "audit_record to_json fault now ev file =
    (case to_json (AuditEvent.extend ev (SerializedRecord.fields now)) of
       None \<Rightarrow> (Inl (Failure ''cannot serialize''), file)
     | Some line \<Rightarrow> append_line fault Synced (line @ [nl]) file)"

definition gate ::
  "(SerializedRecord \<Rightarrow> string option) \<Rightarrow> append_fault option \<Rightarrow> string \<Rightarrow> string \<Rightarrow> string \<Rightarrow>
   string \<Rightarrow> string list \<Rightarrow> string option \<Rightarrow> (XBackupError + AuditReceipt) \<times> string option" where
  "gate to_json fault now actor action target args_masked file =
    (case audit_record to_json fault now
        \<lparr>ae_actor = actor, ae_action = action, ae_target = target, ae_args_masked = args_masked,
         ae_outcome = Requested, ae_exit_code = None\<rparr> file of
       (Inl e, file') \<Rightarrow> (Inl e, file')
     | (Inr _, file') \<Rightarrow> (Inr AuditReceipt, file'))"

text \<open>The audit gate. Whatever happens, the log only grows. A receipt, which every destructive
  operation asks for, is given only when the log reads exactly as before with one more record
  at its end, the request of this action by this actor; this holds after any earlier torn write.\<close>

theorem audit_gate:
  assumes "gate to_json fault now actor action target args file = (r, file')"
    and "line_codec to_json of_json"
  defines "before \<equiv> (case file of None \<Rightarrow> [] | Some c \<Rightarrow> c)"
  shows "(file' = file \<or> (\<exists>c. file' = Some c \<and> prefix before c)) \<and>
    (r = Inr AuditReceipt \<longrightarrow> (\<exists>c. file' = Some c \<and>
       line_results of_json c = line_results of_json before @
         [Inr (Some \<lparr>ae_actor = actor, ae_action = action, ae_target = target, ae_args_masked = args,
            ae_outcome = Requested, ae_exit_code = None, sr_timestamp = now\<rparr>)]))"
proof -
  let ?r = "\<lparr>ae_actor = actor, ae_action = action, ae_target = target, ae_args_masked = args,
            ae_outcome = Requested, ae_exit_code = None, sr_timestamp = now\<rparr>"
  have ext: "AuditEvent.extend \<lparr>ae_actor = actor, ae_action = action, ae_target = target,
      ae_args_masked = args, ae_outcome = Requested, ae_exit_code = None\<rparr>
      (SerializedRecord.fields now) = ?r"
    by (simp add: AuditEvent.extend_def SerializedRecord.fields_def)
  show ?thesis
  proof (cases "to_json ?r")
    case None
    with assms(1) show ?thesis by (auto simp: gate_def audit_record_def ext)
  next
    case (Some l)
    obtain u where u: "append_line fault Synced (l @ [nl]) file = (u, file')"
        "r = (case u of Inl e \<Rightarrow> Inl e | Inr _ \<Rightarrow> Inr AuditReceipt)"
      using assms(1) Some by (auto simp: gate_def audit_record_def ext split: prod.splits sum.splits)
    note l = parse_line_codec [OF assms(2) Some]
    from append_line_grows [OF u(1)] u append_line_Inr [where d = Synced and l = l and of_json = of_json] l
    show ?thesis by (auto simp: before_def split: sum.splits)
  qed
qed

definition ex_request :: SerializedRecord where
  "ex_request = \<lparr>ae_actor = ''a'', ae_action = ''prune.delete'', ae_target = ''t'', ae_args_masked = [],
     ae_outcome = Requested, ae_exit_code = None, sr_timestamp = ''now''\<rparr>"

text \<open>A codec of one record, for evaluations.\<close>

definition one_to_json :: "'r \<Rightarrow> 'r \<Rightarrow> string option" where
  "one_to_json r0 r = (if r = r0 then Some ''{}'' else None)"

definition one_of_json :: "'r \<Rightarrow> string \<Rightarrow> 'r option" where
  "one_of_json r0 s = (if s = ''{}'' then Some r0 else None)"

lemma one_codec: "line_codec (one_to_json r0) (one_of_json r0)"
proof -
  have "\<exists>m. ''{}'' = CHR ''{'' # m @ ''}''" by (rule exI [of _ "[]"]) simp
  then show ?thesis
    by (auto simp: line_codec_def one_to_json_def one_of_json_def nl_def byte_def max_depth_def
      MAX_JSON_DEPTH_def split: if_splits)
qed

theorem audit_gate_witness:
  "\<exists>c. gate (one_to_json ex_request) None ''now'' ''a'' ''prune.delete'' ''t'' [] (Some ''torn'') =
      (Inr AuditReceipt, Some c) \<and>
    line_results (one_of_json ex_request) c =
      line_results (one_of_json ex_request) ''torn'' @ [Inr (Some ex_request)]"
proof -
  let ?g = "gate (one_to_json ex_request) None ''now'' ''a'' ''prune.delete'' ''t'' [] (Some ''torn'')"
  have g: "?g = (fst ?g, snd ?g)" by simp
  have r: "fst ?g = Inr AuditReceipt"
    by (simp add: gate_def audit_record_def AuditEvent.extend_def SerializedRecord.fields_def
      one_to_json_def ex_request_def append_line_def ends_with_newline_or_empty_def nl_def Let_def)
  from audit_gate [OF g one_codec] r obtain c where "snd ?g = Some c"
      "line_results (one_of_json ex_request) c =
        line_results (one_of_json ex_request) ''torn'' @ [Inr (Some ex_request)]"
    by (auto simp: ex_request_def)
  with g r show ?thesis by auto
qed

end
