(* ===== verification/XB_File_Uri.thy ===== *)
theory XB_File_Uri
  imports XB_Journal
begin

text \<open>
  The source of a file backup as a URI (\<open>engine/file/mod.rs\<close>). The lemmas show that a path without
  escapes is read as it stands, and that some texts make the program panic instead of being refused.
\<close>

datatype uri_error =
    NotAFileUri string
  | RemoteHost string
  | NoAbsolutePath string
  | UriPanic

text \<open>
  \<open>u8::from_str_radix\<close> on two characters in base 16: a sign \<open>+\<close> is accepted before a digit.
\<close>

definition two_hex :: "char \<Rightarrow> char \<Rightarrow> nat option" where
  "two_hex b c = (case to_digit16 c of
     None \<Rightarrow> None
   | Some lo \<Rightarrow> if b = CHR ''+'' then Some lo
       else map_option (\<lambda>hi. hi * 16 + lo) (to_digit16 b))"

text \<open>
  The bytes of \<open>percent_decode\<close>; \<open>None\<close> when the slice of the two characters behind a percent sign
  does not end between characters, on which the program panics.
\<close>

fun uri_bytes :: "string \<Rightarrow> string option" where
  "uri_bytes (a # b # c # s) =
     (if a = CHR ''%'' then
        (if cont b \<or> (s \<noteq> [] \<and> cont (hd s)) then None
         else case two_hex b c of
           Some v \<Rightarrow> map_option ((#) (char_of v)) (uri_bytes s)
         | None \<Rightarrow> map_option ((#) a) (uri_bytes (b # c # s)))
      else map_option ((#) a) (uri_bytes (b # c # s)))"
| "uri_bytes s = Some s"

definition uri_percent_decode :: "string \<Rightarrow> string option" where
  "uri_percent_decode s = map_option utf8_lossy (uri_bytes s)"

definition FILE_SCHEME :: string where "FILE_SCHEME = ''file://''"

definition path_from_uri :: "string \<Rightarrow> uri_error + string" where
  "path_from_uri uri =
     (let t = str_trim uri in
      if take (length FILE_SCHEME) t \<noteq> FILE_SCHEME then Inl (NotAFileUri uri)
      else let rest = drop (length FILE_SCHEME) t;
               host = takeWhile (\<lambda>c. c \<noteq> CHR ''/'') rest;
               path = dropWhile (\<lambda>c. c \<noteq> CHR ''/'') rest
        in if host \<noteq> [] \<and> host \<noteq> ''localhost'' then Inl (RemoteHost host)
           else case uri_percent_decode path of
             None \<Rightarrow> Inl UriPanic
           | Some decoded \<Rightarrow>
               if decoded = [] \<or> hd decoded \<noteq> CHR ''/'' then Inl (NoAbsolutePath uri)
               else Inr decoded)"

lemma uri_bytes_plain: "CHR ''%'' \<notin> set s \<Longrightarrow> uri_bytes s = Some s"
  by (induction s rule: uri_bytes.induct) auto

text \<open>An absolute path of ASCII characters without percent signs comes back as it is.\<close>

theorem plain_path_read:
  assumes "p = CHR ''/'' # q" and "CHR ''%'' \<notin> set p" and "\<forall>c \<in> set p. byte c < 0x80"
    and "0x21 \<le> byte (last p)" "byte (last p) \<le> 0x7E"
  shows "path_from_uri (FILE_SCHEME @ p) = Inr p" "path_from_uri (FILE_SCHEME @ ''localhost'' @ p) = Inr p"
proof -
  have trim: "str_trim (FILE_SCHEME @ h @ p) = FILE_SCHEME @ h @ p" for h
    using assms(1,4,5) by (intro str_trim_plain) (simp_all add: FILE_SCHEME_def byte_def)
  have d: "uri_percent_decode p = Some p"
    by (simp add: uri_percent_decode_def uri_bytes_plain [OF assms(2)] utf8_lossy_ascii [OF assms(3)])
  show "path_from_uri (FILE_SCHEME @ p) = Inr p"
    using trim [of "[]"] d assms(1) by (simp add: path_from_uri_def Let_def)
  show "path_from_uri (FILE_SCHEME @ ''localhost'' @ p) = Inr p"
    using trim [of "''localhost''"] d assms(1) by (simp add: path_from_uri_def Let_def)
qed

text \<open>
  A percent sign, an ASCII character and a character of two bytes: the slice ends inside the character.
  And \<open>%+5\<close> is read as the byte 5, although it is no escape.
\<close>

theorem uri_panics:
  "path_from_uri (FILE_SCHEME @ ''/%a'' @ [CHR 0xC3, CHR 0xA9] @ ''.db'') = Inl UriPanic"
  "path_from_uri (FILE_SCHEME @ ''/%+5.db'') = Inr (CHR ''/'' # CHR 0x05 # ''.db'')"
proof -
  have "str_trim (FILE_SCHEME @ ''/%a'' @ [CHR 0xC3, CHR 0xA9] @ ''.db'') =
      FILE_SCHEME @ ''/%a'' @ [CHR 0xC3, CHR 0xA9] @ ''.db''"
    by (rule str_trim_plain) (simp_all add: FILE_SCHEME_def byte_def)
  then show "path_from_uri (FILE_SCHEME @ ''/%a'' @ [CHR 0xC3, CHR 0xA9] @ ''.db'') = Inl UriPanic"
    by (simp add: path_from_uri_def Let_def uri_percent_decode_def cont_def byte_def)
  have "str_trim (FILE_SCHEME @ ''/%+5.db'') = FILE_SCHEME @ ''/%+5.db''"
    by (rule str_trim_plain) (simp_all add: FILE_SCHEME_def byte_def)
  moreover have "utf8_lossy (CHR ''/'' # CHR 0x05 # ''.db'') = CHR ''/'' # CHR 0x05 # ''.db''"
    by (rule utf8_lossy_ascii) (simp add: byte_def)
  moreover have "char_of (5 :: nat) = CHR 0x05" by (simp add: char_of_def bit_Suc_0_iff)
  ultimately show "path_from_uri (FILE_SCHEME @ ''/%+5.db'') = Inr (CHR ''/'' # CHR 0x05 # ''.db'')"
    by (simp add: path_from_uri_def Let_def uri_percent_decode_def two_hex_def to_digit16_def cont_def byte_def)
qed

end
