(* ===== verification/XB_Lock.thy ===== *)
theory XB_Lock
  imports XB_Errors
begin

text \<open>
  The lock of a profile (\<open>lock/file_lock.rs\<close>) and the console's view of it
  (\<open>web/routes/lock.rs\<close>). A lock is a file that only its creator can create
  (\<open>O_CREAT | O_EXCL\<close>) and that carries the process, host and time of its holder; a lock whose
  holder is dead is reclaimed. The operations are given twice: as the functions of the source,
  run alone, and as a machine with one transition per system call (opening the lock file, reading it
  and asking whether its holder lives are three of them), so that processes can interleave between
  any two. The file system keeps inodes, because a process that has
  created a lock file writes to the inode it opened even when the name has been removed.
\<close>

section \<open>The file system and the machine around a call\<close>

record LockData =
  ld_pid :: u32
  ld_started_at :: string
  ld_profile :: string
  ld_hostname :: string

record lockfs =
  lf_dir :: "string \<Rightarrow> nat option"
  lf_node :: "nat \<Rightarrow> bytes"
  lf_next :: nat

text \<open>
  What a call reads of its machine: its host and process id, the clock, \<open>kill(pid, 0)\<close> (the
  error number, if it fails), the parser of RFC 3339 times and the JSON form of the metadata.
\<close>

record lock_env =
  le_host :: string
  le_pid :: u32
  le_now :: int
  le_stamp :: string
  le_kill :: "int \<Rightarrow> int option"
  le_rfc3339 :: "string \<Rightarrow> int option"
  le_to_json :: "LockData \<Rightarrow> bytes option"
  le_of_json :: "bytes \<Rightarrow> LockData option"

text \<open>The faults of a call: the directory, the creation and the write of each of the two attempts
  (with the number of bytes that reached the file), the read of the holder and each removal.\<close>

record lock_io =
  io_mkdir :: "string option"
  io_create :: "bool \<Rightarrow> string option"
  io_write :: "bool \<Rightarrow> (nat \<times> string) option"
  io_read :: bool
  io_remove :: bool

definition no_faults :: lock_io where
  "no_faults = \<lparr>io_mkdir = None, io_create = (\<lambda>_. None), io_write = (\<lambda>_. None),
     io_read = False, io_remove = False\<rparr>"

definition remove_file :: "string \<Rightarrow> lockfs \<Rightarrow> lockfs" where
  "remove_file p fs = fs\<lparr>lf_dir := (lf_dir fs)(p := None)\<rparr>"

definition create_file :: "string \<Rightarrow> lockfs \<Rightarrow> lockfs" where
  "create_file p fs = fs\<lparr>lf_dir := (lf_dir fs)(p \<mapsto> lf_next fs),
     lf_node := (lf_node fs)(lf_next fs := []), lf_next := Suc (lf_next fs)\<rparr>"

definition write_node :: "nat \<Rightarrow> bytes \<Rightarrow> lockfs \<Rightarrow> lockfs" where
  "write_node i bs fs = fs\<lparr>lf_node := (lf_node fs)(i := bs)\<rparr>"

section \<open>Names, process ids, ages\<close>

definition STALE_AGE_SECS :: int where "STALE_AGE_SECS = 24 * 60 * 60"

definition lock_path :: "string \<Rightarrow> string \<Rightarrow> string" where
  "lock_path dir profile = dir @ ''/'' @
     map (\<lambda>c. if c = CHR ''/'' \<or> c = CHR 0x5C then CHR ''_'' else c) profile @ ''.lock''"

text \<open>\<open>ESRCH\<close>, and \<open>pid as libc::pid_t\<close>: the 32 bits read as a signed number.\<close>

definition ESRCH :: int where "ESRCH = 3"

definition pid_alive :: "(int \<Rightarrow> int option) \<Rightarrow> u32 \<Rightarrow> bool" where
  "pid_alive kill pid = (if pid = 0 then True
     else case kill (sint pid) of None \<Rightarrow> True | Some errno \<Rightarrow> errno \<noteq> ESRCH)"

definition lock_age_secs :: "lock_env \<Rightarrow> string \<Rightarrow> int option" where
  "lock_age_secs env started_at = map_option (\<lambda>t. le_now env - t) (le_rfc3339 env started_at)"

definition for_current :: "lock_env \<Rightarrow> string \<Rightarrow> LockData" where
  "for_current env profile = \<lparr>ld_pid = le_pid env, ld_started_at = le_stamp env,
     ld_profile = profile, ld_hostname = le_host env\<rparr>"

section \<open>Judging the holder of a lock\<close>

datatype conflict_note = UnreadableLock | ForeignHost string | HeldOver24h u32

datatype StaleDecision = Reclaim u32 | Conflict "conflict_note option"

definition classify :: "lock_env \<Rightarrow> LockData option \<Rightarrow> StaleDecision" where
  "classify env holder = (case holder of
     None \<Rightarrow> Conflict (Some UnreadableLock)
   | Some h \<Rightarrow>
       if ld_hostname h \<noteq> le_host env then Conflict (Some (ForeignHost (ld_hostname h)))
       else if \<not> pid_alive (le_kill env) (ld_pid h) then Reclaim (ld_pid h)
       else if (case lock_age_secs env (ld_started_at h) of
                  Some age \<Rightarrow> STALE_AGE_SECS < age | None \<Rightarrow> False)
            then Conflict (Some (HeldOver24h (ld_pid h)))
       else Conflict None)"

definition read_holder :: "lock_env \<Rightarrow> string \<Rightarrow> lockfs \<Rightarrow> LockData option" where
  "read_holder env p fs = (case lf_dir fs p of None \<Rightarrow> None
     | Some i \<Rightarrow> le_of_json env (lf_node fs i))"

text \<open>The error of a refusal keeps what its message is made of: the holder, the note, the path.\<close>

datatype lock_error =
    LockFailure string
  | LockConflictWith string "LockData option" "conflict_note option"

definition conflict_error ::
  "string \<Rightarrow> LockData option \<Rightarrow> conflict_note option \<Rightarrow> lock_error" where
  "conflict_error p holder extra = LockConflictWith p holder extra"

text \<open>The error as the program reports it; only its kind matters to the exit code.\<close>

fun reported :: "lock_error \<Rightarrow> XBackupError" where
  "reported (LockFailure e) = Failure e"
| "reported (LockConflictWith p h n) = LockConflict p"

section \<open>Taking and releasing a lock\<close>

record LockGuard =
  lg_path :: string
  lg_data :: LockData
  lg_armed :: bool

definition unlock :: "bool \<Rightarrow> LockGuard \<Rightarrow> lockfs \<Rightarrow> LockGuard \<times> lockfs" where
  "unlock fails g fs = (if \<not> lg_armed g then (g, fs)
     else (g\<lparr>lg_armed := False\<rparr>, if fails then fs else remove_file (lg_path g) fs))"

text \<open>\<open>try_create\<close>: \<open>Inr None\<close> when the file is there. A write that fails removes the new file
  again; a serialization that fails leaves it.\<close>

definition try_create ::
  "lock_env \<Rightarrow> lock_io \<Rightarrow> bool \<Rightarrow> string \<Rightarrow> string \<Rightarrow> lockfs \<Rightarrow>
   (lock_error + LockGuard option) \<times> lockfs" where
  "try_create env io retry p profile fs = (case io_create io retry of
     Some e \<Rightarrow> (Inl (LockFailure e), fs)
   | None \<Rightarrow>
       (case lf_dir fs p of
          Some _ \<Rightarrow> (Inr None, fs)
        | None \<Rightarrow>
            let i = lf_next fs; fs1 = create_file p fs; d = for_current env profile in
            (case le_to_json env d of
               None \<Rightarrow> (Inl (LockFailure ''failed to serialize lock metadata''), fs1)
             | Some bs \<Rightarrow>
                 (case io_write io retry of
                    Some (n, e) \<Rightarrow>
                      (Inl (LockFailure e), remove_file p (write_node i (take n bs) fs1))
                  | None \<Rightarrow>
                      (Inr (Some \<lparr>lg_path = p, lg_data = d, lg_armed = True\<rparr>),
                       write_node i bs fs1)))))"

definition acquire_in ::
  "lock_env \<Rightarrow> lock_io \<Rightarrow> string \<Rightarrow> string \<Rightarrow> lockfs \<Rightarrow> (lock_error + LockGuard) \<times> lockfs" where
  "acquire_in env io dir profile fs =
    (let p = lock_path dir profile in
     case io_mkdir io of Some e \<Rightarrow> (Inl (LockFailure e), fs)
     | None \<Rightarrow>
       (case try_create env io False p profile fs of
          (Inl e, fs1) \<Rightarrow> (Inl e, fs1)
        | (Inr (Some g), fs1) \<Rightarrow> (Inr g, fs1)
        | (Inr None, fs1) \<Rightarrow>
            let holder = (if io_read io then None else read_holder env p fs1) in
            (case classify env holder of
               Reclaim _ \<Rightarrow>
                 let fs2 = (if io_remove io then fs1 else remove_file p fs1) in
                 (case try_create env io True p profile fs2 of
                    (Inl e, fs3) \<Rightarrow> (Inl e, fs3)
                  | (Inr (Some g), fs3) \<Rightarrow> (Inr g, fs3)
                  | (Inr None, fs3) \<Rightarrow>
                      (Inl (conflict_error p (read_holder env p fs3) None), fs3))
             | Conflict extra \<Rightarrow> (Inl (conflict_error p holder extra), fs1))))"

text \<open>
  The directory and the host name come from the environment of the process: \<open>XDG_RUNTIME_DIR\<close> or
  the directory for temporary files, \<open>HOSTNAME\<close> or the node name of \<open>uname\<close> (the characters before
  its first NUL, \<open>None\<close> when they are not UTF-8 or the call fails).
\<close>

definition lock_dir :: "(string \<Rightarrow> string option) \<Rightarrow> string \<Rightarrow> string" where
  "lock_dir var temp_dir = (case var ''XDG_RUNTIME_DIR'' of
     Some rt \<Rightarrow> (if rt \<noteq> [] then rt @ ''/x-backup'' else temp_dir @ ''/x-backup'')
   | None \<Rightarrow> temp_dir @ ''/x-backup'')"

definition hostname :: "(string \<Rightarrow> string option) \<Rightarrow> string option \<Rightarrow> string" where
  "hostname var nodename = (case var ''HOSTNAME'' of
     Some h \<Rightarrow> (if h \<noteq> [] then h else (case nodename of Some n \<Rightarrow> n | None \<Rightarrow> ''unknown''))
   | None \<Rightarrow> (case nodename of Some n \<Rightarrow> n | None \<Rightarrow> ''unknown''))"

definition acquire ::
  "(string \<Rightarrow> string option) \<Rightarrow> string \<Rightarrow> lock_env \<Rightarrow> lock_io \<Rightarrow> string \<Rightarrow> lockfs \<Rightarrow>
   (lock_error + LockGuard) \<times> lockfs" where
  "acquire var temp_dir env io profile fs = acquire_in env io (lock_dir var temp_dir) profile fs"

section \<open>The same, one system call at a time\<close>

datatype lock_pc =
    Preparing string
  | Trying bool string
  | Writing string nat
  | Undoing string nat
  | Reading string
  | Loading string nat
  | Judging string nat LockData
  | Reclaiming string nat
  | Holding string
  | Refused string
  | Broken
  | Released

text \<open>
  \<open>lock_micro env profile fault pc fs\<close> makes one system call; \<open>fault\<close> makes it fail, a failing
  write after the given number of bytes. \<open>Loading p i\<close> has opened the file \<open>i\<close> that was at \<open>p\<close>, \<open>Judging\<close>
  holds what it read there, \<open>Reclaiming\<close> has found its holder dead; the program itself does not keep
  \<open>i\<close> beyond the read, it only records here which file was read. The second reading of the holder, for
  the message of a lost retry, changes nothing and is left out.
\<close>

fun lock_micro ::
  "lock_env \<Rightarrow> string \<Rightarrow> nat option \<Rightarrow> lock_pc \<Rightarrow> lockfs \<Rightarrow> lock_pc \<times> lockfs" where
  "lock_micro env profile fault (Preparing p) fs =
    (if fault \<noteq> None then Broken else Trying False p, fs)"
| "lock_micro env profile fault (Trying retry p) fs =
    (if fault \<noteq> None then (Broken, fs)
     else case lf_dir fs p of
       Some _ \<Rightarrow> (if retry then Refused p else Reading p, fs)
     | None \<Rightarrow> (Writing p (lf_next fs), create_file p fs))"
| "lock_micro env profile fault (Writing p i) fs =
    (case le_to_json env (for_current env profile) of
       None \<Rightarrow> (Broken, fs)
     | Some bs \<Rightarrow>
         (case fault of None \<Rightarrow> (Holding p, write_node i bs fs)
          | Some n \<Rightarrow> (Undoing p i, write_node i (take n bs) fs)))"
| "lock_micro env profile fault (Undoing p i) fs =
    (Broken, if fault \<noteq> None then fs else remove_file p fs)"
| "lock_micro env profile fault (Reading p) fs =
    (if fault \<noteq> None then Refused p else case lf_dir fs p of None \<Rightarrow> Refused p | Some i \<Rightarrow> Loading p i, fs)"
| "lock_micro env profile fault (Loading p i) fs =
    (if fault \<noteq> None then Refused p
     else case le_of_json env (lf_node fs i) of None \<Rightarrow> Refused p | Some h \<Rightarrow> Judging p i h, fs)"
| "lock_micro env profile fault (Judging p i h) fs =
    (case classify env (Some h) of Reclaim _ \<Rightarrow> Reclaiming p i | Conflict _ \<Rightarrow> Refused p, fs)"
| "lock_micro env profile fault (Reclaiming p i) fs =
    (Trying True p, if fault \<noteq> None then fs else remove_file p fs)"
| "lock_micro env profile fault (Holding p) fs =
    (Released, if fault \<noteq> None then fs else remove_file p fs)"
| "lock_micro env profile fault (Refused p) fs = (Refused p, fs)"
| "lock_micro env profile fault Broken fs = (Broken, fs)"
| "lock_micro env profile fault Released fs = (Released, fs)"

text \<open>A number of calls in a row by one process, with their faults.\<close>

fun lock_micros ::
  "lock_env \<Rightarrow> string \<Rightarrow> nat option list \<Rightarrow> lock_pc \<times> lockfs \<Rightarrow> lock_pc \<times> lockfs" where
  "lock_micros env profile [] s = s"
| "lock_micros env profile (f # fs) s =
     lock_micros env profile fs (lock_micro env profile f (fst s) (snd s))"

text \<open>The processes of all hosts that share the lock directory: a process is its host and id.\<close>

type_synonym proc = "string \<times> u32"

record lock_sys =
  ls_pc :: "proc \<Rightarrow> lock_pc option"
  ls_fs :: lockfs

text \<open>\<open>kill(pid, 0)\<close> on a host, as its processes stand.\<close>

definition kill_of :: "(proc \<Rightarrow> lock_pc option) \<Rightarrow> string \<Rightarrow> int \<Rightarrow> int option" where
  "kill_of pcs h n = (if pcs (h, word_of_int n) \<noteq> None then None else Some ESRCH)"

inductive lock_step ::
  "(LockData \<Rightarrow> bytes option) \<Rightarrow> (bytes \<Rightarrow> LockData option) \<Rightarrow> lock_sys \<Rightarrow> lock_sys \<Rightarrow> bool"
  for enc dec where
  begins: "ls_pc s q = None \<Longrightarrow> snd q \<noteq> 0 \<Longrightarrow>
     lock_step enc dec s (s\<lparr>ls_pc := (ls_pc s)(q \<mapsto> Preparing p)\<rparr>)"
| calls: "ls_pc s q = Some pc \<Longrightarrow> le_host env = fst q \<Longrightarrow> le_pid env = snd q \<Longrightarrow>
     le_to_json env = enc \<Longrightarrow> le_of_json env = dec \<Longrightarrow> le_kill env = kill_of (ls_pc s) (fst q) \<Longrightarrow>
     lock_micro env profile fault pc (ls_fs s) = (pc', fs') \<Longrightarrow>
     lock_step enc dec s (s\<lparr>ls_pc := (ls_pc s)(q \<mapsto> pc'), ls_fs := fs'\<rparr>)"
| dies: "ls_pc s q = Some pc \<Longrightarrow> lock_step enc dec s (s\<lparr>ls_pc := (ls_pc s)(q := None)\<rparr>)"

definition lock_start :: lock_sys where
  "lock_start = \<lparr>ls_pc = (\<lambda>_. None),
     ls_fs = \<lparr>lf_dir = (\<lambda>_. None), lf_node = (\<lambda>_. []), lf_next = 0\<rparr>\<rparr>"

text \<open>
  The file at \<open>p\<close> that a process has opened to judge its holder and has not finished with. In an
  undisturbed state the name is not free for a newcomer while another process still looks at the file
  that was there.
\<close>

definition looks_at :: "lock_sys \<Rightarrow> proc \<Rightarrow> string \<Rightarrow> nat \<Rightarrow> bool" where
  "looks_at s q p i \<longleftrightarrow> (case ls_pc s q of
     Some (Loading p' j) \<Rightarrow> p' = p \<and> j = i | Some (Judging p' j h) \<Rightarrow> p' = p \<and> j = i
   | Some (Reclaiming p' j) \<Rightarrow> p' = p \<and> j = i | _ \<Rightarrow> False)"

definition undisturbed :: "lock_sys \<Rightarrow> bool" where
  "undisturbed s \<longleftrightarrow> (\<forall>p q r i retry. looks_at s q p i \<longrightarrow>
     ls_pc s r = Some (Trying retry p) \<longrightarrow> lf_dir (ls_fs s) p \<noteq> None)"

inductive lock_runs ::
  "(LockData \<Rightarrow> bytes option) \<Rightarrow> (bytes \<Rightarrow> LockData option) \<Rightarrow> (lock_sys \<Rightarrow> bool) \<Rightarrow> lock_sys \<Rightarrow> bool"
  for enc dec ok where
  none: "lock_runs enc dec ok lock_start"
| more: "lock_runs enc dec ok s \<Longrightarrow> lock_step enc dec s s' \<Longrightarrow> ok s' \<Longrightarrow> lock_runs enc dec ok s'"

text \<open>What the JSON codec promises: metadata written in full is read back, an initial part of it
  is not JSON.\<close>

definition lock_codec ::
  "(LockData \<Rightarrow> bytes option) \<Rightarrow> (bytes \<Rightarrow> LockData option) \<Rightarrow> bool" where
  "lock_codec enc dec \<longleftrightarrow> (\<forall>d bs. enc d = Some bs \<longrightarrow>
     dec bs = Some d \<and> (\<forall>n < length bs. dec (take n bs) = None)) \<and> dec [] = None"

section \<open>The functions of the source are runs of the machine\<close>

lemma fs_simps [simp]:
  "lf_dir (remove_file p fs) = (lf_dir fs)(p := None)"
  "lf_node (remove_file p fs) = lf_node fs"
  "lf_next (remove_file p fs) = lf_next fs"
  "lf_dir (create_file p fs) = (lf_dir fs)(p \<mapsto> lf_next fs)"
  "lf_node (create_file p fs) = (lf_node fs)(lf_next fs := [])"
  "lf_next (create_file p fs) = Suc (lf_next fs)"
  "lf_dir (write_node i bs fs) = lf_dir fs"
  "lf_node (write_node i bs fs) = (lf_node fs)(i := bs)"
  "lf_next (write_node i bs fs) = lf_next fs"
  by (simp_all add: remove_file_def create_file_def write_node_def)

text \<open>What a call returns, as a place of the machine.\<close>

fun pc_of :: "lock_error + LockGuard \<Rightarrow> lock_pc" where
  "pc_of (Inr g) = Holding (lg_path g)"
| "pc_of (Inl (LockFailure _)) = Broken"
| "pc_of (Inl (LockConflictWith p _ _)) = Refused p"

fun pc_try :: "bool \<Rightarrow> string \<Rightarrow> lock_error + LockGuard option \<Rightarrow> lock_pc" where
  "pc_try retry p (Inr None) = (if retry then Refused p else Reading p)"
| "pc_try retry p (Inr (Some g)) = Holding (lg_path g)"
| "pc_try retry p (Inl e) = pc_of (Inl e)"

lemma lock_micros_append:
  "lock_micros env profile (a @ b) s = lock_micros env profile b (lock_micros env profile a s)"
  by (induction a arbitrary: s) simp_all

lemma lock_micros_stay [simp]:
  "lock_micros env profile fl (Broken, w) = (Broken, w)"
  "lock_micros env profile fl (Refused p, w) = (Refused p, w)"
  by (induction fl) auto

definition fault_bit :: "bool \<Rightarrow> nat option" where
  "fault_bit b = (if b then Some 0 else None)"

lemma fault_bit_simps [simp]: "(fault_bit b = None) = (\<not> b)" "fault_bit False = None"
  by (simp_all add: fault_bit_def)

text \<open>The faults the machine meets where the function meets those of \<open>io\<close>.\<close>

definition try_faults :: "lock_env \<Rightarrow> lock_io \<Rightarrow> bool \<Rightarrow> string \<Rightarrow> string \<Rightarrow> lockfs \<Rightarrow> nat option list" where
  "try_faults env io retry p profile fs =
    (if io_create io retry \<noteq> None then [Some 0]
     else if lf_dir fs p \<noteq> None then [None]
     else [None, map_option fst (io_write io retry)] @
       (if le_to_json env (for_current env profile) \<noteq> None \<and> io_write io retry \<noteq> None
        then [None] else []))"

lemma try_create_machine:
  "lock_micros env profile (try_faults env io retry p profile fs) (Trying retry p, fs) =
    (pc_try retry p (fst (try_create env io retry p profile fs)),
     snd (try_create env io retry p profile fs))"
  by (auto simp: try_faults_def try_create_def Let_def split: option.splits)

lemma try_create_guard:
  "try_create env io retry p profile fs = (Inr (Some g), fs') \<Longrightarrow>
    g = \<lparr>lg_path = p, lg_data = for_current env profile, lg_armed = True\<rparr>"
  by (auto simp: try_create_def Let_def split: option.splits)

definition acquire_faults :: "lock_env \<Rightarrow> lock_io \<Rightarrow> string \<Rightarrow> string \<Rightarrow> lockfs \<Rightarrow> nat option list" where
  "acquire_faults env io p profile fs = (let r = try_create env io False p profile fs in
     fault_bit (io_mkdir io \<noteq> None) # try_faults env io False p profile fs @
     (if fst r = Inr None then
        (let holder = (if io_read io then None else read_holder env p (snd r)) in
         fault_bit (io_read io) # None # None #
         (case classify env holder of
            Reclaim _ \<Rightarrow> fault_bit (io_remove io) #
              try_faults env io True p profile
                (if io_remove io then snd r else remove_file p (snd r))
          | Conflict _ \<Rightarrow> []))
      else []))"

text \<open>The three calls that read and judge a holder.\<close>

lemma judge_machine:
  "lock_micros env profile (fault_bit fails # None # None # fl) (Reading p, fs) =
    (case classify env (if fails then None else read_holder env p fs) of
       Reclaim _ \<Rightarrow> lock_micros env profile fl (Reclaiming p (the (lf_dir fs p)), fs)
     | Conflict _ \<Rightarrow> (Refused p, fs))"
proof -
  have none: "\<exists>n. classify env None = Conflict n" by (simp add: classify_def)
  show ?thesis
    using none by (auto simp: fault_bit_def read_holder_def split: option.splits StaleDecision.splits)
qed

lemma reclaim_machine:
  "lock_micros env profile (fault_bit fails # fl) (Reclaiming p i, fs) =
    lock_micros env profile fl (Trying True p, if fails then fs else remove_file p fs)"
  by (simp add: fault_bit_def)

text \<open>C32: A call that takes a lock alone, with whatever faults, is a run of the machine: it ends at the
  same place (the lock held, refused, or broken off) with the same files. What is proved of the
  interleavings of the machine is proved of the calls.\<close>

theorem acquire_refines_machine:
  "lock_micros env profile (acquire_faults env io (lock_path dir profile) profile fs)
      (Preparing (lock_path dir profile), fs) =
    (pc_of (fst (acquire_in env io dir profile fs)), snd (acquire_in env io dir profile fs))"
proof -
  let ?p = "lock_path dir profile"
  obtain r fs1 where r: "try_create env io False ?p profile fs = (r, fs1)" by fastforce
  have first: "lock_micros env profile (try_faults env io False ?p profile fs) (Trying False ?p, fs) =
      (pc_try False ?p r, fs1)"
    using try_create_machine [of env profile io False ?p fs] r by simp
  show ?thesis
  proof (cases "io_mkdir io = None")
    case False
    then show ?thesis by (auto simp: acquire_faults_def acquire_in_def Let_def)
  next
    case True
    have start: "lock_micros env profile (fault_bit (io_mkdir io \<noteq> None) # try_faults env io False ?p profile fs @ rest)
        (Preparing ?p, fs) = lock_micros env profile rest (pc_try False ?p r, fs1)" for rest
      using True first by (simp add: lock_micros_append)
    let ?h = "if io_read io then None else read_holder env ?p fs1"
    consider (error) e where "r = Inl e" | (made) g where "r = Inr (Some g)"
      | (refused) n where "r = Inr None" "classify env ?h = Conflict n"
      | (reclaim) x where "r = Inr None" "classify env ?h = Reclaim x"
      by (cases r) (blast, metis option.exhaust StaleDecision.exhaust)
    then show ?thesis
    proof cases
      case reclaim
      let ?fs2 = "if io_remove io then fs1 else remove_file ?p fs1"
      obtain r2 fs3 where r2: "try_create env io True ?p profile ?fs2 = (r2, fs3)" by fastforce
      have second: "lock_micros env profile (try_faults env io True ?p profile ?fs2) (Trying True ?p, ?fs2) =
          (pc_try True ?p r2, fs3)"
        using try_create_machine [of env profile io True ?p ?fs2] r2 by simp
      have "lock_micros env profile (acquire_faults env io ?p profile fs) (Preparing ?p, fs) =
          (pc_try True ?p r2, fs3)"
        unfolding acquire_faults_def Let_def r fst_conv snd_conv start
        using reclaim by (simp only: judge_machine reclaim_machine pc_try.simps simp_thms if_True if_False
            StaleDecision.case second)
      moreover have "acquire_in env io dir profile fs =
          ((case r2 of Inl e \<Rightarrow> Inl e | Inr (Some g) \<Rightarrow> Inr g
            | Inr None \<Rightarrow> Inl (conflict_error ?p (read_holder env ?p fs3) None)), fs3)"
        using True r reclaim r2 by (auto simp: acquire_in_def Let_def split: sum.splits option.splits)
      ultimately show ?thesis
        by (auto simp: conflict_error_def split: sum.splits option.splits)
    next
      case refused
      then have "lock_micros env profile (acquire_faults env io ?p profile fs) (Preparing ?p, fs) = (Refused ?p, fs1)"
        unfolding acquire_faults_def Let_def r fst_conv snd_conv start
        by (simp only: judge_machine pc_try.simps simp_thms if_True if_False StaleDecision.case)
      with True r refused show ?thesis by (simp add: acquire_in_def Let_def conflict_error_def)
    qed (use True r start [of "[]"] in \<open>simp_all add: acquire_faults_def Let_def acquire_in_def\<close>)
  qed
qed

section \<open>What a call does\<close>

text \<open>The holder of the file at a path is dead beyond doubt: readable, of this host, its process
  gone.\<close>

definition dead_holder :: "lock_env \<Rightarrow> string \<Rightarrow> lockfs \<Rightarrow> bool" where
  "dead_holder env p fs \<longleftrightarrow> (\<exists>h. read_holder env p fs = Some h \<and> ld_hostname h = le_host env \<and>
     \<not> pid_alive (le_kill env) (ld_pid h))"

lemma classify_Reclaim_iff:
  "(\<exists>x. classify env (read_holder env p fs) = Reclaim x) \<longleftrightarrow> dead_holder env p fs"
  by (auto simp: classify_def dead_holder_def split: option.splits)

lemma create_remove [simp]: "create_file p (remove_file p fs) = create_file p fs"
  by (simp add: create_file_def remove_file_def)

lemma try_create_none:
  "lf_dir fs p \<noteq> None \<Longrightarrow> try_create env no_faults retry p profile fs = (Inr None, fs)"
  by (auto simp: try_create_def no_faults_def)

lemma try_create_some:
  "lf_dir fs p = None \<Longrightarrow> le_to_json env (for_current env profile) = Some bs \<Longrightarrow>
    try_create env no_faults retry p profile fs =
      (Inr (Some \<lparr>lg_path = p, lg_data = for_current env profile, lg_armed = True\<rparr>),
       write_node (lf_next fs) bs (create_file p fs))"
  by (simp add: try_create_def no_faults_def Let_def)

lemma dead_holder_file: "dead_holder env p fs \<Longrightarrow> lf_dir fs p \<noteq> None"
  by (auto simp: dead_holder_def read_holder_def split: option.splits)

text \<open>Taking a lock, when nothing fails: the lock is granted exactly when there is no lock file, or
  the file names a process of this host that is gone; it is then written anew with the caller's
  own metadata. In every other case (a live holder however old, another host, a file that cannot
  be read) the call ends in the lock conflict with exit code 5 and changes nothing.\<close>

theorem acquire_outcome:
  fixes env :: lock_env and dir profile :: string
  assumes "le_to_json env (for_current env profile) = Some bs"
  defines "p \<equiv> lock_path dir profile"
  shows "(lf_dir fs p = None \<or> dead_holder env p fs \<longrightarrow>
      acquire_in env no_faults dir profile fs =
        (Inr \<lparr>lg_path = p, lg_data = for_current env profile, lg_armed = True\<rparr>,
         write_node (lf_next fs) bs (create_file p fs))) \<and>
    (lf_dir fs p \<noteq> None \<and> \<not> dead_holder env p fs \<longrightarrow>
      (\<exists>e. acquire_in env no_faults dir profile fs = (Inl e, fs) \<and>
        exit_code (reported e) = LOCK_CONFLICT))"
proof (intro conjI impI)
  assume a: "lf_dir fs p = None \<or> dead_holder env p fs"
  show "acquire_in env no_faults dir profile fs =
        (Inr \<lparr>lg_path = p, lg_data = for_current env profile, lg_armed = True\<rparr>,
         write_node (lf_next fs) bs (create_file p fs))"
  proof (cases "lf_dir fs p")
    case None
    then show ?thesis
      using try_create_some [OF None assms(1)]
      by (simp add: acquire_in_def p_def [symmetric] Let_def no_faults_def)
  next
    case (Some i)
    with a have "dead_holder env p fs" by simp
    then obtain x where x: "classify env (read_holder env p fs) = Reclaim x"
      using classify_Reclaim_iff by blast
    have "try_create env no_faults True p profile (remove_file p fs) =
        (Inr (Some \<lparr>lg_path = p, lg_data = for_current env profile, lg_armed = True\<rparr>),
         write_node (lf_next fs) bs (create_file p fs))"
      using try_create_some [of "remove_file p fs" p] assms(1) by simp
    moreover have "try_create env no_faults False p profile fs = (Inr None, fs)"
      using Some by (simp add: try_create_none)
    moreover have "io_mkdir no_faults = None" "\<not> io_read no_faults" "\<not> io_remove no_faults"
      by (simp_all add: no_faults_def)
    ultimately show ?thesis
      using x by (simp add: acquire_in_def p_def [symmetric] Let_def)
  qed
next
  assume a: "lf_dir fs p \<noteq> None \<and> \<not> dead_holder env p fs"
  then obtain n where n: "classify env (read_holder env p fs) = Conflict n"
    using classify_Reclaim_iff [of env p fs] by (cases "classify env (read_holder env p fs)") auto
  have "io_mkdir no_faults = None" "\<not> io_read no_faults" by (simp_all add: no_faults_def)
  with n a show "\<exists>e. acquire_in env no_faults dir profile fs = (Inl e, fs) \<and>
      exit_code (reported e) = LOCK_CONFLICT"
    by (simp add: acquire_in_def p_def [symmetric] Let_def try_create_none conflict_error_def)
qed

text \<open>The lock of a profile is one per directory, and the directory depends on the session: a run
  without \<open>XDG_RUNTIME_DIR\<close> (from cron) is not stopped by the lock of a run that has it.\<close>

lemma lock_per_session:
  assumes "le_to_json env (for_current env profile) = Some bs"
    and "lf_dir fs (lock_path (temp_dir @ ''/x-backup'') profile) = None"
    and "var ''XDG_RUNTIME_DIR'' = None"
  shows "\<exists>g. fst (acquire var temp_dir env no_faults profile fs) = Inr g"
  using acquire_outcome [OF assms(1), of fs "temp_dir @ ''/x-backup''"] assms(2,3)
  by (simp add: acquire_def lock_dir_def)

section \<open>Mutual exclusion\<close>

definition owns :: "lock_sys \<Rightarrow> proc \<Rightarrow> string \<Rightarrow> bool" where
  "owns s q p \<longleftrightarrow> (case ls_pc s q of
     Some (Writing p' i) \<Rightarrow> p' = p | Some (Undoing p' i) \<Rightarrow> p' = p
   | Some (Holding p') \<Rightarrow> p' = p | _ \<Rightarrow> False)"

definition file_names :: "(bytes \<Rightarrow> LockData option) \<Rightarrow> lockfs \<Rightarrow> nat \<Rightarrow> proc \<Rightarrow> bool" where
  "file_names dec fs i q \<longleftrightarrow> (\<forall>d. dec (lf_node fs i) = Some d \<longrightarrow> (ld_hostname d, ld_pid d) = q)"

text \<open>
  The file of an owner is there and is its own, and cannot be read before it is written; a file that is
  looked at is still at its name, if any file is; what was read in it is still there; a file about to
  be reclaimed has no owner.
\<close>

definition pc_ok :: "(bytes \<Rightarrow> LockData option) \<Rightarrow> lock_sys \<Rightarrow> proc \<Rightarrow> bool" where
  "pc_ok dec s q \<longleftrightarrow> (case ls_pc s q of
     Some (Writing p i) \<Rightarrow> lf_dir (ls_fs s) p = Some i \<and> dec (lf_node (ls_fs s) i) = None
   | Some (Undoing p i) \<Rightarrow> lf_dir (ls_fs s) p = Some i \<and> file_names dec (ls_fs s) i q
   | Some (Holding p) \<Rightarrow> \<exists>i. lf_dir (ls_fs s) p = Some i \<and> file_names dec (ls_fs s) i q
   | Some (Loading p i) \<Rightarrow> i < lf_next (ls_fs s) \<and> lf_dir (ls_fs s) p \<in> {None, Some i}
   | Some (Judging p i h) \<Rightarrow> i < lf_next (ls_fs s) \<and> lf_dir (ls_fs s) p \<in> {None, Some i} \<and>
       dec (lf_node (ls_fs s) i) = Some h
   | Some (Reclaiming p i) \<Rightarrow> i < lf_next (ls_fs s) \<and> lf_dir (ls_fs s) p \<in> {None, Some i} \<and> (\<forall>r. \<not> owns s r p)
   | _ \<Rightarrow> True)"

definition files_ok :: "lockfs \<Rightarrow> bool" where
  "files_ok fs \<longleftrightarrow> (\<forall>p i. lf_dir fs p = Some i \<longrightarrow> i < lf_next fs) \<and>
     (\<forall>p p' i. lf_dir fs p = Some i \<longrightarrow> lf_dir fs p' = Some i \<longrightarrow> p = p')"

definition lock_inv :: "(bytes \<Rightarrow> LockData option) \<Rightarrow> lock_sys \<Rightarrow> bool" where
  "lock_inv dec s \<longleftrightarrow> files_ok (ls_fs s) \<and> (\<forall>q. pc_ok dec s q) \<and>
     (\<forall>p q r. owns s q p \<longrightarrow> owns s r p \<longrightarrow> q = r)"

lemma pc_okD:
  "pc_ok dec s q \<Longrightarrow> owns s q p \<Longrightarrow> \<exists>i. lf_dir (ls_fs s) p = Some i \<and> file_names dec (ls_fs s) i q"
  by (auto simp: pc_ok_def owns_def file_names_def split: option.splits lock_pc.splits)

lemma pc_ok_looks:
  "pc_ok dec s q \<Longrightarrow> looks_at s q p i \<Longrightarrow> i < lf_next (ls_fs s) \<and> lf_dir (ls_fs s) p \<in> {None, Some i}"
  by (auto simp: pc_ok_def looks_at_def split: option.splits lock_pc.splits)

lemma kill_of_alive:
  "pid_alive (kill_of pcs h) pid \<longleftrightarrow> pid = 0 \<or> pcs (h, pid) \<noteq> None"
  by (simp add: pid_alive_def kill_of_def ESRCH_def)

text \<open>A holder that is judged dead owns nothing, and nobody else does.\<close>

lemma reclaim_unowned:
  assumes inv: "lock_inv dec s" and q: "ls_pc s q = Some (Judging p i h)"
    and dead: "\<not> pid_alive (kill_of (ls_pc s) (ld_hostname h)) (ld_pid h)"
  shows "\<not> owns s r p"
proof
  assume o: "owns s r p"
  have ok: "pc_ok dec s x" for x using inv unfolding lock_inv_def by blast
  from pc_okD [OF ok o] obtain j where j: "lf_dir (ls_fs s) p = Some j" "file_names dec (ls_fs s) j r" by blast
  with ok [of q] q have "dec (lf_node (ls_fs s) j) = Some h" by (auto simp: pc_ok_def)
  with j(2) have "(ld_hostname h, ld_pid h) = r" by (simp add: file_names_def)
  moreover from o have "ls_pc s r \<noteq> None" by (auto simp: owns_def split: option.splits)
  ultimately show False using dead by (auto simp: kill_of_alive)
qed

lemma owns_update:
  "owns (s\<lparr>ls_pc := (ls_pc s)(q := x), ls_fs := fs'\<rparr>) r p \<longleftrightarrow>
    (if r = q then (case x of Some (Writing p' i) \<Rightarrow> p' = p | Some (Undoing p' i) \<Rightarrow> p' = p
       | Some (Holding p') \<Rightarrow> p' = p | _ \<Rightarrow> False) else owns s r p)"
  "owns (s\<lparr>ls_pc := (ls_pc s)(q := x)\<rparr>) r p \<longleftrightarrow>
    (if r = q then (case x of Some (Writing p' i) \<Rightarrow> p' = p | Some (Undoing p' i) \<Rightarrow> p' = p
       | Some (Holding p') \<Rightarrow> p' = p | _ \<Rightarrow> False) else owns s r p)"
  by (simp_all add: owns_def)

text \<open>
  One process moves: the invariant holds if it stands for that process, if the files of the other
  owners are untouched, if a name that others look at gets no new file, if what they have read stays,
  and if the process owns nothing that was there before.
\<close>

lemma lock_inv_update:
  assumes inv: "lock_inv dec s"
    and s': "s' = s\<lparr>ls_pc := (ls_pc s)(q := x), ls_fs := fs'\<rparr>"
    and files: "files_ok fs'" and q: "pc_ok dec s' q"
    and frame: "\<And>r p i. r \<noteq> q \<Longrightarrow> owns s r p \<Longrightarrow> lf_dir (ls_fs s) p = Some i \<Longrightarrow>
      lf_dir fs' p = Some i \<and> lf_node fs' i = lf_node (ls_fs s) i"
    and looked: "\<And>r p i. r \<noteq> q \<Longrightarrow> looks_at s r p i \<Longrightarrow> lf_dir fs' p \<in> {None, lf_dir (ls_fs s) p}"
    and grows: "lf_next (ls_fs s) \<le> lf_next fs'"
    and kept: "\<And>i. i < lf_next (ls_fs s) \<Longrightarrow> dec (lf_node (ls_fs s) i) \<noteq> None \<Longrightarrow>
      lf_node fs' i = lf_node (ls_fs s) i"
    and new: "\<And>p. owns s' q p \<Longrightarrow> owns s q p \<or> lf_dir (ls_fs s) p = None \<and> (\<forall>r i. r \<noteq> q \<longrightarrow> \<not> looks_at s r p i)"
  shows "lock_inv dec s'"
proof -
  have ok: "pc_ok dec s r" for r using inv unfolding lock_inv_def by blast
  have excl: "q' = r" if "owns s q' p" "owns s r p" for q' r p
    using inv that unfolding lock_inv_def by blast
  have other: "owns s' r p \<longleftrightarrow> owns s r p" if "r \<noteq> q" for r p
    using that by (simp add: s' owns_update)
  have there: "\<exists>i. lf_dir (ls_fs s) p = Some i" if "owns s r p" for r p
    using pc_okD [OF ok that] by blast
  have q_alone: "\<not> owns s r p" if "owns s' q p" "r \<noteq> q" for r p
    using new [OF that(1)] excl there that(2) by fastforce
  have ok': "pc_ok dec s' r" for r
  proof (cases "r = q")
    case False
    have same: "ls_pc s' r = ls_pc s r" using False by (simp add: s')
    consider (owner) p where "owns s r p" | (looker) p i where "looks_at s r p i"
      | (rest) "\<And>p. \<not> owns s r p" "\<And>p i. \<not> looks_at s r p i" by blast
    then show ?thesis
    proof cases
      case owner
      obtain i where p: "lf_dir (ls_fs s) p = Some i" "file_names dec (ls_fs s) i r"
        using pc_okD [OF ok owner] by blast
      with frame [OF False owner p(1)] have "lf_dir (ls_fs s') p = Some i" "lf_node (ls_fs s') i = lf_node (ls_fs s) i"
        by (simp_all add: s')
      with p ok [of r] same owner show ?thesis
        by (auto simp: pc_ok_def owns_def file_names_def split: option.splits lock_pc.splits)
    next
      case looker
      note old = pc_ok_looks [OF ok looker]
      have at: "i < lf_next (ls_fs s')" "lf_dir (ls_fs s') p \<in> {None, Some i}"
        using old grows looked [OF False looker] by (auto simp: s')
      have read: "dec (lf_node (ls_fs s) i) = Some h \<Longrightarrow> dec (lf_node (ls_fs s') i) = Some h" for h
        using kept [of i] old by (simp add: s')
      have free: "\<not> owns s' r' p" if "\<And>r. \<not> owns s r p" for r'
        using that new [of p] looker False other by (metis (full_types))
      from looker at read free ok [of r] same show ?thesis
        by (auto simp: pc_ok_def looks_at_def split: option.splits lock_pc.splits)
    next
      case rest
      from rest ok [of r] same show ?thesis
        by (auto simp: pc_ok_def owns_def looks_at_def split: option.splits lock_pc.splits)
    qed
  qed (use q in simp)
  have "q' = r" if "owns s' q' p" "owns s' r p" for q' r p
    using that excl other q_alone by metis
  with ok' files show ?thesis unfolding lock_inv_def by (auto simp: s')
qed

lemma files_ok_fs:
  "files_ok fs \<Longrightarrow> files_ok (remove_file p fs)"
  "files_ok fs \<Longrightarrow> files_ok (write_node i bs fs)"
  "files_ok fs \<Longrightarrow> lf_dir fs p = None \<Longrightarrow> files_ok (create_file p fs)"
  by (auto simp: files_ok_def less_Suc_eq split: if_splits)

lemma codec_file_names:
  assumes "lock_codec enc dec" "enc (for_current env profile) = Some bs"
    and "le_host env = fst q" "le_pid env = snd q"
  shows "file_names dec (write_node i (take n bs) fs) i q"
proof (cases "n < length bs")
  case True
  with assms show ?thesis by (simp add: lock_codec_def file_names_def)
next
  case False
  with assms have "dec (take n bs) = Some (for_current env profile)"
    by (simp add: lock_codec_def)
  with assms(3,4) show ?thesis by (simp add: file_names_def for_current_def)
qed

lemma lock_inv_micro:
  assumes inv: "lock_inv dec s" and calm: "undisturbed s" and codec: "lock_codec enc dec"
    and q: "ls_pc s q = Some pc"
    and env: "le_host env = fst q" "le_pid env = snd q" "le_to_json env = enc"
      "le_of_json env = dec" "le_kill env = kill_of (ls_pc s) (fst q)"
    and step: "lock_micro env profile fault pc (ls_fs s) = (pc', fs')"
  shows "lock_inv dec (s\<lparr>ls_pc := (ls_pc s)(q \<mapsto> pc'), ls_fs := fs'\<rparr>)"
proof -
  let ?s' = "s\<lparr>ls_pc := (ls_pc s)(q \<mapsto> pc'), ls_fs := fs'\<rparr>"
  have files: "files_ok (ls_fs s)" using inv unfolding lock_inv_def by blast
  have ok: "pc_ok dec s r" for r using inv unfolding lock_inv_def by blast
  have excl: "q' = r" if "owns s q' p" "owns s r p" for q' r p
    using inv that unfolding lock_inv_def by blast
  have stay: "lock_inv dec ?s'" if "fs' = ls_fs s" "\<And>p. \<not> owns ?s' q p" "pc_ok dec ?s' q"
    using inv by (rule lock_inv_update [OF _ refl]) (use that files in auto)
  have remove: "lock_inv dec ?s'"
    if "fs' = remove_file p (ls_fs s)" "\<And>p. \<not> owns ?s' q p" "pc_ok dec ?s' q"
      "\<And>r. r \<noteq> q \<Longrightarrow> \<not> owns s r p" for p
    using inv by (rule lock_inv_update [OF _ refl]) (use that files in \<open>auto simp: files_ok_fs\<close>)
  have owner: "lock_inv dec ?s'"
    if "fs' = ls_fs s \<or> fs' = remove_file p (ls_fs s)" "pc' = Broken \<or> pc' = Released"
      "owns s q p" for p
  proof -
    have "\<not> owns ?s' q p'" "pc_ok dec ?s' q" for p'
      using that(2) by (auto simp: owns_def pc_ok_def)
    moreover have "\<not> owns s r p" if "r \<noteq> q" for r using that excl [OF _ \<open>owns s q p\<close>] by blast
    ultimately show ?thesis using that(1) stay remove by blast
  qed
  show ?thesis
  proof (cases pc)
    case (Trying retry p)
    show ?thesis
    proof (cases "fault = None \<and> lf_dir (ls_fs s) p = None")
      case True
      with step Trying have s': "pc' = Writing p (lf_next (ls_fs s))" "fs' = create_file p (ls_fs s)"
        by auto
      have fresh: "i \<noteq> lf_next (ls_fs s)" if "lf_dir (ls_fs s) p' = Some i" for p' i
        using files that by (auto simp: files_ok_def)
      have nobody: "\<not> looks_at s r p i" for r i
        using calm q True Trying unfolding undisturbed_def by blast
      have "\<not> owns s r p" for r using pc_okD [OF ok, of r p] True by auto
      with True codec nobody fresh show ?thesis
        using inv by (intro lock_inv_update [OF _ refl])
          (auto simp: s' files files_ok_fs pc_ok_def lock_codec_def owns_def split: if_splits)
    next
      case False
      with step Trying have "fs' = ls_fs s" "pc' = Broken \<or> pc' = Refused p \<or> pc' = Reading p"
        by (auto split: if_splits option.splits)
      then show ?thesis by (intro stay) (auto simp: owns_def pc_ok_def)
    qed
  next
    case (Writing p i)
    have o: "owns s q p" using q Writing by (simp add: owns_def)
    have at: "lf_dir (ls_fs s) p = Some i" "dec (lf_node (ls_fs s) i) = None"
      using ok [of q] q Writing by (simp_all add: pc_ok_def)
    show ?thesis
    proof (cases "enc (for_current env profile)")
      case None
      with step Writing env(3) show ?thesis by (intro owner [OF _ _ o]) auto
    next
      case (Some bs)
      obtain n where n: "fs' = write_node i (take n bs) (ls_fs s)"
          "pc' = Holding p \<or> pc' = Undoing p i"
        using step Writing env(3) Some by (cases fault) (auto, metis order_refl take_all)
      have names: "file_names dec fs' i q"
        unfolding n(1) by (rule codec_file_names [OF codec Some env(1,2)])
      have apart: "j \<noteq> i" if "r \<noteq> q" "owns s r p'" "lf_dir (ls_fs s) p' = Some j" for r p' j
      proof
        assume "j = i"
        with files at that(3) have "p' = p" by (auto simp: files_ok_def)
        with that excl [OF _ o] show False by blast
      qed
      have "pc_ok dec ?s' q" using n names at by (auto simp: pc_ok_def)
      moreover have "owns s q p'" if "owns ?s' q p'" for p'
        using that n(2) o by (auto simp: owns_update)
      moreover have "files_ok fs'" unfolding n(1) by (intro files_ok_fs files)
      ultimately show ?thesis
        using apart at(2) by (intro lock_inv_update [OF inv refl]) (auto simp: n(1))
    qed
  next
    case (Undoing p i)
    then have "owns s q p" using q by (simp add: owns_def)
    with step Undoing show ?thesis by (intro owner) auto
  next
    case (Holding p)
    then have "owns s q p" using q by (simp add: owns_def)
    with step Holding show ?thesis by (intro owner) auto
  next
    case (Reading p)
    with step have "fs' = ls_fs s" "pc' = Refused p \<or> (\<exists>i. lf_dir (ls_fs s) p = Some i \<and> pc' = Loading p i)"
      by (auto split: if_splits option.splits)
    with files show ?thesis by (intro stay) (auto simp: owns_def pc_ok_def files_ok_def)
  next
    case (Loading p i)
    with step env(4) have "fs' = ls_fs s"
      "pc' = Refused p \<or> (\<exists>h. dec (lf_node (ls_fs s) i) = Some h \<and> pc' = Judging p i h)"
      by (auto split: if_splits option.splits)
    with ok [of q] q Loading show ?thesis by (intro stay) (auto simp: owns_def pc_ok_def)
  next
    case (Judging p i h)
    then have s': "fs' = ls_fs s" and to: "pc' = Refused p \<or> pc' = Reclaiming p i"
      using step by (auto split: StaleDecision.splits)
    have dead: "\<not> owns s r p" if "pc' = Reclaiming p i" for r
    proof -
      have "ld_hostname h = fst q" "\<not> pid_alive (kill_of (ls_pc s) (fst q)) (ld_pid h)"
        using that step Judging env by (auto simp: classify_def split: StaleDecision.splits if_splits option.splits)
      then show ?thesis using reclaim_unowned [OF inv] q Judging by metis
    qed
    have "\<not> owns ?s' q r" for r using to by (auto simp: owns_update)
    moreover have "pc_ok dec ?s' q"
      using to ok [of q] q Judging s' dead by (auto simp: pc_ok_def owns_update split: if_splits)
    ultimately show ?thesis using s' stay by blast
  next
    case (Reclaiming p i)
    have free: "\<not> owns s r p" for r
      using ok [of q] q Reclaiming by (simp add: pc_ok_def del: split_paired_All)
    have pc': "pc' = Trying True p" using step Reclaiming by simp
    have "\<not> owns ?s' q p'" "pc_ok dec ?s' q" for p' by (simp_all add: pc' owns_def pc_ok_def)
    with step Reclaiming free stay remove show ?thesis by (cases "fault = None") auto
  qed (rule stay; use step in \<open>auto simp: owns_def pc_ok_def split: if_splits\<close>)+
qed

lemma lock_inv_pc:
  assumes "lock_inv dec s" and "x = None \<or> x = Some (Preparing p)"
  shows "lock_inv dec (s\<lparr>ls_pc := (ls_pc s)(q := x)\<rparr>)"
proof -
  have eq: "s\<lparr>ls_pc := (ls_pc s)(q := x)\<rparr> = s\<lparr>ls_pc := (ls_pc s)(q := x), ls_fs := ls_fs s\<rparr>" by simp
  show ?thesis
    using assms(1) by (rule lock_inv_update [OF _ eq]) (use assms in \<open>auto simp: lock_inv_def owns_def pc_ok_def\<close>)
qed

lemma lock_inv_step:
  assumes "lock_inv dec s" "undisturbed s" "lock_codec enc dec" "lock_step enc dec s s'"
  shows "lock_inv dec s'"
  using assms(4)
proof cases
  case (calls q pc env profile fault pc' fs')
  then show ?thesis using lock_inv_micro assms(1-3) by blast
qed (use assms(1) lock_inv_pc in blast)+

lemma lock_inv_start: "lock_inv dec lock_start"
  by (auto simp: lock_inv_def lock_start_def files_ok_def pc_ok_def owns_def)

text \<open>C14: Mutual exclusion. In every history of processes on any number of hosts, with crashes, failing
  calls and interleavings between any two system calls (the holder is read in two calls and asked for
  with a third), at most one process holds the lock of a path, as long as no state occurs in which the
  lock file is gone, one process is about to create it and another one, that opened the file that was
  there, has not yet decided about its holder or removed it. Without that proviso the lock is not
  exclusive, even when a single process reclaims.\<close>

theorem lock_exclusive:
  assumes "lock_runs enc dec undisturbed s" "lock_codec enc dec"
    and "ls_pc s q = Some (Holding p)" "ls_pc s r = Some (Holding p)"
  shows "q = r"
proof -
  have "lock_inv dec s \<and> undisturbed s"
    using assms(1)
  proof induction
    case none
    show ?case by (simp add: lock_inv_start) (simp add: undisturbed_def looks_at_def lock_start_def)
  next
    case (more s s')
    with assms(2) show ?case using lock_inv_step by blast
  qed
  moreover have "owns s q p" "owns s r p" using assms(3,4) by (simp_all add: owns_def)
  ultimately show ?thesis unfolding lock_inv_def by blast
qed

section \<open>Schedules of events\<close>

datatype lock_event = Begin proc string | Call proc "nat option" | Die proc

definition env_of ::
  "(LockData \<Rightarrow> bytes option) \<Rightarrow> (bytes \<Rightarrow> LockData option) \<Rightarrow> lock_sys \<Rightarrow> proc \<Rightarrow> lock_env" where
  "env_of enc dec s q = \<lparr>le_host = fst q, le_pid = snd q, le_now = 0, le_stamp = [],
     le_kill = kill_of (ls_pc s) (fst q), le_rfc3339 = (\<lambda>_. None), le_to_json = enc,
     le_of_json = dec\<rparr>"

fun exec_event ::
  "(LockData \<Rightarrow> bytes option) \<Rightarrow> (bytes \<Rightarrow> LockData option) \<Rightarrow> lock_event \<Rightarrow> lock_sys \<Rightarrow>
   lock_sys option" where
  "exec_event enc dec (Begin q p) s = (if ls_pc s q = None \<and> snd q \<noteq> 0
     then Some (s\<lparr>ls_pc := (ls_pc s)(q \<mapsto> Preparing p)\<rparr>) else None)"
| "exec_event enc dec (Call q fault) s = (case ls_pc s q of None \<Rightarrow> None
     | Some pc \<Rightarrow> (case lock_micro (env_of enc dec s q) [] fault pc (ls_fs s) of (pc', fs') \<Rightarrow>
         Some (s\<lparr>ls_pc := (ls_pc s)(q \<mapsto> pc'), ls_fs := fs'\<rparr>)))"
| "exec_event enc dec (Die q) s = (case ls_pc s q of None \<Rightarrow> None
     | Some _ \<Rightarrow> Some (s\<lparr>ls_pc := (ls_pc s)(q := None)\<rparr>))"

fun exec_events ::
  "(LockData \<Rightarrow> bytes option) \<Rightarrow> (bytes \<Rightarrow> LockData option) \<Rightarrow> lock_event list \<Rightarrow> lock_sys \<Rightarrow>
   lock_sys list option" where
  "exec_events enc dec [] s = Some []"
| "exec_events enc dec (ev # evs) s = (case exec_event enc dec ev s of None \<Rightarrow> None
     | Some s' \<Rightarrow> map_option ((#) s') (exec_events enc dec evs s'))"

lemma exec_event_step: "exec_event enc dec ev s = Some s' \<Longrightarrow> lock_step enc dec s s'"
proof (cases ev)
  case (Call q fault)
  assume "exec_event enc dec ev s = Some s'"
  with Call show ?thesis
    by (auto simp: env_of_def split: option.splits prod.splits intro!: lock_step.calls)
qed (auto split: option.splits if_splits intro: lock_step.intros)

lemma exec_events_runs:
  "exec_events enc dec evs s = Some ss \<Longrightarrow> lock_runs enc dec ok s \<Longrightarrow> \<forall>t \<in> set ss. ok t \<Longrightarrow>
    t \<in> set ss \<Longrightarrow> lock_runs enc dec ok t"
proof (induction evs arbitrary: s ss)
  case (Cons ev evs)
  then obtain s' ss' where s': "exec_event enc dec ev s = Some s'" "ss = s' # ss'"
      "exec_events enc dec evs s' = Some ss'"
    by (auto split: option.splits)
  with Cons.prems have "lock_runs enc dec ok s'"
    using exec_event_step lock_runs.more by (metis list.set_intros(1))
  with Cons.IH [OF s'(3)] Cons.prems s'(2) show ?case by auto
qed simp

definition ex_data :: "u32 \<Rightarrow> LockData" where
  "ex_data n = \<lparr>ld_pid = n, ld_started_at = [], ld_profile = [], ld_hostname = ''h''\<rparr>"

definition ex_enc :: "LockData \<Rightarrow> bytes option" where
  "ex_enc d = (if d = ex_data 1 then Some [1, 0] else if d = ex_data 2 then Some [2, 0]
     else if d = ex_data 3 then Some [3, 0] else None)"

definition ex_dec :: "bytes \<Rightarrow> LockData option" where
  "ex_dec bs = (if bs = [1, 0] then Some (ex_data 1) else if bs = [2, 0] then Some (ex_data 2)
     else if bs = [3, 0] then Some (ex_data 3) else None)"

lemma ex_codec: "lock_codec ex_enc ex_dec"
  by (auto simp: lock_codec_def ex_enc_def ex_dec_def ex_data_def less_Suc_eq split: if_splits)

text \<open>A process that starts and makes a number of calls without fault.\<close>

definition starts :: "u32 \<Rightarrow> nat \<Rightarrow> lock_event list" where
  "starts n k = Begin (''h'', n) ''p'' # replicate k (Call (''h'', n) None)"

definition goes_on :: "u32 \<Rightarrow> nat \<Rightarrow> lock_event list" where
  "goes_on n k = replicate k (Call (''h'', n) None)"

text \<open>Process 1 crashes with the lock; processes 2 and 3 both find it dead; 2 reclaims it and holds
  it; then 3 removes the lock of 2 and holds it too.\<close>

definition ex_crash :: "lock_event list" where
  "ex_crash = starts 1 3 @ [Die (''h'', 1)] @ starts 2 5"

definition ex_race :: "lock_event list" where
  "ex_race = ex_crash @ starts 3 5 @ goes_on 2 3 @ goes_on 3 3"

text \<open>A single reclaim is enough: 2 reads the lock of 1, which is alive; 1 releases it and ends; 3 takes the
  free lock; 2 finds 1 dead, removes the lock of 3 and takes it.\<close>

definition ex_lone :: "lock_event list" where
  "ex_lone = starts 1 3 @ starts 2 4 @ goes_on 1 1 @ [Die (''h'', 1)] @ starts 3 3 @ goes_on 2 4"

lemma ex_calls:
  "replicate 5 c = [c, c, c, c, c]" "replicate 4 c = [c, c, c, c]" "replicate 3 c = [c, c, c]" "replicate 1 c = [c]"
  by (simp_all add: numeral_eq_Suc)

lemmas ex_lock_eval = lock_start_def ex_crash_def starts_def goes_on_def ex_calls create_file_def write_node_def
  remove_file_def env_of_def ex_enc_def ex_dec_def ex_data_def for_current_def classify_def kill_of_alive fun_upd_def
  lock_age_secs_def

lemma ex_race_holds: "\<exists>ss. exec_events ex_enc ex_dec ex_race lock_start = Some ss \<and>
    ls_pc (last ss) (''h'', 2) = Some (Holding ''p'') \<and>
    ls_pc (last ss) (''h'', 3) = Some (Holding ''p'')"
  by (simp add: ex_race_def ex_lock_eval)

lemma ex_lone_holds: "\<exists>ss. exec_events ex_enc ex_dec ex_lone lock_start = Some ss \<and>
    ls_pc (last ss) (''h'', 2) = Some (Holding ''p'') \<and> ls_pc (last ss) (''h'', 3) = Some (Holding ''p'') \<and>
    (\<forall>s \<in> set ss. \<forall>q i. ls_pc s q = Some (Reclaiming ''p'' i) \<longrightarrow> q = (''h'', 2))"
  by (simp add: ex_lone_def ex_lock_eval)

text \<open>The condition is needed. The reclaim reads the holder, asks whether it lives, removes the name and
  creates it anew, and nothing ties the name it removes to the file it read: the lock it removes can be
  the fresh lock of another process. It takes no second reclaim for that.\<close>

theorem reclaim_race:
  "\<exists>enc dec s p q r. lock_codec enc dec \<and> q \<noteq> r \<and>
     lock_runs enc dec (\<lambda>s. \<forall>x i. ls_pc s x = Some (Reclaiming p i) \<longrightarrow> x = q) s \<and>
     ls_pc s q = Some (Holding p) \<and> ls_pc s r = Some (Holding p)"
proof -
  from ex_lone_holds obtain ss where ss: "exec_events ex_enc ex_dec ex_lone lock_start = Some ss"
      "ls_pc (last ss) (''h'', 2) = Some (Holding ''p'')" "ls_pc (last ss) (''h'', 3) = Some (Holding ''p'')"
      "\<forall>s \<in> set ss. \<forall>q i. ls_pc s q = Some (Reclaiming ''p'' i) \<longrightarrow> q = (''h'', 2)" by blast
  have "ss \<noteq> []" using ss(1) by (auto simp: ex_lone_def starts_def split: option.splits)
  then have "lock_runs ex_enc ex_dec (\<lambda>s. \<forall>x i. ls_pc s x = Some (Reclaiming ''p'' i) \<longrightarrow> x = (''h'', 2)) (last ss)"
    by (intro exec_events_runs [OF ss(1) lock_runs.none ss(4)]) simp
  moreover have "(''h'', 2) \<noteq> (''h'', 3 :: u32)" by simp
  ultimately show ?thesis using ss(2,3) ex_codec by blast
qed

text \<open>The orderly course: 2 reclaims and holds the lock, then 3 is refused.\<close>

definition ex_orderly :: "lock_event list" where
  "ex_orderly = ex_crash @ goes_on 2 3 @ starts 3 5"

lemma undisturbedI:
  assumes "\<forall>q p i. (ls_pc s q = Some (Loading p i) \<longrightarrow> lf_dir (ls_fs s) p \<noteq> None) \<and>
    (\<forall>h. ls_pc s q = Some (Judging p i h) \<longrightarrow> lf_dir (ls_fs s) p \<noteq> None) \<and>
    (ls_pc s q = Some (Reclaiming p i) \<longrightarrow> lf_dir (ls_fs s) p \<noteq> None)"
  shows "undisturbed s"
proof -
  have "lf_dir (ls_fs s) p \<noteq> None" if "looks_at s q p i" for q p i
  proof (cases "ls_pc s q")
    case (Some pc)
    with that assms [THEN spec, THEN spec, THEN spec, of q p i] show ?thesis by (cases pc) (auto simp: looks_at_def)
  qed (use that in \<open>simp add: looks_at_def\<close>)
  then show ?thesis unfolding undisturbed_def by blast
qed

lemma ex_orderly_holds: "\<exists>ss. exec_events ex_enc ex_dec ex_orderly lock_start = Some ss \<and> ss \<noteq> [] \<and>
    (\<forall>s \<in> set ss. undisturbed s) \<and>
    ls_pc (last ss) (''h'', 2) = Some (Holding ''p'') \<and> ls_pc (last ss) (''h'', 3) = Some (Refused ''p'')"
  apply (simp add: ex_orderly_def ex_lock_eval)
  apply (intro conjI; rule undisturbedI)
  apply simp_all
  done

theorem lock_exclusive_witness:
  "\<exists>s :: lock_sys. ls_pc s (''h'', 2) = Some (Holding ''p'') \<and>
    (\<forall>q. ls_pc s q = Some (Holding ''p'') \<longleftrightarrow> q = (''h'', 2 :: u32))"
proof -
  from ex_orderly_holds obtain ss where ss: "exec_events ex_enc ex_dec ex_orderly lock_start = Some ss"
      "ss \<noteq> []" "\<forall>s \<in> set ss. undisturbed s" "ls_pc (last ss) (''h'', 2) = Some (Holding ''p'')"
    by blast
  have "lock_runs ex_enc ex_dec undisturbed (last ss)"
    using ss by (intro exec_events_runs [OF ss(1) lock_runs.none]) simp_all
  then have "\<forall>q. ls_pc (last ss) q = Some (Holding ''p'') \<longleftrightarrow> q = (''h'', 2)"
    using lock_exclusive [OF _ ex_codec _ ss(4)] ss(4) by blast
  with ss(4) show ?thesis by blast
qed

definition ex_lock_env :: lock_env where
  "ex_lock_env = \<lparr>le_host = ''h'', le_pid = 2, le_now = 0, le_stamp = [],
     le_kill = (\<lambda>n. if n = 2 then None else Some ESRCH), le_rfc3339 = (\<lambda>_. None),
     le_to_json = ex_enc, le_of_json = ex_dec\<rparr>"

definition ex_lock_fs :: lockfs where
  "ex_lock_fs = \<lparr>lf_dir = [''/run/.lock'' \<mapsto> 0], lf_node = (\<lambda>_. [1, 0]), lf_next = 1\<rparr>"

theorem acquire_outcome_witness:
  "fst (acquire_in ex_lock_env no_faults ''/run'' [] ex_lock_fs) =
     Inr \<lparr>lg_path = lock_path ''/run'' [], lg_data = ex_data 2, lg_armed = True\<rparr>"
proof -
  have data: "for_current ex_lock_env [] = ex_data 2"
    by (simp add: ex_lock_env_def for_current_def ex_data_def)
  have json: "le_to_json ex_lock_env (for_current ex_lock_env []) = Some [2, 0]"
    unfolding data by (simp add: ex_lock_env_def ex_enc_def ex_data_def)
  have "dead_holder ex_lock_env (lock_path ''/run'' []) ex_lock_fs"
    by (simp add: dead_holder_def read_holder_def lock_path_def ex_lock_fs_def ex_lock_env_def
      ex_dec_def ex_data_def pid_alive_def ESRCH_def)
  with acquire_outcome [OF json, where dir = "''/run''" and fs = ex_lock_fs] data show ?thesis by simp
qed

section \<open>The console's view of the locks\<close>

text \<open>\<open>web/routes/lock.rs\<close>: \<open>LockDataView\<close> keeps three fields of the metadata; a file that cannot be
  read at all is \<open>None\<close>.\<close>

record LockDataView =
  lv_pid :: u32
  lv_started_at :: string
  lv_hostname :: string

record LockHolder =
  lh_pid :: u32
  lh_age_secs :: int

datatype IndeterminateReason =
    Unreadable | Empty | Malformed | ImplausibleTimestamp | ForeignHolder string

datatype LockStatus = Held LockHolder | Stale LockHolder | Indeterminate IndeterminateReason

definition classify_file ::
  "lock_env \<Rightarrow> (bytes \<Rightarrow> LockDataView option) \<Rightarrow> bytes option \<Rightarrow> LockStatus" where
  "classify_file env view content = (case content of None \<Rightarrow> Indeterminate Unreadable
   | Some bs \<Rightarrow>
      if bs = [] then Indeterminate Empty
      else case view bs of None \<Rightarrow> Indeterminate Malformed
      | Some d \<Rightarrow>
         (case le_rfc3339 env (lv_started_at d) of None \<Rightarrow> Indeterminate ImplausibleTimestamp
          | Some since \<Rightarrow>
             let age_secs = le_now env - since in
             if age_secs < 0 then Indeterminate ImplausibleTimestamp
             else if lv_hostname d \<noteq> le_host env then Indeterminate (ForeignHolder (lv_hostname d))
             else let holder = \<lparr>lh_pid = lv_pid d, lh_age_secs = age_secs\<rparr> in
               (if pid_alive (le_kill env) (lv_pid d) then Held holder else Stale holder)))"

record LockRow =
  lr_profile :: string
  lr_status :: LockStatus

text \<open>\<open>collect_in\<close> on the names of a directory and their contents (\<open>file_stem\<close> of a name that ends in
  \<open>.lock\<close>; a name that is the bare extension has none), sorted by profile.\<close>

definition lock_rows ::
  "lock_env \<Rightarrow> (bytes \<Rightarrow> LockDataView option) \<Rightarrow> (string \<times> bytes option) list \<Rightarrow> LockRow list" where
  "lock_rows env view entries =
    sort_by (\<lambda>a b. cmp (lr_profile a) (lr_profile b))
      (List.map_filter (\<lambda>(name, content). case strip_suffix ''.lock'' name of
          Some (c # stem) \<Rightarrow> Some \<lparr>lr_profile = c # stem, lr_status = classify_file env view content\<rparr>
        | _ \<Rightarrow> None) entries)"

text \<open>The two readers of a lock file agree: the view has the fields the full metadata has.\<close>

definition view_agrees ::
  "(bytes \<Rightarrow> LockDataView option) \<Rightarrow> (bytes \<Rightarrow> LockData option) \<Rightarrow> bool" where
  "view_agrees view dec \<longleftrightarrow> (\<forall>bs d. dec bs = Some d \<longrightarrow> view bs =
     Some \<lparr>lv_pid = ld_pid d, lv_started_at = ld_started_at d, lv_hostname = ld_hostname d\<rparr>) \<and>
     dec [] = None"

text \<open>The lock page and the lock itself agree. A lock shown as held is refused to the next caller of
  that host, one shown as stale is reclaimed by it, and one that is reclaimed is shown as stale
  or, when its time lies in the future or cannot be read, as undetermined. An undetermined lock is
  never shown as free.\<close>

theorem lock_page_agrees:
  assumes "view_agrees view (le_of_json env)" "lf_dir fs p = Some i"
    and "le_of_json env (lf_node fs i) = Some d"
  defines "shown \<equiv> classify_file env view (Some (lf_node fs i))"
  shows "(\<forall>h. shown = Held h \<longrightarrow> \<not> dead_holder env p fs) \<and>
    (\<forall>h. shown = Stale h \<longrightarrow> dead_holder env p fs) \<and>
    (dead_holder env p fs \<longrightarrow> (\<exists>h. shown = Stale h) \<or> shown = Indeterminate ImplausibleTimestamp)"
proof -
  have "lf_node fs i \<noteq> []" using assms(1,3) by (auto simp: view_agrees_def)
  moreover have "view (lf_node fs i) = Some \<lparr>lv_pid = ld_pid d, lv_started_at = ld_started_at d,
      lv_hostname = ld_hostname d\<rparr>"
    using assms(1,3) by (auto simp: view_agrees_def)
  moreover have "dead_holder env p fs \<longleftrightarrow>
      ld_hostname d = le_host env \<and> \<not> pid_alive (le_kill env) (ld_pid d)"
    using assms(2,3) by (simp add: dead_holder_def read_holder_def)
  ultimately show ?thesis
    by (auto simp: shown_def classify_file_def Let_def split: option.splits if_splits)
qed

theorem lock_page_agrees_witness:
  "classify_file (ex_lock_env\<lparr>le_rfc3339 := \<lambda>_. Some 0\<rparr>)
      (map_option (\<lambda>d. \<lparr>lv_pid = ld_pid d, lv_started_at = ld_started_at d, lv_hostname = ld_hostname d\<rparr>)
        \<circ> ex_dec) (Some [1, 0]) = Stale \<lparr>lh_pid = 1, lh_age_secs = 0\<rparr> \<and>
   dead_holder (ex_lock_env\<lparr>le_rfc3339 := \<lambda>_. Some 0\<rparr>) ''/run/.lock'' ex_lock_fs"
proof -
  let ?env = "ex_lock_env\<lparr>le_rfc3339 := \<lambda>_. Some 0\<rparr>"
  let ?view = "map_option (\<lambda>d. \<lparr>lv_pid = ld_pid d, lv_started_at = ld_started_at d,
      lv_hostname = ld_hostname d\<rparr>) \<circ> ex_dec"
  have v: "view_agrees ?view (le_of_json ?env)"
    by (auto simp: view_agrees_def ex_lock_env_def ex_dec_def)
  have i: "lf_dir ex_lock_fs ''/run/.lock'' = Some 0" "lf_node ex_lock_fs 0 = [1, 0]"
    by (simp_all add: ex_lock_fs_def)
  have d: "le_of_json ?env (lf_node ex_lock_fs 0) = Some (ex_data 1)"
    by (simp add: i ex_lock_env_def ex_dec_def)
  have "classify_file ?env ?view (Some [1, 0]) = Stale \<lparr>lh_pid = 1, lh_age_secs = 0\<rparr>"
    by (simp add: classify_file_def ex_lock_env_def ex_dec_def ex_data_def pid_alive_def ESRCH_def)
  with lock_page_agrees [OF v i(1) d] i(2) show ?thesis by simp
qed

end
