(* ===== verification/XB_Jobs.thy ===== *)
theory XB_Jobs
  imports XB_Journal "HOL-Library.AList"
begin

text \<open>
  The job history of the web console (\<open>web/state/jobs.rs\<close>). Each job has a log file, an
  append-only journal of its start, its output and its end; the starts and ends are appended to
  an index as well, from which the history is folded. Old log files are removed, the index can be
  rebuilt from the log files. The files of the directory are a list of names and contents; the
  UUIDs that name jobs and the JSON form of a record are parameters.
\<close>

section \<open>Records\<close>

type_synonym JobId = "128 word"

datatype LogStream = Stdout | Stderr | Note | UnknownStream

fun token :: "LogStream \<Rightarrow> string" where
  "token Stdout = ''stdout''"
| "token Stderr = ''stderr''"
| "token Note = ''note''"
| "token UnknownStream = ''unknown''"

definition stream_from :: "string \<Rightarrow> LogStream" where
  "stream_from raw = (if raw = ''stdout'' then Stdout else if raw = ''stderr'' then Stderr
     else if raw = ''note'' then Note else UnknownStream)"

record StartRecord =
  st_schema :: u32
  st_id :: string
  st_command :: string
  st_profile :: "string option"
  st_args_masked :: "string list"
  st_started_at :: int
  st_pid :: "u32 option"

record LogRecord =
  lo_ts :: int
  lo_stream :: LogStream
  lo_text :: string

record EndRecord =
  en_schema :: u32
  en_id :: string
  en_finished_at :: int
  en_outcome :: string
  en_exit_code :: "int option"

datatype JobRecord = Start StartRecord | Log LogRecord | End EndRecord

text \<open>\<open>JobStart\<close>: what the caller knows of a job it has spawned.\<close>

record JobStart =
  jb_command :: string
  jb_profile :: "string option"
  jb_args_masked :: "string list"
  jb_started_at :: int
  jb_pid :: "u32 option"

record JobSummary =
  js_id :: JobId
  js_command :: string
  js_profile :: "string option"
  js_args_masked :: "string list"
  js_started_at :: int
  js_pid :: "u32 option"
  js_finished_at :: "int option"
  js_outcome :: "string option"
  js_exit_code :: "int option"

definition is_running :: "JobSummary \<Rightarrow> bool" where
  "is_running s \<longleftrightarrow> js_finished_at s = None"

definition duration :: "JobSummary \<Rightarrow> int option" where
  "duration s = map_option (\<lambda>e. e - js_started_at s) (js_finished_at s)"

definition from_start :: "JobId \<Rightarrow> StartRecord \<Rightarrow> JobSummary" where
  "from_start i r = \<lparr>js_id = i, js_command = st_command r, js_profile = st_profile r,
     js_args_masked = st_args_masked r, js_started_at = st_started_at r, js_pid = st_pid r,
     js_finished_at = None, js_outcome = None, js_exit_code = None\<rparr>"

definition apply_end_record :: "EndRecord \<Rightarrow> JobSummary \<Rightarrow> JobSummary" where
  "apply_end_record r s = s\<lparr>js_finished_at := Some (en_finished_at r), js_outcome := Some (en_outcome r),
     js_exit_code := en_exit_code r\<rparr>"

record JobHistory =
  jh_entries :: "JobSummary list"
  jh_unreadable_lines :: nat
  jh_index_present :: bool

record JobDetail =
  jdt_id :: JobId
  jdt_summary :: "JobSummary option"
  jdt_logs :: "LogRecord list"
  jdt_dropped_leading_logs :: nat
  jdt_log_file_present :: bool
  jdt_unreadable_lines :: nat

record RebuildReport =
  rr_jobs :: nat
  rr_records :: nat
  rr_unreadable_lines :: nat

definition JOB_HISTORY_SCHEMA :: u32 where "JOB_HISTORY_SCHEMA = 1"
definition DEFAULT_RETAIN_JOBS :: nat where "DEFAULT_RETAIN_JOBS = 200"
definition MAX_LOG_LINES_KEPT :: nat where "MAX_LOG_LINES_KEPT = 2000"
definition FINISH_ATTEMPTS :: nat where "FINISH_ATTEMPTS = 3"
definition JOB_INDEX_FILE_NAME :: string where "JOB_INDEX_FILE_NAME = ''index.ndjson''"
definition JOB_LOG_FILE_SUFFIX :: string where "JOB_LOG_FILE_SUFFIX = ''.ndjson''"

section \<open>The directory\<close>

record jobs_api =
  uuid_parse :: "string \<Rightarrow> JobId option"
  uuid_show :: "JobId \<Rightarrow> string"
  rec_to_json :: "JobRecord \<Rightarrow> string option"
  rec_of_json :: "string \<Rightarrow> JobRecord option"

text \<open>Documented of the two libraries: the text of a UUID is parsed to it, the word \<open>index\<close> is none,
  and a record is one line of JSON.\<close>

definition jobs_laws :: "jobs_api \<Rightarrow> bool" where
  "jobs_laws api \<longleftrightarrow> (\<forall>i. uuid_parse api (uuid_show api i) = Some i) \<and>
     uuid_parse api ''index'' = None \<and> line_codec (rec_to_json api) (rec_of_json api)"

type_synonym files = "(string \<times> string) list"

definition with_retain :: "nat \<Rightarrow> nat" where "with_retain retain = max retain 1"

definition log_name :: "jobs_api \<Rightarrow> JobId \<Rightarrow> string" where
  "log_name api i = uuid_show api i @ JOB_LOG_FILE_SUFFIX"

definition job_append ::
  "jobs_api \<Rightarrow> append_fault option \<Rightarrow> string \<Rightarrow> JobRecord \<Rightarrow> Durability \<Rightarrow> files \<Rightarrow>
   (XBackupError + unit) \<times> files" where
  "job_append api fault name r durability fs = (case rec_to_json api r of
     None \<Rightarrow> (Inl (Failure ''cannot serialize''), fs)
   | Some line \<Rightarrow>
       (case append_line fault durability (line @ [nl]) (map_of fs name) of
          (res, None) \<Rightarrow> (res, fs)
        | (res, Some c) \<Rightarrow> (res, AList.update name c fs)))"

text \<open>\<open>collect_log_ids\<close>: the ids of the file names, ascending.\<close>

definition collect_log_ids :: "jobs_api \<Rightarrow> files \<Rightarrow> JobId list" where
  "collect_log_ids api fs = sort (List.map_filter (\<lambda>(name, _).
     case strip_suffix JOB_LOG_FILE_SUFFIX name of None \<Rightarrow> None | Some stem \<Rightarrow> uuid_parse api stem) fs)"

text \<open>The loop of \<open>rotate_blocking\<close>: a file that is gone already is passed over, one that cannot be
  removed stays.\<close>

fun remove_logs :: "jobs_api \<Rightarrow> (string \<Rightarrow> bool) \<Rightarrow> JobId list \<Rightarrow> nat \<Rightarrow> files \<Rightarrow> nat \<times> files" where
  "remove_logs api fails [] removed fs = (removed, fs)"
| "remove_logs api fails (i # ids) removed fs = (let name = log_name api i in
     if map_of fs name = None \<or> fails name then remove_logs api fails ids removed fs
     else remove_logs api fails ids (removed + 1) (AList.delete name fs))"

definition rotate_blocking ::
  "jobs_api \<Rightarrow> bool \<Rightarrow> (string \<Rightarrow> bool) \<Rightarrow> nat \<Rightarrow> files \<Rightarrow> (XBackupError + nat) \<times> files" where
  "rotate_blocking api unlistable fails retain fs =
    (if unlistable then (Inl (Failure ''cannot read the directory''), fs)
     else let ids = collect_log_ids api fs in
     if length ids \<le> retain then (Inr 0, fs)
     else case remove_logs api fails (take (length ids - retain) ids) 0 fs of
       (n, fs') \<Rightarrow> (Inr n, fs'))"

section \<open>The life of a job\<close>

record job_faults =
  jf_log :: "append_fault option"
  jf_index :: "append_fault option"
  jf_unlistable :: bool
  jf_unremovable :: "string \<Rightarrow> bool"

definition job_no_faults :: job_faults where
  "job_no_faults = \<lparr>jf_log = None, jf_index = None, jf_unlistable = False,
     jf_unremovable = (\<lambda>_. False)\<rparr>"

text \<open>\<open>start\<close> with the id that \<open>JobId::generate\<close> made; the outcome of the rotation is only logged.\<close>

definition job_start ::
  "jobs_api \<Rightarrow> job_faults \<Rightarrow> nat \<Rightarrow> JobId \<Rightarrow> JobStart \<Rightarrow> files \<Rightarrow> (XBackupError + JobId) \<times> files" where
  "job_start api ft retain i s fs =
    (let r = Start \<lparr>st_schema = JOB_HISTORY_SCHEMA, st_id = uuid_show api i,
       st_command = jb_command s, st_profile = jb_profile s, st_args_masked = jb_args_masked s,
       st_started_at = jb_started_at s, st_pid = jb_pid s\<rparr> in
     case job_append api (jf_log ft) (log_name api i) r Buffered fs of
       (Inl e, fs1) \<Rightarrow> (Inl e, fs1)
     | (Inr _, fs1) \<Rightarrow>
       (case job_append api (jf_index ft) JOB_INDEX_FILE_NAME r Synced fs1 of
          (Inl e, fs2) \<Rightarrow> (Inl e, fs2)
        | (Inr _, fs2) \<Rightarrow>
            (Inr i, snd (rotate_blocking api (jf_unlistable ft) (jf_unremovable ft) retain fs2))))"

definition append_log ::
  "jobs_api \<Rightarrow> append_fault option \<Rightarrow> int \<Rightarrow> JobId \<Rightarrow> LogStream \<Rightarrow> string \<Rightarrow> files \<Rightarrow>
   (XBackupError + unit) \<times> files" where
  "append_log api fault now i stream text fs =
     job_append api fault (log_name api i) (Log \<lparr>lo_ts = now, lo_stream = stream, lo_text = text\<rparr>)
       Buffered fs"

definition finish ::
  "jobs_api \<Rightarrow> append_fault option \<times> append_fault option \<Rightarrow> int \<Rightarrow> JobId \<Rightarrow> JobOutcome \<Rightarrow> files \<Rightarrow>
   (XBackupError + unit) \<times> files" where
  "finish api ft now i outcome fs =
    (let r = End \<lparr>en_schema = JOB_HISTORY_SCHEMA, en_id = uuid_show api i, en_finished_at = now,
       en_outcome = label outcome, en_exit_code = outcome_exit_code outcome\<rparr> in
     case job_append api (fst ft) (log_name api i) r Buffered fs of
       (Inl e, fs1) \<Rightarrow> (Inl e, fs1)
     | (Inr _, fs1) \<Rightarrow> job_append api (snd ft) JOB_INDEX_FILE_NAME r Synced fs1)"

text \<open>\<open>finish_persistent\<close>: the attempts that are left, with the faults and the time of the attempts
  already made.\<close>

fun finish_attempts ::
  "jobs_api \<Rightarrow> (nat \<Rightarrow> append_fault option \<times> append_fault option) \<Rightarrow> (nat \<Rightarrow> int) \<Rightarrow> JobId \<Rightarrow>
   JobOutcome \<Rightarrow> nat \<Rightarrow> nat \<Rightarrow> XBackupError option \<Rightarrow> files \<Rightarrow> (XBackupError option + unit) \<times> files" where
  "finish_attempts api ft now i outcome attempt 0 last_error fs = (Inl last_error, fs)"
| "finish_attempts api ft now i outcome attempt (Suc left) last_error fs =
    (case finish api (ft attempt) (now attempt) i outcome fs of
       (Inr _, fs1) \<Rightarrow> (Inr (), fs1)
     | (Inl e, fs1) \<Rightarrow> finish_attempts api ft now i outcome (attempt + 1) left (Some e) fs1)"

definition finish_persistent ::
  "jobs_api \<Rightarrow> (nat \<Rightarrow> append_fault option \<times> append_fault option) \<Rightarrow> (nat \<Rightarrow> int) \<Rightarrow> JobId \<Rightarrow>
   JobOutcome \<Rightarrow> files \<Rightarrow> (XBackupError option + unit) \<times> files" where
  "finish_persistent api ft now i outcome fs =
     finish_attempts api ft now i outcome 0 FINISH_ATTEMPTS None fs"

section \<open>Reading the history\<close>

record ReadRecords =
  rd_records :: "JobRecord list"
  rd_unreadable :: nat
  rd_present :: bool

text \<open>A file that is missing or cannot be opened is \<open>None\<close>.\<close>

definition records_of :: "(unit + 'r option) list \<Rightarrow> 'r list" where
  "records_of ps = List.map_filter (\<lambda>p. case p of Inr (Some r) \<Rightarrow> Some r | _ \<Rightarrow> None) ps"

definition bad_lines :: "(unit + 'r option) list \<Rightarrow> nat" where
  "bad_lines ps = length (filter (\<lambda>p. p = Inl ()) ps)"

definition read_records :: "jobs_api \<Rightarrow> string option \<Rightarrow> ReadRecords" where
  "read_records api file = (case file of
     None \<Rightarrow> \<lparr>rd_records = [], rd_unreadable = 0, rd_present = False\<rparr>
   | Some c \<Rightarrow> let ps = line_results (rec_of_json api) c in
       \<lparr>rd_records = records_of ps, rd_unreadable = bad_lines ps, rd_present = True\<rparr>)"

record ReadLogFile =
  rl_start :: "StartRecord option"
  rl_end :: "EndRecord option"
  rl_logs :: "LogRecord list"
  rl_dropped :: nat
  rl_unreadable :: nat
  rl_present :: bool

fun log_file_step :: "ReadLogFile \<Rightarrow> unit + JobRecord option \<Rightarrow> ReadLogFile" where
  "log_file_step rl (Inr (Some (Start r))) = rl\<lparr>rl_start := Some r\<rparr>"
| "log_file_step rl (Inr (Some (End r))) = rl\<lparr>rl_end := Some r\<rparr>"
| "log_file_step rl (Inr (Some (Log r))) =
    (if length (rl_logs rl) = MAX_LOG_LINES_KEPT
     then rl\<lparr>rl_logs := tl (rl_logs rl) @ [r], rl_dropped := rl_dropped rl + 1\<rparr>
     else rl\<lparr>rl_logs := rl_logs rl @ [r]\<rparr>)"
| "log_file_step rl (Inr None) = rl"
| "log_file_step rl (Inl _) = rl\<lparr>rl_unreadable := rl_unreadable rl + 1\<rparr>"

definition read_log_file :: "jobs_api \<Rightarrow> string option \<Rightarrow> ReadLogFile" where
  "read_log_file api file = (case file of
     None \<Rightarrow> \<lparr>rl_start = None, rl_end = None, rl_logs = [], rl_dropped = 0, rl_unreadable = 0,
       rl_present = False\<rparr>
   | Some c \<Rightarrow> foldl log_file_step
       \<lparr>rl_start = None, rl_end = None, rl_logs = [], rl_dropped = 0, rl_unreadable = 0,
         rl_present = True\<rparr> (line_results (rec_of_json api) c))"

text \<open>\<open>fold_index\<close>: one record into the map of summaries, counting what cannot be folded.\<close>

fun fold_record ::
  "jobs_api \<Rightarrow> (JobId \<times> JobSummary) list \<times> nat \<Rightarrow> JobRecord \<Rightarrow> (JobId \<times> JobSummary) list \<times> nat" where
  "fold_record api (by_id, unreadable) (Start start) = (case uuid_parse api (st_id start) of
     Some i \<Rightarrow>
       let summary = from_start i start;
           summary' = (case map_of by_id i of None \<Rightarrow> summary
             | Some previous \<Rightarrow> summary\<lparr>js_finished_at := js_finished_at previous,
                 js_outcome := js_outcome previous, js_exit_code := js_exit_code previous\<rparr>) in
       (bt_insert i summary' (bt_remove i by_id), unreadable)
   | None \<Rightarrow> (by_id, unreadable + 1))"
| "fold_record api (by_id, unreadable) (End e) = (case uuid_parse api (en_id e) of
     Some i \<Rightarrow>
       (case map_of by_id i of
          Some summary \<Rightarrow> (bt_insert i (apply_end_record e summary) by_id, unreadable)
        | None \<Rightarrow> (by_id, unreadable + 1))
   | None \<Rightarrow> (by_id, unreadable + 1))"
| "fold_record api (by_id, unreadable) (Log _) = (by_id, unreadable + 1)"

definition fold_index :: "jobs_api \<Rightarrow> ReadRecords \<Rightarrow> JobHistory" where
  "fold_index api read = (case foldl (fold_record api) ([], rd_unreadable read) (rd_records read) of
     (by_id, unreadable) \<Rightarrow> \<lparr>jh_entries = rev (map snd by_id), jh_unreadable_lines = unreadable,
       jh_index_present = rd_present read\<rparr>)"

definition job_list :: "jobs_api \<Rightarrow> files \<Rightarrow> JobHistory" where
  "job_list api fs = fold_index api (read_records api (map_of fs JOB_INDEX_FILE_NAME))"

definition detail :: "jobs_api \<Rightarrow> JobId \<Rightarrow> files \<Rightarrow> JobDetail" where
  "detail api i fs =
    (let indexed = List.find (\<lambda>s. js_id s = i) (jh_entries (job_list api fs));
         read = read_log_file api (map_of fs (log_name api i));
         summary = (case indexed of Some s \<Rightarrow> Some s
           | None \<Rightarrow> (case rl_start read of None \<Rightarrow> None
             | Some start \<Rightarrow> Some (case rl_end read of None \<Rightarrow> from_start i start
                 | Some e \<Rightarrow> apply_end_record e (from_start i start)))) in
     \<lparr>jdt_id = i, jdt_summary = summary, jdt_logs = rl_logs read,
      jdt_dropped_leading_logs = rl_dropped read, jdt_log_file_present = rl_present read,
      jdt_unreadable_lines = rl_unreadable read\<rparr>)"

definition has_log_files :: "jobs_api \<Rightarrow> bool \<Rightarrow> files \<Rightarrow> bool" where
  "has_log_files api unlistable fs = (if unlistable then False else collect_log_ids api fs \<noteq> [])"

section \<open>Rebuilding the index\<close>

fun write_record_lines :: "jobs_api \<Rightarrow> JobRecord list \<Rightarrow> string \<times> nat \<Rightarrow> XBackupError + string \<times> nat" where
  "write_record_lines api [] (body, n) = Inr (body, n)"
| "write_record_lines api (Log _ # rs) (body, n) = write_record_lines api rs (body, n)"
| "write_record_lines api (r # rs) (body, n) = (case rec_to_json api r of
     None \<Rightarrow> Inl (Failure ''cannot serialize'')
   | Some line \<Rightarrow> write_record_lines api rs (body @ line @ [nl], n + 1))"

fun rebuild_loop ::
  "jobs_api \<Rightarrow> (string \<Rightarrow> bool) \<Rightarrow> files \<Rightarrow> JobId list \<Rightarrow> RebuildReport \<Rightarrow> string \<Rightarrow>
   XBackupError + RebuildReport \<times> string" where
  "rebuild_loop api unopenable fs [] report body = Inr (report, body)"
| "rebuild_loop api unopenable fs (i # ids) report body =
    (let name = log_name api i;
         read = read_records api (if unopenable name then None else map_of fs name);
         report1 = report\<lparr>rr_unreadable_lines := rr_unreadable_lines report + rd_unreadable read\<rparr> in
     if \<not> rd_present read then rebuild_loop api unopenable fs ids report1 body
     else (case write_record_lines api (rd_records read) (body, rr_records report1) of
         Inl e \<Rightarrow> Inl e
       | Inr (body', n) \<Rightarrow> rebuild_loop api unopenable fs ids
           (report1\<lparr>rr_jobs := rr_jobs report1 + 1, rr_records := n\<rparr>) body'))"

text \<open>The faults of a rebuild: the directory, files that cannot be opened, the temporary file (with what
  is left of it) and the rename.\<close>

record rebuild_faults =
  rf_no_dir :: bool
  rf_unlistable :: bool
  rf_unopenable :: "string \<Rightarrow> bool"
  rf_tmp :: "nat option"
  rf_rename :: bool

definition rebuild_no_faults :: rebuild_faults where
  "rebuild_no_faults = \<lparr>rf_no_dir = False, rf_unlistable = False, rf_unopenable = (\<lambda>_. False),
     rf_tmp = None, rf_rename = False\<rparr>"

definition rebuild_index_blocking ::
  "jobs_api \<Rightarrow> rebuild_faults \<Rightarrow> files \<Rightarrow> (XBackupError + RebuildReport) \<times> files" where
  "rebuild_index_blocking api ft fs =
    (let tmp = ''index.ndjson.rebuild'' in
     if rf_no_dir ft then (Inl (Failure ''cannot prepare the directory''), fs)
     else if rf_unlistable ft then (Inl (Failure ''cannot read the directory''), fs)
     else case rebuild_loop api (rf_unopenable ft) fs (collect_log_ids api fs)
         \<lparr>rr_jobs = 0, rr_records = 0, rr_unreadable_lines = 0\<rparr> [] of
       Inl e \<Rightarrow> (Inl e, fs)
     | Inr (report, body) \<Rightarrow>
       (case rf_tmp ft of
          Some n \<Rightarrow> (Inl (Failure ''cannot write the temporary file''), AList.update tmp (take n body) fs)
        | None \<Rightarrow>
          if rf_rename ft then (Inl (Failure ''cannot replace the index''), AList.delete tmp fs)
          else (Inr report, AList.update JOB_INDEX_FILE_NAME body (AList.delete tmp fs))))"

section \<open>The history is exact\<close>

definition starts_of :: "jobs_api \<Rightarrow> JobId \<Rightarrow> JobRecord list \<Rightarrow> StartRecord list" where
  "starts_of api i rs = List.map_filter (\<lambda>r. case r of
     Start s \<Rightarrow> if uuid_parse api (st_id s) = Some i then Some s else None | _ \<Rightarrow> None) rs"

definition ends_of :: "jobs_api \<Rightarrow> JobId \<Rightarrow> JobRecord list \<Rightarrow> EndRecord list" where
  "ends_of api i rs = List.map_filter (\<lambda>r. case r of
     End e \<Rightarrow> if uuid_parse api (en_id e) = Some i then Some e else None | _ \<Rightarrow> None) rs"

fun from_first_start :: "jobs_api \<Rightarrow> JobId \<Rightarrow> JobRecord list \<Rightarrow> JobRecord list" where
  "from_first_start api i [] = []"
| "from_first_start api i (r # rs) =
     (if starts_of api i [r] \<noteq> [] then r # rs else from_first_start api i rs)"

text \<open>What the history says of a job: the data of its last start and the last end behind its first
  start.\<close>

definition job_of :: "jobs_api \<Rightarrow> JobId \<Rightarrow> JobRecord list \<Rightarrow> JobSummary option" where
  "job_of api i rs = (if starts_of api i rs = [] then None
     else let s = from_start i (last (starts_of api i rs));
              es = ends_of api i (from_first_start api i rs) in
       Some (if es = [] then s else apply_end_record (last es) s))"

lemma map_filter_snoc:
  "List.map_filter f (xs @ [x]) = List.map_filter f xs @ (case f x of None \<Rightarrow> [] | Some y \<Rightarrow> [y])"
  by (simp add: List.map_filter_def split: option.splits)

lemma from_first_start_snoc:
  "from_first_start api i (rs @ [r]) = (if starts_of api i rs \<noteq> [] then from_first_start api i rs @ [r]
     else if starts_of api i [r] \<noteq> [] then [r] else [])"
  by (induction rs) (auto simp: starts_of_def List.map_filter_def split: if_splits)

lemma no_start_no_rest: "starts_of api i rs = [] \<Longrightarrow> from_first_start api i rs = []"
  by (induction rs) (auto simp: starts_of_def List.map_filter_def split: if_splits option.splits)

definition carry_end :: "JobSummary option \<Rightarrow> JobSummary \<Rightarrow> JobSummary" where
  "carry_end previous s = (case previous of None \<Rightarrow> s
     | Some p \<Rightarrow> s\<lparr>js_finished_at := js_finished_at p, js_outcome := js_outcome p,
         js_exit_code := js_exit_code p\<rparr>)"

lemma starts_of_snoc [simp]:
  "starts_of api i (rs @ [Start s]) =
     starts_of api i rs @ (if uuid_parse api (st_id s) = Some i then [s] else [])"
  "starts_of api i (rs @ [End e]) = starts_of api i rs"
  "starts_of api i (rs @ [Log l]) = starts_of api i rs"
  "starts_of api i [] = []"
  by (simp_all add: starts_of_def map_filter_snoc)

lemma starts_of_one [simp]:
  "starts_of api i [Start s] = (if uuid_parse api (st_id s) = Some i then [s] else [])"
  "starts_of api i [End e] = []"
  "starts_of api i [Log l] = []"
  by (simp_all add: starts_of_def List.map_filter_def)

lemma ends_of_snoc [simp]:
  "ends_of api i (rs @ [Start s]) = ends_of api i rs"
  "ends_of api i (rs @ [End e]) =
     ends_of api i rs @ (if uuid_parse api (en_id e) = Some i then [e] else [])"
  "ends_of api i (rs @ [Log l]) = ends_of api i rs"
  "ends_of api i [] = []"
  by (simp_all add: ends_of_def map_filter_snoc)

lemma ends_of_start [simp]: "ends_of api i [Start s] = []"
  by (simp add: ends_of_def List.map_filter_def)

lemma job_of_Nil [simp]: "job_of api i [] = None"
  by (simp add: job_of_def)

lemma job_of_Log [simp]: "job_of api i (rs @ [Log l]) = job_of api i rs"
  by (simp add: job_of_def from_first_start_snoc)

lemma job_of_End [simp]:
  "job_of api i (rs @ [End e]) = (if uuid_parse api (en_id e) = Some i
     then map_option (apply_end_record e) (job_of api i rs) else job_of api i rs)"
  by (simp add: job_of_def from_first_start_snoc Let_def apply_end_record_def)

lemma job_of_Start [simp]:
  "job_of api i (rs @ [Start s]) = (if uuid_parse api (st_id s) = Some i
     then Some (carry_end (job_of api i rs) (from_start i s)) else job_of api i rs)"
  by (simp add: job_of_def from_first_start_snoc Let_def carry_end_def apply_end_record_def
    from_start_def)

lemma fold_records_inv:
  "bt_ok (fst (foldl (fold_record api) ([], n) rs)) \<and>
   (\<forall>i. map_of (fst (foldl (fold_record api) ([], n) rs)) i = job_of api i rs)"
proof (induction rs rule: rev_induct)
  case (snoc r rs)
  obtain m u where mu: "foldl (fold_record api) ([], n) rs = (m, u)" by fastforce
  with snoc have "bt_ok m" "\<And>i. map_of m i = job_of api i rs" by simp_all
  with mu show ?case
    by (cases r) (auto simp: Let_def carry_end_def split: option.splits)
qed simp

lemma job_of_id: "job_of api i rs = Some s \<Longrightarrow> js_id s = i"
  by (auto simp: job_of_def Let_def from_start_def apply_end_record_def split: if_splits)

lemma find_rev_distinct:
  assumes "distinct (map f xs)"
  shows "List.find (\<lambda>x. f x = k) (rev xs) = List.find (\<lambda>x. f x = k) xs"
proof (cases "List.find (\<lambda>x. f x = k) xs")
  case None
  then show ?thesis by (metis (full_types) find_None_iff set_rev)
next
  case (Some x)
  then have "x \<in> set (rev xs)" "f x = k" by (auto dest: find_SomeD)
  then show ?thesis
    using Some find_Some_distinct [of f "rev xs" x] assms by (simp add: rev_map [symmetric])
qed

lemma find_snd_map_of:
  assumes "\<And>i s. (i, s) \<in> set m \<Longrightarrow> f s = i"
  shows "List.find (\<lambda>s. f s = i) (map snd m) = map_of m i"
  using assms by (induction m) auto

lemma fold_index_entries:
  fixes api :: jobs_api and read :: ReadRecords
  defines "es \<equiv> jh_entries (fold_index api read)"
  shows "sorted_wrt (\<lambda>a b. js_id b < js_id a) es"
    and "List.find (\<lambda>s. js_id s = i) es = job_of api i (rd_records read)"
proof -
  obtain m u where mu: "foldl (fold_record api) ([], rd_unreadable read) (rd_records read) = (m, u)"
    by fastforce
  with fold_records_inv [of api "rd_unreadable read" "rd_records read"]
  have m: "bt_ok m" "\<And>i. map_of m i = job_of api i (rd_records read)" by simp_all
  have es: "es = rev (map snd m)" using mu by (simp add: es_def fold_index_def)
  have id: "js_id s = i" if "(i, s) \<in> set m" for i s
    using map_of_is_SomeI [OF bt_ok_distinct [OF m(1)] that] m(2) job_of_id by metis
  then have ids: "map js_id (map snd m) = map fst m" by auto
  then have sorted: "sorted_wrt (<) (map js_id (map snd m))" using m(1) by (simp only: bt_ok_def)
  then show "sorted_wrt (\<lambda>a b. js_id b < js_id a) es"
    by (simp only: es sorted_wrt_rev sorted_wrt_map)
  have "distinct (map js_id (map snd m))" using bt_ok_distinct [OF m(1)] by (simp only: ids)
  then show "List.find (\<lambda>s. js_id s = i) es = job_of api i (rd_records read)"
    using find_rev_distinct [of js_id "map snd m" i] find_snd_map_of [of m js_id i] id m(2) by (simp add: es)
qed

text \<open>C16: The history of the console is exact: one entry per job that has a start in the index, newest
  first; its data are those of the last start of the job, and it is finished exactly when an end of
  the job follows its first start, with the time and outcome of the last such end.\<close>

theorem history_exact:
  fixes api :: jobs_api and read :: ReadRecords
  defines "h \<equiv> fold_index api read"
  shows "sorted_wrt (\<lambda>a b. js_id b < js_id a) (jh_entries h) \<and>
    List.find (\<lambda>s. js_id s = i) (jh_entries h) =
      (let starts = starts_of api i (rd_records read);
           ends = ends_of api i (from_first_start api i (rd_records read));
           s = from_start i (last starts) in
       if starts = [] then None
       else if ends = [] then Some s
       else Some (s\<lparr>js_finished_at := Some (en_finished_at (last ends)),
         js_outcome := Some (en_outcome (last ends)), js_exit_code := en_exit_code (last ends)\<rparr>))"
  using fold_index_entries [where api = api and read = read]
  by (simp add: h_def job_of_def Let_def apply_end_record_def)

section \<open>What an operation does to the files\<close>

definition recs :: "jobs_api \<Rightarrow> string option \<Rightarrow> JobRecord list" where
  "recs api file = rd_records (read_records api file)"

lemma recs_simps [simp]:
  "recs api None = []"
  "recs api (Some c) = records_of (line_results (rec_of_json api) c)"
  by (simp_all add: recs_def read_records_def Let_def)

lemma records_of_append [simp]:
  "records_of (ps @ [Inr (Some r)]) = records_of ps @ [r]"
  "records_of [] = []"
  by (simp_all add: records_of_def List.map_filter_def)

lemma line_results_empty [simp]: "line_results of_json [] = []"
  by (simp add: line_results_def buf_lines_def)

lemma job_append_Inr:
  assumes "job_append api fault name r d fs = (Inr (), fs')" "jobs_laws api"
  shows "recs api (map_of fs' name) = recs api (map_of fs name) @ [r]"
    and "map_of fs' name \<noteq> None"
    and "\<And>n. n \<noteq> name \<Longrightarrow> map_of fs' n = map_of fs n"
    and "fst ` set fs' = insert name (fst ` set fs)"
    and "distinct (map fst fs) \<Longrightarrow> distinct (map fst fs')"
proof -
  have codec: "line_codec (rec_to_json api) (rec_of_json api)" using assms(2) by (simp add: jobs_laws_def)
  from assms(1) obtain l where l: "rec_to_json api r = Some l" by (auto simp: job_append_def split: option.splits)
  obtain u c where u: "append_line fault d (l @ [nl]) (map_of fs name) = (u, c)" by fastforce
  with assms(1) l have "u = Inr ()" by (auto simp: job_append_def split: option.splits)
  with append_line_Inr [of fault d l "map_of fs name" c "rec_of_json api"] u
    parse_line_codec [OF codec l] obtain c' where c': "c = Some c'"
      "line_results (rec_of_json api) c' = line_results (rec_of_json api)
        (case map_of fs name of None \<Rightarrow> [] | Some c \<Rightarrow> c) @ [Inr (Some r)]" by auto
  have fs': "fs' = AList.update name c' fs" using assms(1) l u c'(1) by (simp add: job_append_def)
  show "recs api (map_of fs' name) = recs api (map_of fs name) @ [r]"
    using c'(2) by (auto simp: fs' update_conv' split: option.splits)
  show "map_of fs' name \<noteq> None" by (simp add: fs' update_conv')
  show "map_of fs' n = map_of fs n" if "n \<noteq> name" for n using that by (simp add: fs' update_conv')
  show "fst ` set fs' = insert name (fst ` set fs)"
    by (simp add: fs' dom_map_of_conv_image_fst [symmetric] update_conv')
  show "distinct (map fst fs')" if "distinct (map fst fs)" using that by (simp add: fs' distinct_update)
qed

lemma job_append_grows:
  assumes "job_append api fault name r d fs = (res, fs')"
  shows "\<And>n. n \<noteq> name \<Longrightarrow> map_of fs' n = map_of fs n"
    and "map_of fs name = Some c \<Longrightarrow> \<exists>c'. map_of fs' name = Some c' \<and> prefix c c'"
proof -
  show "map_of fs' n = map_of fs n" if "n \<noteq> name" for n
    using assms that by (auto simp: job_append_def update_conv' split: option.splits prod.splits)
  assume c: "map_of fs name = Some c"
  show "\<exists>c'. map_of fs' name = Some c' \<and> prefix c c'"
  proof (cases "rec_to_json api r")
    case None
    with assms c show ?thesis by (auto simp: job_append_def)
  next
    case (Some l)
    obtain u f where u: "append_line fault d (l @ [nl]) (map_of fs name) = (u, f)" by fastforce
    from append_line_grows [OF u] c obtain c' where "f = Some c'" "prefix c c'" by auto
    with assms Some u show ?thesis by (auto simp: job_append_def update_conv')
  qed
qed

lemma log_name_inj:
  assumes "jobs_laws api"
  shows "log_name api i = log_name api j \<longleftrightarrow> i = j"
    and "log_name api i \<noteq> JOB_INDEX_FILE_NAME" "JOB_INDEX_FILE_NAME \<noteq> log_name api i"
proof -
  have p: "uuid_parse api (uuid_show api k) = Some k" for k using assms by (simp add: jobs_laws_def)
  show "log_name api i = log_name api j \<longleftrightarrow> i = j"
  proof
    assume "log_name api i = log_name api j"
    then have "uuid_show api i = uuid_show api j" by (simp add: log_name_def)
    then show "i = j" using p by (metis option.inject)
  qed simp
  show *: "log_name api i \<noteq> JOB_INDEX_FILE_NAME"
  proof
    assume "log_name api i = JOB_INDEX_FILE_NAME"
    then have "uuid_show api i @ ''.ndjson'' = ''index'' @ ''.ndjson''"
      by (simp add: log_name_def JOB_LOG_FILE_SUFFIX_def JOB_INDEX_FILE_NAME_def)
    then have "uuid_show api i = ''index''" unfolding append_same_eq .
    with p [of i] have "uuid_parse api ''index'' = Some i" by (simp only:)
    with assms show False by (simp add: jobs_laws_def)
  qed
  then show "JOB_INDEX_FILE_NAME \<noteq> log_name api i" by metis
qed

section \<open>Directories with canonical names\<close>

definition canonical :: "jobs_api \<Rightarrow> files \<Rightarrow> bool" where
  "canonical api fs \<longleftrightarrow> distinct (map fst fs) \<and>
     fst ` set fs \<subseteq> insert JOB_INDEX_FILE_NAME (range (log_name api))"

definition file_id :: "jobs_api \<Rightarrow> string \<Rightarrow> JobId option" where
  "file_id api name = (case strip_suffix JOB_LOG_FILE_SUFFIX name of None \<Rightarrow> None
     | Some stem \<Rightarrow> uuid_parse api stem)"

lemma file_id_simps [simp]:
  "jobs_laws api \<Longrightarrow> file_id api (log_name api i) = Some i"
  "jobs_laws api \<Longrightarrow> file_id api JOB_INDEX_FILE_NAME = None"
proof -
  assume "jobs_laws api"
  then show "file_id api (log_name api i) = Some i"
    by (simp add: file_id_def log_name_def jobs_laws_def)
  have "strip_suffix JOB_LOG_FILE_SUFFIX JOB_INDEX_FILE_NAME = Some ''index''"
    by (simp add: strip_suffix_Some JOB_LOG_FILE_SUFFIX_def JOB_INDEX_FILE_NAME_def)
  with \<open>jobs_laws api\<close> show "file_id api JOB_INDEX_FILE_NAME = None"
    by (simp add: file_id_def jobs_laws_def)
qed

lemma collect_log_ids_eq: "collect_log_ids api fs = sort (List.map_filter (file_id api) (map fst fs))"
  by (simp add: collect_log_ids_def file_id_def List.map_filter_def filter_map comp_def case_prod_unfold
    cong: option.case_cong)

lemma canonical_ids:
  assumes "canonical api fs" "jobs_laws api"
  shows "set (collect_log_ids api fs) = {i. map_of fs (log_name api i) \<noteq> None}"
    and "distinct (collect_log_ids api fs)"
proof -
  have id: "file_id api n = Some i \<longleftrightarrow> n = log_name api i" if "n \<in> fst ` set fs" for n i
    using assms that by (auto simp: canonical_def log_name_inj dest!: subsetD)
  have "set (collect_log_ids api fs) = {i. \<exists>n \<in> fst ` set fs. file_id api n = Some i}"
    by (auto simp: collect_log_ids_eq set_map_filter)
  also have "\<dots> = {i. log_name api i \<in> fst ` set fs}" using id by auto
  finally show "set (collect_log_ids api fs) = {i. map_of fs (log_name api i) \<noteq> None}"
    by (simp add: map_of_eq_None_iff)
  have "inj_on (the \<circ> file_id api) {n \<in> fst ` set fs. file_id api n \<noteq> None}"
  proof (rule inj_onI)
    fix n m
    assume a: "n \<in> {n \<in> fst ` set fs. file_id api n \<noteq> None}" "m \<in> {n \<in> fst ` set fs. file_id api n \<noteq> None}"
      "(the \<circ> file_id api) n = (the \<circ> file_id api) m"
    then obtain i j where "file_id api n = Some i" "file_id api m = Some j" by blast
    with a id [of n i] id [of m j] show "n = m" by simp
  qed
  then have "distinct (map (the \<circ> file_id api) (filter (\<lambda>n. file_id api n \<noteq> None) (map fst fs)))"
    using assms(1) by (auto simp: canonical_def distinct_map inj_on_def)
  then show "distinct (collect_log_ids api fs)"
    by (simp add: collect_log_ids_eq List.map_filter_def)
qed

section \<open>Rotation\<close>

lemma remove_logs_files:
  "map_of (snd (remove_logs api fails ids n fs)) name =
    (if name \<in> log_name api ` set ids \<and> \<not> fails name then None else map_of fs name)"
  by (induction ids arbitrary: n fs) (auto simp: Let_def delete_conv')

lemma remove_logs_count:
  assumes "jobs_laws api" "distinct ids" "\<And>i. i \<in> set ids \<Longrightarrow> map_of fs (log_name api i) \<noteq> None"
  shows "fst (remove_logs api (\<lambda>_. False) ids n fs) = n + length ids"
  using assms(2,3)
proof (induction ids arbitrary: n fs)
  case (Cons i ids)
  then have "fst (remove_logs api (\<lambda>_. False) ids (n + 1) (AList.delete (log_name api i) fs)) =
      n + 1 + length ids"
    by (intro Cons.IH) (auto simp: delete_conv' log_name_inj [OF assms(1)])
  moreover obtain c where "map_of fs (log_name api i) = Some c" using Cons.prems(2) [of i] by auto
  ultimately show ?case by (simp add: Let_def)
qed simp

lemma canonical_delete: "canonical api fs \<Longrightarrow> canonical api (AList.delete name fs)"
  using dom_delete_subset [of name fs] by (simp add: canonical_def distinct_delete) blast

lemma remove_logs_canonical: "canonical api fs \<Longrightarrow> canonical api (snd (remove_logs api fails ids n fs))"
  by (induction ids arbitrary: n fs) (simp_all add: Let_def canonical_delete)

lemma rotate_canonical:
  "canonical api fs \<Longrightarrow> canonical api (snd (rotate_blocking api unlistable fails retain fs))"
  by (simp add: rotate_blocking_def Let_def case_prod_unfold remove_logs_canonical)

lemma rotate_files:
  assumes "jobs_laws api"
  shows "map_of (snd (rotate_blocking api unlistable fails retain fs)) name \<in> {None, map_of fs name}"
    and "map_of (snd (rotate_blocking api unlistable fails retain fs)) JOB_INDEX_FILE_NAME =
      map_of fs JOB_INDEX_FILE_NAME"
  by (auto simp: rotate_blocking_def Let_def case_prod_unfold remove_logs_files log_name_inj [OF assms])

text \<open>The rotation keeps the log files of the newest jobs, at most \<open>retain\<close> of them, and removes the
  others; it never touches the index, so that the history keeps every job.\<close>

theorem rotate_exact:
  assumes "canonical api fs" "jobs_laws api"
    and "rotate_blocking api False (\<lambda>_. False) retain fs = (Inr n, fs')"
  defines "ids \<equiv> collect_log_ids api fs"
  shows "collect_log_ids api fs' = drop (length ids - retain) ids \<and> n = length ids - retain \<and>
    (\<forall>name. name \<notin> log_name api ` set (take (length ids - retain) ids) \<longrightarrow> map_of fs' name = map_of fs name) \<and>
    job_list api fs' = job_list api fs"
proof -
  let ?old = "take (length ids - retain) ids"
  have ids: "set ids = {i. map_of fs (log_name api i) \<noteq> None}" "distinct ids" "sorted ids"
    using canonical_ids [OF assms(1,2)] by (simp_all add: ids_def collect_log_ids_eq)
  have r: "remove_logs api (\<lambda>_. False) ?old 0 fs = (n, fs')"
    using assms(3) by (auto simp: rotate_blocking_def ids_def [symmetric] Let_def split: if_splits prod.splits)
  have files: "map_of fs' name = (if name \<in> log_name api ` set ?old then None else map_of fs name)" for name
    using remove_logs_files [of api "\<lambda>_. False" ?old 0 fs name] r by simp
  have "set ?old \<subseteq> set ids" by (rule set_take_subset)
  with ids(1) have "\<And>i. i \<in> set ?old \<Longrightarrow> map_of fs (log_name api i) \<noteq> None" by blast
  with remove_logs_count [OF assms(2), of ?old fs 0] ids(2) r have n: "n = length ids - retain" by simp
  have "canonical api fs'" using remove_logs_canonical [OF assms(1), of "\<lambda>_. False" ?old 0] r by simp
  from canonical_ids [OF this assms(2)] have
    new: "set (collect_log_ids api fs') = {i. map_of fs' (log_name api i) \<noteq> None}"
      "distinct (collect_log_ids api fs')" "sorted (collect_log_ids api fs')"
    by (simp_all add: collect_log_ids_eq)
  have "set (drop (length ids - retain) ids) = set ids - set ?old"
    using ids(2) set_take_disj_set_drop_if_distinct [of ids "length ids - retain" "length ids - retain"]
    by (subst (2) append_take_drop_id [of "length ids - retain" ids, symmetric]) (auto simp del: append_take_drop_id)
  then have "set (collect_log_ids api fs') = set (drop (length ids - retain) ids)"
    using ids(1) by (auto simp: new(1) files log_name_inj [OF assms(2)])
  then have "collect_log_ids api fs' = drop (length ids - retain) ids"
    by (intro sorted_distinct_set_unique) (use new ids in \<open>simp_all add: sorted_wrt_drop distinct_drop\<close>)
  moreover have "job_list api fs' = job_list api fs"
    by (simp add: job_list_def files log_name_inj [OF assms(2)] image_iff)
  ultimately show ?thesis using n files by simp
qed

section \<open>Rebuilding gives the history back\<close>

definition concerns :: "jobs_api \<Rightarrow> JobId \<Rightarrow> JobRecord \<Rightarrow> bool" where
  "concerns api i r \<longleftrightarrow> (case r of Start s \<Rightarrow> uuid_parse api (st_id s) = Some i
     | End e \<Rightarrow> uuid_parse api (en_id e) = Some i | Log _ \<Rightarrow> False)"

definition is_log :: "JobRecord \<Rightarrow> bool" where
  "is_log r \<longleftrightarrow> (case r of Log _ \<Rightarrow> True | _ \<Rightarrow> False)"

lemma concerns_simps [simp]:
  "concerns api i (Start s) \<longleftrightarrow> uuid_parse api (st_id s) = Some i"
  "concerns api i (End e) \<longleftrightarrow> uuid_parse api (en_id e) = Some i"
  "\<not> concerns api i (Log l)"
  "is_log (Log l)" "\<not> is_log (Start s)" "\<not> is_log (End e)"
  by (simp_all add: concerns_def is_log_def)

lemma concerns_unique: "concerns api i r \<Longrightarrow> concerns api j r \<Longrightarrow> i = j"
  by (cases r) auto

lemma job_of_filter: "job_of api i (filter (concerns api i) rs) = job_of api i rs"
proof (induction rs rule: rev_induct)
  case (snoc r rs)
  then show ?case by (cases r) auto
qed simp

lemma job_of_cong:
  "filter (concerns api i) rs = filter (concerns api i) rs' \<Longrightarrow> job_of api i rs = job_of api i rs'"
  by (metis job_of_filter)

lemma job_of_no_start: "\<forall>s. Start s \<notin> set rs \<Longrightarrow> job_of api i rs = None"
proof (induction rs rule: rev_induct)
  case (snoc r rs)
  then show ?case by (cases r) auto
qed simp

lemma find_list:
  "List.find (\<lambda>s. js_id s = i) (jh_entries (job_list api fs)) =
     job_of api i (recs api (map_of fs JOB_INDEX_FILE_NAME))"
  by (simp add: job_list_def fold_index_entries recs_def)

lemma write_record_lines_recs:
  assumes "write_record_lines api rs (body, n) = Inr (body', n')" "jobs_laws api"
    and "ends_with_newline_or_empty body"
  shows "ends_with_newline_or_empty body' \<and> recs api (Some body') =
    recs api (Some body) @ filter (\<lambda>r. \<not> is_log r) rs"
  using assms(1,3)
proof (induction rs arbitrary: body n)
  case (Cons r rs)
  have codec: "line_codec (rec_to_json api) (rec_of_json api)" using assms(2) by (simp add: jobs_laws_def)
  show ?case
  proof (cases "is_log r")
    case True
    with Cons show ?thesis by (cases r) auto
  next
    case False
    with Cons.prems obtain l where l: "rec_to_json api r = Some l"
        "write_record_lines api rs (body @ l @ [nl], n + 1) = Inr (body', n')"
      by (cases r) (auto split: option.splits)
    have e: "ends_with_newline_or_empty (body @ l @ [nl])"
      by (simp add: ends_with_newline_or_empty_def)
    from line_results_append [of l body body "rec_of_json api"] Cons.prems(2)
      parse_line_codec [OF codec l(1)]
    have "recs api (Some (body @ l @ [nl])) = recs api (Some body) @ [r]" by simp
    with Cons.IH [OF l(2) e] False show ?thesis by simp
  qed
qed simp

lemma rebuild_loop_recs:
  assumes "rebuild_loop api (\<lambda>_. False) fs ids report body = Inr (report', body')" "jobs_laws api"
    and "ends_with_newline_or_empty body"
  shows "recs api (Some body') = recs api (Some body) @
    concat (map (\<lambda>i. filter (\<lambda>r. \<not> is_log r) (recs api (map_of fs (log_name api i)))) ids)"
  using assms(1,3)
proof (induction ids arbitrary: report body)
  case (Cons i ids)
  let ?f = "map_of fs (log_name api i)"
  show ?case
  proof (cases ?f)
    case None
    with Cons show ?thesis by (simp add: Let_def read_records_def)
  next
    case (Some c)
    obtain b n where w: "write_record_lines api (recs api ?f) (body, rr_records report) = Inr (b, n)"
        and r: "\<exists>report1. rebuild_loop api (\<lambda>_. False) fs ids report1 b = Inr (report', body')"
      using Cons.prems(1) Some
      by (auto simp: Let_def read_records_def recs_def split: sum.splits)
    from write_record_lines_recs [OF w assms(2) Cons.prems(2)] r Cons.IH show ?thesis by fastforce
  qed
qed simp

lemma rebuild_recs:
  assumes "rebuild_index_blocking api rebuild_no_faults fs = (Inr report, fs')" "jobs_laws api"
  shows "recs api (map_of fs' JOB_INDEX_FILE_NAME) =
    concat (map (\<lambda>i. filter (\<lambda>r. \<not> is_log r) (recs api (map_of fs (log_name api i))))
      (collect_log_ids api fs))"
proof -
  obtain body report0 where b: "rebuild_loop api (\<lambda>_. False) fs (collect_log_ids api fs)
      \<lparr>rr_jobs = 0, rr_records = 0, rr_unreadable_lines = 0\<rparr> [] = Inr (report0, body)"
    and fs': "fs' = AList.update JOB_INDEX_FILE_NAME body (AList.delete ''index.ndjson.rebuild'' fs)"
    using assms(1)
    by (auto simp: rebuild_index_blocking_def rebuild_no_faults_def Let_def split: sum.splits prod.splits)
  have "ends_with_newline_or_empty []" by (simp add: ends_with_newline_or_empty_def)
  with rebuild_loop_recs [OF b assms(2)] fs' show ?thesis
    by (simp add: update_conv')
qed

text \<open>Histories of the directory in which every record was written to both places: jobs with new ids
  start, put out lines and end; the rotation may fail in any way.\<close>

inductive job_history :: "jobs_api \<Rightarrow> nat \<Rightarrow> files \<Rightarrow> bool" for api retain where
  nothing: "job_history api retain []"
| starts: "job_history api retain fs \<Longrightarrow> map_of fs (log_name api i) = None \<Longrightarrow>
    \<forall>r \<in> set (recs api (map_of fs JOB_INDEX_FILE_NAME)). \<not> concerns api i r \<Longrightarrow>
    job_start api ft retain i s fs = (Inr i', fs') \<Longrightarrow> job_history api retain fs'"
| outputs: "job_history api retain fs \<Longrightarrow> append_log api ft now i stream text fs = (Inr u, fs') \<Longrightarrow>
    job_history api retain fs'"
| ends: "job_history api retain fs \<Longrightarrow> finish api ft now i outcome fs = (Inr u, fs') \<Longrightarrow>
    job_history api retain fs'"

text \<open>A log file holds records of its own job; as long as it holds the start, the index says of the job
  what the file says.\<close>

definition logs_ok :: "jobs_api \<Rightarrow> files \<Rightarrow> bool" where
  "logs_ok api fs \<longleftrightarrow> canonical api fs \<and>
     (\<forall>i. \<forall>r \<in> set (recs api (map_of fs (log_name api i))). concerns api i r \<or> is_log r) \<and>
     (\<forall>i s. Start s \<in> set (recs api (map_of fs (log_name api i))) \<longrightarrow>
        filter (concerns api i) (recs api (map_of fs JOB_INDEX_FILE_NAME)) =
        filter (concerns api i) (recs api (map_of fs (log_name api i))))"

lemma canonical_append:
  assumes "job_append api fault name r d fs = (Inr (), fs')" "jobs_laws api" "canonical api fs"
    and "name = JOB_INDEX_FILE_NAME \<or> (\<exists>i. name = log_name api i)"
  shows "canonical api fs'"
  using job_append_Inr(4,5) [OF assms(1,2)] assms(3,4) by (auto simp: canonical_def)

lemma logs_ok_log:
  assumes "job_append api fault (log_name api i) (Log l) d fs = (Inr (), fs')" "jobs_laws api" "logs_ok api fs"
  shows "logs_ok api fs'"
proof -
  note a = job_append_Inr [OF assms(1,2)] and inj = log_name_inj [OF assms(2)]
  have idx: "map_of fs' JOB_INDEX_FILE_NAME = map_of fs JOB_INDEX_FILE_NAME"
    by (rule a(3)) (simp add: inj)
  have log: "recs api (map_of fs' (log_name api j)) = recs api (map_of fs (log_name api j)) @
      (if j = i then [Log l] else [])" for j
    using a(1) a(3) [of "log_name api j"] by (auto simp: inj)
  have "canonical api fs'" using canonical_append [OF assms(1,2)] assms(3) by (auto simp: logs_ok_def)
  with assms(3) show ?thesis unfolding logs_ok_def idx log by (auto split: if_splits)
qed

text \<open>A record of the job \<open>i\<close> written to its log file and then to the index.\<close>

lemma logs_ok_both:
  assumes "job_append api f1 (log_name api i) r d1 fs = (Inr (), fs1)"
    and "job_append api f2 JOB_INDEX_FILE_NAME r d2 fs1 = (Inr (), fs2)"
    and laws: "jobs_laws api" and inv: "logs_ok api fs" and r: "concerns api i r" "\<not> is_log r"
    and fresh: "\<forall>s. r = Start s \<longrightarrow> map_of fs (log_name api i) = None \<and>
      (\<forall>r \<in> set (recs api (map_of fs JOB_INDEX_FILE_NAME)). \<not> concerns api i r)"
  shows "logs_ok api fs2"
proof -
  note a = job_append_Inr [OF assms(1) laws] and b = job_append_Inr [OF assms(2) laws]
    and inj = log_name_inj [OF laws]
  have idx: "recs api (map_of fs2 JOB_INDEX_FILE_NAME) =
      recs api (map_of fs JOB_INDEX_FILE_NAME) @ [r]"
    using b(1) a(3) [of JOB_INDEX_FILE_NAME] by (simp add: inj)
  have log: "recs api (map_of fs2 (log_name api j)) = recs api (map_of fs (log_name api j)) @
      (if j = i then [r] else [])" for j
    using a(1) a(3) [of "log_name api j"] b(3) [of "log_name api j"] by (auto simp: inj)
  have "canonical api fs1" using canonical_append [OF assms(1) laws] inv by (auto simp: logs_ok_def)
  then have can: "canonical api fs2" using canonical_append [OF assms(2) laws] by blast
  have other: "\<not> concerns api j r" if "j \<noteq> i" for j using concerns_unique r(1) that by blast
  have eq: "filter (concerns api j) (recs api (map_of fs2 JOB_INDEX_FILE_NAME)) =
      filter (concerns api j) (recs api (map_of fs2 (log_name api j)))"
    if s: "Start s \<in> set (recs api (map_of fs2 (log_name api j)))" for j s
  proof (cases "j = i \<and> r = Start s")
    case True
    with fresh have "recs api (map_of fs (log_name api i)) = []"
        "filter (concerns api i) (recs api (map_of fs JOB_INDEX_FILE_NAME)) = []"
      by (auto simp: filter_empty_conv)
    with True r(1) show ?thesis by (simp add: idx log)
  next
    case False
    with s have "Start s \<in> set (recs api (map_of fs (log_name api j)))"
      by (auto simp: log split: if_splits)
    with inv have "filter (concerns api j) (recs api (map_of fs JOB_INDEX_FILE_NAME)) =
        filter (concerns api j) (recs api (map_of fs (log_name api j)))"
      unfolding logs_ok_def by blast
    with other r(1) show ?thesis by (simp add: idx log)
  qed
  have "concerns api j x \<or> is_log x" if "x \<in> set (recs api (map_of fs2 (log_name api j)))" for j x
    using that inv r(1) unfolding logs_ok_def log by (auto split: if_splits)
  with can eq show ?thesis unfolding logs_ok_def by blast
qed

lemma logs_ok_rotate:
  assumes "logs_ok api fs" "jobs_laws api"
  shows "logs_ok api (snd (rotate_blocking api unlistable fails retain fs))"
proof -
  let ?fs = "snd (rotate_blocking api unlistable fails retain fs)"
  have "recs api (map_of ?fs n) \<in> {[], recs api (map_of fs n)}" for n
    using rotate_files(1) [OF assms(2), of unlistable fails retain fs n] by auto
  then have log: "recs api (map_of ?fs n) = [] \<or> recs api (map_of ?fs n) = recs api (map_of fs n)" for n
    by blast
  have idx: "map_of ?fs JOB_INDEX_FILE_NAME = map_of fs JOB_INDEX_FILE_NAME"
    by (rule rotate_files(2) [OF assms(2)])
  have "canonical api ?fs" using rotate_canonical assms(1) by (auto simp: logs_ok_def)
  then show ?thesis
    using assms(1) log unfolding logs_ok_def idx by (metis empty_iff list.set(1))
qed

lemma job_history_ok:
  assumes "job_history api retain fs" "jobs_laws api"
  shows "logs_ok api fs"
  using assms(1)
proof induction
  case nothing
  show ?case by (simp add: logs_ok_def canonical_def)
next
  case (starts fs i ft s i' fs')
  let ?r = "Start \<lparr>st_schema = JOB_HISTORY_SCHEMA, st_id = uuid_show api i,
       st_command = jb_command s, st_profile = jb_profile s, st_args_masked = jb_args_masked s,
       st_started_at = jb_started_at s, st_pid = jb_pid s\<rparr>"
  obtain fs1 fs2 where "job_append api (jf_log ft) (log_name api i) ?r Buffered fs = (Inr (), fs1)"
      "job_append api (jf_index ft) JOB_INDEX_FILE_NAME ?r Synced fs1 = (Inr (), fs2)"
      "fs' = snd (rotate_blocking api (jf_unlistable ft) (jf_unremovable ft) retain fs2)"
    using starts.hyps(4) by (auto simp: job_start_def Let_def split: prod.splits sum.splits)
  moreover have "concerns api i ?r" using assms(2) by (simp add: jobs_laws_def)
  ultimately show ?case
    using logs_ok_both [OF _ _ assms(2) starts.IH, of _ i ?r] starts.hyps(2,3) logs_ok_rotate assms(2)
    by simp
next
  case (outputs fs ft now i stream txt' u fs')
  then show ?case using logs_ok_log [OF _ assms(2)] by (auto simp: append_log_def)
next
  case (ends fs ft now i outcome u fs')
  let ?r = "End \<lparr>en_schema = JOB_HISTORY_SCHEMA, en_id = uuid_show api i, en_finished_at = now,
       en_outcome = label outcome, en_exit_code = outcome_exit_code outcome\<rparr>"
  obtain fs1 where "job_append api (fst ft) (log_name api i) ?r Buffered fs = (Inr (), fs1)"
      "job_append api (snd ft) JOB_INDEX_FILE_NAME ?r Synced fs1 = (Inr (), fs')"
    using ends.hyps(2) by (auto simp: finish_def Let_def split: prod.splits sum.splits)
  moreover have "concerns api i ?r" using assms(2) by (simp add: jobs_laws_def)
  ultimately show ?case using logs_ok_both [OF _ _ assms(2) ends.IH, of _ i ?r] by simp
qed

text \<open>C17: The index is a copy. After any history of jobs in which the records reached both places, a
  rebuild from the log files gives every job whose log file still holds its start the very entry
  it had; the jobs whose log files were rotated away are the ones it loses.\<close>

theorem rebuild_keeps_history:
  assumes "job_history api retain fs" "jobs_laws api"
    and "rebuild_index_blocking api rebuild_no_faults fs = (Inr report, fs')"
  shows "List.find (\<lambda>s. js_id s = i) (jh_entries (job_list api fs')) =
    (if \<exists>s. Start s \<in> set (recs api (map_of fs (log_name api i)))
     then List.find (\<lambda>s. js_id s = i) (jh_entries (job_list api fs)) else None)"
proof -
  let ?log = "\<lambda>j. recs api (map_of fs (log_name api j))"
  have ok: "logs_ok api fs" using job_history_ok [OF assms(1,2)] .
  then have can: "canonical api fs" and own: "\<And>j r. r \<in> set (?log j) \<Longrightarrow> concerns api j r \<or> is_log r"
    and same: "\<And>s. Start s \<in> set (?log i) \<Longrightarrow>
      filter (concerns api i) (recs api (map_of fs JOB_INDEX_FILE_NAME)) = filter (concerns api i) (?log i)"
    unfolding logs_ok_def by blast+
  have log_no: "\<not> concerns api k r" if "is_log r" for k r using that by (cases r) auto
  have "filter (concerns api i) (concat (map (\<lambda>j. filter (\<lambda>r. \<not> is_log r) (?log j)) js)) =
      (if i \<in> set js then filter (concerns api i) (?log i) else [])" if "distinct js" for js
    using that
  proof (induction js)
    case (Cons j js)
    have "filter (\<lambda>r. concerns api i r \<and> \<not> is_log r) (?log j) =
        (if j = i then filter (concerns api i) (?log i) else [])"
    proof (cases "j = i")
      case True
      then show ?thesis using log_no by (auto intro!: filter_cong)
    next
      case False
      have "\<not> (concerns api i r \<and> \<not> is_log r)" if "r \<in> set (?log j)" for r
        using own [OF that] concerns_unique False by blast
      with False show ?thesis by (simp add: filter_empty_conv)
    qed
    with Cons show ?case by (auto simp: conj_commute)
  qed simp
  with rebuild_recs [OF assms(3,2)] canonical_ids [OF can assms(2)]
  have "filter (concerns api i) (recs api (map_of fs' JOB_INDEX_FILE_NAME)) = filter (concerns api i) (?log i)"
    by (auto simp: filter_empty_conv)
  then have "job_of api i (recs api (map_of fs' JOB_INDEX_FILE_NAME)) = job_of api i (?log i)"
    by (rule job_of_cong)
  moreover have "job_of api i (?log i) = job_of api i (recs api (map_of fs JOB_INDEX_FILE_NAME))"
    if "Start s \<in> set (?log i)" for s
    using same [OF that] by (intro job_of_cong) simp
  ultimately show ?thesis using job_of_no_start by (auto simp: find_list)
qed

section \<open>Writing is never lost on an earlier failure\<close>

text \<open>C33: A record that was appended can be read, whatever the file held before: a line torn by a crash
  or a full disk stays one unreadable line and does not swallow the next record. Appending,
  successful or not, changes no byte of what the files held and touches no other file.\<close>

theorem append_is_read_back:
  assumes "jobs_laws api" "job_append api fault name r d fs = (res, fs')"
  shows "(\<forall>n. n \<noteq> name \<longrightarrow> map_of fs' n = map_of fs n) \<and>
    (\<forall>c. map_of fs name = Some c \<longrightarrow> (\<exists>c'. map_of fs' name = Some c' \<and> prefix c c')) \<and>
    (res = Inr () \<longrightarrow>
       rd_records (read_records api (map_of fs' name)) = rd_records (read_records api (map_of fs name)) @ [r])"
  using job_append_grows [OF assms(2)] job_append_Inr(1) [OF _ assms(1)] assms(2)
  by (auto simp: recs_def [symmetric])

section \<open>Ending a job for good\<close>

lemma finish_Inr:
  assumes "jobs_laws api" "finish api ft now i outcome fs = (Inr (), fs')"
  shows "recs api (map_of fs' JOB_INDEX_FILE_NAME) = recs api (map_of fs JOB_INDEX_FILE_NAME) @
     [End \<lparr>en_schema = JOB_HISTORY_SCHEMA, en_id = uuid_show api i, en_finished_at = now,
       en_outcome = label outcome, en_exit_code = outcome_exit_code outcome\<rparr>]"
proof -
  let ?r = "End \<lparr>en_schema = JOB_HISTORY_SCHEMA, en_id = uuid_show api i, en_finished_at = now,
       en_outcome = label outcome, en_exit_code = outcome_exit_code outcome\<rparr>"
  obtain fs1 where f: "job_append api (fst ft) (log_name api i) ?r Buffered fs = (Inr (), fs1)"
      "job_append api (snd ft) JOB_INDEX_FILE_NAME ?r Synced fs1 = (Inr (), fs')"
    using assms(2) by (auto simp: finish_def Let_def split: prod.splits sum.splits)
  from job_append_Inr(1) [OF f(2) assms(1)] job_append_Inr(3) [OF f(1) assms(1), of JOB_INDEX_FILE_NAME]
  show ?thesis by (simp add: log_name_inj [OF assms(1)])
qed

text \<open>An append that fails adds at most one record.\<close>

lemma job_append_extends:
  assumes "jobs_laws api" "job_append api fault name r d fs = (res, fs')"
  shows "\<exists>extra. recs api (map_of fs' n) = recs api (map_of fs n) @ extra"
proof (cases "n = name")
  case False
  with job_append_grows(1) [OF assms(2)] show ?thesis by simp
next
  case True
  have split: "records_of (a @ b) = records_of a @ records_of b" for a b :: "(unit + JobRecord option) list"
    by (simp add: records_of_def List.map_filter_def)
  have codec: "line_codec (rec_to_json api) (rec_of_json api)" using assms(1) by (simp add: jobs_laws_def)
  show ?thesis
  proof (cases "rec_to_json api r")
    case None
    with assms(2) show ?thesis by (simp add: job_append_def)
  next
    case (Some l)
    obtain u f where u: "append_line fault d (l @ [nl]) (map_of fs name) = (u, f)" by fastforce
    from append_line_extends [OF u parse_line_codec(2) [OF codec Some], of "rec_of_json api"]
    obtain extra where x: "line_results (rec_of_json api) (case f of None \<Rightarrow> [] | Some c \<Rightarrow> c) =
        line_results (rec_of_json api) (case map_of fs name of None \<Rightarrow> [] | Some c \<Rightarrow> c) @ extra" by blast
    have "recs api g = records_of (line_results (rec_of_json api) (case g of None \<Rightarrow> [] | Some c \<Rightarrow> c))" for g
      by (cases g) simp_all
    moreover have "map_of fs' name = (case f of None \<Rightarrow> map_of fs name | Some c \<Rightarrow> Some c)"
      using assms(2) Some u by (auto simp: job_append_def update_conv' split: option.splits)
    moreover have "f = None \<Longrightarrow> map_of fs name = None" using append_line_grows [OF u] by auto
    ultimately show ?thesis using x split True by (auto split: option.splits)
  qed
qed

lemma finish_extends:
  assumes "jobs_laws api" "finish api ft now i outcome fs = (res, fs')"
  shows "\<exists>extra. recs api (map_of fs' n) = recs api (map_of fs n) @ extra"
  using assms(2) job_append_extends [OF assms(1)]
  by (auto simp: finish_def Let_def split: prod.splits sum.splits) (metis append.assoc)+

lemma finish_attempts_Inr:
  assumes "jobs_laws api" "finish_attempts api ft now i outcome k n last_error fs = (Inr u, fs')"
  shows "\<exists>extra j. recs api (map_of fs' JOB_INDEX_FILE_NAME) = recs api (map_of fs JOB_INDEX_FILE_NAME) @
     extra @ [End \<lparr>en_schema = JOB_HISTORY_SCHEMA, en_id = uuid_show api i, en_finished_at = now j,
       en_outcome = label outcome, en_exit_code = outcome_exit_code outcome\<rparr>]"
  using assms(2)
proof (induction n arbitrary: k last_error fs)
  case (Suc n)
  obtain r fs1 where r: "finish api (ft k) (now k) i outcome fs = (r, fs1)" by fastforce
  show ?case
  proof (cases r)
    case (Inr _)
    with Suc.prems r have "fs1 = fs'" by simp
    with finish_Inr [OF assms(1)] r Inr show ?thesis by (metis append_Nil old.unit.exhaust)
  next
    case (Inl e)
    with Suc r obtain extra j where "recs api (map_of fs' JOB_INDEX_FILE_NAME) =
        recs api (map_of fs1 JOB_INDEX_FILE_NAME) @ extra @
        [End \<lparr>en_schema = JOB_HISTORY_SCHEMA, en_id = uuid_show api i, en_finished_at = now j,
          en_outcome = label outcome, en_exit_code = outcome_exit_code outcome\<rparr>]" by fastforce
    moreover obtain extra0 where "recs api (map_of fs1 JOB_INDEX_FILE_NAME) =
        recs api (map_of fs JOB_INDEX_FILE_NAME) @ extra0"
      using finish_extends [OF assms(1) r] by blast
    ultimately show ?thesis by (metis append.assoc)
  qed
qed simp

lemma job_of_extends:
  "job_of api i rs \<noteq> None \<Longrightarrow> job_of api i (rs @ extra) \<noteq> None"
proof (induction extra rule: rev_induct)
  case (snoc r extra)
  then show ?case
    using job_of_Log job_of_End job_of_Start by (cases r) (simp_all flip: append_assoc)
qed simp

definition end_record :: "jobs_api \<Rightarrow> int \<Rightarrow> JobId \<Rightarrow> JobOutcome \<Rightarrow> JobRecord" where
  "end_record api now i outcome = End \<lparr>en_schema = JOB_HISTORY_SCHEMA, en_id = uuid_show api i,
     en_finished_at = now, en_outcome = label outcome, en_exit_code = outcome_exit_code outcome\<rparr>"

lemma finish_ok:
  assumes "rec_to_json api (end_record api now i outcome) \<noteq> None"
  shows "\<exists>fs'. finish api (None, None) now i outcome fs = (Inr (), fs')"
proof -
  let ?r = "end_record api now i outcome"
  have "\<exists>fs'. job_append api None name ?r d fs = (Inr (), fs')" for name d fs
    using assms by (auto simp: job_append_def append_line_def Let_def)
  then show ?thesis unfolding finish_def Let_def end_record_def fst_conv snd_conv
    by (metis (no_types, lifting) case_prod_conv old.sum.simps(6))
qed

lemma finish_attempts_ok:
  assumes "rec_to_json api (end_record api (now j) i outcome) \<noteq> None" "k \<le> j" "j < k + n"
    and "ft j = (None, None)"
  shows "\<exists>fs'. finish_attempts api ft now i outcome k n last_error fs = (Inr (), fs')"
  using assms(2,3)
proof (induction n arbitrary: k last_error fs)
  case (Suc n)
  show ?case
  proof (cases "k = j")
    case True
    obtain fs' where "finish api (ft k) (now k) i outcome fs = (Inr (), fs')"
      using finish_ok [OF assms(1)] assms(4) True by metis
    then show ?thesis by simp
  next
    case False
    with Suc show ?thesis by (auto split: prod.splits sum.splits)
  qed
qed simp

text \<open>C34: A job is not left running by a passing disk error. If any of the three attempts to record its end
  meets no fault, \<open>finish_persistent\<close> succeeds, and when it succeeds the history shows the job, if it
  had an entry, as finished with this outcome and exit code, whatever the failed attempts left.\<close>

theorem finish_persistent_closes:
  assumes "jobs_laws api" "\<And>k. k < 3 \<Longrightarrow> rec_to_json api (end_record api (now k) i outcome) \<noteq> None"
  shows "((\<exists>k < 3. ft k = (None, None)) \<longrightarrow> fst (finish_persistent api ft now i outcome fs) = Inr ()) \<and>
    (\<forall>s. fst (finish_persistent api ft now i outcome fs) = Inr () \<longrightarrow>
       List.find (\<lambda>s. js_id s = i) (jh_entries (job_list api fs)) = Some s \<longrightarrow>
       (\<exists>s'. List.find (\<lambda>s. js_id s = i) (jh_entries
            (job_list api (snd (finish_persistent api ft now i outcome fs)))) = Some s' \<and>
          \<not> is_running s' \<and> js_outcome s' = Some (label outcome) \<and>
          js_exit_code s' = outcome_exit_code outcome))"
proof (intro conjI impI allI)
  assume "\<exists>k < 3. ft k = (None, None)"
  then obtain k where k: "k < 3" "ft k = (None, None)" by blast
  then show "fst (finish_persistent api ft now i outcome fs) = Inr ()"
    using finish_attempts_ok [where now = now and j = k and k = 0 and n = 3 and ft = ft and fs = fs
        and last_error = None, OF assms(2) [OF k(1)]]
    unfolding finish_persistent_def FINISH_ATTEMPTS_def by fastforce
next
  fix s
  assume ok: "fst (finish_persistent api ft now i outcome fs) = Inr ()"
    and s: "List.find (\<lambda>s. js_id s = i) (jh_entries (job_list api fs)) = Some s"
  let ?fs' = "snd (finish_persistent api ft now i outcome fs)"
  have "finish_persistent api ft now i outcome fs = (Inr (), ?fs')" using ok by (simp add: prod_eq_iff)
  then obtain extra j where x: "recs api (map_of ?fs' JOB_INDEX_FILE_NAME) =
      recs api (map_of fs JOB_INDEX_FILE_NAME) @ extra @ [End \<lparr>en_schema = JOB_HISTORY_SCHEMA,
        en_id = uuid_show api i, en_finished_at = now j, en_outcome = label outcome,
        en_exit_code = outcome_exit_code outcome\<rparr>]"
    using finish_attempts_Inr [OF assms(1)] unfolding finish_persistent_def by metis
  from s have "job_of api i (recs api (map_of fs JOB_INDEX_FILE_NAME)) \<noteq> None" by (simp add: find_list)
  from job_of_extends [OF this, of extra] obtain s1 where
    s1: "job_of api i (recs api (map_of fs JOB_INDEX_FILE_NAME) @ extra) = Some s1" by blast
  have "uuid_parse api (uuid_show api i) = Some i" using assms(1) by (simp add: jobs_laws_def)
  with s1 show "\<exists>s'. List.find (\<lambda>s. js_id s = i) (jh_entries (job_list api ?fs')) = Some s' \<and>
      \<not> is_running s' \<and> js_outcome s' = Some (label outcome) \<and>
      js_exit_code s' = outcome_exit_code outcome"
    unfolding find_list x append_assoc [symmetric] job_of_End
    by (simp add: apply_end_record_def is_running_def)
qed

section \<open>The view of one log\<close>

definition log_lines :: "JobRecord list \<Rightarrow> LogRecord list" where
  "log_lines rs = List.map_filter (\<lambda>r. case r of Log l \<Rightarrow> Some l | _ \<Rightarrow> None) rs"

lemma log_file_steps:
  assumes "rl_logs rl = drop (length ls - MAX_LOG_LINES_KEPT) ls" "rl_dropped rl = length ls - MAX_LOG_LINES_KEPT"
  shows "rl_logs (foldl log_file_step rl ps) =
      drop (length (ls @ log_lines (records_of ps)) - MAX_LOG_LINES_KEPT) (ls @ log_lines (records_of ps)) \<and>
    rl_dropped (foldl log_file_step rl ps) = length (ls @ log_lines (records_of ps)) - MAX_LOG_LINES_KEPT"
  using assms
proof (induction ps arbitrary: rl ls)
  case Nil
  then show ?case by (simp add: log_lines_def List.map_filter_def)
next
  case (Cons p ps)
  consider r where "p = Inr (Some (Log r))" | "log_lines (records_of [p]) = []"
      "rl_logs (log_file_step rl p) = rl_logs rl" "rl_dropped (log_file_step rl p) = rl_dropped rl"
    by (cases "(rl, p)" rule: log_file_step.cases)
      (auto simp: records_of_def log_lines_def List.map_filter_def)
  then show ?case
  proof cases
    case 1
    have "rl_logs (log_file_step rl p) = drop (length (ls @ [r]) - MAX_LOG_LINES_KEPT) (ls @ [r]) \<and>
        rl_dropped (log_file_step rl p) = length (ls @ [r]) - MAX_LOG_LINES_KEPT"
    proof (cases "MAX_LOG_LINES_KEPT \<le> length ls")
      case True
      then have "tl (drop (length ls - MAX_LOG_LINES_KEPT) ls) = drop (Suc (length ls) - MAX_LOG_LINES_KEPT) ls"
        by (simp add: tl_drop drop_Suc [symmetric] Suc_diff_le)
      moreover have "Suc 0 - MAX_LOG_LINES_KEPT = 0" by (simp add: MAX_LOG_LINES_KEPT_def)
      ultimately show ?thesis using True 1 Cons.prems by (simp add: Suc_diff_le)
    qed (use 1 Cons.prems in simp)
    with Cons.IH [of "log_file_step rl p" "ls @ [r]"] 1 show ?thesis
      by (simp add: log_lines_def records_of_def List.map_filter_def)
  next
    case 2
    have "log_lines (records_of (p # ps)) = log_lines (records_of [p]) @ log_lines (records_of ps)"
      by (simp add: log_lines_def records_of_def List.map_filter_def)
    with 2 have "log_lines (records_of (p # ps)) = log_lines (records_of ps)" by simp
    with Cons.IH [of "log_file_step rl p" ls] Cons.prems 2 show ?thesis by simp
  qed
qed

text \<open>The view of a job shows the last two thousand lines of its output and says how many it leaves out.\<close>

lemma detail_logs:
  assumes "map_of fs (log_name api i) = Some c"
  defines "ls \<equiv> log_lines (recs api (Some c))"
  shows "jdt_logs (detail api i fs) = drop (length ls - 2000) ls \<and>
    jdt_dropped_leading_logs (detail api i fs) = length ls - 2000"
  using log_file_steps [of _ "[]" "line_results (rec_of_json api) c"] assms(1)
  by (simp add: ls_def detail_def Let_def read_log_file_def MAX_LOG_LINES_KEPT_def)

section \<open>An evaluated directory\<close>

definition ex_show :: "JobId \<Rightarrow> string" where "ex_show i = replicate (unat i) (CHR ''x'')"

definition ex_parse :: "string \<Rightarrow> JobId option" where
  "ex_parse s = (if \<forall>c \<in> set s. c = CHR ''x'' then Some (word_of_nat (length s)) else None)"

definition ex_start :: StartRecord where
  "ex_start = \<lparr>st_schema = 1, st_id = ''x'', st_command = ''backup'', st_profile = None,
     st_args_masked = [], st_started_at = 5, st_pid = None\<rparr>"

definition ex_end :: EndRecord where
  "ex_end = \<lparr>en_schema = 1, en_id = ''x'', en_finished_at = 7, en_outcome = ''succeeded'',
     en_exit_code = Some 0\<rparr>"

definition ex_api :: jobs_api where
  "ex_api = \<lparr>uuid_parse = ex_parse, uuid_show = ex_show,
     rec_to_json = (\<lambda>r. if r = Start ex_start then Some ''{1}'' else if r = End ex_end then Some ''{2}'' else None),
     rec_of_json = (\<lambda>s. if s = ''{1}'' then Some (Start ex_start) else if s = ''{2}'' then Some (End ex_end) else None)\<rparr>"

lemma ex_laws: "jobs_laws ex_api"
proof -
  have "\<exists>m. [CHR ''{'', c, CHR ''}''] = CHR ''{'' # m @ ''}''" for c by (rule exI [of _ "[c]"]) simp
  then have "line_codec (rec_to_json ex_api) (rec_of_json ex_api)"
    by (auto simp: line_codec_def ex_api_def nl_def byte_def max_depth_def MAX_JSON_DEPTH_def split: if_splits)
  then show ?thesis by (simp add: jobs_laws_def) (simp add: ex_api_def ex_parse_def ex_show_def)
qed

definition ex_job :: JobStart where
  "ex_job = \<lparr>jb_command = ''backup'', jb_profile = None, jb_args_masked = [], jb_started_at = 5, jb_pid = None\<rparr>"

definition ex_dir :: files where
  "ex_dir = [(''x.ndjson'', ''{1}'' @ [nl]), (''index.ndjson'', ''{1}'' @ [nl])]"

lemmas ex_jobs_eval = ex_api_def ex_show_def ex_parse_def ex_start_def ex_end_def ex_job_def ex_dir_def
  job_append_def append_line_def ends_with_newline_or_empty_def nl_def cr_def Let_def log_name_def
  JOB_LOG_FILE_SUFFIX_def JOB_INDEX_FILE_NAME_def JOB_HISTORY_SCHEMA_def

lemma ex_name: "log_name ex_api 1 = ''x.ndjson''"
  by (simp add: ex_jobs_eval)

lemma ex_ids: "collect_log_ids ex_api ex_dir = [1]"
  by (simp add: collect_log_ids_def strip_suffix_def ex_jobs_eval List.map_filter_def)

lemma ex_started: "job_start ex_api job_no_faults 200 1 ex_job [] = (Inr 1, ex_dir)"
proof -
  have "snd (rotate_blocking ex_api False (\<lambda>_. False) 200 ex_dir) = ex_dir"
    by (simp add: rotate_blocking_def ex_ids Let_def)
  then show ?thesis
    by (simp add: job_start_def job_no_faults_def) (simp add: ex_jobs_eval)
qed

lemma ex_history: "job_history ex_api 200 ex_dir"
  by (rule job_history.starts [OF job_history.nothing _ _ ex_started]) simp_all

lemma ex_recs: "recs ex_api (map_of ex_dir (log_name ex_api 1)) = [Start ex_start]"
    "recs ex_api (map_of ex_dir JOB_INDEX_FILE_NAME) = [Start ex_start]"
proof -
  have "recs ex_api (Some (''{1}'' @ [nl])) = [Start ex_start]"
  proof -
    have json: "rec_to_json ex_api (Start ex_start) = Some ''{1}''" by (simp add: ex_api_def)
    have codec: "line_codec (rec_to_json ex_api) (rec_of_json ex_api)"
      using ex_laws by (simp add: jobs_laws_def)
    note parse_line_codec [OF codec json]
    with line_results_append [of "''{1}''" "[]" "[]" "rec_of_json ex_api"]
    show ?thesis
      by (simp add: ends_with_newline_or_empty_def records_of_def List.map_filter_def)
  qed
  then show "recs ex_api (map_of ex_dir (log_name ex_api 1)) = [Start ex_start]"
    "recs ex_api (map_of ex_dir JOB_INDEX_FILE_NAME) = [Start ex_start]"
    unfolding ex_name by (simp_all add: ex_dir_def JOB_INDEX_FILE_NAME_def)
qed

lemma ex_rebuild: "\<exists>report fs'. rebuild_index_blocking ex_api rebuild_no_faults ex_dir = (Inr report, fs')"
proof -
  obtain c where c: "map_of ex_dir (log_name ex_api 1) = Some c" by (simp add: ex_name ex_dir_def)
  with ex_recs(1) have "rd_records (read_records ex_api (Some c)) = [Start ex_start]" "rd_present (read_records ex_api (Some c))"
    by (simp_all add: recs_def read_records_def Let_def)
  then show ?thesis using c
    by (simp add: rebuild_index_blocking_def rebuild_no_faults_def ex_ids Let_def) (simp add: ex_api_def)
qed

theorem rebuild_keeps_history_witness:
  "\<exists>report fs'. rebuild_index_blocking ex_api rebuild_no_faults ex_dir = (Inr report, fs') \<and>
     List.find (\<lambda>s. js_id s = 1) (jh_entries (job_list ex_api fs')) = Some (from_start 1 ex_start)"
proof -
  obtain report fs' where r: "rebuild_index_blocking ex_api rebuild_no_faults ex_dir = (Inr report, fs')"
    using ex_rebuild by blast
  have "job_of ex_api 1 [Start ex_start] = Some (from_start 1 ex_start)"
    using job_of_Start [of ex_api 1 "[]" ex_start] by (simp add: ex_api_def ex_parse_def ex_start_def carry_end_def)
  with rebuild_keeps_history [OF ex_history ex_laws r, of 1] r ex_recs show ?thesis
    by (auto simp: find_list)
qed

theorem append_is_read_back_witness:
  "\<exists>fs'. job_append ex_api None JOB_INDEX_FILE_NAME (End ex_end) Synced ex_dir = (Inr (), fs') \<and>
     rd_records (read_records ex_api (map_of fs' JOB_INDEX_FILE_NAME)) = [Start ex_start, End ex_end]"
proof -
  let ?a = "job_append ex_api None JOB_INDEX_FILE_NAME (End ex_end) Synced ex_dir"
  have "fst ?a = Inr ()" by (simp add: ex_jobs_eval)
  then have a: "?a = (Inr (), snd ?a)" by (simp add: prod_eq_iff)
  with append_is_read_back [OF ex_laws a] ex_recs(2) show ?thesis
    by (intro exI [of _ "snd ?a"]) (simp add: recs_def)
qed

theorem rotate_exact_witness:
  "\<exists>n fs'. rotate_blocking ex_api False (\<lambda>_. False) 0 ex_dir = (Inr n, fs') \<and> n = 1 \<and>
     collect_log_ids ex_api fs' = [] \<and> job_list ex_api fs' = job_list ex_api ex_dir"
proof -
  have can: "canonical ex_api ex_dir" using job_history_ok [OF ex_history ex_laws] by (simp add: logs_ok_def)
  have "\<exists>n fs'. rotate_blocking ex_api False (\<lambda>_. False) 0 ex_dir = (Inr n, fs')"
    by (simp add: rotate_blocking_def Let_def case_prod_unfold ex_ids)
  then obtain n fs' where r: "rotate_blocking ex_api False (\<lambda>_. False) 0 ex_dir = (Inr n, fs')" by blast
  from rotate_exact [OF can ex_laws r] r show ?thesis by (simp add: ex_ids)
qed

theorem finish_persistent_closes_witness:
  "\<exists>s. List.find (\<lambda>s. js_id s = 1) (jh_entries (job_list ex_api (snd (finish_persistent ex_api
     (\<lambda>k. if k = 0 then (Some OpenFails, None) else (None, None)) (\<lambda>_. 7) 1 Succeeded ex_dir)))) = Some s \<and>
     \<not> is_running s \<and> js_outcome s = Some ''succeeded''"
proof -
  let ?ft = "\<lambda>k. if k = (0::nat) then (Some OpenFails, None) else (None, None)"
  have e: "end_record ex_api 7 1 Succeeded = End ex_end"
    by (simp add: end_record_def ex_jobs_eval exit_codes_def)
  have json: "rec_to_json ex_api (end_record ex_api 7 1 Succeeded) \<noteq> None" unfolding e by (simp add: ex_api_def)
  have j: "job_of ex_api 1 [Start ex_start] = Some (from_start 1 ex_start)"
    using job_of_Start [of ex_api 1 "[]" ex_start] by (simp add: ex_api_def ex_parse_def ex_start_def carry_end_def)
  have k: "\<exists>k<3. ?ft k = (None, None)" by (rule exI [of _ 1]) simp
  note closes = finish_persistent_closes [where now = "\<lambda>_. 7" and outcome = Succeeded and i = 1
      and ft = ?ft and fs = ex_dir, OF ex_laws json]
  have "fst (finish_persistent ex_api ?ft (\<lambda>_. 7) 1 Succeeded ex_dir) = Inr ()"
    using closes [THEN conjunct1] k by blast
  moreover have "List.find (\<lambda>s. js_id s = 1) (jh_entries (job_list ex_api ex_dir)) = Some (from_start 1 ex_start)"
    using j ex_recs(2) by (simp add: find_list)
  ultimately show ?thesis using closes [THEN conjunct2] by fastforce
qed

end
