(* ===== verification/XB_Lifecycle.thy ===== *)
theory XB_Lifecycle
  imports XB_Lock XB_Jobs
begin

text \<open>
  Telling a job's process from a stranger with the same number, cancelling it
  (\<open>web/job/lifecycle.rs\<close>) and closing the jobs a dead console left open
  (\<open>web/reattach.rs\<close>). The operating system answers each question at the instant it is asked:
  \<open>os\<close> maps the number of the question to the answer, and every question moves the count on.
  Times are in nanoseconds, delays in milliseconds.
\<close>

section \<open>Questions to the operating system\<close>

text \<open>\<open>os_waitid\<close>: \<open>None\<close> when the call fails, else the \<open>si_pid\<close> it filled in; \<open>os_signal\<close>: the error
  number of a signal to a process group, if any; \<open>os_late\<close>: how much longer a sleep takes.\<close>

record os =
  os_waitid :: "nat \<Rightarrow> u32 \<Rightarrow> int option"
  os_kill0 :: "nat \<Rightarrow> int \<Rightarrow> int option"
  os_stat :: "nat \<Rightarrow> u32 \<Rightarrow> string option"
  os_proc_stat :: "nat \<Rightarrow> string option"
  os_clk_tck :: int
  os_cmdline :: "nat \<Rightarrow> u32 \<Rightarrow> string option"
  os_signal :: "nat \<Rightarrow> int \<Rightarrow> int \<Rightarrow> int option"
  os_late :: "nat \<Rightarrow> nat"

definition EPERM :: int where "EPERM = 1"
definition SIGKILL :: int where "SIGKILL = 9"
definition SIGTERM :: int where "SIGTERM = 15"

definition CANCEL_POLL_INTERVAL :: nat where "CANCEL_POLL_INTERVAL = 200"
definition KILL_CONFIRM_TIMEOUT :: nat where "KILL_CONFIRM_TIMEOUT = 2000"
definition START_TIME_TOLERANCE_MS :: int where "START_TIME_TOLERANCE_MS = 2000"
definition CANCEL_GRACE_DEFAULT :: nat where "CANCEL_GRACE_DEFAULT = 30000"

definition waitid_peek :: "os \<Rightarrow> nat \<Rightarrow> u32 \<Rightarrow> bool option" where
  "waitid_peek os t pid = map_option (\<lambda>si_pid. si_pid = sint pid) (os_waitid os t pid)"

definition pid_finished :: "os \<Rightarrow> nat \<Rightarrow> u32 \<Rightarrow> bool" where
  "pid_finished os t pid = (case waitid_peek os t pid of
     Some finished \<Rightarrow> finished | None \<Rightarrow> \<not> pid_alive (os_kill0 os t) pid)"

section \<open>The start time of a process\<close>

text \<open>\<open>str::parse::<i64>\<close>: an optional sign and digits, within 64 bits.\<close>

definition digits_value :: "string \<Rightarrow> int" where
  "digits_value s = foldl (\<lambda>n c. 10 * n + int (of_char c - 48)) 0 s"

definition parse_i64 :: "string \<Rightarrow> int option" where
  "parse_i64 s = (let neg = (s \<noteq> [] \<and> hd s = CHR ''-'');
      ds = (if s \<noteq> [] \<and> (hd s = CHR ''-'' \<or> hd s = CHR ''+'') then tl s else s);
      n = (if neg then - digits_value ds else digits_value ds) in
    if ds \<noteq> [] \<and> list_all is_ascii_digit ds \<and> - (2 ^ 63) \<le> n \<and> n < 2 ^ 63 then Some n else None)"

text \<open>\<open>rsplit_once(')').1\<close>: what follows the last closing parenthesis.\<close>

definition after_last :: "char \<Rightarrow> string \<Rightarrow> string option" where
  "after_last d s = (if d \<in> set s then Some (rev (takeWhile (\<lambda>c. c \<noteq> d) (rev s))) else None)"

definition saturating_mul :: "int \<Rightarrow> int \<Rightarrow> int" where
  "saturating_mul a b = min (max (a * b) (- (2 ^ 63))) (2 ^ 63 - 1)"

text \<open>The division of \<open>i64\<close> rounds towards zero.\<close>

definition quot :: "int \<Rightarrow> int \<Rightarrow> int" where
  "quot a b = (if 0 \<le> a then a div b else - ((- a) div b))"

definition strip_prefix :: "string \<Rightarrow> string \<Rightarrow> string option" where
  "strip_prefix p s = (if take (length p) s = p then Some (drop (length p) s) else None)"

text \<open>\<open>linux_boot_time\<close>: the first line that starts with \<open>btime\<close>, in nanoseconds.\<close>

fun boot_line :: "string list \<Rightarrow> int option" where
  "boot_line [] = None"
| "boot_line (l # ls) = (case strip_prefix ''btime '' l of
     Some rest \<Rightarrow> map_option (\<lambda>s. s * 10 ^ 9) (parse_i64 (trim rest))
   | None \<Rightarrow> boot_line ls)"

definition linux_boot_time :: "string option \<Rightarrow> int option" where
  "linux_boot_time stat = (case stat of None \<Rightarrow> None | Some s \<Rightarrow> boot_line (buf_lines s))"

definition os_process_start_time :: "os \<Rightarrow> nat \<Rightarrow> u32 \<Rightarrow> int option" where
  "os_process_start_time os t pid = (case os_stat os t pid of None \<Rightarrow> None
   | Some stat \<Rightarrow> (case after_last (CHR '')'') stat of None \<Rightarrow> None
     | Some after_comm \<Rightarrow>
         let fields = split_whitespace after_comm in
         if length fields \<le> 19 then None
         else (case parse_i64 (fields ! 19) of None \<Rightarrow> None
           | Some starttime_ticks \<Rightarrow>
               if os_clk_tck os \<le> 0 then None
               else (case linux_boot_time (os_proc_stat os t) of None \<Rightarrow> None
                 | Some boot_time \<Rightarrow>
                     Some (boot_time + quot (saturating_mul starttime_ticks 1000) (os_clk_tck os) * 10 ^ 6)))))"

text \<open>The arguments of a process, each ended by a NUL.\<close>

definition os_process_cmdline_contains :: "os \<Rightarrow> nat \<Rightarrow> u32 \<Rightarrow> string \<Rightarrow> bool option" where
  "os_process_cmdline_contains os t pid needle = (case os_cmdline os t pid of
     None \<Rightarrow> None
   | Some raw \<Rightarrow> if raw = [] then None else Some (needle \<in> set (split_on (CHR 0x00) raw)))"

section \<open>Identity\<close>

record identity =
  id_pid :: u32
  id_started_at :: int
  id_profile :: string

text \<open>The reasons of a refusal, as constructors.\<close>

datatype refusal =
    StartDiffers int | StartUnknown | ProfileMissing | CmdlineUnknown
  | SignalRefused | KillRefused

datatype Verified = Matches | AlreadyExited | Refused refusal

definition verify_identity :: "os \<Rightarrow> nat \<Rightarrow> u32 \<Rightarrow> int \<Rightarrow> string \<Rightarrow> Verified" where
  "verify_identity os t pid expected_started_at profile =
    (if pid_finished os t pid then AlreadyExited
     else case os_process_start_time os (t + 1) pid of
       None \<Rightarrow> Refused StartUnknown
     | Some actual \<Rightarrow>
         let diff_ms = \<bar>actual - expected_started_at\<bar> div 10 ^ 6 in
         if START_TIME_TOLERANCE_MS < diff_ms then Refused (StartDiffers diff_ms)
         else (case os_process_cmdline_contains os (t + 2) pid profile of
             Some True \<Rightarrow> Matches
           | Some False \<Rightarrow> Refused ProfileMissing
           | None \<Rightarrow> Refused CmdlineUnknown))"

section \<open>Signals and cancelling\<close>

datatype SignalOutcome = Sent | RefusedAlive

definition interpret_eperm :: "bool \<Rightarrow> SignalOutcome" where
  "interpret_eperm finished = (if finished then Sent else RefusedAlive)"

text \<open>\<open>kill(-pid, signal)\<close>. The result is the outcome with the next instant.\<close>

definition send_group_signal :: "os \<Rightarrow> nat \<Rightarrow> u32 \<Rightarrow> int \<Rightarrow> (XBackupError + SignalOutcome) \<times> nat" where
  "send_group_signal os t pid signal = (case os_signal os t (- sint pid) signal of
     None \<Rightarrow> (Inr Sent, t + 1)
   | Some err \<Rightarrow>
       if err = EPERM then (Inr (interpret_eperm (pid_finished os (t + 1) pid)), t + 2)
       else if err = ESRCH then (Inr Sent, t + 1)
       else (Inl (Failure ''cannot send the signal''), t + 1))"

text \<open>\<open>wait_for_exit\<close>: polls until the process has finished or no time remains; a sleep lasts at least
  as long as it was asked to.\<close>

function wait_for_exit :: "os \<Rightarrow> u32 \<Rightarrow> nat \<Rightarrow> nat \<Rightarrow> bool \<times> nat" where
  "wait_for_exit os pid t remaining =
    (if pid_finished os t pid then (True, t + 1)
     else if remaining = 0 then (False, t + 1)
     else wait_for_exit os pid (t + 1)
       (remaining - (min CANCEL_POLL_INTERVAL remaining + os_late os t)))"
  by pat_completeness auto
termination
  by (relation "measure (\<lambda>(os, pid, t, remaining). remaining)") (auto simp: CANCEL_POLL_INTERVAL_def)

declare wait_for_exit.simps [simp del]

datatype CancelOutcome = AlreadyExitedC | Terminated | KilledAfterGrace | RefusedC refusal

fun terminating_signal :: "CancelOutcome \<Rightarrow> int option" where
  "terminating_signal Terminated = Some SIGTERM"
| "terminating_signal KilledAfterGrace = Some SIGKILL"
| "terminating_signal AlreadyExitedC = None"
| "terminating_signal (RefusedC _) = None"

text \<open>\<open>cancel\<close>, with the signals it asked the system to send, each with its instant and target.\<close>

definition cancel ::
  "os \<Rightarrow> nat \<Rightarrow> identity \<Rightarrow> nat \<Rightarrow> (XBackupError + CancelOutcome) \<times> (nat \<times> int \<times> int) list" where
  "cancel os t job grace =
    (let pid = id_pid job in
     case verify_identity os t pid (id_started_at job) (id_profile job) of
       AlreadyExited \<Rightarrow> (Inr AlreadyExitedC, [])
     | Refused reason \<Rightarrow> (Inr (RefusedC reason), [])
     | Matches \<Rightarrow>
        let term1 = (t + 3, - sint pid, SIGTERM) in
        (case send_group_signal os (t + 3) pid SIGTERM of
           (Inl e, t1) \<Rightarrow> (Inl e, [term1])
         | (Inr RefusedAlive, t1) \<Rightarrow> (Inr (RefusedC SignalRefused), [term1])
         | (Inr Sent, t1) \<Rightarrow>
            (case wait_for_exit os pid t1 grace of
               (True, t2) \<Rightarrow> (Inr Terminated, [term1])
             | (False, t2) \<Rightarrow>
                let kill1 = (t2, - sint pid, SIGKILL) in
                (case send_group_signal os t2 pid SIGKILL of
                   (Inl e, t3) \<Rightarrow> (Inl e, [term1, kill1])
                 | (Inr RefusedAlive, t3) \<Rightarrow> (Inr (RefusedC KillRefused), [term1, kill1])
                 | (Inr Sent, t3) \<Rightarrow> (Inr KilledAfterGrace, [term1, kill1])))))"

section \<open>Reattaching after a restart\<close>

datatype ReattachDecision = Reattached | Crashed "refusal option"

definition classify_for_reattach :: "os \<Rightarrow> nat \<Rightarrow> identity \<Rightarrow> ReattachDecision" where
  "classify_for_reattach os t job =
    (case verify_identity os t (id_pid job) (id_started_at job) (id_profile job) of
       Matches \<Rightarrow> Reattached
     | AlreadyExited \<Rightarrow> Crashed None
     | Refused reason \<Rightarrow> Crashed (Some reason))"

definition identity_of :: "JobSummary \<Rightarrow> identity option" where
  "identity_of s = (case js_pid s of None \<Rightarrow> None
     | Some pid \<Rightarrow> (case js_profile s of None \<Rightarrow> None
       | Some profile \<Rightarrow> Some \<lparr>id_pid = pid, id_started_at = js_started_at s, id_profile = profile\<rparr>))"

record ReattachReport =
  ra_scanned :: nat
  ra_reattached :: nat
  ra_closed :: nat
  ra_stuck :: nat
  ra_skipped :: nat
  ra_rebuilt_index :: bool

text \<open>What goes wrong while the scan handles its \<open>k\<close>-th job, and the clock then.\<close>

record scan_env =
  se_unlistable :: bool
  se_rebuild :: rebuild_faults
  se_panics :: "nat \<Rightarrow> bool"
  se_instant :: "nat \<Rightarrow> nat"
  se_note :: "nat \<Rightarrow> append_fault option"
  se_finish :: "nat \<Rightarrow> nat \<Rightarrow> append_fault option \<times> append_fault option"
  se_now :: "nat \<Rightarrow> int"

definition REATTACHED_PROGRESS_LABEL :: string where
  "REATTACHED_PROGRESS_LABEL = ''reattached (progress unknown)''"

definition note_line :: "jobs_api \<Rightarrow> scan_env \<Rightarrow> nat \<Rightarrow> JobId \<Rightarrow> string \<Rightarrow> files \<Rightarrow> files" where
  "note_line api env k i txt fs = snd (append_log api (se_note env k) (se_now env k) i Note txt fs)"

definition close_job :: "jobs_api \<Rightarrow> scan_env \<Rightarrow> nat \<Rightarrow> JobId \<Rightarrow> string \<Rightarrow> files \<Rightarrow> bool \<times> files" where
  "close_job api env k i reason fs =
    (let fs1 = note_line api env k i (''Reattach scan: this job's process is gone ('' @ reason @ '')'') fs in
     case finish_persistent api (se_finish env k) (\<lambda>_. se_now env k) i Unknown fs1 of
       (Inr _, fs2) \<Rightarrow> (True, fs2) | (Inl _, fs2) \<Rightarrow> (False, fs2))"

type_synonym scan_state = "ReattachReport \<times> (JobId \<times> u32) list \<times> files"

definition count_close ::
  "jobs_api \<Rightarrow> scan_env \<Rightarrow> nat \<Rightarrow> JobId \<Rightarrow> string \<Rightarrow> scan_state \<Rightarrow> scan_state" where
  "count_close api env k i reason st = (case st of (report, watched, fs) \<Rightarrow>
     (case close_job api env k i reason fs of
        (True, fs1) \<Rightarrow> (report\<lparr>ra_closed := ra_closed report + 1\<rparr>, watched, fs1)
      | (False, fs1) \<Rightarrow> (report\<lparr>ra_stuck := ra_stuck report + 1\<rparr>, watched, fs1)))"

text \<open>The jobs the scan goes on watching are collected with their process.\<close>

fun scan_jobs ::
  "jobs_api \<Rightarrow> os \<Rightarrow> scan_env \<Rightarrow> nat \<Rightarrow> JobSummary list \<Rightarrow> scan_state \<Rightarrow> scan_state" where
  "scan_jobs api os env k [] st = st"
| "scan_jobs api os env k (s # ss) (report, watched, fs) =
    (let i = js_id s; report1 = report\<lparr>ra_scanned := ra_scanned report + 1\<rparr> in
     scan_jobs api os env (k + 1) ss
      (case identity_of s of
         Some job \<Rightarrow>
           if se_panics env k then (report1\<lparr>ra_skipped := ra_skipped report1 + 1\<rparr>, watched, fs)
           else (case classify_for_reattach os (se_instant env k) job of
             Reattached \<Rightarrow>
               (report1\<lparr>ra_reattached := ra_reattached report1 + 1\<rparr>, watched @ [(i, id_pid job)],
                note_line api env k i REATTACHED_PROGRESS_LABEL fs)
           | Crashed reason \<Rightarrow>
               count_close api env k i ''the process does not match'' (report1, watched, fs))
       | None \<Rightarrow> count_close api env k i ''no pid or profile was recorded'' (report1, watched, fs)))"

definition scan ::
  "jobs_api \<Rightarrow> os \<Rightarrow> scan_env \<Rightarrow> files \<Rightarrow> ReattachReport \<times> (JobId \<times> u32) list \<times> files" where
  "scan api os env fs =
    (let report0 = \<lparr>ra_scanned = 0, ra_reattached = 0, ra_closed = 0, ra_stuck = 0, ra_skipped = 0,
           ra_rebuilt_index = False\<rparr>;
         history = job_list api fs;
         (report, history1, fs1) =
           (if \<not> jh_index_present history \<and> has_log_files api (se_unlistable env) fs then
              (case rebuild_index_blocking api (se_rebuild env) fs of
                 (Inr _, fs1) \<Rightarrow> (report0\<lparr>ra_rebuilt_index := True\<rparr>, job_list api fs1, fs1)
               | (Inl _, fs1) \<Rightarrow> (report0, history, fs1))
            else (report0, history, fs)) in
     scan_jobs api os env 0 (filter is_running (jh_entries history1)) (report, [], fs1))"

section \<open>Cancelling reaches only the job, and says what happened\<close>

lemma wait_for_exit_spec:
  assumes "wait_for_exit os pid t remaining = (b, t')"
  shows "t < t' \<and> (if b then pid_finished os (t' - 1) pid else \<forall>k. t \<le> k \<and> k < t' \<longrightarrow> \<not> pid_finished os k pid)"
  using assms
proof (induction os pid t remaining rule: wait_for_exit.induct)
  case (1 os pid t remaining)
  show ?case
  proof (cases "pid_finished os t pid \<or> remaining = 0")
    case True
    with 1(2) show ?thesis
      by (subst (asm) wait_for_exit.simps) (auto simp: less_Suc_eq split: if_splits)
  next
    case False
    then have "wait_for_exit os pid (t + 1)
        (remaining - (min CANCEL_POLL_INTERVAL remaining + os_late os t)) = (b, t')"
      using 1(2) by (subst (asm) wait_for_exit.simps) simp
    from 1(1) [OF _ _ this] False show ?thesis
      by (auto split: if_splits) (metis Suc_leI le_neq_implies_less)
  qed
qed

text \<open>A signal counts as delivered when the system took it, or there was nobody left to take it.\<close>

definition delivered :: "os \<Rightarrow> nat \<Rightarrow> u32 \<Rightarrow> int \<Rightarrow> bool" where
  "delivered os t pid signal \<longleftrightarrow> os_signal os t (- sint pid) signal \<in> {None, Some ESRCH} \<or>
     os_signal os t (- sint pid) signal = Some EPERM \<and> pid_finished os (t + 1) pid"

text \<open>The first poll behind \<open>SIGTERM\<close>: a refusal is first checked against the process itself.\<close>

definition first_poll :: "os \<Rightarrow> nat \<Rightarrow> u32 \<Rightarrow> nat" where
  "first_poll os t pid = (if os_signal os (t + 3) (- sint pid) SIGTERM = Some EPERM then t + 5 else t + 4)"

lemma send_Sent:
  "send_group_signal os t pid signal = (Inr Sent, t') \<Longrightarrow> delivered os t pid signal"
  by (auto simp: send_group_signal_def delivered_def interpret_eperm_def split: option.splits if_splits)

lemma verify_Matches:
  assumes "verify_identity os t pid since profile = Matches"
  shows "\<not> pid_finished os t pid"
    and "\<exists>actual. os_process_start_time os (t + 1) pid = Some actual \<and>
      \<bar>actual - since\<bar> div 10 ^ 6 \<le> START_TIME_TOLERANCE_MS"
    and "os_process_cmdline_contains os (t + 2) pid profile = Some True"
  using assms by (auto simp: verify_identity_def Let_def split: if_splits option.splits bool.splits)

text \<open>C18: Cancelling a job signals nobody else. No signal is sent unless the process is alive, was started
  within two seconds of the recorded time and has the profile among its arguments; all signals go
  to the group of that process, the first is \<open>SIGTERM\<close>, and \<open>SIGKILL\<close> follows only when the first
  was delivered and no poll of the grace period saw the process end.\<close>

theorem cancel_reaches_only_the_job:
  assumes "cancel os t job grace = (r, signals)" "signals \<noteq> []"
  shows "\<not> pid_finished os t (id_pid job) \<and>
    (\<exists>actual. os_process_start_time os (t + 1) (id_pid job) = Some actual \<and>
       \<bar>actual - id_started_at job\<bar> div 10 ^ 6 \<le> 2000) \<and>
    os_process_cmdline_contains os (t + 2) (id_pid job) (id_profile job) = Some True \<and>
    (signals = [(t + 3, - sint (id_pid job), SIGTERM)] \<or>
     (\<exists>k. signals = [(t + 3, - sint (id_pid job), SIGTERM), (k, - sint (id_pid job), SIGKILL)] \<and>
        delivered os (t + 3) (id_pid job) SIGTERM \<and>
        (\<forall>j. first_poll os t (id_pid job) \<le> j \<and> j < k \<longrightarrow> \<not> pid_finished os j (id_pid job))))"
proof -
  let ?pid = "id_pid job"
  have m: "verify_identity os t ?pid (id_started_at job) (id_profile job) = Matches"
    using assms by (auto simp: cancel_def Let_def split: Verified.splits)
  have "signals = [(t + 3, - sint ?pid, SIGTERM)] \<or>
     (\<exists>k. signals = [(t + 3, - sint ?pid, SIGTERM), (k, - sint ?pid, SIGKILL)] \<and>
        delivered os (t + 3) ?pid SIGTERM \<and> (\<forall>j. first_poll os t ?pid \<le> j \<and> j < k \<longrightarrow> \<not> pid_finished os j ?pid))"
  proof (cases "\<exists>t1. send_group_signal os (t + 3) ?pid SIGTERM = (Inr Sent, t1)")
    case True
    then obtain t1 where t1: "send_group_signal os (t + 3) ?pid SIGTERM = (Inr Sent, t1)" by blast
    then have first: "t1 = first_poll os t ?pid"
      by (auto simp: send_group_signal_def first_poll_def EPERM_def ESRCH_def split: option.splits if_splits)
    obtain b t2 where w: "wait_for_exit os ?pid t1 grace = (b, t2)" by fastforce
    from wait_for_exit_spec [OF w] m t1 w assms(1) send_Sent [OF t1] first show ?thesis
      by (cases b) (auto simp: cancel_def Let_def split: prod.splits sum.splits SignalOutcome.splits)
  next
    case False
    with m assms(1) show ?thesis
      by (auto simp: cancel_def Let_def split: prod.splits sum.splits SignalOutcome.splits)
  qed
  with verify_Matches [OF m] show ?thesis by (simp add: START_TIME_TOLERANCE_MS_def)
qed

text \<open>The outcome of a cancellation is what was observed: \<open>Terminated\<close> only if the process was seen to
  have ended after \<open>SIGTERM\<close>, \<open>KilledAfterGrace\<close> only if \<open>SIGKILL\<close> was delivered,
  \<open>AlreadyExited\<close> only if it had ended before and nothing was sent; a signal that was refused while the process
  lives is never reported as a success.\<close>

theorem cancel_outcome_honest:
  assumes "cancel os t job grace = (Inr outcome, signals)"
  shows "case outcome of
      Terminated \<Rightarrow> delivered os (t + 3) (id_pid job) SIGTERM \<and> (\<exists>k > t + 3. pid_finished os k (id_pid job))
    | KilledAfterGrace \<Rightarrow> (\<exists>k. (k, - sint (id_pid job), SIGKILL) \<in> set signals \<and>
        delivered os k (id_pid job) SIGKILL)
    | AlreadyExitedC \<Rightarrow> signals = [] \<and> pid_finished os t (id_pid job)
    | RefusedC _ \<Rightarrow> True"
proof (cases "verify_identity os t (id_pid job) (id_started_at job) (id_profile job)")
  case AlreadyExited
  with assms show ?thesis
    by (auto simp: cancel_def Let_def verify_identity_def split: if_splits option.splits bool.splits)
next
  case (Refused x)
  with assms show ?thesis by (auto simp: cancel_def Let_def)
next
  case Matches
  let ?pid = "id_pid job"
  obtain s t1 where s: "send_group_signal os (t + 3) ?pid SIGTERM = (s, t1)" by fastforce
  show ?thesis
  proof (cases "s = Inr Sent")
    case False
    with assms s Matches show ?thesis
      by (cases s) (auto simp: cancel_def Let_def split: SignalOutcome.splits)
  next
    case sent: True
    have t1: "t + 3 < t1" using s by (auto simp: send_group_signal_def split: option.splits if_splits)
    obtain b t2 where w: "wait_for_exit os ?pid t1 grace = (b, t2)" by fastforce
    show ?thesis
    proof (cases b)
      case True
      with wait_for_exit_spec [OF w] t1 have "t + 3 < t2 - 1 \<and> pid_finished os (t2 - 1) ?pid" by auto
      with True assms s sent Matches w send_Sent show ?thesis
        by (auto simp: cancel_def Let_def)
    next
      case False
      obtain s2 t3 where "send_group_signal os t2 ?pid SIGKILL = (s2, t3)" by fastforce
      with False assms s sent Matches w send_Sent show ?thesis
        by (auto simp: cancel_def Let_def split: sum.splits SignalOutcome.splits)
    qed
  qed
qed

text \<open>A process whose name holds spaces and parentheses, which ends after the fourth question.\<close>

definition ex_os :: os where
  "ex_os = \<lparr>os_waitid = (\<lambda>t pid. Some (if t < 4 then 0 else sint pid)), os_kill0 = (\<lambda>_ _. None),
     os_stat = (\<lambda>_ _. Some ''7 (a) (b S) S 1 7 7 0 0 0 0 0 0 0 0 0 0 0 0 0 1 0 50 9''),
     os_proc_stat = (\<lambda>_. Some (''cpu 1'' @ [nl] @ ''btime 10'' @ [nl])), os_clk_tck = 100,
     os_cmdline = (\<lambda>_ _. Some (''--profile'' @ [CHR 0x00] @ ''prod'' @ [CHR 0x00])),
     os_signal = (\<lambda>_ _ _. None), os_late = (\<lambda>_. 0)\<rparr>"

definition ex_identity :: identity where
  "ex_identity = \<lparr>id_pid = 7, id_started_at = 11000000000, id_profile = ''prod''\<rparr>"

lemma ex_start_time: "os_process_start_time ex_os t 7 = Some 10500000000"
  by (simp add: os_process_start_time_def ex_os_def after_last_def split_whitespace_def
    is_whitespace_def parse_i64_def digits_value_def is_ascii_digit_def linux_boot_time_def
    buf_lines_def nl_def drop_cr_def cr_def strip_prefix_def trim_def quot_def saturating_mul_def Let_def)

lemma ex_cancel: "cancel ex_os 0 ex_identity 1000 = (Inr Terminated, [(3, - 7, SIGTERM)])"
proof -
  have "os_process_cmdline_contains ex_os t 7 ''prod'' = Some True" for t
    by (simp add: os_process_cmdline_contains_def ex_os_def)
  moreover have "pid_finished ex_os t 7 \<longleftrightarrow> 4 \<le> t" for t
    by (simp add: pid_finished_def waitid_peek_def ex_os_def not_less)
  moreover have "send_group_signal ex_os t 7 s = (Inr Sent, t + 1)" for t s
    by (simp add: send_group_signal_def ex_os_def)
  ultimately show ?thesis
    by (simp add: cancel_def ex_identity_def verify_identity_def ex_start_time Let_def
      START_TIME_TOLERANCE_MS_def wait_for_exit.simps [of ex_os 7 4])
qed

theorem cancel_reaches_only_the_job_witness:
  "\<not> pid_finished ex_os 0 7 \<and> os_process_cmdline_contains ex_os 2 7 ''prod'' = Some True"
  using cancel_reaches_only_the_job [OF ex_cancel] by (simp add: ex_identity_def numeral_2_eq_2)

theorem cancel_outcome_honest_witness:
  "delivered ex_os 3 7 SIGTERM \<and> (\<exists>k > 3. pid_finished ex_os k 7)"
  using cancel_outcome_honest [OF ex_cancel] by (simp add: ex_identity_def)

section \<open>After a restart no job stays open without a process\<close>

abbreviation index_recs :: "jobs_api \<Rightarrow> files \<Rightarrow> JobRecord list" where
  "index_recs api fs \<equiv> recs api (map_of fs JOB_INDEX_FILE_NAME)"

definition closed :: "jobs_api \<Rightarrow> JobId \<Rightarrow> files \<Rightarrow> bool" where
  "closed api i fs \<longleftrightarrow> (\<exists>s. job_of api i (index_recs api fs) = Some s \<and> \<not> is_running s)"

lemma note_line_index:
  assumes "jobs_laws api"
  shows "map_of (note_line api env k i txt fs) JOB_INDEX_FILE_NAME = map_of fs JOB_INDEX_FILE_NAME"
proof -
  obtain u fs' where "append_log api (se_note env k) (se_now env k) i Note txt fs = (u, fs')" by fastforce
  with job_append_grows(1) [of api "se_note env k" "log_name api i" _ Buffered fs u fs' JOB_INDEX_FILE_NAME]
  show ?thesis by (simp add: note_line_def append_log_def log_name_inj [OF assms])
qed

lemma close_job_index:
  assumes "jobs_laws api" "se_finish env k 0 = (None, None)"
    and "rec_to_json api (end_record api (se_now env k) i Unknown) \<noteq> None"
  shows "fst (close_job api env k i reason fs) \<and>
    index_recs api (snd (close_job api env k i reason fs)) =
      index_recs api fs @ [end_record api (se_now env k) i Unknown]"
proof -
  let ?fs1 = "note_line api env k i (''Reattach scan: this job's process is gone ('' @ reason @ '')'') fs"
  obtain fs2 where f: "finish api (None, None) (se_now env k) i Unknown ?fs1 = (Inr (), fs2)"
    using finish_ok [OF assms(3)] by blast
  then have "finish_persistent api (se_finish env k) (\<lambda>_. se_now env k) i Unknown ?fs1 = (Inr (), fs2)"
    by (simp add: finish_persistent_def FINISH_ATTEMPTS_def numeral_3_eq_3 assms(2))
  with finish_Inr [OF assms(1) f] show ?thesis
    by (simp add: close_job_def Let_def note_line_index [OF assms(1)] end_record_def)
qed

text \<open>One job of the scan, in a run whose writes of ends succeed.\<close>

definition scan_ok :: "jobs_api \<Rightarrow> scan_env \<Rightarrow> JobSummary list \<Rightarrow> bool" where
  "scan_ok api env ss \<longleftrightarrow> (\<forall>k. se_finish env k 0 = (None, None)) \<and>
     (\<forall>k. \<forall>s \<in> set ss. rec_to_json api (end_record api (se_now env k) (js_id s) Unknown) \<noteq> None)"

text \<open>The process of the job is the recorded one, by all three marks, when the scan looks.\<close>

definition verified :: "os \<Rightarrow> scan_env \<Rightarrow> JobSummary \<Rightarrow> bool" where
  "verified os env s \<longleftrightarrow> (\<exists>k job. identity_of s = Some job \<and>
     classify_for_reattach os (se_instant env k) job = Reattached)"

lemma scan_jobs_spec:
  assumes "jobs_laws api" "scan_ok api env ss"
    and "scan_jobs api os env k ss (report, watched, fs) = (report', watched', fs')"
  shows "(\<forall>i. job_of api i (index_recs api fs') = job_of api i (index_recs api fs) \<or> closed api i fs') \<and>
    (\<forall>i. (job_of api i (index_recs api fs') = None) = (job_of api i (index_recs api fs) = None)) \<and>
    (\<forall>s \<in> set ss. job_of api (js_id s) (index_recs api fs) \<noteq> None \<longrightarrow>
       closed api (js_id s) fs' \<or> verified os env s \<or> ra_skipped report < ra_skipped report') \<and>
    ra_stuck report' = ra_stuck report \<and> ra_skipped report \<le> ra_skipped report' \<and>
    ra_rebuilt_index report' = ra_rebuilt_index report"
  using assms(2,3)
proof (induction ss arbitrary: k report watched fs)
  case (Cons s ss)
  let ?i = "js_id s"
  obtain report1 watched1 fs1 where
    rest: "scan_jobs api os env (k + 1) ss (report1, watched1, fs1) = (report', watched', fs')"
    and r1: "ra_stuck report1 = ra_stuck report" "ra_skipped report \<le> ra_skipped report1"
      "ra_rebuilt_index report1 = ra_rebuilt_index report"
    and fs1: "index_recs api fs1 = index_recs api fs \<and> (verified os env s \<or> ra_skipped report < ra_skipped report1) \<or>
      index_recs api fs1 = index_recs api fs @ [end_record api (se_now env k) ?i Unknown]"
  proof (cases "\<exists>job. identity_of s = Some job \<and>
      (se_panics env k \<or> classify_for_reattach os (se_instant env k) job = Reattached)")
    case True
    then obtain job where job: "identity_of s = Some job"
      "se_panics env k \<or> classify_for_reattach os (se_instant env k) job = Reattached" by blast
    let ?report1 = "if se_panics env k then report\<lparr>ra_scanned := ra_scanned report + 1, ra_skipped := ra_skipped report + 1\<rparr>
      else report\<lparr>ra_scanned := ra_scanned report + 1, ra_reattached := ra_reattached report + 1\<rparr>"
    let ?fs1 = "if se_panics env k then fs else note_line api env k ?i REATTACHED_PROGRESS_LABEL fs"
    let ?watched1 = "if se_panics env k then watched else watched @ [(?i, id_pid job)]"
    have "scan_jobs api os env (k + 1) ss (?report1, ?watched1, ?fs1) = (report', watched', fs')"
      using Cons.prems job by (auto simp: Let_def split: if_splits)
    moreover have "index_recs api ?fs1 = index_recs api fs \<and>
        (verified os env s \<or> ra_skipped report < ra_skipped ?report1)"
      using job by (auto simp: verified_def note_line_index [OF assms(1)])
    moreover have "ra_stuck ?report1 = ra_stuck report" "ra_skipped report \<le> ra_skipped ?report1"
      "ra_rebuilt_index ?report1 = ra_rebuilt_index report" by simp_all
    ultimately show ?thesis using that by blast
  next
    case False
    have close: "fst (close_job api env k ?i reason fs)"
      "index_recs api (snd (close_job api env k ?i reason fs)) =
        index_recs api fs @ [end_record api (se_now env k) ?i Unknown]" for reason
      using close_job_index [OF assms(1)] Cons.prems(1) by (auto simp: scan_ok_def)
    let ?report1 = "report\<lparr>ra_scanned := ra_scanned report + 1\<rparr>"
    obtain reason where "scan_jobs api os env (k + 1) ss
        (count_close api env k ?i reason (?report1, watched, fs)) = (report', watched', fs')"
      using False Cons.prems
      by (auto simp: Let_def split: option.splits ReattachDecision.splits)
    moreover obtain fs1 where "close_job api env k ?i reason fs = (True, fs1)"
        "index_recs api fs1 = index_recs api fs @ [end_record api (se_now env k) ?i Unknown]"
      using close [of reason] by (cases "close_job api env k ?i reason fs") auto
    ultimately show ?thesis
      using that [of "?report1\<lparr>ra_closed := ra_closed ?report1 + 1\<rparr>" watched fs1]
      by (simp add: count_close_def)
  qed
  have ok: "scan_ok api env ss" using Cons.prems(1) by (auto simp: scan_ok_def)
  note IH = Cons.IH [OF ok rest]
  have parse: "uuid_parse api (uuid_show api ?i) = Some ?i" using assms(1) by (simp add: jobs_laws_def)
  have step: "job_of api j (index_recs api fs1) = job_of api j (index_recs api fs) \<or>
      j = ?i \<and> (\<exists>e. job_of api j (index_recs api fs1) =
        map_option (apply_end_record e) (job_of api j (index_recs api fs)))" for j
    using fs1 parse by (auto simp: end_record_def split: if_splits)
  have kept: "job_of api j (index_recs api fs1) = job_of api j (index_recs api fs) \<or> closed api j fs1" for j
    using step [of j] by (cases "job_of api j (index_recs api fs)")
      (auto simp: closed_def apply_end_record_def is_running_def)
  have none: "(job_of api j (index_recs api fs1) = None) = (job_of api j (index_recs api fs) = None)" for j
    using step [of j] by (elim disjE conjE exE) simp_all
  have stay: "closed api j fs'" if "closed api j fs1" for j
    using IH [THEN conjunct1, rule_format, of j] that by (auto simp: closed_def)
  have s: "closed api ?i fs1 \<or> verified os env s \<or> ra_skipped report < ra_skipped report1"
    if "job_of api ?i (index_recs api fs) \<noteq> None"
    using fs1 that parse by (auto simp: closed_def end_record_def apply_end_record_def is_running_def)
  have skip: "ra_skipped report1 \<le> ra_skipped report'"
    using IH by blast
  have "closed api (js_id t) fs' \<or> verified os env t \<or> ra_skipped report < ra_skipped report'"
    if t: "t \<in> set (s # ss)" "job_of api (js_id t) (index_recs api fs) \<noteq> None" for t
  proof (cases "t \<in> set ss")
    case True
    with IH [THEN conjunct2, THEN conjunct2, THEN conjunct1] none [of "js_id t"] t(2) r1(2) show ?thesis
      by (meson le_less_trans)
  next
    case False
    with t s have "closed api (js_id t) fs1 \<or> verified os env t \<or> ra_skipped report < ra_skipped report1" by simp
    with stay skip show ?thesis by (meson less_le_trans)
  qed
  moreover have "job_of api i (index_recs api fs') = job_of api i (index_recs api fs) \<or> closed api i fs'" for i
    using IH [THEN conjunct1] kept [of i] stay [of i] by metis
  moreover have "(job_of api i (index_recs api fs') = None) = (job_of api i (index_recs api fs) = None)" for i
    using IH [THEN conjunct2, THEN conjunct1] none [of i] by simp
  moreover have "ra_stuck report' = ra_stuck report \<and> ra_skipped report \<le> ra_skipped report' \<and>
      ra_rebuilt_index report' = ra_rebuilt_index report"
    using IH [THEN conjunct2, THEN conjunct2, THEN conjunct2] r1 by simp
  ultimately show ?case by blast
qed simp

text \<open>The entries of the history are the jobs of the index.\<close>

lemma entries_distinct: "distinct (map js_id (jh_entries (job_list api fs)))"
proof -
  have "sorted_wrt (\<lambda>a b. b < a) (map js_id (jh_entries (job_list api fs)))"
    using fold_index_entries(1) by (simp add: job_list_def sorted_wrt_map)
  moreover have "sorted_wrt (\<lambda>a b. b < a) js \<Longrightarrow> distinct js" for js :: "JobId list"
    by (induction js) auto
  ultimately show ?thesis by blast
qed

lemma entries_job_of:
  "s \<in> set (jh_entries (job_list api fs)) \<longleftrightarrow> job_of api (js_id s) (index_recs api fs) = Some s"
proof -
  have d: "distinct (map js_id (jh_entries (job_list api fs)))" by (rule entries_distinct)
  have "s \<in> set (jh_entries (job_list api fs)) \<longleftrightarrow>
      List.find (\<lambda>t. js_id t = js_id s) (jh_entries (job_list api fs)) = Some s"
  proof
    assume s: "s \<in> set (jh_entries (job_list api fs))"
    then obtain t where t: "List.find (\<lambda>t. js_id t = js_id s) (jh_entries (job_list api fs)) = Some t"
      by (cases "List.find (\<lambda>t. js_id t = js_id s) (jh_entries (job_list api fs))") (auto simp: find_None_iff)
    then have "t \<in> set (jh_entries (job_list api fs))" "js_id t = js_id s"
      by (auto simp: find_Some_iff)
    with d s have "t = s" by (auto simp: distinct_map dest: inj_onD)
    with t show "List.find (\<lambda>t. js_id t = js_id s) (jh_entries (job_list api fs)) = Some s" by simp
  qed (auto simp: find_Some_iff)
  then show ?thesis by (simp add: find_list)
qed

lemma entries_ids: "js_id ` set (jh_entries (job_list api fs)) = {i. job_of api i (index_recs api fs) \<noteq> None}"
proof (rule set_eqI)
  fix i
  have "job_of api i (index_recs api fs) \<noteq> None \<longleftrightarrow> (\<exists>s. job_of api i (index_recs api fs) = Some s \<and> js_id s = i)"
    using job_of_id by blast
  also have "\<dots> \<longleftrightarrow> (\<exists>s \<in> set (jh_entries (job_list api fs)). js_id s = i)"
    unfolding Bex_def entries_job_of by metis
  finally show "i \<in> js_id ` set (jh_entries (job_list api fs)) \<longleftrightarrow> i \<in> {i. job_of api i (index_recs api fs) \<noteq> None}"
    unfolding image_iff mem_Collect_eq by metis
qed

text \<open>The files and the history the scan works on: those it found, or those a rebuild of the index left.\<close>

lemma scan_start:
  assumes "scan api os env fs = (report, watched, fs')"
  obtains fs1 report1 where
    "scan_jobs api os env 0 (filter is_running (jh_entries (job_list api fs1))) (report1, [], fs1) = (report, watched, fs')"
    "ra_stuck report1 = 0" "ra_skipped report1 = 0"
    "fs1 = (if \<not> jh_index_present (job_list api fs) \<and> has_log_files api (se_unlistable env) fs
      then snd (rebuild_index_blocking api (se_rebuild env) fs) else fs) \<and>
      (ra_rebuilt_index report1 \<longleftrightarrow> \<not> jh_index_present (job_list api fs) \<and> has_log_files api (se_unlistable env) fs \<and>
        (\<exists>r. fst (rebuild_index_blocking api (se_rebuild env) fs) = Inr r))"
proof (cases "\<not> jh_index_present (job_list api fs) \<and> has_log_files api (se_unlistable env) fs")
  case False
  then show ?thesis using assms that by (auto simp: scan_def Let_def)
next
  case True
  obtain r fs1 where r: "rebuild_index_blocking api (se_rebuild env) fs = (r, fs1)" by fastforce
  show ?thesis
  proof (cases r)
    case (Inl err)
    with r have "map_of fs1 JOB_INDEX_FILE_NAME = map_of fs JOB_INDEX_FILE_NAME"
      by (auto simp: rebuild_index_blocking_def Let_def JOB_INDEX_FILE_NAME_def update_conv' delete_conv'
          split: if_splits sum.splits prod.splits option.splits)
    then have "job_list api fs1 = job_list api fs" by (simp add: job_list_def)
    with True r Inl show ?thesis using assms that by (auto simp: scan_def Let_def)
  next
    case (Inr x)
    with True r show ?thesis using assms that by (auto simp: scan_def Let_def)
  qed
qed

text \<open>C15: No job is left open behind a dead console. After the scan at start, whatever the directory held,
  in a run whose records of ends can be written: no job is counted as stuck, and, unless the report
  says that the judgement of a job was skipped, every job that the history still shows as open has its
  recorded process alive, started at the recorded time and carrying the profile; the others have been
  closed. When the index was missing and could be rebuilt from the log files, the same holds of the
  jobs of the rebuilt index, none of which is lost.\<close>

theorem no_job_stuck_after_restart:
  assumes "jobs_laws api"
    and "scan_ok api env (jh_entries (job_list api fs) @
      jh_entries (job_list api (snd (rebuild_index_blocking api (se_rebuild env) fs))))"
    and "scan api os env fs = (report, watched, fs')"
  shows "ra_stuck report = 0 \<and>
    (ra_skipped report = 0 \<longrightarrow> (\<forall>s \<in> set (jh_entries (job_list api fs')). is_running s \<longrightarrow> verified os env s)) \<and>
    (\<forall>r fs1. \<not> jh_index_present (job_list api fs) \<longrightarrow> has_log_files api (se_unlistable env) fs \<longrightarrow>
       rebuild_index_blocking api (se_rebuild env) fs = (Inr r, fs1) \<longrightarrow> ra_rebuilt_index report \<and>
       js_id ` set (jh_entries (job_list api fs')) = js_id ` set (jh_entries (job_list api fs1)))"
proof -
  obtain fs1 report1 where
    sj: "scan_jobs api os env 0 (filter is_running (jh_entries (job_list api fs1))) (report1, [], fs1) = (report, watched, fs')"
    and zero: "ra_stuck report1 = 0" "ra_skipped report1 = 0"
    and fs1: "fs1 = (if \<not> jh_index_present (job_list api fs) \<and> has_log_files api (se_unlistable env) fs
      then snd (rebuild_index_blocking api (se_rebuild env) fs) else fs) \<and>
      (ra_rebuilt_index report1 \<longleftrightarrow> \<not> jh_index_present (job_list api fs) \<and> has_log_files api (se_unlistable env) fs \<and>
        (\<exists>r. fst (rebuild_index_blocking api (se_rebuild env) fs) = Inr r))"
    by (rule scan_start [OF assms(3)])
  have ok: "scan_ok api env (filter is_running (jh_entries (job_list api fs1)))"
    using assms(2) fs1 by (auto simp: scan_ok_def split: if_splits)
  note spec = scan_jobs_spec [OF assms(1) ok sj]
  have "verified os env s" if skip: "ra_skipped report = 0" and s: "s \<in> set (jh_entries (job_list api fs'))" "is_running s" for s
  proof -
    have now: "job_of api (js_id s) (index_recs api fs') = Some s" using s(1) by (simp add: entries_job_of)
    have nc: "\<not> closed api (js_id s) fs'" using now s(2) by (simp add: closed_def)
    with spec [THEN conjunct1] now have "job_of api (js_id s) (index_recs api fs1) = Some s" by metis
    then have "s \<in> set (filter is_running (jh_entries (job_list api fs1)))" "job_of api (js_id s) (index_recs api fs1) \<noteq> None"
      using s(2) by (simp_all add: entries_job_of)
    with spec [THEN conjunct2, THEN conjunct2, THEN conjunct1] nc skip zero show ?thesis by fastforce
  qed
  moreover have "js_id ` set (jh_entries (job_list api fs')) = js_id ` set (jh_entries (job_list api fs1))"
    using spec [THEN conjunct2, THEN conjunct1] by (simp add: entries_ids)
  ultimately show ?thesis
    using spec [THEN conjunct2, THEN conjunct2, THEN conjunct2] zero fs1 by auto
qed

text \<open>
  The evaluated directory after its index was lost: the log file holds a running job without a process
  on record. The scan rebuilds the index and closes the job.
\<close>

definition ex_lost :: EndRecord where
  "ex_lost = \<lparr>en_schema = 1, en_id = ''x'', en_finished_at = 9, en_outcome = ''unknown'',
     en_exit_code = None\<rparr>"

definition ex_api2 :: jobs_api where
  "ex_api2 = ex_api\<lparr>
     rec_to_json := (\<lambda>r. if r = Start ex_start then Some ''{1}'' else if r = End ex_lost then Some ''{2}'' else None),
     rec_of_json := (\<lambda>s. if s = ''{1}'' then Some (Start ex_start) else if s = ''{2}'' then Some (End ex_lost) else None)\<rparr>"

definition ex_scan :: scan_env where
  "ex_scan = \<lparr>se_unlistable = False, se_rebuild = rebuild_no_faults, se_panics = (\<lambda>_. False),
     se_instant = (\<lambda>_. 0), se_note = (\<lambda>_. None), se_finish = (\<lambda>_ _. (None, None)), se_now = (\<lambda>_. 9)\<rparr>"

definition ex_unindexed :: files where
  "ex_unindexed = [(''x.ndjson'', ''{1}'' @ [nl])]"

definition ex_reindexed :: files where
  "ex_reindexed = [(''x.ndjson'', ''{1}'' @ [nl]), (''index.ndjson'', ''{1}'' @ [nl])]"

lemma ex_laws2: "jobs_laws ex_api2"
proof -
  have "\<exists>m. [CHR ''{'', c, CHR ''}''] = CHR ''{'' # m @ ''}''" for c by (rule exI [of _ "[c]"]) simp
  then have "line_codec (rec_to_json ex_api2) (rec_of_json ex_api2)"
    by (auto simp: line_codec_def ex_api2_def nl_def byte_def max_depth_def MAX_JSON_DEPTH_def split: if_splits)
  then show ?thesis using ex_laws by (simp add: jobs_laws_def) (simp add: ex_api2_def)
qed

lemma ex_read: "read_records ex_api2 (Some (''{1}'' @ [nl])) =
    \<lparr>rd_records = [Start ex_start], rd_unreadable = 0, rd_present = True\<rparr>"
proof -
  have json: "rec_to_json ex_api2 (Start ex_start) = Some ''{1}''" by (simp add: ex_api2_def)
  have codec: "line_codec (rec_to_json ex_api2) (rec_of_json ex_api2)"
    using ex_laws2 by (simp add: jobs_laws_def)
  note parse_line_codec [OF codec json]
  with line_results_append [of "''{1}''" "[]" "[]" "rec_of_json ex_api2"] show ?thesis
    by (simp add: ends_with_newline_or_empty_def read_records_def records_of_def bad_lines_def List.map_filter_def)
qed

lemma ex_entries: "jh_entries (job_list ex_api2 ex_reindexed) = [from_start 1 ex_start]"
    "jh_entries (job_list ex_api2 ex_unindexed) = []" "\<not> jh_index_present (job_list ex_api2 ex_unindexed)"
proof -
  have "map_of ex_reindexed JOB_INDEX_FILE_NAME = Some (''{1}'' @ [nl])"
    by (simp add: ex_reindexed_def JOB_INDEX_FILE_NAME_def)
  then show "jh_entries (job_list ex_api2 ex_reindexed) = [from_start 1 ex_start]"
    by (simp only: job_list_def fold_index_def ex_read)
      (simp add: ex_api2_def ex_api_def ex_parse_def ex_start_def bt_remove_def)
  have "map_of ex_unindexed JOB_INDEX_FILE_NAME = None"
    by (simp add: ex_unindexed_def JOB_INDEX_FILE_NAME_def)
  then show "jh_entries (job_list ex_api2 ex_unindexed) = []" "\<not> jh_index_present (job_list ex_api2 ex_unindexed)"
    by (simp_all add: job_list_def fold_index_def read_records_def)
qed

lemma ex_ids2: "collect_log_ids ex_api2 ex_unindexed = [1]"
  by (simp add: collect_log_ids_def strip_suffix_def ex_jobs_eval ex_api2_def ex_unindexed_def List.map_filter_def)

lemma ex_rebuild2:
  "rebuild_index_blocking ex_api2 rebuild_no_faults ex_unindexed =
    (Inr \<lparr>rr_jobs = 1, rr_records = 1, rr_unreadable_lines = 0\<rparr>, ex_reindexed)"
proof -
  have name: "log_name ex_api2 1 = ''x.ndjson''" by (simp add: ex_jobs_eval ex_api2_def)
  have log: "map_of ex_unindexed ''x.ndjson'' = Some (''{1}'' @ [nl])" by (simp add: ex_unindexed_def)
  have "rebuild_loop ex_api2 (\<lambda>_. False) ex_unindexed [1] \<lparr>rr_jobs = 0, rr_records = 0, rr_unreadable_lines = 0\<rparr> [] =
      Inr (\<lparr>rr_jobs = 1, rr_records = 1, rr_unreadable_lines = 0\<rparr>, ''{1}'' @ [nl])"
    by (simp only: rebuild_loop.simps name log ex_read Let_def if_False) (simp add: ex_api2_def)
  then show ?thesis
    by (simp add: rebuild_index_blocking_def rebuild_no_faults_def ex_ids2 Let_def)
      (simp add: ex_reindexed_def ex_unindexed_def JOB_INDEX_FILE_NAME_def)
qed

theorem no_job_stuck_after_restart_witness:
  "\<exists>report watched fs'. scan ex_api2 ex_os ex_scan ex_unindexed = (report, watched, fs') \<and>
     ra_stuck report = 0 \<and> ra_rebuilt_index report \<and>
     js_id ` set (jh_entries (job_list ex_api2 fs')) = {1} \<and>
     (ra_skipped report = 0 \<longrightarrow> (\<forall>s \<in> set (jh_entries (job_list ex_api2 fs')). is_running s \<longrightarrow> verified ex_os ex_scan s))"
proof -
  obtain report watched fs' where r: "scan ex_api2 ex_os ex_scan ex_unindexed = (report, watched, fs')"
    by (metis prod_cases3)
  have env: "se_rebuild ex_scan = rebuild_no_faults" "\<not> se_unlistable ex_scan" by (simp_all add: ex_scan_def)
  have "end_record ex_api2 9 1 Unknown = End ex_lost"
    by (simp add: end_record_def ex_api2_def ex_api_def ex_show_def ex_lost_def JOB_HISTORY_SCHEMA_def)
  then have ok: "scan_ok ex_api2 ex_scan (jh_entries (job_list ex_api2 ex_unindexed) @
      jh_entries (job_list ex_api2 (snd (rebuild_index_blocking ex_api2 (se_rebuild ex_scan) ex_unindexed))))"
    by (simp add: env ex_rebuild2 ex_entries scan_ok_def from_start_def) (simp add: ex_scan_def ex_api2_def)
  have logs: "has_log_files ex_api2 (se_unlistable ex_scan) ex_unindexed"
    using env by (simp add: has_log_files_def ex_ids2)
  have id: "js_id ` set (jh_entries (job_list ex_api2 ex_reindexed)) = {1}"
    by (simp add: ex_entries from_start_def)
  note all = no_job_stuck_after_restart [OF ex_laws2 ok r]
  from all [THEN conjunct2, THEN conjunct2, rule_format, OF ex_entries(3) logs, of _ ex_reindexed] ex_rebuild2 env(1) id
  have "ra_rebuilt_index report" "js_id ` set (jh_entries (job_list ex_api2 fs')) = {1}" by simp_all
  with r all [THEN conjunct1] all [THEN conjunct2, THEN conjunct1] show ?thesis
    by (intro exI [of _ report] exI [of _ watched] exI [of _ fs'] conjI)
qed

end
