(* ===== verification/XB_Crypto.thy ===== *)
theory XB_Crypto
  imports XB_Errors "HOL-Library.Sublist"
begin

unbundle bit_operations_syntax

text \<open>
  The symmetric encryption of a backup (\<open>crypto/aes_gcm.rs\<close>): the key, the frames of the wire format,
  the pumps that encrypt and decrypt, and the reader that surfaces the failure of a pump
  (\<open>crypto/mod.rs\<close>). The cipher (\<open>aead::stream\<close>) is a parameter. The lemmas show that decryption undoes
  encryption however the bytes arrive, that under the integrity of the cipher a decryption that
  succeeds yields a whole plaintext, and that a failed pump never looks like the end of a stream.
\<close>

section \<open>Readers\<close>

text \<open>
  A reader yields its bytes in pieces, as the source happens to deliver them, and then its end: the
  end of the stream or a failure. A read of no byte is the end, so no piece is empty.
\<close>

datatype io_error =
    UnexpectedEof
  | InputFailed
  | BadMagic
  | NoFrame
  | BadFrameLength nat
  | FrameTooLong
  | EncryptFailed
  | DecryptFailed
  | PumpPanicked

record reader =
  rd_pieces :: "bytes list"
  rd_fault :: "io_error option"

type_synonym stream = "bytes \<times> io_error option"

definition content :: "reader \<Rightarrow> stream" where
  "content r = (concat (rd_pieces r), rd_fault r)"

definition reader_ok :: "reader \<Rightarrow> bool" where
  "reader_ok r \<longleftrightarrow> [] \<notin> set (rd_pieces r)"

text \<open>\<open>AsyncReadExt::read\<close> into a buffer of \<open>n\<close> bytes.\<close>

definition rd :: "nat \<Rightarrow> reader \<Rightarrow> (io_error + bytes) \<times> reader" where
  "rd n r = (case rd_pieces r of
     [] \<Rightarrow> (case rd_fault r of None \<Rightarrow> (Inr [], r) | Some e \<Rightarrow> (Inl e, r))
   | p # ps \<Rightarrow> (if length p \<le> n then (Inr p, r\<lparr>rd_pieces := ps\<rparr>)
       else (Inr (take n p), r\<lparr>rd_pieces := drop n p # ps\<rparr>)))"

text \<open>The loop of \<open>read_exact_chunk\<close> on a buffer of \<open>n\<close> bytes, and of the library's \<open>read_exact\<close>.\<close>

function fill :: "nat \<Rightarrow> bytes \<Rightarrow> reader \<Rightarrow> (io_error + bytes) \<times> reader" where
  "fill n buf r =
     (if n \<le> length buf then (Inr buf, r)
      else case rd (n - length buf) r of
        (Inl e, r') \<Rightarrow> (Inl e, r')
      | (Inr x, r') \<Rightarrow> (if x = [] then (Inr buf, r') else fill n (buf @ x) r'))"
  by pat_completeness auto
termination
  by (relation "measure (\<lambda>(n, buf, r). n - length buf)") (auto intro!: diff_less_mono2)

declare fill.simps [simp del]

definition CHUNK_SIZE :: nat where "CHUNK_SIZE = 64 * 1024"
definition TAG_LEN :: nat where "TAG_LEN = 16"
definition NONCE_PREFIX_LEN :: nat where "NONCE_PREFIX_LEN = 7"

definition MAGIC :: bytes where
  "MAGIC = map of_char ''XBAESG01''"

definition read_exact_chunk :: "reader \<Rightarrow> (io_error + bytes) \<times> reader" where
  "read_exact_chunk r = fill CHUNK_SIZE [] r"

definition read_exact :: "nat \<Rightarrow> reader \<Rightarrow> (io_error + bytes) \<times> reader" where
  "read_exact n r = (case fill n [] r of
     (Inl e, r') \<Rightarrow> (Inl e, r')
   | (Inr x, r') \<Rightarrow> (if length x < n then (Inl UnexpectedEof, r') else (Inr x, r')))"

text \<open>What a filled buffer holds depends on the content of the reader only.\<close>

lemma rd_content:
  assumes "reader_ok r" and "0 < n"
  shows "(rd_pieces r = [] \<and> rd n r = (case rd_fault r of None \<Rightarrow> (Inr [], r) | Some e \<Rightarrow> (Inl e, r))) \<or>
    (\<exists>x r'. rd n r = (Inr x, r') \<and> x \<noteq> [] \<and> length x \<le> n \<and> reader_ok r' \<and> rd_fault r' = rd_fault r \<and>
       concat (rd_pieces r) = x @ concat (rd_pieces r'))"
  using assms by (cases "rd_pieces r") (auto simp: rd_def reader_ok_def)

lemma fill_content:
  assumes "reader_ok r" and "length buf \<le> n"
  shows "\<exists>r'. reader_ok r' \<and> (case content r of (b, f) \<Rightarrow>
    (if n - length buf \<le> length b
     then fill n buf r = (Inr (buf @ take (n - length buf) b), r') \<and> content r' = (drop (n - length buf) b, f)
     else content r' = ([], f) \<and>
       fill n buf r = ((case f of None \<Rightarrow> Inr (buf @ b) | Some e \<Rightarrow> Inl e), r')))"
  using assms
proof (induction n buf r rule: fill.induct)
  case (1 n buf r)
  show ?case
  proof (cases "n \<le> length buf")
    case True
    then show ?thesis using 1(2,3) by (intro exI [of _ r]) (simp add: fill.simps content_def)
  next
    case False
    then have n: "0 < n - length buf" by simp
    show ?thesis
    proof (cases "rd_pieces r = []")
      case True
      then show ?thesis using False 1(2) rd_content [OF 1(2) n]
        by (auto simp: fill.simps [of n buf r] content_def split: option.splits)
    next
      case nonempty: False
      obtain x r' where x: "rd (n - length buf) r = (Inr x, r')" "x \<noteq> []" "length x \<le> n - length buf"
        "reader_ok r'" "rd_fault r' = rd_fault r" "concat (rd_pieces r) = x @ concat (rd_pieces r')"
        using rd_content [OF 1(2) n] nonempty by blast
      have step: "fill n buf r = fill n (buf @ x) r'"
        using False x(1,2) by (simp add: fill.simps [of n buf r])
      have len: "length (buf @ x) \<le> n" using x(3) False by simp
      from 1(1) [OF False x(1) [symmetric] refl x(2) x(4) len]
      obtain r2 where r2: "reader_ok r2 \<and> (case content r' of (b, f) \<Rightarrow>
          (if n - length (buf @ x) \<le> length b
           then fill n (buf @ x) r' = (Inr ((buf @ x) @ take (n - length (buf @ x)) b), r2) \<and>
             content r2 = (drop (n - length (buf @ x)) b, f)
           else content r2 = ([], f) \<and>
             fill n (buf @ x) r' = ((case f of None \<Rightarrow> Inr ((buf @ x) @ b) | Some e \<Rightarrow> Inl e), r2)))" ..
      show ?thesis
        using r2 x(3,5,6) by (intro exI [of _ r2]) (auto simp: step content_def split: if_splits option.splits)
    qed
  qed
qed

lemma read_chunk_content:
  assumes "reader_ok r" and "content r = (b, None)"
  shows "\<exists>r'. read_exact_chunk r = (Inr (take CHUNK_SIZE b), r') \<and> reader_ok r' \<and>
    content r' = (drop CHUNK_SIZE b, None)"
  using fill_content [OF assms(1), of "[]" CHUNK_SIZE] assms(2)
  by (auto simp: read_exact_chunk_def split: if_splits)

lemma read_exact_content:
  assumes "reader_ok r" and "content r = (b, f)"
  shows "\<exists>r'. reader_ok r' \<and> content r' = (drop n b, f) \<and>
    read_exact n r = ((if length b < n then Inl (case f of None \<Rightarrow> UnexpectedEof | Some e \<Rightarrow> e)
      else Inr (take n b)), r')"
  using fill_content [OF assms(1), of "[]" n] assms(2)
  by (auto simp: read_exact_def split: if_splits option.splits)

section \<open>Frames\<close>

text \<open>
  What the code uses of \<open>aead::stream\<close>: sealing and opening a segment under a key and a nonce prefix.
  The position is the number of segments the encryptor or decryptor has handled before; a segment
  that is the last one goes through calls of its own.
\<close>

record aead_stream =
  as_encrypt_next :: "bytes \<Rightarrow> bytes \<Rightarrow> nat \<Rightarrow> bytes \<Rightarrow> bytes option"
  as_encrypt_last :: "bytes \<Rightarrow> bytes \<Rightarrow> nat \<Rightarrow> bytes \<Rightarrow> bytes option"
  as_decrypt_next :: "bytes \<Rightarrow> bytes \<Rightarrow> nat \<Rightarrow> bytes \<Rightarrow> bytes option"
  as_decrypt_last :: "bytes \<Rightarrow> bytes \<Rightarrow> nat \<Rightarrow> bytes \<Rightarrow> bytes option"

text \<open>\<open>u32::to_be_bytes\<close> and \<open>u32::from_be_bytes\<close>.\<close>

definition to_be_bytes :: "u32 \<Rightarrow> bytes" where
  "to_be_bytes w = map (\<lambda>k. ucast (drop_bit k w)) [24, 16, 8, 0]"

definition from_be_bytes :: "bytes \<Rightarrow> u32" where
  "from_be_bytes bs = foldl (\<lambda>w b. push_bit 8 w OR ucast b) 0 bs"

lemma from_to_be_bytes [simp]: "from_be_bytes (to_be_bytes w) = w"
proof (rule bit_word_eqI)
  fix n assume "n < LENGTH(32)"
  then have n: "n < 32" by simp
  consider "n < 8" | "8 \<le> n" "n < 16" | "16 \<le> n" "n < 24" | "24 \<le> n" by linarith
  then show "bit (from_be_bytes (to_be_bytes w)) n \<longleftrightarrow> bit w n"
    using n by cases (auto simp: from_be_bytes_def to_be_bytes_def bit_simps)
qed

lemma length_to_be_bytes [simp]: "length (to_be_bytes w) = 4"
  by (simp add: to_be_bytes_def)

text \<open>\<open>write_frame\<close>: what the sink holds afterwards.\<close>

definition write_frame :: "bytes \<Rightarrow> bytes \<Rightarrow> bytes \<times> (io_error + unit)" where
  "write_frame frame out =
     (if length frame < 2 ^ 32 then (out @ to_be_bytes (word_of_nat (length frame)) @ frame, Inr ())
      else (out, Inl FrameTooLong))"

definition read_frame :: "reader \<Rightarrow> (io_error + bytes option) \<times> reader" where
  "read_frame r = (case read_exact 4 r of
     (Inl e, r') \<Rightarrow> (if e = UnexpectedEof then (Inr None, r') else (Inl e, r'))
   | (Inr len_buf, r') \<Rightarrow>
       (let len = unat (from_be_bytes len_buf)
        in if len < TAG_LEN \<or> CHUNK_SIZE + TAG_LEN < len then (Inl (BadFrameLength len), r')
           else (case read_exact len r' of
              (Inl e, r'') \<Rightarrow> (Inl e, r'')
            | (Inr frame, r'') \<Rightarrow> (Inr (Some frame), r''))))"

text \<open>Reads take bytes off the front; this is why the loops below end.\<close>

lemma rd_takes: "rd n r = (Inr x, r') \<Longrightarrow> concat (rd_pieces r) = x @ concat (rd_pieces r')"
  by (auto simp: rd_def split: list.splits option.splits if_splits)

lemma rd_fails: "rd n r = (Inl e, r') \<Longrightarrow> r' = r"
  by (auto simp: rd_def split: list.splits option.splits if_splits)

lemma fill_takes:
  "fill n buf r = (Inr y, r') \<Longrightarrow> buf @ concat (rd_pieces r) = y @ concat (rd_pieces r')"
proof (induction n buf r rule: fill.induct)
  case (1 n buf r)
  show ?case
  proof (cases "n \<le> length buf")
    case True
    then show ?thesis using 1(2) by (simp add: fill.simps [of n buf r])
  next
    case False
    obtain q r1 where q: "rd (n - length buf) r = (q, r1)" by fastforce
    show ?thesis
      using 1(2) False q rd_takes [of "n - length buf" r] 1(1) [OF False q [symmetric]]
      by (auto simp: fill.simps [of n buf r] split: sum.splits if_splits)
  qed
qed

lemma read_chunk_takes:
  "read_exact_chunk r = (Inr x, r') \<Longrightarrow> concat (rd_pieces r) = x @ concat (rd_pieces r')"
  by (auto simp: read_exact_chunk_def dest: fill_takes)

lemma read_exact_takes:
  "read_exact n r = (Inr x, r') \<Longrightarrow> concat (rd_pieces r) = x @ concat (rd_pieces r') \<and> n \<le> length x"
  by (auto simp: read_exact_def dest: fill_takes split: prod.splits sum.splits if_splits)

lemma read_frame_takes:
  assumes "read_frame r = (Inr (Some f), r')"
  shows "length (concat (rd_pieces r')) < length (concat (rd_pieces r))"
proof -
  obtain lb r1 where lb: "read_exact 4 r = (Inr lb, r1)"
    and f: "\<exists>n. read_exact n r1 = (Inr f, r')"
    using assms by (auto simp: read_frame_def Let_def split: prod.splits sum.splits if_splits)
  from f obtain n where n: "read_exact n r1 = (Inr f, r')" ..
  show ?thesis
    using read_exact_takes [OF lb] read_exact_takes [OF n] by auto
qed

section \<open>Encryption\<close>

text \<open>\<open>pump_encrypt\<close>: the sink after the pump and how the pump ended. A chunk is sealed once it is
  known whether another one follows.\<close>

function encrypt_loop ::
  "aead_stream \<Rightarrow> bytes \<Rightarrow> bytes \<Rightarrow> nat \<Rightarrow> bytes \<Rightarrow> reader \<Rightarrow> bytes \<Rightarrow> bytes \<times> (io_error + unit)" where
  "encrypt_loop api key pre i current r out = (case read_exact_chunk r of
     (Inl e, r') \<Rightarrow> (out, Inl e)
   | (Inr next, r') \<Rightarrow>
       (if next = [] then (case as_encrypt_last api key pre i current of
          None \<Rightarrow> (out, Inl EncryptFailed)
        | Some frame \<Rightarrow> write_frame frame out)
        else (case as_encrypt_next api key pre i current of
          None \<Rightarrow> (out, Inl EncryptFailed)
        | Some frame \<Rightarrow> (case write_frame frame out of
            (out', Inl e) \<Rightarrow> (out', Inl e)
          | (out', Inr _) \<Rightarrow> encrypt_loop api key pre (Suc i) next r' out'))))"
  by pat_completeness auto
termination
  by (relation "measure (\<lambda>(api, key, pre, i, current, r, out). length (concat (rd_pieces r)))")
    (auto dest!: sym [of _ "read_exact_chunk _"] read_chunk_takes)

declare encrypt_loop.simps [simp del]

definition pump_encrypt ::
  "aead_stream \<Rightarrow> bytes \<Rightarrow> bytes \<Rightarrow> reader \<Rightarrow> bytes \<times> (io_error + unit)" where
  "pump_encrypt api key nonce_prefix r = (case read_exact_chunk r of
     (Inl e, r') \<Rightarrow> (MAGIC @ nonce_prefix, Inl e)
   | (Inr current, r') \<Rightarrow> encrypt_loop api key nonce_prefix 0 current r' (MAGIC @ nonce_prefix))"

section \<open>Decryption\<close>

function decrypt_loop ::
  "aead_stream \<Rightarrow> bytes \<Rightarrow> bytes \<Rightarrow> nat \<Rightarrow> bytes option \<Rightarrow> reader \<Rightarrow> bytes \<Rightarrow> bytes \<times> (io_error + unit)" where
  "decrypt_loop api key pre i current r out = (case read_frame r of
     (Inl e, r') \<Rightarrow> (out, Inl e)
   | (Inr next, r') \<Rightarrow> (case current of
        None \<Rightarrow> (out, Inl NoFrame)
      | Some frame \<Rightarrow> (case next of
          None \<Rightarrow> (case as_decrypt_last api key pre i frame of
             None \<Rightarrow> (out, Inl DecryptFailed)
           | Some plain \<Rightarrow> (out @ plain, Inr ()))
        | Some _ \<Rightarrow> (case as_decrypt_next api key pre i frame of
             None \<Rightarrow> (out, Inl DecryptFailed)
           | Some plain \<Rightarrow> decrypt_loop api key pre (Suc i) next r' (out @ plain)))))"
  by pat_completeness auto
termination
  by (relation "measure (\<lambda>(api, key, pre, i, current, r, out). length (concat (rd_pieces r)))")
    (auto dest!: sym [of _ "read_frame _"] read_frame_takes)

declare decrypt_loop.simps [simp del]

definition pump_decrypt :: "aead_stream \<Rightarrow> bytes \<Rightarrow> reader \<Rightarrow> bytes \<times> (io_error + unit)" where
  "pump_decrypt api key r = (case read_exact (length MAGIC) r of
     (Inl e, r1) \<Rightarrow> ([], Inl e)
   | (Inr magic, r1) \<Rightarrow>
       (if magic \<noteq> MAGIC then ([], Inl BadMagic)
        else (case read_exact NONCE_PREFIX_LEN r1 of
           (Inl e, r2) \<Rightarrow> ([], Inl e)
         | (Inr nonce_prefix, r2) \<Rightarrow>
             (case read_frame r2 of
                (Inl e, r3) \<Rightarrow> ([], Inl e)
              | (Inr current, r3) \<Rightarrow> decrypt_loop api key nonce_prefix 0 current r3 []))))"

section \<open>Round trip\<close>

text \<open>The chunks of a plaintext: at least one, all full but the last.\<close>

function chop :: "bytes \<Rightarrow> bytes list" where
  "chop b = (if b = [] then [] else take CHUNK_SIZE b # chop (drop CHUNK_SIZE b))"
  by pat_completeness auto
termination
  by (relation "measure length") (auto simp: CHUNK_SIZE_def)

declare chop.simps [simp del]

lemma chop_Nil [simp]: "chop [] = []"
  by (simp add: chop.simps)

lemma chop_step: "b \<noteq> [] \<Longrightarrow> chop b = take CHUNK_SIZE b # chop (drop CHUNK_SIZE b)"
  by (simp add: chop.simps [of b])

definition plain_chunks :: "bytes \<Rightarrow> bytes list" where
  "plain_chunks b = (if b = [] then [[]] else chop b)"

lemma concat_chop: "concat (chop b) = b"
proof (induction b rule: chop.induct)
  case (1 b)
  then show ?case by (cases "b = []") (simp_all add: chop_step [of b])
qed

lemma concat_plain_chunks: "concat (plain_chunks b) = b"
  by (simp add: plain_chunks_def concat_chop)

lemma plain_chunks_Cons:
  "plain_chunks b = take CHUNK_SIZE b # chop (drop CHUNK_SIZE b)"
  by (simp add: plain_chunks_def chop_step [of b])

lemma chop_short: "c \<in> set (chop b) \<Longrightarrow> length c \<le> CHUNK_SIZE"
proof (induction b rule: chop.induct)
  case (1 b)
  then show ?case by (cases "b = []") (auto simp: chop_step [of b])
qed

lemma plain_chunks_short: "c \<in> set (plain_chunks b) \<Longrightarrow> length c \<le> CHUNK_SIZE"
  by (auto simp: plain_chunks_def chop_short split: if_splits)

text \<open>The frames of a list of chunks, from position \<open>i\<close> on: the last one is sealed as such.\<close>

fun seal :: "aead_stream \<Rightarrow> bytes \<Rightarrow> bytes \<Rightarrow> nat \<Rightarrow> bytes list \<Rightarrow> bytes list option" where
  "seal api key pre i [] = Some []"
| "seal api key pre i [c] = map_option (\<lambda>f. [f]) (as_encrypt_last api key pre i c)"
| "seal api key pre i (c # cs) = (case as_encrypt_next api key pre i c of
     None \<Rightarrow> None
   | Some f \<Rightarrow> map_option ((#) f) (seal api key pre (Suc i) cs))"

definition framed :: "bytes \<Rightarrow> bytes" where
  "framed f = to_be_bytes (word_of_nat (length f)) @ f"

text \<open>Opening gives back what was sealed at the same position; sealing adds the tag.\<close>

definition aead_correct :: "aead_stream \<Rightarrow> bool" where
  "aead_correct api \<longleftrightarrow> (\<forall>key pre i x f.
     (as_encrypt_next api key pre i x = Some f \<longrightarrow>
        as_decrypt_next api key pre i f = Some x \<and> length f = length x + TAG_LEN) \<and>
     (as_encrypt_last api key pre i x = Some f \<longrightarrow>
        as_decrypt_last api key pre i f = Some x \<and> length f = length x + TAG_LEN))"

lemma write_frame_ok: "length f < 2 ^ 32 \<Longrightarrow> write_frame f out = (out @ framed f, Inr ())"
  by (simp add: write_frame_def framed_def)

lemma encrypt_loop_seal:
  assumes "encrypt_loop api key pre i c r out = (out', Inr ())" and "reader_ok r"
    and "content r = (b, None)"
  shows "\<exists>fs. seal api key pre i (c # chop b) = Some fs \<and> out' = out @ concat (map framed fs)"
  using assms
proof (induction api key pre i c r out arbitrary: b rule: encrypt_loop.induct)
  case (1 api key pre i c r out)
  obtain r' where r': "read_exact_chunk r = (Inr (take CHUNK_SIZE b), r')" "reader_ok r'"
    "content r' = (drop CHUNK_SIZE b, None)"
    using read_chunk_content [OF 1(3,4)] by blast
  have size: "0 < CHUNK_SIZE" by (simp add: CHUNK_SIZE_def)
  show ?case
  proof (cases "b = []")
    case True
    then show ?thesis
      using 1(2) r'(1) by (auto simp: encrypt_loop.simps [of api key pre i c r out] write_frame_def framed_def split: option.splits if_splits)
  next
    case False
    then have ne: "take CHUNK_SIZE b \<noteq> []" using size by simp
    obtain f where f: "as_encrypt_next api key pre i c = Some f" "length f < 2 ^ 32"
      and loop: "encrypt_loop api key pre (Suc i) (take CHUNK_SIZE b) r' (out @ framed f) = (out', Inr ())"
      using 1(2) r'(1) ne
      by (auto simp: encrypt_loop.simps [of api key pre i c r out] write_frame_def framed_def
          split: option.splits if_splits)
    note wf = write_frame_ok [OF f(2), of out]
    obtain fs where "seal api key pre (Suc i) (take CHUNK_SIZE b # chop (drop CHUNK_SIZE b)) = Some fs"
      "out' = (out @ framed f) @ concat (map framed fs)"
      using 1(1) [OF r'(1) [symmetric] refl ne f(1) wf [symmetric] refl loop r'(2,3)] by blast
    then show ?thesis using f(1) False by (auto simp: chop_step [of b])
  qed
qed
lemma seal_encrypt_loop:
  assumes "seal api key pre i (c # chop b) = Some fs" and "\<forall>f \<in> set fs. length f < 2 ^ 32"
    and "reader_ok r" and "content r = (b, None)"
  shows "encrypt_loop api key pre i c r out = (out @ concat (map framed fs), Inr ())"
  using assms
proof (induction b arbitrary: i c r fs out rule: chop.induct)
  case (1 b)
  obtain r' where r': "read_exact_chunk r = (Inr (take CHUNK_SIZE b), r')" "reader_ok r'"
    "content r' = (drop CHUNK_SIZE b, None)"
    using read_chunk_content [OF 1(4,5)] by blast
  show ?case
  proof (cases "b = []")
    case True
    then show ?thesis
      using 1(2,3) r'(1) by (auto simp: encrypt_loop.simps [of api key pre i c r out]
          write_frame_def framed_def)
  next
    case False
    then have ne: "take CHUNK_SIZE b \<noteq> []" by (simp add: CHUNK_SIZE_def)
    obtain f gs where f: "as_encrypt_next api key pre i c = Some f" "fs = f # gs"
      "seal api key pre (Suc i) (take CHUNK_SIZE b # chop (drop CHUNK_SIZE b)) = Some gs"
      using 1(2) False by (auto simp: chop_step [of b] split: option.splits)
    have "encrypt_loop api key pre (Suc i) (take CHUNK_SIZE b) r' (out @ framed f) =
        ((out @ framed f) @ concat (map framed gs), Inr ())"
      using 1(3) f(2) by (intro 1(1) [OF False f(3) _ r'(2,3)]) simp
    then show ?thesis
      using r'(1) ne f(1,2) 1(3) write_frame_ok [of f out]
      by (simp add: encrypt_loop.simps [of api key pre i c r out])
  qed
qed

lemma seal_total:
  assumes "\<And>j x. j < i + length cs \<Longrightarrow> as_encrypt_next api key pre j x \<noteq> None \<and> as_encrypt_last api key pre j x \<noteq> None"
  shows "\<exists>fs. seal api key pre i cs = Some fs"
  using assms
proof (induction api key pre i cs rule: seal.induct)
  case (2 api key pre i c)
  then show ?case by auto
next
  case (3 api key pre i c d cs)
  obtain f where f: "as_encrypt_next api key pre i c = Some f" using 3(2) by fastforce
  have "\<exists>fs. seal api key pre (Suc i) (d # cs) = Some fs"
    using 3(2) by (intro 3(1) [OF f]) auto
  then show ?case using f by auto
qed simp

lemma seal_lengths:
  assumes "aead_correct api" and "seal api key pre i cs = Some fs" and "\<forall>c \<in> set cs. length c \<le> CHUNK_SIZE"
  shows "\<forall>f \<in> set fs. TAG_LEN \<le> length f \<and> length f \<le> CHUNK_SIZE + TAG_LEN"
  using assms
proof (induction api key pre i cs arbitrary: fs rule: seal.induct)
  case (3 api key pre i c d cs)
  then show ?case by (auto simp: aead_correct_def split: option.splits)
qed (auto simp: aead_correct_def)

lemma read_frame_framed:
  assumes "reader_ok r" and "content r = (framed f @ b, None)"
    and "TAG_LEN \<le> length f" and "length f \<le> CHUNK_SIZE + TAG_LEN"
  shows "\<exists>r'. read_frame r = (Inr (Some f), r') \<and> reader_ok r' \<and> content r' = (b, None)"
proof -
  have len: "unat (word_of_nat (length f) :: u32) = length f"
    using assms(4) by (simp add: unsigned_of_nat take_bit_nat_eq_self CHUNK_SIZE_def TAG_LEN_def)
  obtain r1 where r1: "reader_ok r1" "content r1 = (f @ b, None)"
    "read_exact 4 r = (Inr (to_be_bytes (word_of_nat (length f))), r1)"
    using read_exact_content [OF assms(1,2), of 4] by (auto simp: framed_def)
  obtain r2 where r2: "reader_ok r2" "content r2 = (b, None)" "read_exact (length f) r1 = (Inr f, r2)"
    using read_exact_content [OF r1(1,2), of "length f"] by auto
  show ?thesis using r1(3) r2 assms(3,4) by (simp add: read_frame_def len)
qed

lemma read_frame_end:
  assumes "reader_ok r" and "content r = ([], None)"
  shows "\<exists>r'. read_frame r = (Inr None, r')"
  using read_exact_content [OF assms, of 4] by (auto simp: read_frame_def)

lemma decrypt_loop_seal:
  assumes "aead_correct api" and "seal api key pre i (c # cs) = Some (f # fs)"
    and "\<forall>x \<in> set (c # cs). length x \<le> CHUNK_SIZE"
    and "reader_ok r" and "content r = (concat (map framed fs), None)"
  shows "decrypt_loop api key pre i (Some f) r out = (out @ c @ concat cs, Inr ())"
  using assms(2-)
proof (induction cs arbitrary: i c f fs r out)
  case Nil
  obtain r' where r': "read_frame r = (Inr None, r')"
    using read_frame_end [OF Nil(3)] Nil(1,4) by auto
  show ?case
    using r' Nil(1) assms(1) by (auto simp: decrypt_loop.simps [of _ _ _ _ _ r] aead_correct_def)
next
  case (Cons d ds)
  obtain gs where f: "as_encrypt_next api key pre i c = Some f"
    and gs: "seal api key pre (Suc i) (d # ds) = Some gs" "fs = gs"
    using Cons(2) by (auto split: option.splits)
  obtain g hs where g: "gs = g # hs"
    using gs(1) by (cases ds) (auto split: option.splits)
  have len: "TAG_LEN \<le> length g" "length g \<le> CHUNK_SIZE + TAG_LEN"
    using seal_lengths [OF assms(1) gs(1)] Cons(3) g by auto
  obtain r' where r': "read_frame r = (Inr (Some g), r')" "reader_ok r'"
    "content r' = (concat (map framed hs), None)"
    using read_frame_framed [OF Cons(4) _ len, of "concat (map framed hs)"] Cons(5) g gs(2) by auto
  have "decrypt_loop api key pre (Suc i) (Some g) r' (out @ c) = ((out @ c) @ d @ concat ds, Inr ())"
    using Cons(3) g gs(1) by (intro Cons(1) [OF _ _ r'(2,3)]) auto
  then show ?case
    using r'(1) f assms(1) by (simp add: decrypt_loop.simps [of _ _ _ _ _ r] aead_correct_def)
qed

lemma pump_encrypt_seal:
  assumes "reader_ok r" and "content r = (b, None)" and "pump_encrypt api key nonce r = (out, Inr ())"
  shows "\<exists>fs. seal api key nonce 0 (plain_chunks b) = Some fs \<and> out = MAGIC @ nonce @ concat (map framed fs)"
proof -
  obtain r' where r': "read_exact_chunk r = (Inr (take CHUNK_SIZE b), r')" "reader_ok r'"
    "content r' = (drop CHUNK_SIZE b, None)"
    using read_chunk_content [OF assms(1,2)] by blast
  show ?thesis
    using assms(3) r'(1) encrypt_loop_seal [OF _ r'(2,3)]
    by (fastforce simp: pump_encrypt_def plain_chunks_Cons)
qed

text \<open>A failed input never ends in a stream that looks whole.\<close>

lemma fill_fault:
  assumes "reader_ok r" and "content r = (b, Some e)" and "fill n [] r = (Inr x, r')" and "0 < n"
  shows "x \<noteq> [] \<and> reader_ok r' \<and> (\<exists>b'. content r' = (b', Some e))"
  using fill_content [OF assms(1), of "[]" n] assms(2-4) by (auto split: if_splits)

lemma encrypt_loop_fault:
  "reader_ok r \<Longrightarrow> content r = (b, Some e) \<Longrightarrow> snd (encrypt_loop api key pre i c r out) \<noteq> Inr ()"
proof (induction api key pre i c r out arbitrary: b rule: encrypt_loop.induct)
  case (1 api key pre i c r out)
  obtain x r' where x: "read_exact_chunk r = (x, r')" by fastforce
  show ?case
  proof (cases x)
    case (Inl e')
    then show ?thesis using x by (simp add: encrypt_loop.simps [of _ _ _ _ _ r])
  next
    case (Inr nxt)
    then obtain b' where nxt: "nxt \<noteq> []" "reader_ok r'" "content r' = (b', Some e)"
      using fill_fault [OF 1(2,3), of CHUNK_SIZE nxt r'] x by (auto simp: read_exact_chunk_def CHUNK_SIZE_def)
    have "snd (encrypt_loop api key pre (Suc i) nxt r' out') \<noteq> Inr ()"
      if "as_encrypt_next api key pre i c = Some f" "write_frame f out = (out', Inr u)" for f out' u
      using 1(1) [OF x [symmetric] Inr nxt(1) that(1) that(2) [symmetric] refl nxt(2,3)] .
    then show ?thesis
      using x Inr nxt(1) by (auto simp: encrypt_loop.simps [of _ _ _ _ _ r] split: option.split prod.split sum.split)
  qed
qed

lemma pump_encrypt_fault:
  assumes "reader_ok r" and "content r = (b, Some e)"
  shows "snd (pump_encrypt api key nonce r) \<noteq> Inr ()"
proof -
  obtain x r' where x: "read_exact_chunk r = (x, r')" by fastforce
  show ?thesis
  proof (cases x)
    case (Inr c)
    then obtain b' where "reader_ok r'" "content r' = (b', Some e)"
      using fill_fault [OF assms, of CHUNK_SIZE c r'] x by (auto simp: read_exact_chunk_def CHUNK_SIZE_def)
    then show ?thesis using x Inr encrypt_loop_fault by (simp add: pump_encrypt_def)
  qed (simp add: pump_encrypt_def x)
qed

lemma pump_decrypt_seal:
  assumes "aead_correct api" and "seal api key nonce 0 (plain_chunks b) = Some fs"
    and "length nonce = NONCE_PREFIX_LEN"
    and "reader_ok r" and "content r = (MAGIC @ nonce @ concat (map framed fs), None)"
  shows "pump_decrypt api key r = (b, Inr ())"
proof -
  obtain c cs where cs: "plain_chunks b = c # cs" by (simp add: plain_chunks_Cons)
  obtain f gs where f: "fs = f # gs"
    using assms(2) by (cases cs) (auto simp: cs split: option.splits)
  have len: "TAG_LEN \<le> length f" "length f \<le> CHUNK_SIZE + TAG_LEN"
    using seal_lengths [OF assms(1,2)] plain_chunks_short f by auto
  obtain r1 where r1: "reader_ok r1" "content r1 = (nonce @ concat (map framed fs), None)"
    "read_exact (length MAGIC) r = (Inr MAGIC, r1)"
    using read_exact_content [OF assms(4,5), of "length MAGIC"] by auto
  obtain r2 where r2: "reader_ok r2" "content r2 = (framed f @ concat (map framed gs), None)"
    "read_exact NONCE_PREFIX_LEN r1 = (Inr nonce, r2)"
    using read_exact_content [OF r1(1,2), of NONCE_PREFIX_LEN] assms(3) f by auto
  obtain r3 where r3: "read_frame r2 = (Inr (Some f), r3)" "reader_ok r3"
    "content r3 = (concat (map framed gs), None)"
    using read_frame_framed [OF r2(1,2) len] by blast
  have "decrypt_loop api key nonce 0 (Some f) r3 [] = ([] @ c @ concat cs, Inr ())"
    using assms(2) plain_chunks_short [of _ b] cs f
    by (intro decrypt_loop_seal [OF assms(1) _ _ r3(2,3)]) auto
  moreover have "c @ concat cs = b" using concat_plain_chunks [of b] cs by simp
  ultimately show ?thesis
    using r1(3) r2(3) r3(1) by (simp add: pump_decrypt_def)
qed
text \<open>How the bytes arrive does not matter.\<close>

lemma fill_cong:
  assumes "reader_ok r" and "reader_ok s" and "content r = content s"
  shows "\<exists>x r' s'. fill n [] r = (x, r') \<and> fill n [] s = (x, s') \<and> reader_ok r' \<and> reader_ok s' \<and>
    content r' = content s'"
proof -
  obtain b f where b: "content r = (b, f)" "content s = (b, f)" using assms(3) by (metis prod.exhaust)
  show ?thesis
    using fill_content [OF assms(1), of "[]" n] fill_content [OF assms(2), of "[]" n] b
    by (auto split: if_splits)
qed

lemma read_chunk_cong:
  "reader_ok r \<Longrightarrow> reader_ok s \<Longrightarrow> content r = content s \<Longrightarrow>
   \<exists>x r' s'. read_exact_chunk r = (x, r') \<and> read_exact_chunk s = (x, s') \<and> reader_ok r' \<and> reader_ok s' \<and>
    content r' = content s'"
  unfolding read_exact_chunk_def by (rule fill_cong)

lemma encrypt_loop_cong:
  "reader_ok r \<Longrightarrow> reader_ok s \<Longrightarrow> content r = content s \<Longrightarrow>
   encrypt_loop api key pre i c r out = encrypt_loop api key pre i c s out"
proof (induction api key pre i c r out arbitrary: s rule: encrypt_loop.induct)
  case (1 api key pre i c r out)
  obtain x r' s' where x: "read_exact_chunk r = (x, r')" "read_exact_chunk s = (x, s')"
    "reader_ok r'" "reader_ok s'" "content r' = content s'"
    using read_chunk_cong [OF 1(2-4)] by blast
  have "encrypt_loop api key pre (Suc i) nxt r' out' = encrypt_loop api key pre (Suc i) nxt s' out'"
    if "x = Inr nxt" "nxt \<noteq> []" "as_encrypt_next api key pre i c = Some f"
      "write_frame f out = (out', Inr u)" for nxt f out' u
    using 1(1) [OF x(1) [symmetric] that(1,2,3) that(4) [symmetric] refl x(3,4,5)] .
  note loop = this
  show ?case
  proof (cases x)
    case (Inl e)
    then show ?thesis
      using x(1,2) by (simp add: encrypt_loop.simps [of _ _ _ _ _ r] encrypt_loop.simps [of _ _ _ _ _ s])
  next
    case (Inr nxt)
    then show ?thesis
      using x(1,2) loop [OF Inr]
      by (simp add: encrypt_loop.simps [of _ _ _ _ _ r] encrypt_loop.simps [of _ _ _ _ _ s]
          split: option.split prod.split sum.split)
  qed
qed

lemma pump_encrypt_cong:
  assumes "reader_ok r" and "reader_ok s" and "content r = content s"
  shows "pump_encrypt api key nonce r = pump_encrypt api key nonce s"
proof -
  obtain x r' s' where x: "read_exact_chunk r = (x, r')" "read_exact_chunk s = (x, s')"
    "reader_ok r'" "reader_ok s'" "content r' = content s'"
    using read_chunk_cong [OF assms] by blast
  show ?thesis
    using x(1,2) encrypt_loop_cong [OF x(3-5), of api key nonce 0 _ "MAGIC @ nonce"]
    by (simp add: pump_encrypt_def split: sum.split)
qed

section \<open>Integrity\<close>

text \<open>
  The integrity of the cipher, for a set of runs, each with its nonce prefix and its plaintext: no
  two runs share a prefix, and a segment opens only where a run sealed it, at that position and with
  that flag.
\<close>

definition unforged :: "aead_stream \<Rightarrow> bytes \<Rightarrow> (bytes \<times> bytes) set \<Rightarrow> bool" where
  "unforged api key runs \<longleftrightarrow> (\<forall>p b b'. (p, b) \<in> runs \<and> (p, b') \<in> runs \<longrightarrow> b = b') \<and>
     (\<forall>p i f x. as_decrypt_next api key p i f = Some x \<longrightarrow>
        (\<exists>b. (p, b) \<in> runs \<and> Suc i < length (plain_chunks b) \<and> x = plain_chunks b ! i)) \<and>
     (\<forall>p i f x. as_decrypt_last api key p i f = Some x \<longrightarrow>
        (\<exists>b. (p, b) \<in> runs \<and> Suc i = length (plain_chunks b) \<and> x = plain_chunks b ! i))"

lemma unforged_unique: "unforged api key runs \<Longrightarrow> (p, b) \<in> runs \<Longrightarrow> (p, b') \<in> runs \<Longrightarrow> b = b'"
  unfolding unforged_def by blast

lemma unforged_next:
  "unforged api key runs \<Longrightarrow> as_decrypt_next api key p i f = Some x \<Longrightarrow>
   \<exists>b. (p, b) \<in> runs \<and> Suc i < length (plain_chunks b) \<and> x = plain_chunks b ! i"
  unfolding unforged_def by blast

lemma unforged_last:
  "unforged api key runs \<Longrightarrow> as_decrypt_last api key p i f = Some x \<Longrightarrow>
   \<exists>b. (p, b) \<in> runs \<and> Suc i = length (plain_chunks b) \<and> x = plain_chunks b ! i"
  unfolding unforged_def by blast

text \<open>What the pump has written at some moment: the first \<open>n\<close> chunks of a run.\<close>

definition opened :: "(bytes \<times> bytes) set \<Rightarrow> bytes \<Rightarrow> nat \<Rightarrow> bytes \<Rightarrow> bool" where
  "opened runs p n out \<longleftrightarrow> n = 0 \<and> out = [] \<or>
     (\<exists>b. (p, b) \<in> runs \<and> n \<le> length (plain_chunks b) \<and> out = concat (take n (plain_chunks b)))"

lemma opened_next:
  assumes "unforged api key runs" and "opened runs p n out" and "(p, b) \<in> runs" and "n < length (plain_chunks b)"
  shows "opened runs p (Suc n) (out @ plain_chunks b ! n)"
proof -
  have "out = concat (take n (plain_chunks b))"
    using assms(2) unforged_unique [OF assms(1) _ assms(3)] by (auto simp: opened_def)
  then show ?thesis
    using assms(3,4) by (auto simp: opened_def take_Suc_conv_app_nth intro!: exI [of _ b])
qed

lemma opened_all:
  assumes "unforged api key runs" and "opened runs p (length (plain_chunks b)) out" and "(p, b) \<in> runs"
  shows "out = b"
proof -
  have "plain_chunks b \<noteq> []" by (simp add: plain_chunks_Cons)
  then obtain b' where b': "(p, b') \<in> runs" "out = concat (take (length (plain_chunks b)) (plain_chunks b'))"
    using assms(2) by (auto simp: opened_def)
  have "b' = b" by (rule unforged_unique [OF assms(1) b'(1) assms(3)])
  then show ?thesis using b'(2) by (simp add: concat_plain_chunks)
qed

lemma decrypt_loop_opened:
  assumes "unforged api key runs" and "decrypt_loop api key p i cur r out = (out', res)"
    and "opened runs p i out"
  shows "(\<exists>n. opened runs p n out') \<and> (res = Inr () \<longrightarrow> (p, out') \<in> runs)"
  using assms
proof (induction api key p i cur r out rule: decrypt_loop.induct)
  case (1 api key p i cur r out)
  show ?case
  proof (cases "\<exists>frame nxt r'. read_frame r = (Inr nxt, r') \<and> cur = Some frame")
    case False
    then show ?thesis
      using 1(3,4) by (auto simp: decrypt_loop.simps [of _ _ _ _ _ r] split: sum.splits prod.splits option.splits)
  next
    case True
    then obtain frame nxt r' where f: "read_frame r = (Inr nxt, r')" "cur = Some frame" by blast
    show ?thesis
    proof (cases nxt)
      case None
      show ?thesis
      proof (cases "as_decrypt_last api key p i frame")
        case None
        then show ?thesis
          using 1(3,4) f \<open>nxt = None\<close> by (auto simp: decrypt_loop.simps [of _ _ _ _ _ r])
      next
        case (Some x)
        then obtain b where b: "(p, b) \<in> runs" "Suc i = length (plain_chunks b)" "x = plain_chunks b ! i"
          using unforged_last [OF 1(2)] by blast
        have o: "opened runs p (Suc i) (out @ x)"
          using opened_next [OF 1(2,4) b(1)] b(2,3) by simp
        have "out @ x = b"
          using opened_all [OF 1(2) _ b(1)] o b(2) by simp
        then show ?thesis
          using 1(3) f \<open>nxt = None\<close> Some b(1) o by (auto simp: decrypt_loop.simps [of _ _ _ _ _ r])
      qed
    next
      case nxt: (Some g)
      show ?thesis
      proof (cases "as_decrypt_next api key p i frame")
        case None
        then show ?thesis
          using 1(3,4) f nxt by (auto simp: decrypt_loop.simps [of _ _ _ _ _ r])
      next
        case (Some x)
        then obtain b where b: "(p, b) \<in> runs" "Suc i < length (plain_chunks b)" "x = plain_chunks b ! i"
          using unforged_next [OF 1(2)] by blast
        have o: "opened runs p (Suc i) (out @ x)"
          using opened_next [OF 1(2,4) b(1)] b(2,3) by simp
        have "decrypt_loop api key p (Suc i) nxt r' (out @ x) = (out', res)"
          using 1(3) f nxt Some by (simp add: decrypt_loop.simps [of _ _ _ _ _ r])
        then show ?thesis
          by (rule 1(1) [OF f(1) [symmetric] refl f(2) nxt Some 1(2) _ o])
      qed
    qed
  qed
qed

lemma pump_decrypt_opened:
  assumes "unforged api key runs" and "reader_ok r" and "pump_decrypt api key r = (out, res)"
  shows "(out \<noteq> [] \<longrightarrow> (\<exists>b. (take NONCE_PREFIX_LEN (drop (length MAGIC) (fst (content r))), b) \<in> runs \<and>
      prefix out b)) \<and>
    (res = Inr () \<longrightarrow> (take NONCE_PREFIX_LEN (drop (length MAGIC) (fst (content r))), out) \<in> runs)"
proof -
  obtain b f where b: "content r = (b, f)" by fastforce
  define p where "p = take NONCE_PREFIX_LEN (drop (length MAGIC) b)"
  obtain r1 where r1: "reader_ok r1" "content r1 = (drop (length MAGIC) b, f)"
    "fst (read_exact (length MAGIC) r) = Inr (take (length MAGIC) b) \<or>
     (\<exists>e. fst (read_exact (length MAGIC) r) = Inl e)" "snd (read_exact (length MAGIC) r) = r1"
    using read_exact_content [OF assms(2) b, of "length MAGIC"] by auto
  obtain r2 where r2: "fst (read_exact NONCE_PREFIX_LEN r1) = Inr p \<or>
     (\<exists>e. fst (read_exact NONCE_PREFIX_LEN r1) = Inl e)" "snd (read_exact NONCE_PREFIX_LEN r1) = r2"
    using read_exact_content [OF r1(1,2), of NONCE_PREFIX_LEN] by (auto simp: p_def)
  consider e where "out = []" "res = Inl e"
    | cur r3 where "decrypt_loop api key p 0 cur r3 [] = (out, res)"
    using assms(3) r1(3,4) r2
    by (fastforce simp: pump_decrypt_def split: prod.splits sum.splits if_splits)
  then show ?thesis
  proof cases
    case 2
    have "opened runs p 0 []" by (simp add: opened_def)
    then obtain n where n: "opened runs p n out" "res = Inr () \<longrightarrow> (p, out) \<in> runs"
      using decrypt_loop_opened [OF assms(1) 2] by blast
    have "\<exists>b. (p, b) \<in> runs \<and> prefix out b" if ne: "out \<noteq> []"
    proof -
      obtain b where b: "(p, b) \<in> runs" "out = concat (take n (plain_chunks b))"
        using n(1) ne by (auto simp: opened_def)
      have "concat (take n (plain_chunks b)) @ concat (drop n (plain_chunks b)) = b"
        by (metis append_take_drop_id concat_append concat_plain_chunks)
      then show ?thesis using b by (metis prefixI)
    qed
    then show ?thesis using n(2) b by (simp add: p_def)
  qed simp
qed

section \<open>The reader in front of a pump\<close>

text \<open>
  \<open>PumpReader\<close>: at each poll the pipe and, once the pipe is at its end, the task of the pump are
  asked. The answer of the task is its result, or the failure to join it. The state is whether the
  handle of the task is still there.
\<close>

datatype 'a poll = Pending | Ready 'a

type_synonym pump_end = "unit + (io_error + unit)"

definition poll_read ::
  "(io_error + bytes) poll \<Rightarrow> pump_end poll \<Rightarrow> bool \<Rightarrow> (io_error + bytes) poll \<times> bool" where
  "poll_read pipe task handle = (case pipe of
     Ready (Inr x) \<Rightarrow>
       (if x \<noteq> [] then (Ready (Inr x), handle)
        else if \<not> handle then (Ready (Inr []), handle)
        else (case task of
          Ready (Inr (Inr _)) \<Rightarrow> (Ready (Inr []), False)
        | Ready (Inr (Inl e)) \<Rightarrow> (Ready (Inl e), False)
        | Ready (Inl _) \<Rightarrow> (Ready (Inl PumpPanicked), False)
        | Pending \<Rightarrow> (Pending, handle)))
   | other \<Rightarrow> (other, handle))"

text \<open>
  The answers of a pipe into which the pump has written \<open>rest\<close> before it ended with \<open>res\<close>: the bytes
  in order, and the end once they are all delivered.
\<close>

fun answers :: "bytes \<Rightarrow> pump_end \<Rightarrow> ((io_error + bytes) poll \<times> pump_end poll) list \<Rightarrow> bool" where
  "answers rest res [] \<longleftrightarrow> True"
| "answers rest res ((pipe, task) # ps) \<longleftrightarrow> (task = Pending \<or> task = Ready res) \<and> (case pipe of
     Pending \<Rightarrow> answers rest res ps
   | Ready (Inr x) \<Rightarrow>
       (if x = [] then rest = [] \<and> answers rest res ps
        else prefix x rest \<and> answers (drop (length x) rest) res ps)
   | Ready (Inl _) \<Rightarrow> False)"

text \<open>A consumer that reads to the end: what it got and how the stream ended for it.\<close>

fun read_to_end ::
  "((io_error + bytes) poll \<times> pump_end poll) list \<Rightarrow> bool \<Rightarrow> bytes \<Rightarrow> (bytes \<times> io_error option) option" where
  "read_to_end [] handle got = None"
| "read_to_end ((pipe, task) # ps) handle got = (case poll_read pipe task handle of
     (Pending, handle') \<Rightarrow> read_to_end ps handle' got
   | (Ready (Inl e), handle') \<Rightarrow> Some (got, Some e)
   | (Ready (Inr x), handle') \<Rightarrow>
       (if x = [] then Some (got, None) else read_to_end ps handle' (got @ x)))"

definition end_fault :: "pump_end \<Rightarrow> io_error option" where
  "end_fault res = (case res of Inr (Inr _) \<Rightarrow> None | Inr (Inl e) \<Rightarrow> Some e | Inl _ \<Rightarrow> Some PumpPanicked)"

lemma read_to_end_content:
  "answers rest res ps \<Longrightarrow> read_to_end ps True got = Some s \<Longrightarrow> s = (got @ rest, end_fault res)"
proof (induction ps arbitrary: rest got)
  case (Cons q ps)
  obtain pipe task where q: "q = (pipe, task)" by fastforce
  show ?case
  proof (cases pipe)
    case Pending
    then show ?thesis using Cons q by (auto simp: poll_read_def)
  next
    case (Ready a)
    then obtain x where a: "a = Inr x" using Cons(2) q by (cases a) auto
    show ?thesis
    proof (cases "x = []")
      case True
      then show ?thesis
        using Cons(1) [of "[]" got] Cons(2,3) q Ready a
        by (cases task) (auto simp: poll_read_def end_fault_def split: sum.splits)
    next
      case False
      then obtain y where y: "rest = x @ y" using Cons(2) q Ready a by (auto simp: prefix_def)
      show ?thesis
        using Cons(1) [of y "got @ x"] Cons(2,3) q Ready a False y by (auto simp: poll_read_def)
    qed
  qed
qed simp

section \<open>Keys and stages\<close>

datatype stage_error =
    KeyNotHex
  | KeyLength nat
  | RecipientFile string
  | NoRecipient string
  | IdentityFile string
  | NoIdentity string
  | MissingRecipientFile
  | MissingAesKey
  | MissingEnv string
  | UnknownEncryption string
  | UnknownCompression string
  | KeySourceMismatch string

text \<open>\<open>hex::decode\<close> belongs to the \<open>hex\<close> crate.\<close>

definition decode_hex_key :: "(string \<Rightarrow> bytes option) \<Rightarrow> string \<Rightarrow> stage_error + bytes" where
  "decode_hex_key hex_decode hex_key = (case hex_decode (trim hex_key) of
     None \<Rightarrow> Inl KeyNotHex
   | Some key \<Rightarrow> if length key \<noteq> 32 then Inl (KeyLength (length key)) else Inr key)"

text \<open>
  A stage as what it makes of a stream; \<open>wrap\<close> spawns the pump and reads it through \<open>PumpReader\<close>. A
  failure of the input reaches the pump as a failed read.
\<close>

definition reader_of :: "stream \<Rightarrow> reader" where
  "reader_of s = \<lparr>rd_pieces = (if fst s = [] then [] else [fst s]), rd_fault = snd s\<rparr>"

lemma reader_of [simp]: "reader_ok (reader_of s)" "content (reader_of s) = s"
  by (cases s, simp_all add: reader_of_def reader_ok_def content_def)+

definition pumped :: "bytes \<times> (io_error + unit) \<Rightarrow> stream" where
  "pumped p = (fst p, end_fault (Inr (snd p)))"

definition aes_encrypt_wrap :: "aead_stream \<Rightarrow> bytes \<Rightarrow> bytes \<Rightarrow> stream \<Rightarrow> stream" where
  "aes_encrypt_wrap api nonce_prefix key s = pumped (pump_encrypt api key nonce_prefix (reader_of s))"

definition aes_decrypt_wrap :: "aead_stream \<Rightarrow> bytes \<Rightarrow> stream \<Rightarrow> stream" where
  "aes_decrypt_wrap api key s = pumped (pump_decrypt api key (reader_of s))"

lemma aes_wrap_undone:
  assumes "aead_correct api" and "length nonce = NONCE_PREFIX_LEN"
    and "aes_encrypt_wrap api nonce key (b, None) = (c, None)"
  shows "aes_decrypt_wrap api key (c, None) = (b, None)"
proof -
  have "pump_encrypt api key nonce (reader_of (b, None)) = (c, Inr ())"
    using assms(3) by (auto simp: aes_encrypt_wrap_def pumped_def end_fault_def prod_eq_iff split: sum.splits)
  then obtain fs where fs: "seal api key nonce 0 (plain_chunks b) = Some fs"
    "c = MAGIC @ nonce @ concat (map framed fs)"
    using pump_encrypt_seal [OF reader_of] by blast
  have "pump_decrypt api key (reader_of (c, None)) = (b, Inr ())"
    by (rule pump_decrypt_seal [OF assms(1) fs(1) assms(2)]) (simp_all add: fs(2))
  then show ?thesis by (simp add: aes_decrypt_wrap_def pumped_def end_fault_def)
qed

lemma aes_wrap_fault: "snd (aes_encrypt_wrap api nonce key (b, Some e)) \<noteq> None"
proof -
  have "snd (pump_encrypt api key nonce (reader_of (b, Some e))) \<noteq> Inr ()"
    by (rule pump_encrypt_fault [OF reader_of])
  then show ?thesis
    by (auto simp: aes_encrypt_wrap_def pumped_def end_fault_def split: sum.splits)
qed

section \<open>Properties\<close>

text \<open>C23: Encryption round trip. As long as the cipher seals every chunk, the pump that encrypts ends
  without failure whatever the plaintext, the empty one included, and the pump that decrypts gives the
  plaintext back from what was written, however the bytes of either stream are cut into reads.
\<close>

theorem encryption_roundtrip:
  assumes "aead_correct api" and "length nonce = NONCE_PREFIX_LEN"
    and "reader_ok r" and "content r = (b, None)"
    and "\<And>j x. j < length (plain_chunks b) \<Longrightarrow>
      as_encrypt_next api key nonce j x \<noteq> None \<and> as_encrypt_last api key nonce j x \<noteq> None"
  shows "\<exists>out. pump_encrypt api key nonce r = (out, Inr ()) \<and>
    (\<forall>r'. \<not> (reader_ok r' \<and> content r' = (out, None) \<and> pump_decrypt api key r' \<noteq> (b, Inr ())))"
proof -
  obtain fs where fs: "seal api key nonce 0 (plain_chunks b) = Some fs"
    using seal_total [of 0 "plain_chunks b" api key nonce] assms(5) by auto
  have short: "\<forall>f \<in> set fs. length f < 2 ^ 32"
    using seal_lengths [OF assms(1) fs] plain_chunks_short by (fastforce simp: CHUNK_SIZE_def TAG_LEN_def)
  obtain r' where r': "read_exact_chunk r = (Inr (take CHUNK_SIZE b), r')" "reader_ok r'"
    "content r' = (drop CHUNK_SIZE b, None)"
    using read_chunk_content [OF assms(3,4)] by blast
  have "encrypt_loop api key nonce 0 (take CHUNK_SIZE b) r' (MAGIC @ nonce) =
      ((MAGIC @ nonce) @ concat (map framed fs), Inr ())"
    using fs short r'(2,3) by (intro seal_encrypt_loop) (simp_all add: plain_chunks_Cons)
  then have "pump_encrypt api key nonce r = (MAGIC @ nonce @ concat (map framed fs), Inr ())"
    using r'(1) by (simp add: pump_encrypt_def)
  then show ?thesis using pump_decrypt_seal [OF assms(1) fs assms(2)] by blast
qed

text \<open>C22: No forged, cut or reordered backup decrypts. Under the integrity of the cipher, whatever bytes are
  given to the pump that decrypts, a run that ends without failure has written the whole plaintext of
  the backup that was encrypted with the nonce prefix of the header; a run that fails has written at
  most a beginning of it, and the reader in front of the pump ends with the failure, never with the
  end of the stream.
\<close>

theorem decryption_is_whole:
  assumes "unforged api key runs" and "reader_ok r" and "pump_decrypt api key r = (out, res)"
    and "answers out (Inr res) polls" and "read_to_end polls True [] = Some (got, fault)"
  shows "got = out \<and> (fault = None \<longleftrightarrow> res = Inr ()) \<and>
    (fault = None \<longrightarrow>
       (take NONCE_PREFIX_LEN (drop (length MAGIC) (fst (content r))), got) \<in> runs) \<and>
    (got \<noteq> [] \<longrightarrow> (\<exists>b. (take NONCE_PREFIX_LEN (drop (length MAGIC) (fst (content r))), b) \<in> runs \<and>
       prefix got b))"
proof -
  have got: "got = out" "fault = end_fault (Inr res)"
    using read_to_end_content [OF assms(4,5)] by simp_all
  then have "fault = None \<longleftrightarrow> res = Inr ()"
    by (auto simp: end_fault_def split: sum.splits)
  then show ?thesis using pump_decrypt_opened [OF assms(1-3)] got(1) by blast
qed

text \<open>
  Up to three bytes after the last frame are not noticed: the failed read of a length counts as
  the end.
\<close>

theorem trailing_bytes_ignored:
  assumes "aead_correct api" and "length nonce = NONCE_PREFIX_LEN"
    and "seal api key nonce 0 [x] = Some [f]" and "length x \<le> CHUNK_SIZE"
    and "reader_ok r" and "content r = (MAGIC @ nonce @ framed f @ junk, None)" and "length junk < 4"
  shows "pump_decrypt api key r = (x, Inr ())"
proof -
  have len: "TAG_LEN \<le> length f" "length f \<le> CHUNK_SIZE + TAG_LEN"
    using seal_lengths [OF assms(1,3)] assms(4) by auto
  obtain r1 where r1: "reader_ok r1" "content r1 = (nonce @ framed f @ junk, None)"
    "read_exact (length MAGIC) r = (Inr MAGIC, r1)"
    using read_exact_content [OF assms(5,6), of "length MAGIC"] by auto
  obtain r2 where r2: "reader_ok r2" "content r2 = (framed f @ junk, None)"
    "read_exact NONCE_PREFIX_LEN r1 = (Inr nonce, r2)"
    using read_exact_content [OF r1(1,2), of NONCE_PREFIX_LEN] assms(2) by auto
  obtain r3 where r3: "read_frame r2 = (Inr (Some f), r3)" "reader_ok r3" "content r3 = (junk, None)"
    using read_frame_framed [OF r2(1,2) len] by blast
  obtain r4 where "read_frame r3 = (Inr None, r4)"
    using read_exact_content [OF r3(2,3), of 4] assms(7) by (auto simp: read_frame_def)
  then show ?thesis
    using r1(3) r2(3) r3(1) assms(1,3)
    by (auto simp: pump_decrypt_def decrypt_loop.simps [of _ _ _ _ _ r3] aead_correct_def)
qed

section \<open>Sample ciphers\<close>

text \<open>A cipher that appends an empty tag, and one that knows a single segment.\<close>

definition tagged :: "bytes \<Rightarrow> bytes" where
  "tagged x = x @ replicate TAG_LEN 0"

definition ex_cipher :: aead_stream where
  "ex_cipher = \<lparr>as_encrypt_next = (\<lambda>key pre i x. Some (tagged x)),
     as_encrypt_last = (\<lambda>key pre i x. Some (tagged x)),
     as_decrypt_next = (\<lambda>key pre i f. Some (take (length f - TAG_LEN) f)),
     as_decrypt_last = (\<lambda>key pre i f. Some (take (length f - TAG_LEN) f))\<rparr>"

definition ex_nonce :: bytes where "ex_nonce = replicate NONCE_PREFIX_LEN 7"

definition ex_plain :: bytes where "ex_plain = [104, 105]"

definition ex_sealed :: aead_stream where
  "ex_sealed = \<lparr>as_encrypt_next = (\<lambda>key pre i x. None),
     as_encrypt_last = (\<lambda>key pre i x.
       if pre = ex_nonce \<and> i = 0 \<and> x = ex_plain then Some (tagged x) else None),
     as_decrypt_next = (\<lambda>key pre i f. None),
     as_decrypt_last = (\<lambda>key pre i f.
       if pre = ex_nonce \<and> i = 0 \<and> f = tagged ex_plain then Some ex_plain else None)\<rparr>"

lemma ex_ciphers: "aead_correct ex_cipher" "aead_correct ex_sealed"
  by (simp_all add: aead_correct_def ex_cipher_def ex_sealed_def tagged_def)

lemma ex_plain_chunks: "plain_chunks ex_plain = [ex_plain]"
  by (simp add: plain_chunks_Cons ex_plain_def CHUNK_SIZE_def)

lemma ex_sealed_unforged: "unforged ex_sealed key {(ex_nonce, ex_plain)}"
  by (simp add: unforged_def ex_sealed_def ex_plain_chunks split: if_splits)

theorem encryption_roundtrip_witness:
  "\<exists>out. pump_encrypt ex_cipher [] ex_nonce \<lparr>rd_pieces = [[104], [105]], rd_fault = None\<rparr> = (out, Inr ()) \<and>
     pump_decrypt ex_cipher [] (reader_of (out, None)) = (ex_plain, Inr ())"
proof -
  have "\<exists>out. pump_encrypt ex_cipher [] ex_nonce \<lparr>rd_pieces = [[104], [105]], rd_fault = None\<rparr> = (out, Inr ()) \<and>
    (\<forall>r'. \<not> (reader_ok r' \<and> content r' = (out, None) \<and> pump_decrypt ex_cipher [] r' \<noteq> (ex_plain, Inr ())))"
    by (rule encryption_roundtrip [OF ex_ciphers(1)])
      (simp_all add: ex_nonce_def reader_ok_def content_def ex_plain_def ex_cipher_def)
  then show ?thesis by (metis reader_of)
qed

theorem decryption_is_whole_witness:
  "fst (content (reader_of (MAGIC @ ex_nonce @ framed (tagged ex_plain), None))) \<noteq> [] \<and>
   (take NONCE_PREFIX_LEN (drop (length MAGIC)
      (fst (content (reader_of (MAGIC @ ex_nonce @ framed (tagged ex_plain), None))))), ex_plain)
     \<in> {(ex_nonce, ex_plain)}"
proof -
  let ?r = "reader_of (MAGIC @ ex_nonce @ framed (tagged ex_plain), None)"
  have pump: "pump_decrypt ex_sealed [] ?r = (ex_plain, Inr ())"
    by (rule pump_decrypt_seal [OF ex_ciphers(2), where nonce = ex_nonce and fs = "[tagged ex_plain]"])
      (simp_all add: ex_plain_chunks ex_sealed_def, simp add: ex_nonce_def)
  have polls: "answers ex_plain (Inr (Inr ()))
      [(Ready (Inr ex_plain), Pending), (Ready (Inr []), Ready (Inr (Inr ())))]"
    "read_to_end [(Ready (Inr ex_plain), Pending), (Ready (Inr []), Ready (Inr (Inr ())))] True [] =
      Some (ex_plain, None)"
    by (simp_all add: ex_plain_def poll_read_def)
  show ?thesis
    using decryption_is_whole [OF ex_sealed_unforged reader_of(1) pump polls] by (simp add: MAGIC_def)
qed

end
