(* ===== verification/XB_Stages.thy ===== *)
theory XB_Stages
  imports XB_Backup XB_Crypto
begin

unbundle bit_operations_syntax

text \<open>
  The transformation of a backup on its way to the destination and back: compression
  (\<open>compress/mod.rs\<close>), the keys of age (\<open>crypto/age.rs\<close>), the choice of the stages
  (\<open>crypto/mod.rs\<close>, \<open>build_stages\<close> of \<open>cli/handlers/backup.rs\<close>) and the reverse stack of a restore
  (\<open>pipeline/stage.rs\<close>). The compressors and age are parameters. The lemmas show that the stack made
  from a manifest undoes the one that wrote it, which is what the chains of the file engine and deep
  verification ask for.
\<close>

section \<open>Libraries and surroundings\<close>

text \<open>
  \<open>sl_recipient\<close> and \<open>sl_identity\<close> parse a line as a public or private key of age and \<open>sl_public\<close> gives
  the public key of a private one; both kinds of keys are their texts.
\<close>

record stage_libs =
  sl_compress :: "string \<Rightarrow> int \<Rightarrow> stream \<Rightarrow> stream"
  sl_decompress :: "string \<Rightarrow> stream \<Rightarrow> stream"
  sl_age_encrypt :: "string \<Rightarrow> stream \<Rightarrow> stream"
  sl_age_decrypt :: "string \<Rightarrow> stream \<Rightarrow> stream"
  sl_recipient :: "string \<Rightarrow> string option"
  sl_identity :: "string \<Rightarrow> string option"
  sl_public :: "string \<Rightarrow> string"
  sl_hex :: "string \<Rightarrow> bytes option"
  sl_aead :: aead_stream

text \<open>The environment variables and files of the host, and the nonce prefix the run draws.\<close>

record stage_host =
  sh_env :: "string \<Rightarrow> string option"
  sh_file :: "string \<Rightarrow> string option"
  sh_nonce :: bytes

definition ALGORITHM_ZSTD :: string where "ALGORITHM_ZSTD = ''zstd''"
definition ALGORITHM_GZIP :: string where "ALGORITHM_GZIP = ''gzip''"
definition ALGORITHM_NONE :: string where "ALGORITHM_NONE = ''none''"
definition ALGORITHM_AGE :: string where "ALGORITHM_AGE = ''age''"
definition ALGORITHM_AES_GCM :: string where "ALGORITHM_AES_GCM = ''aes-256-gcm''"
definition ENV_AGE_IDENTITY_FILE :: string where "ENV_AGE_IDENTITY_FILE = ''XB_AGE_IDENTITY_FILE''"
definition ENV_AES_KEY_HEX :: string where "ENV_AES_KEY_HEX = ''XB_AES_KEY_HEX''"

lemmas algorithm_defs = ALGORITHM_ZSTD_def ALGORITHM_GZIP_def ALGORITHM_NONE_def ALGORITHM_AGE_def
  ALGORITHM_AES_GCM_def

section \<open>Stages\<close>

datatype stage =
    ZstdCompress int
  | GzipCompress int
  | ZstdDecompress
  | GzipDecompress
  | AgeEncrypt string
  | AgeDecrypt string
  | AesEncrypt bytes
  | AesDecrypt bytes

fun stage_name :: "stage \<Rightarrow> string" where
  "stage_name (ZstdCompress _) = ALGORITHM_ZSTD"
| "stage_name (GzipCompress _) = ALGORITHM_GZIP"
| "stage_name ZstdDecompress = ALGORITHM_ZSTD"
| "stage_name GzipDecompress = ALGORITHM_GZIP"
| "stage_name (AgeEncrypt _) = ALGORITHM_AGE"
| "stage_name (AgeDecrypt _) = ALGORITHM_AGE"
| "stage_name (AesEncrypt _) = ALGORITHM_AES_GCM"
| "stage_name (AesDecrypt _) = ALGORITHM_AES_GCM"

fun wrap :: "stage_libs \<Rightarrow> bytes \<Rightarrow> stage \<Rightarrow> stream \<Rightarrow> stream" where
  "wrap libs nonce (ZstdCompress level) s = sl_compress libs ALGORITHM_ZSTD level s"
| "wrap libs nonce (GzipCompress level) s = sl_compress libs ALGORITHM_GZIP level s"
| "wrap libs nonce ZstdDecompress s = sl_decompress libs ALGORITHM_ZSTD s"
| "wrap libs nonce GzipDecompress s = sl_decompress libs ALGORITHM_GZIP s"
| "wrap libs nonce (AgeEncrypt recipient) s = sl_age_encrypt libs recipient s"
| "wrap libs nonce (AgeDecrypt identity) s = sl_age_decrypt libs identity s"
| "wrap libs nonce (AesEncrypt key) s = aes_encrypt_wrap (sl_aead libs) nonce key s"
| "wrap libs nonce (AesDecrypt key) s = aes_decrypt_wrap (sl_aead libs) key s"

text \<open>\<open>StageStack\<close>: the stages in the order of \<open>push\<close>.\<close>

type_synonym stage_stack = "stage list"

definition stack_push :: "stage \<Rightarrow> stage_stack \<Rightarrow> stage_stack" where
  "stack_push st stack = stack @ [st]"

definition stack_apply :: "stage_libs \<Rightarrow> bytes \<Rightarrow> stage_stack \<Rightarrow> stream \<Rightarrow> stream" where
  "stack_apply libs nonce stack source = fold (wrap libs nonce) stack source"

section \<open>Compression\<close>

definition clamp_level :: "int \<Rightarrow> int" where
  "clamp_level level = max 1 (min 22 level)"

definition clamp_gzip_level :: "int \<Rightarrow> int" where
  "clamp_gzip_level level = max 1 (min 9 level)"

definition compress_stage :: "string \<Rightarrow> int \<Rightarrow> stage_error + (stage \<times> int) option" where
  "compress_stage algorithm level =
     (if algorithm = ALGORITHM_ZSTD then Inr (Some (ZstdCompress (clamp_level level), clamp_level level))
      else if algorithm = ALGORITHM_GZIP
        then Inr (Some (GzipCompress (clamp_gzip_level level), clamp_gzip_level level))
      else if algorithm = ALGORITHM_NONE then Inr None
      else Inl (UnknownCompression algorithm))"

definition decompress_stage :: "string \<Rightarrow> stage option" where
  "decompress_stage algorithm =
     (if algorithm = ALGORITHM_ZSTD then Some ZstdDecompress
      else if algorithm = ALGORITHM_GZIP then Some GzipDecompress else None)"

section \<open>Keys of age\<close>

text \<open>\<open>str::lines\<close>: the lines without their ends; a last line without text is no line.\<close>

definition drop_last_cr :: "string \<Rightarrow> string" where
  "drop_last_cr l = (if l \<noteq> [] \<and> last l = CHR 0x0D then butlast l else l)"

definition str_lines :: "string \<Rightarrow> string list" where
  "str_lines s = (let ls = split_on (CHR 0x0A) s
    in map drop_last_cr (if last ls = [] then butlast ls else ls))"

text \<open>\<open>find_map\<close> over the lines that hold something other than a comment.\<close>

definition first_key :: "(string \<Rightarrow> string option) \<Rightarrow> string \<Rightarrow> string option" where
  "first_key parse raw =
     (case List.map_filter parse (filter (\<lambda>l. l \<noteq> [] \<and> hd l \<noteq> CHR ''#'') (map trim (str_lines raw))) of
        [] \<Rightarrow> None | k # _ \<Rightarrow> Some k)"

definition parse_recipient :: "stage_libs \<Rightarrow> string \<Rightarrow> string option" where
  "parse_recipient libs raw = first_key (sl_recipient libs) raw"

definition parse_identity :: "stage_libs \<Rightarrow> string \<Rightarrow> string option" where
  "parse_identity libs raw = first_key (sl_identity libs) raw"

definition from_recipient_file :: "stage_libs \<Rightarrow> stage_host \<Rightarrow> string \<Rightarrow> stage_error + string" where
  "from_recipient_file libs host path = (case sh_file host path of
     None \<Rightarrow> Inl (RecipientFile path)
   | Some raw \<Rightarrow> (case parse_recipient libs raw of
       None \<Rightarrow> Inl (NoRecipient path) | Some recipient \<Rightarrow> Inr recipient))"

definition from_identity_file :: "stage_libs \<Rightarrow> stage_host \<Rightarrow> string \<Rightarrow> stage_error + string" where
  "from_identity_file libs host path = (case sh_file host path of
     None \<Rightarrow> Inl (IdentityFile path)
   | Some raw \<Rightarrow> (case parse_identity libs raw of
       None \<Rightarrow> Inl (NoIdentity path) | Some identity \<Rightarrow> Inr identity))"

section \<open>Choosing the stages\<close>

record EncryptionConfig =
  ec_enabled :: bool
  ec_algorithm :: string
  ec_recipient_file :: "string option"

datatype DecryptKeySource = AgeIdentityFile string | AesHexKey string

definition build_encrypt_stage ::
  "stage_libs \<Rightarrow> stage_host \<Rightarrow> EncryptionConfig \<Rightarrow> string option \<Rightarrow> stage_error + stage \<times> EncryptionMeta" where
  "build_encrypt_stage libs host enc aes_key_hex =
     (if ec_algorithm enc = ALGORITHM_AGE then (case ec_recipient_file enc of
        None \<Rightarrow> Inl MissingRecipientFile
      | Some recipient_file \<Rightarrow> bind_res (from_recipient_file libs host recipient_file) (\<lambda>recipient.
          Inr (AgeEncrypt recipient, \<lparr>e_algorithm = ALGORITHM_AGE, e_key_id = Some recipient\<rparr>)))
      else if ec_algorithm enc = ALGORITHM_AES_GCM then (case aes_key_hex of
        None \<Rightarrow> Inl MissingAesKey
      | Some key_hex \<Rightarrow> bind_res (decode_hex_key (sl_hex libs) key_hex) (\<lambda>key.
          Inr (AesEncrypt key, \<lparr>e_algorithm = ALGORITHM_AES_GCM, e_key_id = Some ''env''\<rparr>)))
      else Inl (UnknownEncryption (ec_algorithm enc)))"

definition build_decrypt_stage ::
  "stage_libs \<Rightarrow> stage_host \<Rightarrow> EncryptionMeta \<Rightarrow> DecryptKeySource \<Rightarrow> stage_error + stage" where
  "build_decrypt_stage libs host meta key = (case key of
     AgeIdentityFile path \<Rightarrow>
       if e_algorithm meta = ALGORITHM_AGE then map_sum id AgeDecrypt (from_identity_file libs host path)
       else Inl (KeySourceMismatch (e_algorithm meta))
   | AesHexKey hex \<Rightarrow>
       if e_algorithm meta = ALGORITHM_AES_GCM then map_sum id AesDecrypt (decode_hex_key (sl_hex libs) hex)
       else Inl (KeySourceMismatch (e_algorithm meta)))"

definition resolve_decrypt_key :: "stage_host \<Rightarrow> string \<Rightarrow> stage_error + DecryptKeySource" where
  "resolve_decrypt_key host algorithm =
     (if algorithm = ALGORITHM_AGE then (case sh_env host ENV_AGE_IDENTITY_FILE of
        None \<Rightarrow> Inl (MissingEnv ENV_AGE_IDENTITY_FILE) | Some path \<Rightarrow> Inr (AgeIdentityFile path))
      else if algorithm = ALGORITHM_AES_GCM then (case sh_env host ENV_AES_KEY_HEX of
        None \<Rightarrow> Inl (MissingEnv ENV_AES_KEY_HEX) | Some hex \<Rightarrow> Inr (AesHexKey hex))
      else Inl (UnknownEncryption algorithm))"

text \<open>\<open>reverse_stack_for\<close>: decryption first, then decompression.\<close>

definition reverse_stack_for ::
  "stage_libs \<Rightarrow> stage_host \<Rightarrow> BackupManifest \<Rightarrow> stage_error + stage_stack" where
  "reverse_stack_for libs host manifest =
     bind_res (case m_encryption manifest of
         None \<Rightarrow> Inr []
       | Some enc_meta \<Rightarrow> bind_res (resolve_decrypt_key host (e_algorithm enc_meta)) (\<lambda>key.
           bind_res (build_decrypt_stage libs host enc_meta key) (\<lambda>decrypt. Inr (stack_push decrypt []))))
       (\<lambda>stack. case m_compression manifest of
         None \<Rightarrow> Inr stack
       | Some comp_meta \<Rightarrow> (case decompress_stage (c_algorithm comp_meta) of
           None \<Rightarrow> Inl (UnknownCompression (c_algorithm comp_meta))
         | Some st \<Rightarrow> Inr (stack_push st stack)))"

text \<open>What \<open>build_stages\<close> reads of the configuration and the arguments.\<close>

record stage_request =
  sr_no_compress :: bool
  sr_compress_level :: "int option"
  sr_no_encrypt :: bool
  sr_algorithm :: string
  sr_level :: int
  sr_encryption :: EncryptionConfig

definition build_stages ::
  "stage_libs \<Rightarrow> stage_host \<Rightarrow> stage_request \<Rightarrow> stage_error + stage_stack \<times> BackupMeta" where
  "build_stages libs host rq =
     (let algorithm = (if sr_no_compress rq then ALGORITHM_NONE else sr_algorithm rq);
          level = (case sr_compress_level rq of Some l \<Rightarrow> l | None \<Rightarrow> sr_level rq)
      in bind_res (compress_stage algorithm level) (\<lambda>comp.
           let (stack, meta) = (case comp of
                 None \<Rightarrow> ([], no_meta)
               | Some (st, applied) \<Rightarrow> (stack_push st [],
                   no_meta\<lparr>bm_compression := Some \<lparr>c_algorithm = algorithm, c_level = applied\<rparr>\<rparr>))
           in if sr_no_encrypt rq \<or> \<not> ec_enabled (sr_encryption rq) then Inr (stack, meta)
              else bind_res (build_encrypt_stage libs host (sr_encryption rq) (sh_env host ENV_AES_KEY_HEX))
                (\<lambda>(st, enc_meta). Inr (stack_push st stack, meta\<lparr>bm_encryption := Some enc_meta\<rparr>))))"

text \<open>The stages and reverse stages as the pipelines of backup and restore use them.\<close>

definition stages_of :: "stage_libs \<Rightarrow> stage_host \<Rightarrow> stage_stack \<Rightarrow> bytes \<Rightarrow> bytes option" where
  "stages_of libs host stack b = (case stack_apply libs (sh_nonce host) stack (b, None) of
     (out, None) \<Rightarrow> Some out | (_, Some _) \<Rightarrow> None)"

definition unstage_of :: "stage_libs \<Rightarrow> stage_host \<Rightarrow> unstage" where
  "unstage_of libs host m = (case reverse_stack_for libs host m of
     Inl _ \<Rightarrow> None
   | Inr stack \<Rightarrow> Some (\<lambda>b. case stack_apply libs (sh_nonce host) stack (b, None) of
       (out, fault) \<Rightarrow> (out, fault = None)))"

section \<open>What was done is undone\<close>

text \<open>
  The laws of the libraries: a compressor and age give back what they made, on a stream without
  failure, and age does not turn a failed input into a whole stream.
\<close>

definition stage_laws :: "stage_libs \<Rightarrow> bool" where
  "stage_laws libs \<longleftrightarrow> aead_correct (sl_aead libs) \<and>
     (\<forall>algorithm level b c. algorithm \<in> {ALGORITHM_ZSTD, ALGORITHM_GZIP} \<longrightarrow>
        sl_compress libs algorithm level (b, None) = (c, None) \<longrightarrow>
        sl_decompress libs algorithm (c, None) = (b, None)) \<and>
     (\<forall>identity b c. sl_age_encrypt libs (sl_public libs identity) (b, None) = (c, None) \<longrightarrow>
        sl_age_decrypt libs identity (c, None) = (b, None)) \<and>
     (\<forall>recipient b e. snd (sl_age_encrypt libs recipient (b, Some e)) \<noteq> None)"

text \<open>The key that the host of the restore needs: the private key of the recipient, or the same
  symmetric key.\<close>

definition holds_key :: "stage_libs \<Rightarrow> stage_host \<Rightarrow> EncryptionConfig \<Rightarrow> stage_host \<Rightarrow> bool" where
  "holds_key libs host enc host' \<longleftrightarrow>
     (if ec_algorithm enc = ALGORITHM_AGE then \<exists>path identity rfile.
        sh_env host' ENV_AGE_IDENTITY_FILE = Some path \<and> from_identity_file libs host' path = Inr identity \<and>
        ec_recipient_file enc = Some rfile \<and>
        from_recipient_file libs host rfile = Inr (sl_public libs identity)
      else sh_env host' ENV_AES_KEY_HEX = sh_env host ENV_AES_KEY_HEX)"

definition undoes :: "stage_libs \<Rightarrow> bytes \<Rightarrow> stage \<Rightarrow> bytes \<Rightarrow> stage \<Rightarrow> bool" where
  "undoes libs nonce st nonce' rst \<longleftrightarrow>
     (\<forall>b c. wrap libs nonce st (b, None) = (c, None) \<longrightarrow> wrap libs nonce' rst (c, None) = (b, None))"

lemma compress_undone:
  assumes "stage_laws libs" and "compress_stage algorithm level = Inr (Some (st, l))"
  shows "\<exists>rst. decompress_stage algorithm = Some rst \<and> undoes libs nonce st nonce' rst"
  using assms unfolding stage_laws_def
  by (auto simp: compress_stage_def decompress_stage_def undoes_def algorithm_defs split: if_splits)

lemma encrypt_undone:
  assumes "stage_laws libs" and "length (sh_nonce host) = NONCE_PREFIX_LEN"
    and "build_encrypt_stage libs host enc (sh_env host ENV_AES_KEY_HEX) = Inr (st, meta)"
    and "holds_key libs host enc host'"
  shows "\<exists>key rst. resolve_decrypt_key host' (e_algorithm meta) = Inr key \<and>
    build_decrypt_stage libs host' meta key = Inr rst \<and>
    undoes libs (sh_nonce host) st (sh_nonce host') rst \<and>
    (\<forall>b e. snd (wrap libs (sh_nonce host) st (b, Some e)) \<noteq> None)"
proof (cases "ec_algorithm enc = ALGORITHM_AGE")
  case True
  then obtain path identity rfile where k: "sh_env host' ENV_AGE_IDENTITY_FILE = Some path"
    "from_identity_file libs host' path = Inr identity" "ec_recipient_file enc = Some rfile"
    "from_recipient_file libs host rfile = Inr (sl_public libs identity)"
    using assms(4) by (auto simp: holds_key_def)
  have st: "st = AgeEncrypt (sl_public libs identity)" "e_algorithm meta = ALGORITHM_AGE"
    using assms(3) True k(3,4) by (auto simp: build_encrypt_stage_def)
  show ?thesis
    using assms(1) k st unfolding stage_laws_def
    by (auto simp: resolve_decrypt_key_def build_decrypt_stage_def undoes_def)
next
  case False
  then obtain hex key where k: "sh_env host ENV_AES_KEY_HEX = Some hex" "sh_env host' ENV_AES_KEY_HEX = Some hex"
    "decode_hex_key (sl_hex libs) hex = Inr key" "st = AesEncrypt key" "e_algorithm meta = ALGORITHM_AES_GCM"
    using assms(3,4) by (auto simp: holds_key_def build_encrypt_stage_def bind_res_Inr_iff split: if_splits option.splits)
  have "undoes libs (sh_nonce host) st (sh_nonce host') (AesDecrypt key)"
    using assms(1,2) aes_wrap_undone by (simp add: undoes_def k(4) stage_laws_def)
  then show ?thesis
    using k aes_wrap_fault
    by (auto simp: resolve_decrypt_key_def build_decrypt_stage_def algorithm_defs)
qed

text \<open>C30: A backup can be decoded by the host that holds the key. Whatever compression and encryption the
  configuration and the arguments choose, the stack that \<open>reverse_stack_for\<close> makes from the metadata
  that \<open>build_stages\<close> leaves in the manifest exists and gives back, without failure, every stream
  that the stages of the backup have stored; the order of the two stages included.
\<close>

theorem stages_reversed:
  assumes "stage_laws libs" and "length (sh_nonce host) = NONCE_PREFIX_LEN"
    and "build_stages libs host rq = Inr (stack, meta)"
    and "holds_key libs host (sr_encryption rq) host'"
  shows "stages_undone (stages_of libs host stack) meta (unstage_of libs host')"
proof -
  let ?n = "sh_nonce host" and ?n' = "sh_nonce host'"
  define algorithm where "algorithm = (if sr_no_compress rq then ALGORITHM_NONE else sr_algorithm rq)"
  define level where "level = (case sr_compress_level rq of Some l \<Rightarrow> l | None \<Rightarrow> sr_level rq)"
  obtain comp where comp: "compress_stage algorithm level = Inr comp"
    using assms(3) by (auto simp: build_stages_def Let_def algorithm_def level_def bind_res_Inr_iff)
  define cs where "cs = (case comp of None \<Rightarrow> [] | Some (st, l) \<Rightarrow> [st])"
  define cm where "cm = map_option (\<lambda>(st, l). \<lparr>c_algorithm = algorithm, c_level = l\<rparr>) comp"
  obtain rs where rs: "case cm of None \<Rightarrow> rs = [] \<and> cs = []
      | Some m \<Rightarrow> \<exists>st rst. cs = [st] \<and> rs = [rst] \<and> decompress_stage (c_algorithm m) = Some rst \<and> undoes libs ?n st ?n' rst"
    using compress_undone [OF assms(1), of algorithm level _ _ ?n ?n'] comp
    by (cases comp) (auto simp: cs_def cm_def)
  have split: "(sr_no_encrypt rq \<or> \<not> ec_enabled (sr_encryption rq)) \<and> stack = cs \<and>
      meta = \<lparr>bm_compression = cm, bm_encryption = None\<rparr> \<or>
    (\<exists>st em. build_encrypt_stage libs host (sr_encryption rq) (sh_env host ENV_AES_KEY_HEX) = Inr (st, em) \<and>
      stack = cs @ [st] \<and> meta = \<lparr>bm_compression = cm, bm_encryption = Some em\<rparr>)"
    using assms(3) comp
    by (auto simp: build_stages_def Let_def algorithm_def [symmetric] level_def [symmetric] bind_res_Inr_iff
        cs_def cm_def stack_push_def no_meta_def split: option.splits prod.splits if_splits)
  have undo_cs: "fold (wrap libs ?n') rs (x, None) = (bs, None)"
    if "fold (wrap libs ?n) cs (bs, None) = (x, None)" for bs x
    using rs that by (cases cm) (auto simp: undoes_def)
  from split show ?thesis
  proof
    assume s: "(sr_no_encrypt rq \<or> \<not> ec_enabled (sr_encryption rq)) \<and> stack = cs \<and>
      meta = \<lparr>bm_compression = cm, bm_encryption = None\<rparr>"
    have "reverse_stack_for libs host' m = Inr rs" if "m_compression m = cm" "m_encryption m = None" for m
      using that rs by (cases cm) (auto simp: reverse_stack_for_def stack_push_def)
    then show ?thesis
      using s undo_cs by (auto simp: stages_undone_def unstage_of_def stages_of_def stack_apply_def
          split: prod.splits option.splits)
  next
    assume "\<exists>st em. build_encrypt_stage libs host (sr_encryption rq) (sh_env host ENV_AES_KEY_HEX) = Inr (st, em) \<and>
      stack = cs @ [st] \<and> meta = \<lparr>bm_compression = cm, bm_encryption = Some em\<rparr>"
    then obtain st em where s: "build_encrypt_stage libs host (sr_encryption rq) (sh_env host ENV_AES_KEY_HEX) = Inr (st, em)"
      "stack = cs @ [st]" "meta = \<lparr>bm_compression = cm, bm_encryption = Some em\<rparr>" by blast
    obtain key rst where k: "resolve_decrypt_key host' (e_algorithm em) = Inr key"
      "build_decrypt_stage libs host' em key = Inr rst" "undoes libs ?n st ?n' rst"
      "\<And>b e. snd (wrap libs ?n st (b, Some e)) \<noteq> None"
      using encrypt_undone [OF assms(1,2) s(1) assms(4)] by blast
    have rev: "reverse_stack_for libs host' m = Inr (rst # rs)" if "m_compression m = cm" "m_encryption m = Some em" for m
      using that rs k(1,2) by (cases cm) (auto simp: reverse_stack_for_def stack_push_def)
    have "fold (wrap libs ?n') (rst # rs) (b, None) = (bs, None)"
      if "fold (wrap libs ?n) (cs @ [st]) (bs, None) = (b, None)" for bs b
    proof -
      obtain x f where x: "fold (wrap libs ?n) cs (bs, None) = (x, f)" by fastforce
      then have "wrap libs ?n st (x, f) = (b, None)" using that by simp
      moreover from this have "f = None" using k(4) [of x] by (cases f) (auto simp: prod_eq_iff)
      ultimately show ?thesis using k(3) undo_cs x by (simp add: undoes_def)
    qed
    then show ?thesis
      using s rev by (auto simp: stages_undone_def unstage_of_def stages_of_def stack_apply_def
          split: prod.splits option.splits)
  qed
qed

text \<open>
  The manifest does not depend on the symmetric key: two keys that both decode leave the same metadata.
\<close>

theorem manifest_hides_key:
  assumes "build_stages libs host rq = Inr (stack, meta)" and "build_stages libs host' rq = Inr (stack', meta')"
    and "sh_file host' = sh_file host"
  shows "meta' = meta"
  using assms
  by (auto simp: build_stages_def build_encrypt_stage_def from_recipient_file_def Let_def bind_res_Inr_iff
      split: option.splits prod.splits if_splits)

section \<open>A new pair of keys\<close>

text \<open>
  \<open>generate_keypair_files\<close>: the files with their modes, the mask of the process and which calls fail.
  Opening a file that exists truncates it and keeps its mode.
\<close>

record key_files =
  kf_file :: "string \<Rightarrow> (u32 \<times> string) option"
  kf_umask :: u32

text \<open>Mode 0600, and 0666, with which the library creates files.\<close>

definition PRIVATE_MODE :: u32 where "PRIVATE_MODE = 384"
definition DEFAULT_MODE :: u32 where "DEFAULT_MODE = 438"

datatype key_step = MakeDir string | OpenKey | WriteKey | WritePublic

definition open_mode :: "key_files \<Rightarrow> string \<Rightarrow> u32 \<Rightarrow> u32" where
  "open_mode fs path mode =
     (case kf_file fs path of Some (m, _) \<Rightarrow> m | None \<Rightarrow> mode AND NOT (kf_umask fs))"

definition put_key_file :: "string \<Rightarrow> u32 \<Rightarrow> string \<Rightarrow> key_files \<Rightarrow> key_files" where
  "put_key_file path mode text fs =
     fs\<lparr>kf_file := (kf_file fs)(path \<mapsto> (open_mode fs path mode, text))\<rparr>"

definition generate_keypair_files ::
  "(string \<Rightarrow> string option) \<Rightarrow> (key_step \<Rightarrow> bool) \<Rightarrow> string \<Rightarrow> string \<Rightarrow> string \<Rightarrow> string \<Rightarrow> key_files \<Rightarrow>
   (key_step + string) \<times> key_files" where
  "generate_keypair_files parent fails identity recipient key_path pub_path fs =
     (case List.find (\<lambda>p. case parent p of Some d \<Rightarrow> d \<noteq> [] \<and> fails (MakeDir d) | None \<Rightarrow> False)
          [key_path, pub_path] of
        Some p \<Rightarrow> (Inl (MakeDir (the (parent p))), fs)
      | None \<Rightarrow>
          if fails OpenKey then (Inl OpenKey, fs)
          else if fails WriteKey then (Inl WriteKey, put_key_file key_path PRIVATE_MODE [] fs)
          else let fs1 = put_key_file key_path PRIVATE_MODE (identity @ [CHR 0x0A]) fs
            in if fails WritePublic then (Inl WritePublic, fs1)
               else (Inr recipient, put_key_file pub_path DEFAULT_MODE (recipient @ [CHR 0x0A]) fs1))"

text \<open>
  A new private key is closed to the group and to others; a key that is written over an existing file
  keeps the mode of that file.
\<close>

theorem key_file_mode:
  assumes "generate_keypair_files parent fails identity recipient key_path pub_path fs = (Inr r, fs')"
    and "pub_path \<noteq> key_path"
  shows "\<exists>m. kf_file fs' key_path = Some (m, identity @ [CHR 0x0A]) \<and>
    (case kf_file fs key_path of None \<Rightarrow> m AND 63 = 0 | Some (old, _) \<Rightarrow> m = old)"
proof -
  have closed: "(PRIVATE_MODE AND NOT x) AND 63 = 0" for x
  proof -
    have "(PRIVATE_MODE AND NOT x) AND 63 = NOT x AND (384 AND 63)"
      by (simp only: PRIVATE_MODE_def ac_simps)
    also have "(384 AND 63 :: u32) = 0" by simp
    finally show ?thesis by simp
  qed
  show ?thesis
    using assms closed
    by (auto simp: generate_keypair_files_def put_key_file_def open_mode_def Let_def
        split: if_splits option.splits)
qed

section \<open>A sample\<close>

definition ex_libs :: stage_libs where
  "ex_libs = \<lparr>sl_compress = (\<lambda>a l s. s), sl_decompress = (\<lambda>a s. s), sl_age_encrypt = (\<lambda>k s. s),
     sl_age_decrypt = (\<lambda>k s. s), sl_recipient = Some, sl_identity = Some, sl_public = id,
     sl_hex = (\<lambda>h. Some (replicate 32 (of_nat (length h)))), sl_aead = ex_cipher\<rparr>"

definition ex_host :: stage_host where
  "ex_host = \<lparr>sh_env = (\<lambda>v. if v = ENV_AES_KEY_HEX then Some ''k'' else None), sh_file = (\<lambda>_. None),
     sh_nonce = ex_nonce\<rparr>"

definition ex_stage_request :: stage_request where
  "ex_stage_request = \<lparr>sr_no_compress = False, sr_compress_level = Some 30, sr_no_encrypt = False,
     sr_algorithm = ALGORITHM_ZSTD, sr_level = 3,
     sr_encryption = \<lparr>ec_enabled = True, ec_algorithm = ALGORITHM_AES_GCM, ec_recipient_file = None\<rparr>\<rparr>"

lemma ex_stage_laws: "stage_laws ex_libs"
  by (simp add: stage_laws_def ex_libs_def ex_ciphers)

theorem stages_reversed_witness:
  "\<exists>key stack meta. build_stages ex_libs ex_host ex_stage_request = Inr (stack, meta) \<and>
     stack = [ZstdCompress 22, AesEncrypt key] \<and>
     stages_undone (stages_of ex_libs ex_host stack) meta (unstage_of ex_libs ex_host)"
proof -
  obtain stack meta where b: "build_stages ex_libs ex_host ex_stage_request = Inr (stack, meta)"
    "stack = [ZstdCompress 22, AesEncrypt (replicate 32 1)]"
    by (simp add: build_stages_def ex_stage_request_def compress_stage_def build_encrypt_stage_def
        decode_hex_key_def algorithm_defs ex_libs_def ex_host_def stack_push_def clamp_level_def
        trim_def is_whitespace_def)
  have "stages_undone (stages_of ex_libs ex_host stack) meta (unstage_of ex_libs ex_host)"
    by (rule stages_reversed [OF ex_stage_laws _ b(1)])
      (simp_all add: ex_host_def ex_nonce_def holds_key_def ex_stage_request_def algorithm_defs)
  then show ?thesis using b by blast
qed

end
