(* ===== verification/XB_Auth.thy ===== *)
theory XB_Auth
  imports XB_Journal XB_Storage
begin

unbundle bit_operations_syntax

text \<open>
  Access to the web console (\<open>web/auth.rs\<close>): the token and its demands, the login with its delays, the
  sessions, and the origin check of requests that change something. Texts are byte strings; the
  parsing of HTTP is the framework's, so a request gives the value of each header, if there is one
  and if it is text. The lemmas show exactly which requests a session lets through.
\<close>

section \<open>Requests\<close>

text \<open>\<open>HeaderMap::get\<close> and \<open>to_str\<close>: no such header, a value that is not text, or a text.\<close>

type_synonym headers = "string \<Rightarrow> string option option"

definition header_str :: "headers \<Rightarrow> string \<Rightarrow> string option" where
  "header_str hs name = (case hs name of Some (Some v) \<Rightarrow> Some v | _ \<Rightarrow> None)"

section \<open>The token\<close>

definition MIN_TOKEN_LEN :: nat where "MIN_TOKEN_LEN = 24"

datatype token_error =
    NotConfigured
  | BothConfigured
  | SecretMissing string
  | SecretNotAFile string
  | SecretOpen u32
  | TokenUnreadable
  | TokenEmpty
  | TokenChar char
  | TokenShort nat
  | TokenMonotonous
  | TokenRepeats

definition is_cookie_safe_char :: "char \<Rightarrow> bool" where
  "is_cookie_safe_char c \<longleftrightarrow> byte c = 0x21 \<or> (0x23 \<le> byte c \<and> byte c \<le> 0x2B) \<or>
     (0x2D \<le> byte c \<and> byte c \<le> 0x3A) \<or> (0x3C \<le> byte c \<and> byte c \<le> 0x5B) \<or>
     (0x5D \<le> byte c \<and> byte c \<le> 0x7E)"

text \<open>\<open>slice::chunks\<close>.\<close>

function chunks_of :: "nat \<Rightarrow> 'a list \<Rightarrow> 'a list list" where
  "chunks_of n xs = (if xs = [] \<or> n = 0 then [] else take n xs # chunks_of n (drop n xs))"
  by pat_completeness auto
termination
  by (relation "measure (\<lambda>(n, xs). length xs)") auto

declare chunks_of.simps [simp del]

definition has_repeated_period :: "string \<Rightarrow> bool" where
  "has_repeated_period token \<longleftrightarrow> list_ex
     (\<lambda>period. list_all (\<lambda>chunk. chunk = take period token) (chunks_of period token))
     (filter (\<lambda>period. length token mod period = 0) [1 ..< Suc (length token div 2)])"

text \<open>\<open>monotonous\<close>: the estimated entropy, a floating-point sum over the frequencies, is below 64 bits.\<close>

definition ensure_token_strength :: "(string \<Rightarrow> bool) \<Rightarrow> string \<Rightarrow> token_error + unit" where
  "ensure_token_strength monotonous token =
     (if length token < MIN_TOKEN_LEN then Inl (TokenShort (length token))
      else if monotonous token then Inl TokenMonotonous
      else if has_repeated_period token then Inl TokenRepeats
      else Inr ())"

text \<open>A secret file: its kind, mode and text.\<close>

record secret_file =
  sf_regular :: bool
  sf_mode :: u32
  sf_text :: "string option"

definition ensure_secret_file_permissions :: "(string \<Rightarrow> secret_file option) \<Rightarrow> string \<Rightarrow> token_error + unit" where
  "ensure_secret_file_permissions fs path = (case fs path of
     None \<Rightarrow> Inl (SecretMissing path)
   | Some f \<Rightarrow> if \<not> sf_regular f then Inl (SecretNotAFile path)
       else let mode = sf_mode f AND 0x1FF
         in if mode AND 0x3F \<noteq> 0 then Inl (SecretOpen mode) else Inr ())"

text \<open>\<open>check_age_identity_permissions\<close>: nothing to check without the variable.\<close>

definition check_age_identity_permissions ::
  "(string \<Rightarrow> secret_file option) \<Rightarrow> string option \<Rightarrow> token_error + unit" where
  "check_age_identity_permissions fs identity_env = (case identity_env of
     None \<Rightarrow> Inr () | Some path \<Rightarrow> ensure_secret_file_permissions fs path)"

section \<open>The state\<close>

definition SESSION_ID_BYTES :: nat where "SESSION_ID_BYTES = 32"
definition SESSION_TTL :: nat where "SESSION_TTL = 12 * 60 * 60 * 1000"
definition MAX_SESSIONS :: nat where "MAX_SESSIONS = 32"
definition FAILURE_THRESHOLD :: nat where "FAILURE_THRESHOLD = 3"
definition BASE_DELAY :: nat where "BASE_DELAY = 200"
definition MAX_DELAY :: nat where "MAX_DELAY = 2000"
definition FAILURE_DECAY_PERIOD :: nat where "FAILURE_DECAY_PERIOD = 60 * 1000"
definition U32_MAX :: nat where "U32_MAX = 2 ^ 32 - 1"

text \<open>Times are in milliseconds; the counter of failures stays below \<open>U32_MAX\<close> by saturation.\<close>

record FailureWindow =
  fw_failures :: nat
  fw_last_failure :: "nat option"

record Session =
  se_id :: string
  se_issued :: nat

record AuthState =
  au_token :: string
  au_failures :: FailureWindow
  au_sessions :: "Session list"

definition with_token :: "string \<Rightarrow> AuthState" where
  "with_token token = \<lparr>au_token = token, au_failures = \<lparr>fw_failures = 0, fw_last_failure = None\<rparr>,
     au_sessions = []\<rparr>"

definition load_from_env ::
  "(string \<Rightarrow> bool) \<Rightarrow> (string \<Rightarrow> secret_file option) \<Rightarrow> string option \<Rightarrow> string option \<Rightarrow> token_error + AuthState" where
  "load_from_env monotonous fs direct from_file =
     bind_res (case (direct, from_file) of
         (None, None) \<Rightarrow> Inl NotConfigured
       | (Some _, Some _) \<Rightarrow> Inl BothConfigured
       | (Some v, None) \<Rightarrow> Inr v
       | (None, Some path) \<Rightarrow> bind_res (ensure_secret_file_permissions fs path) (\<lambda>_.
           case fs path of
             Some f \<Rightarrow> (case sf_text f of Some v \<Rightarrow> Inr v | None \<Rightarrow> Inl TokenUnreadable)
           | None \<Rightarrow> Inl TokenUnreadable))
       (\<lambda>raw_token. let token = str_trim raw_token in
         if token = [] then Inl TokenEmpty
         else case List.find (\<lambda>c. \<not> is_cookie_safe_char c) token of
           Some bad \<Rightarrow> Inl (TokenChar bad)
         | None \<Rightarrow> bind_res (ensure_token_strength monotonous token) (\<lambda>_. Inr (with_token token)))"

definition char_byte :: "char \<Rightarrow> u8" where "char_byte c = word_of_nat (of_char c)"

text \<open>\<open>constant_time_eq\<close>: the differences of all bytes are collected before the result is known.\<close>

definition constant_time_eq :: "string \<Rightarrow> string \<Rightarrow> bool" where
  "constant_time_eq a b = (if length a \<noteq> length b then False
     else fold (\<lambda>(x, y) diff. diff OR (char_byte x XOR char_byte y)) (zip a b) 0 = 0)"

lemma or_zero_iff: "(a :: u8) OR b = 0 \<longleftrightarrow> a = 0 \<and> b = 0"
  by (auto simp: bit_eq_iff bit_simps)

lemma xor_zero_iff: "(a :: u8) XOR b = 0 \<longleftrightarrow> a = b"
  by (auto simp: bit_eq_iff bit_simps)

lemma char_byte_eq: "char_byte x = char_byte y \<longleftrightarrow> x = y"
proof
  assume "char_byte x = char_byte y"
  then have "of_bytes [char_byte x] = of_bytes [char_byte y]" by simp
  then show "x = y" using of_bytes_to_bytes [of "[x]"] of_bytes_to_bytes [of "[y]"]
    by (simp add: to_bytes_def char_byte_def)
qed simp

lemma fold_or_zero:
  "fold (\<lambda>(x, y) diff. diff OR (char_byte x XOR char_byte y)) ps d = 0 \<longleftrightarrow>
     d = 0 \<and> (\<forall>(x, y) \<in> set ps. x = y)"
  by (induction ps arbitrary: d) (auto simp: or_zero_iff xor_zero_iff char_byte_eq)

lemma constant_time_eq_iff: "constant_time_eq a b \<longleftrightarrow> a = b"
proof (cases "length a = length b")
  case True
  then show ?thesis
    by (auto simp: constant_time_eq_def fold_or_zero list_eq_iff_zip_eq)
qed (auto simp: constant_time_eq_def)

section \<open>Failed logins\<close>

definition decay_failures :: "nat \<Rightarrow> nat \<Rightarrow> nat" where
  "decay_failures failures elapsed =
     failures - min (elapsed div 1000 div (FAILURE_DECAY_PERIOD div 1000)) U32_MAX"

definition failure_delay :: "nat \<Rightarrow> nat" where
  "failure_delay failures = (if failures < FAILURE_THRESHOLD then 0
     else min (BASE_DELAY * (failures - FAILURE_THRESHOLD + 1)) MAX_DELAY)"

definition note_failure :: "nat \<Rightarrow> AuthState \<Rightarrow> nat \<times> AuthState" where
  "note_failure now st =
     (let window = au_failures st;
          carried = (case fw_last_failure window of
            Some previous \<Rightarrow> decay_failures (fw_failures window) (now - previous) | None \<Rightarrow> 0);
          failures = min (carried + 1) U32_MAX
      in (failure_delay failures,
          st\<lparr>au_failures := \<lparr>fw_failures = failures, fw_last_failure = Some now\<rparr>\<rparr>))"

text \<open>\<open>verify\<close>: the answer, and for how long it is held back.\<close>

definition verify_token :: "nat \<Rightarrow> string \<Rightarrow> AuthState \<Rightarrow> (bool \<times> nat) \<times> AuthState" where
  "verify_token now candidate st =
     (if constant_time_eq (str_trim candidate) (au_token st) then ((True, 0), st)
      else case note_failure now st of (delay, st') \<Rightarrow> ((False, delay), st'))"

section \<open>Sessions\<close>

definition hex_digit :: "nat \<Rightarrow> char" where
  "hex_digit d = (if d < 10 then char_of (48 + d) else char_of (87 + d))"

definition hex_encode :: "string \<Rightarrow> string" where
  "hex_encode bs = concat (map (\<lambda>c. [hex_digit (byte c div 16), hex_digit (byte c mod 16)]) bs)"

fun hex_pairs :: "string \<Rightarrow> string option" where
  "hex_pairs (a # b # s) = (case to_digit16 a of
     None \<Rightarrow> None
   | Some hi \<Rightarrow> (case to_digit16 b of
       None \<Rightarrow> None
     | Some lo \<Rightarrow> map_option ((#) (char_of (hi * 16 + lo))) (hex_pairs s)))"
| "hex_pairs _ = Some []"

definition hex_decode :: "string \<Rightarrow> string option" where
  "hex_decode text = (if length text \<noteq> SESSION_ID_BYTES * 2 then None else hex_pairs text)"

definition live :: "nat \<Rightarrow> Session \<Rightarrow> bool" where
  "live now s \<longleftrightarrow> now - se_issued s < SESSION_TTL"

definition issue_session_at :: "nat \<Rightarrow> string \<Rightarrow> AuthState \<Rightarrow> string \<times> AuthState" where
  "issue_session_at now sid st =
     (let sessions = filter (live now) (au_sessions st);
          kept = drop (Suc (length sessions) - MAX_SESSIONS) sessions
      in (hex_encode sid, st\<lparr>au_sessions := kept @ [\<lparr>se_id = sid, se_issued = now\<rparr>]\<rparr>))"

definition session_is_valid_at :: "nat \<Rightarrow> string \<Rightarrow> AuthState \<Rightarrow> bool \<times> AuthState" where
  "session_is_valid_at now candidate st = (case hex_decode (str_trim candidate) of
     None \<Rightarrow> (False, st)
   | Some bytes \<Rightarrow>
       (let sessions = filter (live now) (au_sessions st)
        in (foldl (\<lambda>matched s. matched \<or> constant_time_eq bytes (se_id s)) False sessions,
            st\<lparr>au_sessions := sessions\<rparr>)))"

section \<open>The parts of a request\<close>

definition SESSION_COOKIE_NAME :: string where "SESSION_COOKIE_NAME = ''xb_session''"
definition LOGIN_PATH :: string where "LOGIN_PATH = ''/login''"

definition extract_cookie :: "string \<Rightarrow> string \<Rightarrow> string option" where
  "extract_cookie header name =
     (case List.map_filter (\<lambda>kv. case split_once (CHR ''='') (str_trim kv) of
          Some (k, v) \<Rightarrow> (if k = name then Some v else None) | None \<Rightarrow> None)
        (split_on (CHR '';'') header) of [] \<Rightarrow> None | v # _ \<Rightarrow> Some v)"

definition hex_val :: "char \<Rightarrow> nat" where
  "hex_val c = (case to_digit16 c of Some d \<Rightarrow> d | None \<Rightarrow> 0)"

text \<open>\<open>percent_decode\<close> on the bytes of a form value.\<close>

fun percent_bytes :: "string \<Rightarrow> string" where
  "percent_bytes (a # b # c # s) =
     (if a = CHR ''+'' then CHR '' '' # percent_bytes (b # c # s)
      else if a = CHR ''%'' \<and> to_digit16 b \<noteq> None \<and> to_digit16 c \<noteq> None
        then char_of (hex_val b * 16 + hex_val c) # percent_bytes s
      else a # percent_bytes (b # c # s))"
| "percent_bytes s = map (\<lambda>a. if a = CHR ''+'' then CHR '' '' else a) s"

definition percent_decode :: "string \<Rightarrow> string" where
  "percent_decode input = utf8_lossy (percent_bytes input)"

definition form_field :: "string \<Rightarrow> string \<Rightarrow> string option" where
  "form_field body field =
     (case List.map_filter (\<lambda>pair. case split_once (CHR ''='') pair of
          Some (k, v) \<Rightarrow> (if k = field then Some (percent_decode v) else None) | None \<Rightarrow> None)
        (split_on (CHR ''&'') body) of [] \<Rightarrow> None | v # _ \<Rightarrow> Some v)"

section \<open>The origin of a request\<close>

datatype OriginProblem = Absent | NoHost | Foreign string

fun after_scheme :: "string \<Rightarrow> string option" where
  "after_scheme [] = None"
| "after_scheme (c # s) = (if take 3 (c # s) = ''://'' then Some (drop 3 (c # s)) else after_scheme s)"

definition authority_of_url :: "string \<Rightarrow> string option" where
  "authority_of_url raw = (case after_scheme (str_trim raw) of
     None \<Rightarrow> None
   | Some rest \<Rightarrow> (let a = takeWhile (\<lambda>c. c \<notin> {CHR ''/'', CHR ''?'', CHR ''#''}) rest
       in if a = [] then None else Some a))"

definition verify_same_origin :: "headers \<Rightarrow> OriginProblem + unit" where
  "verify_same_origin hs = (case map_option str_trim (header_str hs ''host'') of
     None \<Rightarrow> Inl NoHost
   | Some expected \<Rightarrow>
       (if expected = [] then Inl NoHost
        else case (case hs ''origin'' of Some v \<Rightarrow> Some v | None \<Rightarrow> hs ''referer'') of
          Some (Some source) \<Rightarrow> (case authority_of_url source of
             None \<Rightarrow> Inl (Foreign (str_trim source))
           | Some authority \<Rightarrow> (if eq_ignore_ascii_case authority expected then Inr ()
               else Inl (Foreign authority)))
        | _ \<Rightarrow> Inl Absent))"

definition is_state_changing :: "string \<Rightarrow> bool" where
  "is_state_changing verb \<longleftrightarrow> verb \<notin> {''GET'', ''HEAD'', ''OPTIONS''}"

text \<open>The layer \<open>require_same_origin\<close>: refused, or passed on to the handler.\<close>

definition require_same_origin :: "string \<Rightarrow> headers \<Rightarrow> OriginProblem option" where
  "require_same_origin verb hs = (if is_state_changing verb
     then (case verify_same_origin hs of Inl p \<Rightarrow> Some p | Inr _ \<Rightarrow> None) else None)"

section \<open>Login and access\<close>

datatype SecurePolicy = Auto | Always | Never

definition secure_policy :: "string option \<Rightarrow> SecurePolicy" where
  "secure_policy raw = (case raw of None \<Rightarrow> Auto
   | Some v \<Rightarrow> (let v = map ascii_lower (str_trim v)
       in if v \<in> {''always'', ''1'', ''true''} then Always
          else if v \<in> {''never'', ''0'', ''false''} then Never else Auto))"

definition request_is_https :: "headers \<Rightarrow> bool" where
  "request_is_https hs = (case header_str hs ''x-forwarded-proto'' of
     None \<Rightarrow> False
   | Some v \<Rightarrow> eq_ignore_ascii_case (str_trim (hd (split_on (CHR '','') v))) ''https'')"

definition cookie_secure :: "string option \<Rightarrow> headers \<Rightarrow> bool" where
  "cookie_secure env hs = (case secure_policy env of
     Always \<Rightarrow> True | Never \<Rightarrow> False | Auto \<Rightarrow> request_is_https hs)"

definition build_session_cookie :: "string \<Rightarrow> bool \<Rightarrow> string" where
  "build_session_cookie session_id secure =
     SESSION_COOKIE_NAME @ ''='' @ session_id @ ''; Path=/; HttpOnly; SameSite=Strict'' @
     (if secure then ''; Secure'' else [])"

record login_response =
  lr_location :: string
  lr_set_cookie :: "string option"
  lr_delay :: nat

text \<open>\<open>login_submit\<close>; \<open>random\<close> is what the random generator of the system gives, if it works.\<close>

definition login_submit ::
  "string option \<Rightarrow> headers \<Rightarrow> string \<Rightarrow> string option \<Rightarrow> nat \<Rightarrow> AuthState \<Rightarrow> login_response \<times> AuthState" where
  "login_submit env hs body random now st =
     (let candidate = (case form_field body ''token'' of Some v \<Rightarrow> v | None \<Rightarrow> []);
          failed = (\<lambda>delay. \<lparr>lr_location = LOGIN_PATH @ ''?error=1'', lr_set_cookie = None, lr_delay = delay\<rparr>)
      in case verify_token now candidate st of
           ((False, delay), st') \<Rightarrow> (failed delay, st')
         | ((True, _), st') \<Rightarrow> (case random of
             None \<Rightarrow> (failed 0, st')
           | Some sid \<Rightarrow> (case issue_session_at now sid st' of (session_id, st'') \<Rightarrow>
               (\<lparr>lr_location = ''/'',
                  lr_set_cookie = Some (build_session_cookie session_id (cookie_secure env hs)),
                  lr_delay = 0\<rparr>, st''))))"

text \<open>\<open>require_auth\<close>: whether the request reaches the handler.\<close>

definition require_auth :: "headers \<Rightarrow> nat \<Rightarrow> AuthState \<Rightarrow> bool \<times> AuthState" where
  "require_auth hs now st =
     (case header_str hs ''cookie'' of
        None \<Rightarrow> (False, st)
      | Some c \<Rightarrow> (case extract_cookie c SESSION_COOKIE_NAME of
          None \<Rightarrow> (False, st)
        | Some session_id \<Rightarrow> session_is_valid_at now session_id st))"

section \<open>Histories\<close>

text \<open>What happens at the console: logins and requests to a protected page, each at its time.\<close>

datatype auth_event =
    Login "string option" headers string "string option" nat
  | Access headers nat

definition event_time :: "auth_event \<Rightarrow> nat" where
  "event_time ev = (case ev of Login env hs body random now \<Rightarrow> now | Access hs now \<Rightarrow> now)"

definition auth_step :: "auth_event \<Rightarrow> AuthState \<Rightarrow> AuthState" where
  "auth_step ev st = (case ev of
     Login env hs body random now \<Rightarrow> snd (login_submit env hs body random now st)
   | Access hs now \<Rightarrow> snd (require_auth hs now st))"

definition auth_run :: "auth_event list \<Rightarrow> AuthState \<Rightarrow> AuthState" where
  "auth_run evs st = fold auth_step evs st"

text \<open>The session that a login grants: it carried the token, and the generator worked.\<close>

definition grant :: "string \<Rightarrow> auth_event \<Rightarrow> Session option" where
  "grant token ev = (case ev of
     Login env hs body random now \<Rightarrow>
       (if str_trim (case form_field body ''token'' of Some v \<Rightarrow> v | None \<Rightarrow> []) = token
        then map_option (\<lambda>sid. \<lparr>se_id = sid, se_issued = now\<rparr>) random else None)
   | Access hs now \<Rightarrow> None)"

definition grants :: "string \<Rightarrow> auth_event list \<Rightarrow> Session list" where
  "grants token evs = List.map_filter (grant token) evs"

definition last_n :: "nat \<Rightarrow> 'a list \<Rightarrow> 'a list" where
  "last_n n xs = drop (length xs - n) xs"

text \<open>The sessions a request at some later time can use: those of the last logins that still live.\<close>

definition sessions_inv :: "nat \<Rightarrow> Session list \<Rightarrow> Session list \<Rightarrow> bool" where
  "sessions_inv now granted sessions \<longleftrightarrow>
     (\<exists>gone. last_n MAX_SESSIONS granted = gone @ sessions \<and> (\<forall>s \<in> set gone. \<not> live now s))"

lemma live_mono: "live now s \<Longrightarrow> t \<le> now \<Longrightarrow> live t s"
  by (auto simp: live_def)

lemma sorted_live:
  assumes "sorted (map se_issued xs)"
  shows "\<exists>gone. xs = gone @ filter (live now) xs \<and> (\<forall>s \<in> set gone. \<not> live now s)"
  using assms
proof (induction xs)
  case (Cons x xs)
  show ?case
  proof (cases "live now x")
    case True
    then have "\<forall>y \<in> set xs. live now y" using Cons(2) by (auto simp: live_def)
    then show ?thesis using True by (intro exI [of _ "[]"]) (simp add: filter_id_conv)
  next
    case False
    then obtain gone where "xs = gone @ filter (live now) xs" "\<forall>s \<in> set gone. \<not> live now s"
      using Cons by auto
    then show ?thesis using False by (intro exI [of _ "x # gone"]) auto
  qed
qed simp

lemma sorted_last_n: "sorted (map se_issued g) \<Longrightarrow> sorted (map se_issued (last_n n g))"
  by (simp add: last_n_def drop_map [symmetric] sorted_wrt_drop)

lemma last_n_snoc:
  "0 < n \<Longrightarrow> last_n n (xs @ [x]) = drop (Suc (length (last_n n xs)) - n) (last_n n xs) @ [x]"
  by (cases "length xs < n") (auto simp: last_n_def not_less Suc_diff_le)

lemma sessions_inv_filter:
  assumes "sessions_inv t granted sessions" and "t \<le> now" and "sorted (map se_issued granted)"
  shows "sessions_inv now granted (filter (live now) sessions)"
proof -
  obtain gone where gone: "last_n MAX_SESSIONS granted = gone @ sessions" "\<forall>s \<in> set gone. \<not> live t s"
    using assms(1) by (auto simp: sessions_inv_def)
  have "sorted (map se_issued sessions)"
    using sorted_last_n [OF assms(3), of MAX_SESSIONS] gone(1) by (simp add: sorted_append)
  then obtain g2 where g2: "sessions = g2 @ filter (live now) sessions" "\<forall>s \<in> set g2. \<not> live now s"
    using sorted_live by blast
  have "\<forall>s \<in> set (gone @ g2). \<not> live now s" using gone(2) g2(2) live_mono [OF _ assms(2)] by auto
  moreover have "last_n MAX_SESSIONS granted = (gone @ g2) @ filter (live now) sessions"
    using gone(1) g2(1) by simp
  ultimately show ?thesis unfolding sessions_inv_def by blast
qed

lemma sessions_inv_issue:
  assumes "sessions_inv now granted sessions"
  shows "sessions_inv now (granted @ [s]) (drop (Suc (length sessions) - MAX_SESSIONS) sessions @ [s])"
proof -
  obtain gone where gone: "last_n MAX_SESSIONS granted = gone @ sessions" "\<forall>s \<in> set gone. \<not> live now s"
    using assms by (auto simp: sessions_inv_def)
  have max: "0 < MAX_SESSIONS" by (simp add: MAX_SESSIONS_def)
  have l: "length (gone @ sessions) \<le> MAX_SESSIONS"
    unfolding gone(1) [symmetric] by (simp add: last_n_def)
  have full: "last_n MAX_SESSIONS (granted @ [s]) =
      drop (Suc (length (gone @ sessions)) - MAX_SESSIONS) (gone @ sessions) @ [s]"
    using last_n_snoc [OF max, of granted s] unfolding gone(1) .
  show ?thesis
  proof (cases "Suc (length sessions) \<le> MAX_SESSIONS")
    case True
    then show ?thesis
      using full gone(2) unfolding sessions_inv_def
      by (intro exI [of _ "drop (Suc (length (gone @ sessions)) - MAX_SESSIONS) gone"])
        (auto dest: in_set_dropD)
  next
    case False
    then have "gone = []" using l by (cases gone) auto
    then show ?thesis using full unfolding sessions_inv_def by auto
  qed
qed

lemma sessions_inv_mono:
  "sessions_inv t granted sessions \<Longrightarrow> t \<le> now \<Longrightarrow> sessions_inv now granted sessions"
  unfolding sessions_inv_def using live_mono by blast

lemma grants_snoc: "grants token (evs @ [ev]) = grants token evs @ (case grant token ev of None \<Rightarrow> [] | Some s \<Rightarrow> [s])"
  by (simp add: grants_def List.map_filter_def split: option.split)

lemma grant_time: "grant token ev = Some s \<Longrightarrow> se_issued s = event_time ev"
  by (auto simp: grant_def event_time_def split: auth_event.splits if_splits)

lemma sorted_grants: "sorted (map event_time evs) \<Longrightarrow> sorted (map se_issued (grants token evs))"
proof (induction evs rule: rev_induct)
  case (snoc ev evs)
  have "set (map se_issued (grants token evs)) \<subseteq> set (map event_time evs)"
    using grant_time by (fastforce simp: grants_def set_map_filter)
  then show ?case
    using snoc by (auto simp: grants_snoc sorted_append grant_time split: option.split)
qed (simp add: grants_def map_filter_simps)

lemma verify_token_spec:
  "\<exists>d st'. verify_token now candidate st = ((str_trim candidate = au_token st, d), st') \<and>
     au_token st' = au_token st \<and> au_sessions st' = au_sessions st"
  by (auto simp: verify_token_def note_failure_def Let_def constant_time_eq_iff)

lemma auth_step_spec:
  "au_token (auth_step ev st) = au_token st \<and>
   (case grant (au_token st) ev of
      Some s \<Rightarrow> au_sessions (auth_step ev st) =
        (let kept = filter (live (event_time ev)) (au_sessions st)
         in drop (Suc (length kept) - MAX_SESSIONS) kept @ [s])
    | None \<Rightarrow> au_sessions (auth_step ev st) = au_sessions st \<or>
        au_sessions (auth_step ev st) = filter (live (event_time ev)) (au_sessions st))"
proof (cases ev)
  case (Login env hs body random now)
  obtain d st' where v: "verify_token now (case form_field body ''token'' of Some v \<Rightarrow> v | None \<Rightarrow> []) st =
      ((str_trim (case form_field body ''token'' of Some v \<Rightarrow> v | None \<Rightarrow> []) = au_token st, d), st')"
    "au_token st' = au_token st" "au_sessions st' = au_sessions st"
    using verify_token_spec by blast
  show ?thesis
    using v by (auto simp: Login auth_step_def login_submit_def grant_def issue_session_at_def event_time_def
        Let_def split: option.split bool.split)
next
  case (Access hs now)
  then show ?thesis
    by (auto simp: auth_step_def require_auth_def session_is_valid_at_def grant_def event_time_def Let_def
        split: option.split)
qed

lemma auth_run_inv:
  assumes "sorted (map event_time evs)" and "\<forall>ev \<in> set evs. event_time ev \<le> now"
  shows "au_token (auth_run evs (with_token token)) = token \<and>
    sessions_inv now (grants token evs) (au_sessions (auth_run evs (with_token token)))"
  using assms
proof (induction evs arbitrary: now rule: rev_induct)
  case Nil
  show ?case by (simp add: auth_run_def with_token_def sessions_inv_def grants_def map_filter_simps last_n_def)
next
  case (snoc ev evs)
  let ?st = "auth_run evs (with_token token)" and ?t = "event_time ev"
  have before: "\<forall>e \<in> set evs. event_time e \<le> ?t" and sorted: "sorted (map event_time evs)"
    using snoc(2) by (auto simp: sorted_append)
  have inv: "au_token ?st = token" "sessions_inv ?t (grants token evs) (au_sessions ?st)"
    using snoc(1) [OF sorted before] by auto
  have kept: "sessions_inv ?t (grants token evs) (filter (live ?t) (au_sessions ?st))"
    by (rule sessions_inv_filter [OF inv(2) order_refl sorted_grants [OF sorted]])
  have "sessions_inv ?t (grants token (evs @ [ev])) (au_sessions (auth_step ev ?st))"
  proof (cases "grant token ev")
    case None
    then show ?thesis using auth_step_spec [of ev ?st] inv kept by (auto simp: grants_snoc)
  next
    case (Some s)
    then show ?thesis
      using auth_step_spec [of ev ?st] inv(1) sessions_inv_issue [OF kept, of s]
      by (simp add: grants_snoc Let_def)
  qed
  then have "sessions_inv now (grants token (evs @ [ev])) (au_sessions (auth_step ev ?st))"
    by (rule sessions_inv_mono) (use snoc(3) in simp)
  then show ?case using auth_step_spec [of ev ?st] inv(1) by (simp add: auth_run_def)
qed

lemma foldl_matched: "foldl (\<lambda>m s. m \<or> constant_time_eq b (se_id s)) m ss \<longleftrightarrow> m \<or> (\<exists>s \<in> set ss. se_id s = b)"
  by (induction ss arbitrary: m) (auto simp: constant_time_eq_iff)

text \<open>C31: Who gets in. In any history of logins and requests, a request reaches its handler exactly when it
  carries a session cookie that decodes to the id of one of the last 32 sessions granted, not older
  than twelve hours; and a session is granted only by a login that carried the token. Nothing else in
  the history, such as failed logins, other requests or expired sessions, has an influence.
\<close>

theorem access_exact:
  assumes "sorted (map event_time (evs @ [Access hs now]))"
  shows "fst (require_auth hs now (auth_run evs (with_token token))) \<longleftrightarrow>
    (\<exists>c v. header_str hs ''cookie'' = Some c \<and> extract_cookie c SESSION_COOKIE_NAME = Some v \<and>
       (\<exists>s. s \<in> set (last_n MAX_SESSIONS (grants token evs)) \<and> live now s \<and>
          hex_decode (str_trim v) = Some (se_id s)))"
proof -
  have times: "sorted (map event_time evs)" "\<forall>ev \<in> set evs. event_time ev \<le> now"
    using assms by (auto simp: sorted_append event_time_def)
  obtain gone where gone: "last_n MAX_SESSIONS (grants token evs) =
      gone @ au_sessions (auth_run evs (with_token token))" "\<forall>s \<in> set gone. \<not> live now s"
    using auth_run_inv [OF times, of token] by (auto simp: sessions_inv_def)
  have live: "(\<exists>s. s \<in> set (last_n MAX_SESSIONS (grants token evs)) \<and> live now s \<and> P s) \<longleftrightarrow>
      (\<exists>s \<in> set (au_sessions (auth_run evs (with_token token))). live now s \<and> P s)" for P
    unfolding gone(1) using gone(2) by auto
  show ?thesis
  proof (cases "header_str hs ''cookie''")
    case (Some c)
    show ?thesis
    proof (cases "extract_cookie c SESSION_COOKIE_NAME")
      case v: (Some v)
      show ?thesis
        unfolding live
        by (cases "hex_decode (str_trim v)")
          (auto simp: require_auth_def Some v session_is_valid_at_def Let_def foldl_matched)
    qed (simp add: require_auth_def Some)
  qed (simp add: require_auth_def)
qed

text \<open>The cookie of a login decodes to the session it was made for.\<close>

lemma byte_char_of [simp]: "byte (char_of n) = n mod 256"
  by (simp add: byte_def)

lemma to_digit16_hex [simp]: "d < 16 \<Longrightarrow> to_digit16 (hex_digit d) = Some d"
  by (auto simp: to_digit16_def hex_digit_def)

lemma hex_pairs_encode: "hex_pairs (hex_encode s) = Some s"
proof (induction s)
  case (Cons c s)
  have c: "byte c < 256" using nat_of_char_less_256 [of c] by (simp add: byte_def)
  have "char_of (byte c div 16 * 16 + byte c mod 16) = c" by (simp add: byte_def)
  then show ?case using Cons c by (simp add: hex_encode_def)
qed (simp add: hex_encode_def)

lemma hex_decode_encode:
  "length s = SESSION_ID_BYTES \<Longrightarrow> hex_decode (hex_encode s) = Some s"
  by (simp add: hex_decode_def hex_pairs_encode, simp add: hex_encode_def length_concat comp_def sum_list_triv)

section \<open>A sample\<close>

lemma percent_decode_plain:
  assumes "\<forall>c \<in> set s. c \<noteq> CHR ''+'' \<and> c \<noteq> CHR ''%'' \<and> byte c < 0x80"
  shows "percent_decode s = s"
proof -
  have "percent_bytes s = s"
    using assms by (induction s rule: percent_bytes.induct) auto
  moreover have "utf8_lossy s = s"
    using assms by (intro utf8_lossy_ascii) simp
  ultimately show ?thesis by (simp add: percent_decode_def)
qed

definition ex_sid :: string where "ex_sid = replicate SESSION_ID_BYTES (CHR ''s'')"

definition ex_login :: auth_event where
  "ex_login = Login None (\<lambda>_. None) ''token=abc'' (Some ex_sid) 5"

definition ex_wrong :: auth_event where
  "ex_wrong = Login None (\<lambda>_. None) ''token=abd'' (Some ex_sid) 7"

definition ex_headers :: headers where
  "ex_headers = (\<lambda>h. if h = ''cookie'' then Some (Some (SESSION_COOKIE_NAME @ ''='' @ hex_encode ex_sid)) else None)"

lemma ex_fields: "form_field ''token=abc'' ''token'' = Some ''abc''" "form_field ''token=abd'' ''token'' = Some ''abd''"
  by (simp_all add: form_field_def List.map_filter_def percent_decode_plain byte_def)

lemma ex_trims: "str_trim ''abc'' = ''abc''" "str_trim ''abd'' = ''abd''"
  by (simp_all add: str_trim_plain byte_def)

lemma ex_cookie: "hex_encode ex_sid = concat (replicate SESSION_ID_BYTES ''73'')"
  by (simp add: hex_encode_def ex_sid_def hex_digit_def byte_def char_of_def bit_Suc_0_iff)

lemma ex_cookie_text: "hex_encode ex_sid = ''73'' @ concat (replicate 30 ''73'') @ ''73''"
  by (simp add: ex_cookie SESSION_ID_BYTES_def numeral_eq_Suc)

theorem access_exact_witness:
  "fst (require_auth ex_headers 9 (auth_run [ex_login, ex_wrong] (with_token ''abc'')))"
proof -
  have g: "grants ''abc'' [ex_login, ex_wrong] = [\<lparr>se_id = ex_sid, se_issued = 5\<rparr>]"
    by (simp add: grants_def List.map_filter_def grant_def ex_login_def ex_wrong_def ex_fields ex_trims)
  have cookie: "extract_cookie (SESSION_COOKIE_NAME @ ''='' @ hex_encode ex_sid) SESSION_COOKIE_NAME =
      Some (hex_encode ex_sid)"
  proof -
    have "CHR '';'' \<notin> set (hex_encode ex_sid)" by (simp add: ex_cookie)
    then have "split_on (CHR '';'') (SESSION_COOKIE_NAME @ ''='' @ hex_encode ex_sid) =
        [SESSION_COOKIE_NAME @ ''='' @ hex_encode ex_sid]"
      by (intro split_on_word) (simp add: SESSION_COOKIE_NAME_def)
    moreover have "str_trim (SESSION_COOKIE_NAME @ ''='' @ hex_encode ex_sid) =
        SESSION_COOKIE_NAME @ ''='' @ hex_encode ex_sid"
      by (rule str_trim_plain) (simp_all add: SESSION_COOKIE_NAME_def ex_cookie_text byte_def)
    moreover have "split_once (CHR ''='') (SESSION_COOKIE_NAME @ CHR ''='' # hex_encode ex_sid) =
        Some (SESSION_COOKIE_NAME, hex_encode ex_sid)"
      by (rule split_once_append) (simp add: SESSION_COOKIE_NAME_def)
    ultimately show ?thesis by (simp add: extract_cookie_def List.map_filter_def)
  qed
  have trim: "str_trim (hex_encode ex_sid) = hex_encode ex_sid"
    by (rule str_trim_plain) (simp_all add: ex_cookie_text byte_def)
  have decode: "hex_decode (hex_encode ex_sid) = Some ex_sid"
    by (rule hex_decode_encode) (simp add: ex_sid_def)
  have "sorted (map event_time ([ex_login, ex_wrong] @ [Access ex_headers 9]))"
    by (simp add: event_time_def ex_login_def ex_wrong_def)
  from access_exact [OF this, of "''abc''"] show ?thesis
    using cookie trim decode
    by (simp add: g last_n_def MAX_SESSIONS_def live_def SESSION_TTL_def ex_headers_def header_str_def)
qed

end
