(* ===== verification/XB_Guard.thy ===== *)
theory XB_Guard
  imports XB_Auth
begin

text \<open>
  The two-step confirmation of destructive operations (\<open>web/guard.rs\<close>): the confirmation page draws a
  one-time token for an action on a profile, the submission consumes it, checks the name that was
  typed and passes the audit gate. Times are in milliseconds; a step reads the clock twice. The lemmas
  show exactly which submissions are let through.
\<close>

section \<open>Data\<close>

type_synonym uuid = "128 word"

definition CONFIRM_TTL :: nat where "CONFIRM_TTL = 5 * 60 * 1000"

record PendingConfirmation =
  pe_action :: string
  pe_target :: string
  pe_issued_at :: nat

type_synonym guard_pending = "uuid \<Rightarrow> PendingConfirmation option"

datatype GuardRejection = InvalidToken | ActionOrTargetMismatch | NameMismatch

definition reason_tag :: "GuardRejection \<Rightarrow> string" where
  "reason_tag r = (case r of InvalidToken \<Rightarrow> ''invalid_token''
   | ActionOrTargetMismatch \<Rightarrow> ''target_mismatch'' | NameMismatch \<Rightarrow> ''name_mismatch'')"

datatype ConfirmError = ForeignOrigin OriginProblem | Rejected GuardRejection | AuditFailed XBackupError

record ConfirmedGate =
  cg_receipt :: AuditReceipt
  cg_allow_overwrite :: bool

text \<open>What the guard runs on: the parser of UUIDs and the JSON form of an audit record.\<close>

record guard_api =
  ga_parse_uuid :: "string \<Rightarrow> uuid option"
  ga_to_json :: "SerializedRecord \<Rightarrow> string option"

text \<open>A submission: its headers, what the route says it is about, the fields of the form, the arguments
  to record for either value of the toggle, and what the append to the log meets.\<close>

record confirm_call =
  cc_headers :: headers
  cc_actor :: string
  cc_action :: string
  cc_target :: string
  cc_token :: "string option"
  cc_typed_name :: string
  cc_allow_overwrite :: bool
  cc_masked_args :: "bool \<Rightarrow> string list"
  cc_fault :: "append_fault option"
  cc_stamp :: string
  cc_swept :: nat
  cc_checked :: nat

section \<open>Operations\<close>

definition is_expired :: "nat \<Rightarrow> nat \<Rightarrow> bool" where
  "is_expired issued_at now \<longleftrightarrow> now - issued_at > CONFIRM_TTL"

definition confirm_token_parse :: "guard_api \<Rightarrow> string \<Rightarrow> uuid option" where
  "confirm_token_parse api raw = ga_parse_uuid api (str_trim raw)"

definition sweep_expired_at :: "nat \<Rightarrow> guard_pending \<Rightarrow> guard_pending" where
  "sweep_expired_at now p = (\<lambda>t. case p t of
     None \<Rightarrow> None | Some e \<Rightarrow> if is_expired (pe_issued_at e) now then None else Some e)"

text \<open>\<open>render_confirm\<close>, as far as the page is not concerned: \<open>token\<close> is the UUID it draws.\<close>

definition render_confirm :: "string \<Rightarrow> string \<Rightarrow> uuid \<Rightarrow> nat \<Rightarrow> nat \<Rightarrow> guard_pending \<Rightarrow> guard_pending" where
  "render_confirm action target token swept issued p =
     (sweep_expired_at swept p)(token \<mapsto> \<lparr>pe_action = action, pe_target = target, pe_issued_at = issued\<rparr>)"

definition token_of :: "guard_api \<Rightarrow> confirm_call \<Rightarrow> uuid option" where
  "token_of api c = (case cc_token c of None \<Rightarrow> None | Some raw \<Rightarrow> confirm_token_parse api raw)"

definition check_and_consume ::
  "guard_api \<Rightarrow> confirm_call \<Rightarrow> guard_pending \<Rightarrow> GuardRejection option \<times> guard_pending" where
  "check_and_consume api c p = (case token_of api c of
     None \<Rightarrow> (Some InvalidToken, p)
   | Some token \<Rightarrow>
       (case p token of
          None \<Rightarrow> (Some InvalidToken, p(token := None))
        | Some entry \<Rightarrow>
            ((if is_expired (pe_issued_at entry) (cc_checked c) then Some InvalidToken
              else if pe_action entry \<noteq> cc_action c \<or> pe_target entry \<noteq> cc_target c
                then Some ActionOrTargetMismatch
              else if cc_typed_name c \<noteq> cc_target c then Some NameMismatch else None),
             p(token := None))))"

text \<open>\<open>record_rejection\<close>: a failed append only leaves a warning.\<close>

definition record_rejection ::
  "guard_api \<Rightarrow> confirm_call \<Rightarrow> GuardRejection \<Rightarrow> string option \<Rightarrow> string option" where
  "record_rejection api c reason log = snd (audit_record (ga_to_json api) (cc_fault c) (cc_stamp c)
     \<lparr>ae_actor = cc_actor c, ae_action = cc_action c @ ''.reject'', ae_target = cc_target c,
      ae_args_masked = [''reason='' @ reason_tag reason], ae_outcome = AuditFailure,
      ae_exit_code = None\<rparr> log)"

definition confirm_and_gate ::
  "guard_api \<Rightarrow> confirm_call \<Rightarrow> guard_pending \<times> string option \<Rightarrow>
   (ConfirmError + ConfirmedGate) \<times> guard_pending \<times> string option" where
  "confirm_and_gate api c s = (case s of (p, log) \<Rightarrow>
     (case verify_same_origin (cc_headers c) of
        Inl problem \<Rightarrow> (Inl (ForeignOrigin problem), p, log)
      | Inr _ \<Rightarrow>
          (case check_and_consume api c (sweep_expired_at (cc_swept c) p) of
             (Some rejection, p') \<Rightarrow>
               (Inl (Rejected rejection), p', record_rejection api c rejection log)
           | (None, p') \<Rightarrow>
               (case gate (ga_to_json api) (cc_fault c) (cc_stamp c) (cc_actor c) (cc_action c) (cc_target c)
                   (cc_masked_args c (cc_allow_overwrite c)) log of
                  (Inl e, log') \<Rightarrow> (Inl (AuditFailed e), p', log')
                | (Inr receipt, log') \<Rightarrow>
                    (Inr \<lparr>cg_receipt = receipt, cg_allow_overwrite = cc_allow_overwrite c\<rparr>, p', log')))))"

section \<open>Histories\<close>

datatype guard_event =
    Render string string uuid nat nat
  | Confirm confirm_call

definition guard_step :: "guard_api \<Rightarrow> guard_event \<Rightarrow> guard_pending \<times> string option \<Rightarrow> guard_pending \<times> string option" where
  "guard_step api ev s = (case ev of
     Render action target token swept issued \<Rightarrow> (render_confirm action target token swept issued (fst s), snd s)
   | Confirm c \<Rightarrow> snd (confirm_and_gate api c s))"

definition guard_run :: "guard_api \<Rightarrow> guard_event list \<Rightarrow> guard_pending \<times> string option \<Rightarrow> guard_pending \<times> string option" where
  "guard_run api evs s = fold (guard_step api) evs s"

definition event_times :: "guard_event \<Rightarrow> nat list" where
  "event_times ev = (case ev of Render action target token swept issued \<Rightarrow> [swept, issued]
   | Confirm c \<Rightarrow> [cc_swept c, cc_checked c])"

definition issued_tokens :: "guard_event list \<Rightarrow> uuid list" where
  "issued_tokens evs = List.map_filter
     (\<lambda>ev. case ev of Render action target token swept issued \<Rightarrow> Some token | Confirm c \<Rightarrow> None) evs"

text \<open>A submission of the console's own pages that carries this token.\<close>

definition attempts :: "guard_api \<Rightarrow> uuid \<Rightarrow> guard_event \<Rightarrow> bool" where
  "attempts api token ev \<longleftrightarrow> (case ev of
     Confirm c \<Rightarrow> verify_same_origin (cc_headers c) = Inr () \<and> token_of api c = Some token
   | Render _ _ _ _ _ \<Rightarrow> False)"

text \<open>The token was drawn on a page for this action and target, and not tried since.\<close>

definition offered :: "guard_api \<Rightarrow> guard_event list \<Rightarrow> uuid \<Rightarrow> PendingConfirmation \<Rightarrow> bool" where
  "offered api evs token e \<longleftrightarrow> (\<exists>as bs swept.
     evs = as @ Render (pe_action e) (pe_target e) token swept (pe_issued_at e) # bs \<and>
     list_all (\<lambda>ev. \<not> attempts api token ev) bs)"

lemma offered_Nil [simp]: "\<not> offered api [] token e"
  by (simp add: offered_def)

lemma offered_snoc:
  "offered api (evs @ [ev]) token e \<longleftrightarrow>
     (\<exists>swept. ev = Render (pe_action e) (pe_target e) token swept (pe_issued_at e)) \<or>
     offered api evs token e \<and> \<not> attempts api token ev"
proof -
  have "(\<exists>as bs swept. evs @ [ev] = as @ Render (pe_action e) (pe_target e) token swept (pe_issued_at e) # bs \<and>
      list_all (\<lambda>ev. \<not> attempts api token ev) bs) \<longleftrightarrow>
    (\<exists>swept. ev = Render (pe_action e) (pe_target e) token swept (pe_issued_at e)) \<or>
    (\<exists>as bs swept. evs = as @ Render (pe_action e) (pe_target e) token swept (pe_issued_at e) # bs \<and>
      list_all (\<lambda>ev. \<not> attempts api token ev) bs) \<and> \<not> attempts api token ev" (is "?l \<longleftrightarrow> ?n \<or> ?o \<and> ?a")
  proof
    assume ?l
    then obtain as bs swept where s: "evs @ [ev] = as @ Render (pe_action e) (pe_target e) token swept (pe_issued_at e) # bs"
      "list_all (\<lambda>ev. \<not> attempts api token ev) bs" by blast
    show "?n \<or> ?o \<and> ?a"
    proof (cases bs rule: rev_cases)
      case Nil
      then show ?thesis using s(1) by auto
    next
      case (snoc bs' b)
      then have "evs = as @ Render (pe_action e) (pe_target e) token swept (pe_issued_at e) # bs'" "ev = b"
        using s(1) by auto
      then show ?thesis using s(2) snoc by auto
    qed
  next
    assume "?n \<or> ?o \<and> ?a"
    then show ?l
    proof
      assume ?n
      then show ?l by (intro exI [of _ evs] exI [of _ "[]"]) auto
    next
      assume o: "?o \<and> ?a"
      then obtain as bs swept where s: "evs = as @ Render (pe_action e) (pe_target e) token swept (pe_issued_at e) # bs"
        "list_all (\<lambda>ev. \<not> attempts api token ev) bs" by blast
      show ?l
        using s o by (intro exI [of _ as] exI [of _ "bs @ [ev]"] exI [of _ swept]) auto
    qed
  qed
  then show ?thesis by (simp add: offered_def)
qed

lemma offered_issued: "offered api evs token e \<Longrightarrow> token \<in> set (issued_tokens evs)"
  by (force simp: offered_def issued_tokens_def set_map_filter)

lemma issued_snoc:
  "distinct (issued_tokens (evs @ [ev])) \<Longrightarrow> distinct (issued_tokens evs)"
  "distinct (issued_tokens (evs @ [Render a b token s i])) \<Longrightarrow> token \<notin> set (issued_tokens evs)"
  by (auto simp: issued_tokens_def List.map_filter_def)

text \<open>The pending confirmations are those offered and not expired; an expired one may still be there.\<close>

definition guard_inv :: "guard_api \<Rightarrow> nat \<Rightarrow> guard_event list \<Rightarrow> guard_pending \<Rightarrow> bool" where
  "guard_inv api now evs p \<longleftrightarrow> (\<forall>token e.
     (p token = Some e \<longrightarrow> offered api evs token e) \<and>
     (offered api evs token e \<and> \<not> is_expired (pe_issued_at e) now \<longrightarrow> p token = Some e))"

lemma is_expired_mono: "is_expired i t \<Longrightarrow> t \<le> now \<Longrightarrow> is_expired i now"
  by (auto simp: is_expired_def)

lemma sweep_Some_iff: "sweep_expired_at now p t = Some e \<longleftrightarrow> p t = Some e \<and> \<not> is_expired (pe_issued_at e) now"
  by (auto simp: sweep_expired_at_def split: option.split)

lemma consumed:
  "snd (check_and_consume api c p) = (case token_of api c of None \<Rightarrow> p | Some token \<Rightarrow> p(token := None))"
  by (auto simp: check_and_consume_def split: option.split)

lemma guard_step_pending:
  "fst (guard_step api (Confirm c) s) =
     (if verify_same_origin (cc_headers c) = Inr ()
      then snd (check_and_consume api c (sweep_expired_at (cc_swept c) (fst s))) else fst s)"
  by (auto simp: guard_step_def confirm_and_gate_def split: prod.split sum.split option.split)

lemma guard_inv_step:
  assumes inv: "guard_inv api now evs (fst s)" and times: "\<forall>t \<in> set (event_times ev). t \<le> now"
    and tokens: "distinct (issued_tokens (evs @ [ev]))"
  shows "guard_inv api now (evs @ [ev]) (fst (guard_step api ev s))"
proof -
  let ?p' = "fst (guard_step api ev s)"
  have "(?p' t = Some e \<longrightarrow> offered api (evs @ [ev]) t e) \<and>
      (offered api (evs @ [ev]) t e \<and> \<not> is_expired (pe_issued_at e) now \<longrightarrow> ?p' t = Some e)" for t e
  proof -
    have p: "fst s t = Some e \<Longrightarrow> offered api evs t e"
      "offered api evs t e \<Longrightarrow> \<not> is_expired (pe_issued_at e) now \<Longrightarrow> fst s t = Some e"
      using inv unfolding guard_inv_def by blast+
    show ?thesis
    proof (cases ev)
      case (Render action target token swept issued)
      have new: "\<not> offered api evs token e"
        using tokens issued_snoc(2) offered_issued unfolding Render by blast
      have no: "\<not> attempts api t ev" by (simp add: Render attempts_def)
      have le: "swept \<le> now" using times by (simp add: Render event_times_def)
      have p': "?p' = (sweep_expired_at swept (fst s))
          (token \<mapsto> \<lparr>pe_action = action, pe_target = target, pe_issued_at = issued\<rparr>)"
        by (simp add: Render guard_step_def render_confirm_def)
      show ?thesis
      proof (cases "t = token")
        case True
        then show ?thesis unfolding p' offered_snoc using new no by (auto simp: Render)
      next
        case False
        then have "?p' t = Some e \<longleftrightarrow> fst s t = Some e \<and> \<not> is_expired (pe_issued_at e) swept"
          "offered api (evs @ [ev]) t e \<longleftrightarrow> offered api evs t e"
          unfolding p' offered_snoc using no by (auto simp: Render sweep_Some_iff)
        then show ?thesis using p is_expired_mono [OF _ le] by blast
      qed
    next
      case (Confirm c)
      have le: "cc_swept c \<le> now" using times by (simp add: Confirm event_times_def)
      show ?thesis
      proof (cases "verify_same_origin (cc_headers c) = Inr ()")
        case False
        then have "\<not> attempts api t ev" "?p' = fst s"
          by (simp_all add: Confirm attempts_def guard_step_pending)
        then show ?thesis unfolding offered_snoc using p by (simp add: Confirm)
      next
        case True
        have "offered api (evs @ [ev]) t e \<longleftrightarrow> offered api evs t e \<and> token_of api c \<noteq> Some t"
          unfolding offered_snoc using True by (simp add: Confirm attempts_def)
        moreover have "?p' t = Some e \<longleftrightarrow> fst s t = Some e \<and> \<not> is_expired (pe_issued_at e) (cc_swept c) \<and>
            token_of api c \<noteq> Some t"
          using True by (cases "token_of api c") (auto simp: Confirm guard_step_pending consumed sweep_Some_iff)
        ultimately show ?thesis using p is_expired_mono [OF _ le] by blast
      qed
    qed
  qed
  then show ?thesis unfolding guard_inv_def by blast
qed

lemma guard_run_inv:
  assumes "\<forall>ev \<in> set evs. \<forall>t \<in> set (event_times ev). t \<le> now" and "distinct (issued_tokens evs)"
  shows "guard_inv api now evs (fst (guard_run api evs (\<lambda>_. None, log)))"
  using assms
proof (induction evs rule: rev_induct)
  case Nil
  show ?case by (simp add: guard_inv_def guard_run_def)
next
  case (snoc ev evs)
  have "guard_inv api now evs (fst (guard_run api evs (\<lambda>_. None, log)))"
    using snoc(2) issued_snoc(1) [OF snoc(3)] by (intro snoc(1)) auto
  then show ?case
    using guard_inv_step [of api now evs "guard_run api evs (\<lambda>_. None, log)" ev] snoc(2,3)
    by (simp add: guard_run_def)
qed

text \<open>C35: The confirmation of a destructive operation. In any history of confirmation pages and submissions,
  in which no two pages draw the same token, a submission is let through exactly when it comes from the
  console's own origin, the profile name was typed exactly, its token was drawn at most five minutes
  earlier for this very action and profile and has not been tried since, not even without success, and
  the audit log took the record; then the toggle is passed on as it was submitted and the log ends
  with the request of this action, profile and arguments.
\<close>

theorem confirmation_exact:
  assumes "sorted (concat (map event_times (evs @ [Confirm c])))" and "distinct (issued_tokens evs)"
    and "guard_run api evs (\<lambda>_. None, log) = (p, before)"
    and "line_codec (ga_to_json api) of_json"
  shows "((\<exists>g s'. confirm_and_gate api c (p, before) = (Inr g, s')) \<longleftrightarrow>
      verify_same_origin (cc_headers c) = Inr () \<and> cc_typed_name c = cc_target c \<and>
      (\<exists>token issued. token_of api c = Some token \<and> cc_checked c - issued \<le> CONFIRM_TTL \<and>
         offered api evs token \<lparr>pe_action = cc_action c, pe_target = cc_target c, pe_issued_at = issued\<rparr>) \<and>
      (\<exists>receipt log'. gate (ga_to_json api) (cc_fault c) (cc_stamp c) (cc_actor c) (cc_action c) (cc_target c)
         (cc_masked_args c (cc_allow_overwrite c)) before = (Inr receipt, log'))) \<and>
    (\<forall>g p' after. confirm_and_gate api c (p, before) = (Inr g, p', after) \<longrightarrow>
      cg_allow_overwrite g = cc_allow_overwrite c \<and> (\<exists>content. after = Some content \<and>
        line_results of_json content =
          line_results of_json (case before of None \<Rightarrow> [] | Some b \<Rightarrow> b) @
          [Inr (Some \<lparr>ae_actor = cc_actor c, ae_action = cc_action c, ae_target = cc_target c,
             ae_args_masked = cc_masked_args c (cc_allow_overwrite c), ae_outcome = Requested,
             ae_exit_code = None, sr_timestamp = cc_stamp c\<rparr>)]))"
proof -
  let ?gate = "gate (ga_to_json api) (cc_fault c) (cc_stamp c) (cc_actor c) (cc_action c) (cc_target c)
    (cc_masked_args c (cc_allow_overwrite c)) before"
  let ?e = "\<lambda>issued. \<lparr>pe_action = cc_action c, pe_target = cc_target c, pe_issued_at = issued\<rparr>"
  have "\<forall>ev \<in> set evs. \<forall>t \<in> set (event_times ev). t \<le> cc_checked c" and le: "cc_swept c \<le> cc_checked c"
    using assms(1) by (auto simp: sorted_append event_times_def)
  then have inv: "guard_inv api (cc_checked c) evs p"
    using guard_run_inv [of evs "cc_checked c" api log] assms(2,3) by simp
  let ?ok = "\<lambda>token issued. token_of api c = Some token \<and> p token = Some (?e issued) \<and>
    \<not> is_expired issued (cc_checked c)"
  have offer: "?ok token issued \<longleftrightarrow> token_of api c = Some token \<and> cc_checked c - issued \<le> CONFIRM_TTL \<and>
      offered api evs token (?e issued)" for token issued
  proof -
    have "p token = Some (?e issued) \<longrightarrow> offered api evs token (?e issued)"
      "offered api evs token (?e issued) \<and> \<not> is_expired issued (cc_checked c) \<longrightarrow> p token = Some (?e issued)"
      using inv [unfolded guard_inv_def, rule_format, of token "?e issued"] by simp_all
    then show ?thesis unfolding is_expired_def not_less by blast
  qed
  have check: "fst (check_and_consume api c (sweep_expired_at (cc_swept c) p)) = None \<longleftrightarrow>
      cc_typed_name c = cc_target c \<and> (\<exists>token issued. ?ok token issued)"
  proof (cases "token_of api c")
    case (Some token)
    show ?thesis
    proof (cases "p token")
      case None
      then show ?thesis by (simp add: check_and_consume_def Some sweep_expired_at_def)
    next
      case e: (Some e)
      have "is_expired (pe_issued_at e) (cc_swept c) \<Longrightarrow> is_expired (pe_issued_at e) (cc_checked c)"
        using is_expired_mono le by blast
      then show ?thesis
        by (cases e) (auto simp: check_and_consume_def Some sweep_expired_at_def e)
    qed
  qed (simp add: check_and_consume_def)
  obtain k p1 where k: "check_and_consume api c (sweep_expired_at (cc_swept c) p) = (k, p1)" by fastforce
  obtain r l where gt: "?gate = (r, l)" by fastforce
  have confirm: "confirm_and_gate api c (p, before) = (Inr g, s') \<longleftrightarrow>
      verify_same_origin (cc_headers c) = Inr () \<and> k = None \<and>
      (\<exists>receipt. r = Inr receipt \<and> g = \<lparr>cg_receipt = receipt, cg_allow_overwrite = cc_allow_overwrite c\<rparr>) \<and>
      s' = (p1, l)" for g s'
    by (auto simp: confirm_and_gate_def k gt split: sum.split option.split)
  have receipt: "a = AuditReceipt" for a by (cases a)
  have first: "(\<exists>g s'. confirm_and_gate api c (p, before) = (Inr g, s')) \<longleftrightarrow>
      verify_same_origin (cc_headers c) = Inr () \<and> (cc_typed_name c = cc_target c \<and> (\<exists>token issued. ?ok token issued)) \<and>
      (\<exists>receipt log'. ?gate = (Inr receipt, log'))"
    unfolding confirm check [symmetric] k gt by auto
  have second: "cg_allow_overwrite g = cc_allow_overwrite c \<and> (\<exists>content. after = Some content \<and>
        line_results of_json content =
          line_results of_json (case before of None \<Rightarrow> [] | Some b \<Rightarrow> b) @
          [Inr (Some \<lparr>ae_actor = cc_actor c, ae_action = cc_action c, ae_target = cc_target c,
             ae_args_masked = cc_masked_args c (cc_allow_overwrite c), ae_outcome = Requested,
             ae_exit_code = None, sr_timestamp = cc_stamp c\<rparr>)])"
    if "confirm_and_gate api c (p, before) = (Inr g, p', after)" for g p' after
    using that audit_gate [OF gt assms(4)] receipt unfolding confirm by auto
  show ?thesis
    using first second unfolding offer by blast
qed

section \<open>A sample\<close>

definition ex_guard_api :: guard_api where
  "ex_guard_api = \<lparr>ga_parse_uuid = (\<lambda>s. if s = ''k'' then Some 7 else None), ga_to_json = one_to_json ex_request\<rparr>"

definition ex_confirm :: confirm_call where
  "ex_confirm = \<lparr>cc_headers = (\<lambda>h. if h = ''host'' then Some (Some ''xb'') else if h = ''origin''
       then Some (Some ''https://xb'') else None),
     cc_actor = ''a'', cc_action = ''prune.delete'', cc_target = ''t'', cc_token = Some ''k'', cc_typed_name = ''t'',
     cc_allow_overwrite = False, cc_masked_args = (\<lambda>_. []), cc_fault = None, cc_stamp = ''now'',
     cc_swept = 3, cc_checked = 4\<rparr>"

lemma ex_origin: "verify_same_origin (cc_headers ex_confirm) = Inr ()"
proof -
  have t: "str_trim ''xb'' = ''xb''" "str_trim ''https://xb'' = ''https://xb''"
    by (rule str_trim_plain; simp add: byte_def)+
  show ?thesis
    by (simp add: ex_confirm_def verify_same_origin_def header_str_def authority_of_url_def t)
qed

theorem confirmation_exact_witness:
  "\<exists>g s'. confirm_and_gate ex_guard_api ex_confirm
     (guard_run ex_guard_api [Render ''prune.delete'' ''t'' 7 1 2] (\<lambda>_. None, None)) = (Inr g, s')"
proof -
  let ?evs = "[Render ''prune.delete'' ''t'' 7 1 2]"
  obtain p before where run: "guard_run ex_guard_api ?evs (\<lambda>_. None, None) = (p, before)" by fastforce
  then have "before = None" by (simp add: guard_run_def guard_step_def)
  have sorted: "sorted (concat (map event_times (?evs @ [Confirm ex_confirm])))"
    by (simp add: event_times_def ex_confirm_def)
  have fresh: "distinct (issued_tokens ?evs)" by (simp add: issued_tokens_def List.map_filter_def)
  have codec: "line_codec (ga_to_json ex_guard_api) (one_of_json ex_request)"
    by (simp add: ex_guard_api_def one_codec)
  have "str_trim ''k'' = ''k''" by (rule str_trim_plain; simp add: byte_def)
  then have token: "token_of ex_guard_api ex_confirm = Some 7"
    by (simp add: token_of_def ex_confirm_def confirm_token_parse_def ex_guard_api_def)
  have offer: "offered ex_guard_api ?evs 7 \<lparr>pe_action = cc_action ex_confirm, pe_target = cc_target ex_confirm,
      pe_issued_at = 2\<rparr>"
    unfolding offered_def by (intro exI [of _ "[]"] exI [of _ 1]) (simp add: ex_confirm_def)
  have gate: "\<exists>receipt log'. gate (ga_to_json ex_guard_api) (cc_fault ex_confirm) (cc_stamp ex_confirm)
      (cc_actor ex_confirm) (cc_action ex_confirm) (cc_target ex_confirm)
      (cc_masked_args ex_confirm (cc_allow_overwrite ex_confirm)) before = (Inr receipt, log')"
    by (simp add: \<open>before = None\<close> gate_def audit_record_def ex_guard_api_def ex_confirm_def one_to_json_def
        ex_request_def AuditEvent.extend_def SerializedRecord.fields_def append_line_def)
  have "cc_typed_name ex_confirm = cc_target ex_confirm" "cc_checked ex_confirm - 2 \<le> CONFIRM_TTL"
    by (simp_all add: ex_confirm_def CONFIRM_TTL_def)
  then show ?thesis
    using confirmation_exact [OF sorted fresh run codec] ex_origin token offer gate unfolding run by blast
qed

end
