(* ===== verification/XB_Mysql_Dml.thy ===== *)
theory XB_Mysql_Dml
  imports XB_Prelude
begin

text \<open>
  The statements that replay a row change of MySQL (\<open>build_dml\<close> and its helpers in
  \<open>engine/mysql/incremental.rs\<close>, \<open>quote_ident\<close> of \<open>engine/mysql/util.rs\<close>). The text of a statement is
  built as the code builds it; its meaning, a change of the rows of one table, is stated on the
  statement before it is written out, as the server documents it. The lemmas show that a change that
  was true of the rows of the source is replayed to exactly the rows the source had after it, for
  tables with and without a primary key, and with computed columns.
\<close>

section \<open>Changes and columns\<close>

datatype dml_op = Insert | Update | Delete

text \<open>A change holds rendered SQL literals by position.\<close>

record Change =
  ch_op :: dml_op
  ch_db :: string
  ch_table :: string
  ch_before :: "string list"
  ch_after :: "string list"
  ch_commit :: int

record ColInfo =
  ci_name :: string
  ci_generated :: bool
  ci_pk :: bool

text \<open>\<open>quote_ident\<close>: backticks around, and each backtick inside doubled.\<close>

definition BACKTICK :: char where
  "BACKTICK = CHR 0x60"

definition quote_ident :: "string \<Rightarrow> string" where
  "quote_ident name = BACKTICK # concat (map (\<lambda>ch. if ch = BACKTICK then [ch, ch] else [ch]) name) @ [BACKTICK]"

section \<open>The text of a statement\<close>

definition eq_predicate :: "string \<Rightarrow> string \<Rightarrow> string" where
  "eq_predicate col literal =
     (if literal = ''NULL'' then col @ '' IS NULL'' else col @ '' = '' @ literal)"

definition has_pk :: "ColInfo list \<Rightarrow> bool" where
  "has_pk cols \<longleftrightarrow> list_ex ci_pk cols"

definition pk_idx :: "ColInfo list \<Rightarrow> nat list" where
  "pk_idx cols = filter (\<lambda>i. ci_pk (cols ! i)) [0 ..< length cols]"

definition plain_idx :: "ColInfo list \<Rightarrow> nat list" where
  "plain_idx cols = filter (\<lambda>i. \<not> ci_generated (cols ! i)) [0 ..< length cols]"

text \<open>The columns that identify the row: the primary key, or else every column that is not computed.\<close>

definition where_idx :: "ColInfo list \<Rightarrow> nat list" where
  "where_idx cols = (if pk_idx cols = [] then plain_idx cols else pk_idx cols)"

definition where_clause :: "Change \<Rightarrow> ColInfo list \<Rightarrow> string" where
  "where_clause c cols = join_with '' AND ''
     (map (\<lambda>i. eq_predicate (quote_ident (ci_name (cols ! i))) (ch_before c ! i)) (where_idx cols))"

definition build_insert :: "Change \<Rightarrow> ColInfo list \<Rightarrow> string option" where
  "build_insert c cols =
     (if length (ch_after c) \<noteq> length cols then None
      else if plain_idx cols = [] then None
      else
        let q = quote_ident (ch_table c);
            collist = join_with '', '' (map (\<lambda>i. quote_ident (ci_name (cols ! i))) (plain_idx cols));
            vals = join_with '', '' (map (\<lambda>i. ch_after c ! i) (plain_idx cols));
            upd = join_with '', '' (map (\<lambda>i. let col = quote_ident (ci_name (cols ! i))
                                       in col @ ''=VALUES('' @ col @ '')'')
                    (filter (\<lambda>i. \<not> ci_pk (cols ! i)) (plain_idx cols)))
        in if upd = [] then Some (''INSERT IGNORE INTO '' @ q @ '' ('' @ collist @ '') VALUES ('' @ vals @ '')'')
           else Some (''INSERT INTO '' @ q @ '' ('' @ collist @ '') VALUES ('' @ vals @
                  '') ON DUPLICATE KEY UPDATE '' @ upd))"

definition build_update :: "Change \<Rightarrow> ColInfo list \<Rightarrow> string option" where
  "build_update c cols =
     (if length (ch_after c) \<noteq> length cols \<or> length (ch_before c) \<noteq> length cols then None
      else
        let upd = join_with '', '' (map (\<lambda>i. quote_ident (ci_name (cols ! i)) @ '' = '' @ ch_after c ! i)
                    (plain_idx cols))
        in if upd = [] then None
           else Some (''UPDATE '' @ quote_ident (ch_table c) @ '' SET '' @ upd @ '' WHERE '' @
                  where_clause c cols @ (if has_pk cols then [] else '' LIMIT 1'')))"

definition build_delete :: "Change \<Rightarrow> ColInfo list \<Rightarrow> string option" where
  "build_delete c cols =
     (if length (ch_before c) \<noteq> length cols then None
      else Some (''DELETE FROM '' @ quote_ident (ch_table c) @ '' WHERE '' @ where_clause c cols @
             (if has_pk cols then [] else '' LIMIT 1'')))"

definition build_dml :: "Change \<Rightarrow> ColInfo list \<Rightarrow> string option" where
  "build_dml c cols = (case ch_op c of
     Insert \<Rightarrow> build_insert c cols | Update \<Rightarrow> build_update c cols | Delete \<Rightarrow> build_delete c cols)"

section \<open>What a statement means\<close>

text \<open>
  A statement of the replay before it is written out. Its columns carry their literals; \<open>limited\<close> is
  \<open>LIMIT 1\<close>.
\<close>

datatype stmt =
    InsertStmt string "(string \<times> string) list" "string list"
  | UpdateStmt string "(string \<times> string) list" "(string \<times> string) list" bool
  | DeleteStmt string "(string \<times> string) list" bool

fun stmt_table :: "stmt \<Rightarrow> string" where
  "stmt_table (InsertStmt t _ _) = t"
| "stmt_table (UpdateStmt t _ _ _) = t"
| "stmt_table (DeleteStmt t _ _) = t"

definition conds_text :: "(string \<times> string) list \<Rightarrow> string" where
  "conds_text conds = join_with '' AND '' (map (\<lambda>(col, lit). eq_predicate (quote_ident col) lit) conds)"

fun sql_text :: "stmt \<Rightarrow> string" where
  "sql_text (InsertStmt t vals upd) =
     (if upd = [] then ''INSERT IGNORE INTO '' else ''INSERT INTO '') @ quote_ident t @ '' ('' @
     join_with '', '' (map (quote_ident \<circ> fst) vals) @ '') VALUES ('' @ join_with '', '' (map snd vals) @ '')'' @
     (if upd = [] then [] else '' ON DUPLICATE KEY UPDATE '' @ join_with '', ''
        (map (\<lambda>col. quote_ident col @ ''=VALUES('' @ quote_ident col @ '')'') upd))"
| "sql_text (UpdateStmt t vals conds limited) = ''UPDATE '' @ quote_ident t @ '' SET '' @
     join_with '', '' (map (\<lambda>(col, lit). quote_ident col @ '' = '' @ lit) vals) @ '' WHERE '' @
     conds_text conds @ (if limited then '' LIMIT 1'' else [])"
| "sql_text (DeleteStmt t conds limited) = ''DELETE FROM '' @ quote_ident t @ '' WHERE '' @
     conds_text conds @ (if limited then '' LIMIT 1'' else [])"

text \<open>
  A row gives each column the literal of its value. A table is the list of its rows in storage order.
  The target as the replay finds it: columns, unique keys (the primary key among them) and computed
  columns of each table, and how the server compares two values of a column, which depends on its type
  and collation: \<open>sc_eq\<close> is the operator \<open>=\<close> of a stored value with a literal, \<open>sc_dup\<close> the comparison
  that a unique index makes of two stored values.
\<close>

type_synonym row = "string \<Rightarrow> string option"

record schema =
  sc_cols :: "string \<Rightarrow> ColInfo list"
  sc_uks :: "string \<Rightarrow> string list list"
  sc_fill :: "string \<Rightarrow> row \<Rightarrow> row"
  sc_eq :: "string \<Rightarrow> string \<Rightarrow> string \<Rightarrow> string \<Rightarrow> bool"
  sc_dup :: "string \<Rightarrow> string \<Rightarrow> string \<Rightarrow> string \<Rightarrow> bool"

text \<open>Two rows repeat a key when they agree on all of its columns and none of these is \<open>NULL\<close>.\<close>

definition same_key :: "schema \<Rightarrow> string \<Rightarrow> row \<Rightarrow> row \<Rightarrow> string \<Rightarrow> bool" where
  "same_key sc t r x col = (case (r col, x col) of
     (Some v, Some u) \<Rightarrow> v \<noteq> ''NULL'' \<and> u \<noteq> ''NULL'' \<and> sc_dup sc t col v u | _ \<Rightarrow> False)"

definition clash :: "schema \<Rightarrow> string \<Rightarrow> row \<Rightarrow> row \<Rightarrow> bool" where
  "clash sc t r x \<longleftrightarrow> list_ex (list_all (same_key sc t r x)) (sc_uks sc t)"

text \<open>A condition: \<open>IS NULL\<close> or \<open>=\<close>, which is never true of \<open>NULL\<close>.\<close>

definition meets :: "schema \<Rightarrow> string \<Rightarrow> row \<Rightarrow> string \<Rightarrow> string \<Rightarrow> bool" where
  "meets sc t r col lit = (case r col of
     None \<Rightarrow> False
   | Some v \<Rightarrow> (if lit = ''NULL'' then v = ''NULL'' else v \<noteq> ''NULL'' \<and> sc_eq sc t col v lit))"

definition matches :: "schema \<Rightarrow> string \<Rightarrow> (string \<times> string) list \<Rightarrow> row \<Rightarrow> bool" where
  "matches sc t conds r \<longleftrightarrow> list_all (\<lambda>(col, lit). meets sc t r col lit) conds"

text \<open>An update goes through the rows and fails on the first that would repeat a unique key.\<close>

fun update_rows ::
  "(row \<Rightarrow> row \<Rightarrow> bool) \<Rightarrow> bool \<Rightarrow> (row \<Rightarrow> bool) \<Rightarrow> (row \<Rightarrow> row) \<Rightarrow> row list \<Rightarrow> row list \<Rightarrow> row list option" where
  "update_rows rep limited p f done [] = Some done"
| "update_rows rep limited p f done (r # rs) =
     (if p r then
        (if list_ex (rep (f r)) (done @ rs) then None
         else if limited then Some (done @ f r # rs)
         else update_rows rep limited p f (done @ [f r]) rs)
      else update_rows rep limited p f (done @ [r]) rs)"

fun delete_first :: "(row \<Rightarrow> bool) \<Rightarrow> row list \<Rightarrow> row list" where
  "delete_first p [] = []"
| "delete_first p (r # rs) = (if p r then rs else r # delete_first p rs)"

text \<open>
  An insert that meets a row with the same unique key leaves it (\<open>IGNORE\<close>) or updates the first such
  row.
\<close>

fun run_stmt :: "schema \<Rightarrow> stmt \<Rightarrow> row list \<Rightarrow> row list option" where
  "run_stmt sc (InsertStmt t vals upd) rows =
     (let new = sc_fill sc t (map_of vals) in
      if list_ex (clash sc t new) rows then
        (if upd = [] then Some rows
         else update_rows (clash sc t) True (clash sc t new)
                (\<lambda>r. sc_fill sc t (r ++ map_of (filter (\<lambda>(col, lit). col \<in> set upd) vals))) [] rows)
      else Some (rows @ [new]))"
| "run_stmt sc (UpdateStmt t vals conds limited) rows =
     update_rows (clash sc t) limited (matches sc t conds) (\<lambda>r. sc_fill sc t (r ++ map_of vals)) [] rows"
| "run_stmt sc (DeleteStmt t conds limited) rows =
     Some (if limited then delete_first (matches sc t conds) rows else filter (\<lambda>r. \<not> matches sc t conds r) rows)"

section \<open>The statement of a change\<close>

definition pick_cols :: "ColInfo list \<Rightarrow> string list \<Rightarrow> nat list \<Rightarrow> (string \<times> string) list" where
  "pick_cols cols img js = map (\<lambda>i. (ci_name (cols ! i), img ! i)) js"

definition plan_dml :: "Change \<Rightarrow> ColInfo list \<Rightarrow> stmt option" where
  "plan_dml c cols = (case ch_op c of
     Insert \<Rightarrow>
       (if length (ch_after c) \<noteq> length cols \<or> plain_idx cols = [] then None
        else Some (InsertStmt (ch_table c) (pick_cols cols (ch_after c) (plain_idx cols))
               (map (\<lambda>i. ci_name (cols ! i)) (filter (\<lambda>i. \<not> ci_pk (cols ! i)) (plain_idx cols)))))
   | Update \<Rightarrow>
       (if length (ch_after c) \<noteq> length cols \<or> length (ch_before c) \<noteq> length cols \<or> plain_idx cols = []
        then None
        else Some (UpdateStmt (ch_table c) (pick_cols cols (ch_after c) (plain_idx cols))
               (pick_cols cols (ch_before c) (where_idx cols)) (\<not> has_pk cols)))
   | Delete \<Rightarrow>
       (if length (ch_before c) \<noteq> length cols then None
        else Some (DeleteStmt (ch_table c) (pick_cols cols (ch_before c) (where_idx cols)) (\<not> has_pk cols))))"

lemma join_with_Nil_iff: "sep \<noteq> [] \<Longrightarrow> \<forall>w \<in> set ws. w \<noteq> [] \<Longrightarrow> join_with sep ws = [] \<longleftrightarrow> ws = []"
  by (cases "(sep, ws)" rule: join_with.cases) auto

lemma quote_ident_ne [simp]: "quote_ident s \<noteq> []"
  by (simp add: quote_ident_def)

lemma where_text: "conds_text (pick_cols cols (ch_before c) (where_idx cols)) = where_clause c cols"
  by (simp add: conds_text_def where_clause_def pick_cols_def comp_def)

text \<open>The code writes the statement of the change.\<close>

lemma build_dml_plan: "build_dml c cols = map_option sql_text (plan_dml c cols)"
proof (cases "ch_op c")
  case Insert
  have "join_with '', '' (map (\<lambda>i. let col = quote_ident (ci_name (cols ! i)) in col @ ''=VALUES('' @ col @ '')'')
      (filter (\<lambda>i. \<not> ci_pk (cols ! i)) (plain_idx cols))) = [] \<longleftrightarrow>
    filter (\<lambda>i. \<not> ci_pk (cols ! i)) (plain_idx cols) = []"
    by (subst join_with_Nil_iff) (auto simp: Let_def)
  with Insert show ?thesis
    by (simp add: build_dml_def build_insert_def plan_dml_def pick_cols_def Let_def comp_def)
next
  case Update
  have "join_with '', '' (map (\<lambda>i. quote_ident (ci_name (cols ! i)) @ '' = '' @ ch_after c ! i)
      (plain_idx cols)) = [] \<longleftrightarrow> plain_idx cols = []"
    by (subst join_with_Nil_iff) auto
  with Update show ?thesis
    by (simp add: build_dml_def build_update_def plan_dml_def where_text)
      (simp add: pick_cols_def comp_def)
next
  case Delete
  then show ?thesis
    by (simp add: build_dml_def build_delete_def plan_dml_def where_text)
qed

section \<open>What was true at the source\<close>

abbreviation names :: "ColInfo list \<Rightarrow> string list" where
  "names cols \<equiv> map ci_name cols"

definition plain_names :: "ColInfo list \<Rightarrow> string set" where
  "plain_names cols = (\<lambda>i. ci_name (cols ! i)) ` set (plain_idx cols)"

definition row_of :: "ColInfo list \<Rightarrow> string list \<Rightarrow> row" where
  "row_of cols img = map_of (zip (names cols) img)"

text \<open>
  What the \<open>WHERE\<close> of a replay relies on. In the columns of a primary key a value equals its own literal,
  and what equals it is a duplicate of it for the index too: this holds of the collations that ignore
  case, and not of \<open>FLOAT\<close>, whose values differ from their decimal literals. Without a primary key
  all columns are compared, and equal must mean the same value: no \<open>FLOAT\<close>, no such collation.
\<close>

definition compares :: "schema \<Rightarrow> string \<Rightarrow> bool" where
  "compares sc t \<longleftrightarrow> (let cols = sc_cols sc t in
     if has_pk cols
     then \<forall>i \<in> set (pk_idx cols). \<forall>v u. sc_eq sc t (ci_name (cols ! i)) v v \<and>
       (sc_eq sc t (ci_name (cols ! i)) u v \<longrightarrow> sc_dup sc t (ci_name (cols ! i)) u v)
     else \<forall>i \<in> set (plain_idx cols). \<forall>v u. sc_eq sc t (ci_name (cols ! i)) u v \<longleftrightarrow> u = v)"

definition schema_ok :: "schema \<Rightarrow> string \<Rightarrow> bool" where
  "schema_ok sc t \<longleftrightarrow> distinct (names (sc_cols sc t)) \<and> plain_idx (sc_cols sc t) \<noteq> [] \<and>
     (\<forall>r. sc_fill sc t r = sc_fill sc t (r |` plain_names (sc_cols sc t))) \<and>
     (has_pk (sc_cols sc t) \<longrightarrow> map (\<lambda>i. ci_name (sc_cols sc t ! i)) (pk_idx (sc_cols sc t)) \<in> set (sc_uks sc t)) \<and>
     (\<forall>col v u. sc_dup sc t col v u \<longleftrightarrow> sc_dup sc t col u v) \<and> compares sc t"

definition row_ok :: "schema \<Rightarrow> string \<Rightarrow> row \<Rightarrow> bool" where
  "row_ok sc t r \<longleftrightarrow> dom r = set (names (sc_cols sc t)) \<and>
     sc_fill sc t (r |` plain_names (sc_cols sc t)) = r \<and>
     (\<forall>i \<in> set (pk_idx (sc_cols sc t)). r (ci_name (sc_cols sc t ! i)) \<noteq> Some ''NULL'')"

definition table_ok :: "schema \<Rightarrow> string \<Rightarrow> row multiset \<Rightarrow> bool" where
  "table_ok sc t R \<longleftrightarrow> (\<forall>x \<in># R. row_ok sc t x \<and> (\<forall>y \<in># R - {#x#}. \<not> clash sc t x y))"

text \<open>
  What the server did when it wrote a change: it inserted a row that clashes with no other, or replaced
  or removed a row that was there.
\<close>

inductive source_step ::
  "schema \<Rightarrow> Change \<Rightarrow> (string \<Rightarrow> row multiset) \<Rightarrow> (string \<Rightarrow> row multiset) \<Rightarrow> bool" for sc where
  inserted: "ch_op c = Insert \<Longrightarrow> t = ch_table c \<Longrightarrow> cols = sc_cols sc t \<Longrightarrow> a = row_of cols (ch_after c) \<Longrightarrow>
    length (ch_after c) = length cols \<Longrightarrow> row_ok sc t a \<Longrightarrow> \<forall>x \<in># D t. \<not> clash sc t a x \<Longrightarrow>
    source_step sc c D (D(t := add_mset a (D t)))"
| updated: "ch_op c = Update \<Longrightarrow> t = ch_table c \<Longrightarrow> cols = sc_cols sc t \<Longrightarrow> a = row_of cols (ch_after c) \<Longrightarrow>
    b = row_of cols (ch_before c) \<Longrightarrow> length (ch_after c) = length cols \<Longrightarrow>
    length (ch_before c) = length cols \<Longrightarrow> row_ok sc t a \<Longrightarrow> b \<in># D t \<Longrightarrow>
    \<forall>x \<in># D t - {#b#}. \<not> clash sc t a x \<Longrightarrow>
    source_step sc c D (D(t := add_mset a (D t - {#b#})))"
| deleted: "ch_op c = Delete \<Longrightarrow> t = ch_table c \<Longrightarrow> cols = sc_cols sc t \<Longrightarrow> b = row_of cols (ch_before c) \<Longrightarrow>
    length (ch_before c) = length cols \<Longrightarrow> b \<in># D t \<Longrightarrow>
    source_step sc c D (D(t := D t - {#b#}))"

inductive source_steps ::
  "schema \<Rightarrow> Change list \<Rightarrow> (string \<Rightarrow> row multiset) \<Rightarrow> (string \<Rightarrow> row multiset) \<Rightarrow> bool" for sc where
  source_none: "source_steps sc [] D D"
| source_more: "source_step sc c D D1 \<Longrightarrow> source_steps sc cs D1 D2 \<Longrightarrow> source_steps sc (c # cs) D D2"

text \<open>The replay on the rows of the target; a change without a statement is passed over.\<close>

definition replay_one :: "schema \<Rightarrow> Change \<Rightarrow> (string \<Rightarrow> row list) \<Rightarrow> (string \<Rightarrow> row list) option" where
  "replay_one sc c db = (case plan_dml c (sc_cols sc (ch_table c)) of
     None \<Rightarrow> Some db
   | Some s \<Rightarrow> map_option (\<lambda>rows. db(ch_table c := rows))
       (run_stmt sc s (db (ch_table c))))"

fun replay_rows :: "schema \<Rightarrow> Change list \<Rightarrow> (string \<Rightarrow> row list) \<Rightarrow> (string \<Rightarrow> row list) option" where
  "replay_rows sc [] db = Some db"
| "replay_rows sc (c # cs) db = (case replay_one sc c db of
     None \<Rightarrow> None | Some db' \<Rightarrow> replay_rows sc cs db')"

lemma replay_rows_append:
  "replay_rows sc (cs @ ds) db = (case replay_rows sc cs db of None \<Rightarrow> None | Some db' \<Rightarrow> replay_rows sc ds db')"
  by (induction cs arbitrary: db) (auto split: option.split)

section \<open>The row a statement finds\<close>

lemma same_key_sym: "schema_ok sc t \<Longrightarrow> same_key sc t x y col \<longleftrightarrow> same_key sc t y x col"
  by (auto simp: same_key_def schema_ok_def split: option.splits)

lemma clash_sym: "schema_ok sc t \<Longrightarrow> clash sc t x y \<longleftrightarrow> clash sc t y x"
  by (simp add: clash_def list_ex_iff list_all_iff same_key_sym [of sc t x y])

lemma row_of_nth:
  "distinct (names cols) \<Longrightarrow> length img = length cols \<Longrightarrow> i < length cols \<Longrightarrow>
     row_of cols img (ci_name (cols ! i)) = Some (img ! i)"
  unfolding row_of_def using map_of_zip_nth [of "names cols" img i] by simp

lemma idx_less:
  "i \<in> set (pk_idx cols) \<Longrightarrow> i < length cols" "i \<in> set (plain_idx cols) \<Longrightarrow> i < length cols"
  "i \<in> set (where_idx cols) \<Longrightarrow> i < length cols"
  by (auto simp: pk_idx_def plain_idx_def where_idx_def split: if_splits)

lemma has_pk_idx: "has_pk cols \<longleftrightarrow> pk_idx cols \<noteq> []"
  unfolding has_pk_def pk_idx_def list_ex_iff filter_empty_conv in_set_conv_nth
  by (auto simp: Bex_def in_set_conv_nth)

lemma matches_pick:
  "matches sc t (pick_cols cols img js) r \<longleftrightarrow> (\<forall>i \<in> set js. meets sc t r (ci_name (cols ! i)) (img ! i))"
  by (auto simp: matches_def pick_cols_def list_all_iff)

text \<open>The row of the image meets its conditions, and another that does repeats its key or is the same.\<close>

lemma image_meets:
  assumes sc: "schema_ok sc t" and cols: "cols = sc_cols sc t"
    and len: "length img = length cols" and b: "b = row_of cols img" "row_ok sc t b"
  shows "matches sc t (pick_cols cols img (where_idx cols)) b"
  unfolding matches_pick
proof
  fix i
  assume i: "i \<in> set (where_idx cols)"
  then have bi: "b (ci_name (cols ! i)) = Some (img ! i)"
    using sc cols len row_of_nth [of cols img i] idx_less(3) [OF i] b(1) by (simp add: schema_ok_def)
  have "sc_eq sc t (ci_name (cols ! i)) (img ! i) (img ! i)"
    using sc i cols by (auto simp: schema_ok_def compares_def where_idx_def has_pk_idx Let_def split: if_splits)
  with bi show "meets sc t b (ci_name (cols ! i)) (img ! i)"
    by (simp add: meets_def)
qed

lemma matching_row:
  assumes sc: "schema_ok sc t" and cols: "cols = sc_cols sc t"
    and len: "length img = length cols" and b: "b = row_of cols img" "row_ok sc t b"
    and x: "row_ok sc t x" and m: "matches sc t (pick_cols cols img (where_idx cols)) x"
  shows "if has_pk cols then clash sc t b x else x = b"
proof -
  have bi: "b (ci_name (cols ! i)) = Some (img ! i)" if "i \<in> set (where_idx cols)" for i
    using sc cols len row_of_nth [of cols img i] idx_less(3) [OF that] b(1) by (simp add: schema_ok_def)
  have xi: "meets sc t x (ci_name (cols ! i)) (img ! i)" if "i \<in> set (where_idx cols)" for i
    using m that by (simp add: matches_pick)
  show ?thesis
  proof (cases "has_pk cols")
    case True
    then have w: "where_idx cols = pk_idx cols"
      by (simp add: where_idx_def has_pk_idx)
    have "same_key sc t b x (ci_name (cols ! i))" if i: "i \<in> set (pk_idx cols)" for i
    proof -
      have "b (ci_name (cols ! i)) \<noteq> Some ''NULL''"
        using b(2) i cols by (simp add: row_ok_def)
      then have some: "img ! i \<noteq> ''NULL''"
        using bi [of i] i unfolding w by simp
      with xi [of i] i obtain v where v: "x (ci_name (cols ! i)) = Some v" "v \<noteq> ''NULL''"
        "sc_eq sc t (ci_name (cols ! i)) v (img ! i)"
        unfolding w by (auto simp: meets_def split: option.splits)
      then have "sc_dup sc t (ci_name (cols ! i)) v (img ! i)"
        using sc cols True i by (simp add: schema_ok_def compares_def Let_def)
      then have "sc_dup sc t (ci_name (cols ! i)) (img ! i) v"
        using sc by (simp add: schema_ok_def)
      with v some bi [of i] i show ?thesis
        unfolding w by (simp add: same_key_def)
    qed
    then have "list_all (same_key sc t b x) (map (\<lambda>i. ci_name (cols ! i)) (pk_idx cols))"
      by (simp add: list_all_iff)
    then have "clash sc t b x"
      using sc True cols unfolding clash_def list_ex_iff schema_ok_def by blast
    with True show ?thesis by simp
  next
    case False
    then have w: "where_idx cols = plain_idx cols"
      by (simp add: where_idx_def has_pk_idx)
    have "x (ci_name (cols ! i)) = b (ci_name (cols ! i))" if i: "i \<in> set (plain_idx cols)" for i
    proof -
      have "sc_eq sc t (ci_name (cols ! i)) u (img ! i) \<longleftrightarrow> u = img ! i" for u
        using sc cols False i by (simp add: schema_ok_def compares_def Let_def)
      with xi [of i] bi [of i] i show ?thesis
        unfolding w by (auto simp: meets_def split: option.splits if_splits)
    qed
    then have "x |` plain_names cols = b |` plain_names cols"
      by (intro ext) (auto simp: plain_names_def restrict_map_def)
    with b(2) x cols have "x = b"
      by (metis row_ok_def)
    with False show ?thesis by simp
  qed
qed

lemma the_row_found:
  assumes sc: "schema_ok sc t" and cols: "cols = sc_cols sc t" and len: "length img = length cols"
    and b: "b = row_of cols img" and R: "table_ok sc t (mset rows)" "b \<in> set rows"
    and conds: "conds = pick_cols cols img (where_idx cols)"
  obtains xs ys where "rows = xs @ b # ys" and "matches sc t conds b" and "\<forall>x \<in> set xs. \<not> matches sc t conds x"
    and "has_pk cols \<longrightarrow> (\<forall>x \<in> set ys. \<not> matches sc t conds x)"
proof -
  have ok: "row_ok sc t x" "\<forall>y \<in># mset rows - {#x#}. \<not> clash sc t x y" if "x \<in> set rows" for x
    using R(1) that by (auto simp: table_ok_def)
  have mb: "matches sc t conds b"
    unfolding conds by (rule image_meets [OF sc cols len b ok(1) [OF R(2)]])
  then obtain xs y ys where y: "rows = xs @ y # ys" "matches sc t conds y" "\<forall>x \<in> set xs. \<not> matches sc t conds x"
    using R(2) split_list_first_propE [of rows "matches sc t conds"] by metis
  have found: "if has_pk cols then clash sc t b x else x = b"
    if "x \<in> set rows" "matches sc t conds x" for x
    using matching_row [OF sc cols len b ok(1) [OF R(2)] ok(1) [OF that(1)]] that(2) conds by simp
  have other: "x \<notin># mset rows - {#b#}" if "has_pk cols" "x \<in> set rows" "matches sc t conds x" for x
    using found [OF that(2,3)] that(1) ok(2) [OF R(2)] by auto
  have yb: "y = b"
  proof (rule ccontr)
    assume ne: "y \<noteq> b"
    have "y \<in> set rows" using y(1) by simp
    with found [OF this y(2)] ne have "has_pk cols" by (simp split: if_splits)
    from other [OF this \<open>y \<in> set rows\<close> y(2)] have "y \<notin># mset rows - {#b#}" .
    with ne \<open>y \<in> set rows\<close> show False
      by (metis in_diff_count count_greater_zero_iff in_multiset_in_set insert_noteq_member insert_DiffM
          set_mset_mset R(2) diff_single_eq_union)
  qed
  have "\<not> matches sc t conds x" if "has_pk cols" "x \<in> set ys" for x
    using other [of x] that y(1) yb by auto
  with that [OF y(1) [unfolded yb] mb y(3)] show ?thesis by blast
qed

section \<open>The effect of a statement\<close>

lemma update_rows_one:
  "\<forall>x \<in> set xs. \<not> p x \<Longrightarrow> p b \<Longrightarrow> \<forall>x \<in> set ys. limited \<or> \<not> p x \<Longrightarrow>
     \<forall>x \<in> set (done @ xs @ ys). \<not> rep (f b) x \<Longrightarrow>
     update_rows rep limited p f done (xs @ b # ys) = Some (done @ xs @ f b # ys)"
proof (induction xs arbitrary: "done")
  case Nil
  have "\<forall>x \<in> set ys. \<not> p x \<Longrightarrow> update_rows rep limited p f d ys = Some (d @ ys)" for d
    by (induction ys arbitrary: d) auto
  then show ?case
    using Nil by (auto simp: list_ex_iff)
next
  case (Cons x xs)
  then show ?case by (simp add: list_ex_iff)
qed

lemma delete_first_one: "\<forall>x \<in> set xs. \<not> p x \<Longrightarrow> p b \<Longrightarrow> delete_first p (xs @ b # ys) = xs @ ys"
  by (induction xs) auto

lemma map_of_pick:
  assumes "distinct (names cols)" and "length img = length cols"
  shows "map_of (pick_cols cols img (plain_idx cols)) = row_of cols img |` plain_names cols"
proof
  fix col
  show "map_of (pick_cols cols img (plain_idx cols)) col = (row_of cols img |` plain_names cols) col"
  proof (cases "col \<in> plain_names cols")
    case True
    then obtain i where i: "i \<in> set (plain_idx cols)" "col = ci_name (cols ! i)"
      by (auto simp: plain_names_def)
    have "j = i" if "j \<in> set (plain_idx cols)" "ci_name (cols ! j) = col" for j
      using assms(1) that i idx_less(2) [of _ cols] nth_eq_iff_index_eq [OF assms(1), of i j] by simp
    then have "(col, v) \<in> set (pick_cols cols img (plain_idx cols)) \<longleftrightarrow> v = img ! i" for v
      using i by (auto simp: pick_cols_def)
    moreover have "map_of (pick_cols cols img (plain_idx cols)) col \<noteq> None"
      using i by (auto simp: map_of_eq_None_iff pick_cols_def image_iff)
    ultimately have "map_of (pick_cols cols img (plain_idx cols)) col = Some (img ! i)"
      by (metis map_of_SomeD not_None_eq)
    with True i show ?thesis
      using row_of_nth [OF assms idx_less(2) [OF i(1)]] by simp
  next
    case False
    then have "col \<notin> fst ` set (pick_cols cols img (plain_idx cols))"
      by (auto simp: plain_names_def pick_cols_def)
    with False show ?thesis
      by (simp add: restrict_map_def map_of_eq_None_iff)
  qed
qed

text \<open>The row that an update writes is the row of the after-image.\<close>

lemma filled_row:
  assumes "schema_ok sc t" and "cols = sc_cols sc t" and "length img = length cols"
    and "row_ok sc t (row_of cols img)"
  shows "sc_fill sc t (r ++ map_of (pick_cols cols img (plain_idx cols))) = row_of cols img"
proof -
  have d: "distinct (names cols)" using assms(1,2) by (simp add: schema_ok_def)
  have "dom (row_of cols img) = set (names cols)"
    using assms(2,4) by (simp add: row_ok_def)
  then have "plain_names cols \<subseteq> dom (row_of cols img)"
    using idx_less(2) [of _ cols] by (auto simp: plain_names_def)
  then have "(r ++ row_of cols img |` plain_names cols) |` plain_names cols = row_of cols img |` plain_names cols"
    by (intro ext) (auto simp: restrict_map_def map_add_def split: option.split)
  then have "sc_fill sc t (r ++ row_of cols img |` plain_names cols) =
      sc_fill sc t (row_of cols img |` plain_names cols)"
    using assms(1,2) unfolding schema_ok_def by metis
  then show ?thesis
    using assms(2,4) unfolding map_of_pick [OF d assms(3)] by (simp add: row_ok_def)
qed

lemma table_ok_add:
  "schema_ok sc t \<Longrightarrow> table_ok sc t R \<Longrightarrow> row_ok sc t a \<Longrightarrow> \<forall>x \<in># R. \<not> clash sc t a x \<Longrightarrow>
     table_ok sc t (add_mset a R)"
  unfolding table_ok_def
proof (intro ballI conjI)
  fix x y
  assume sc: "schema_ok sc t" and R: "\<forall>x \<in># R. row_ok sc t x \<and> (\<forall>y \<in># R - {#x#}. \<not> clash sc t x y)"
    and a: "row_ok sc t a" "\<forall>x \<in># R. \<not> clash sc t a x" and x: "x \<in># add_mset a R"
  show "row_ok sc t x" using R a x by auto
  assume y: "y \<in># add_mset a R - {#x#}"
  show "\<not> clash sc t x y"
  proof (cases "x = a")
    case True
    with y a(2) show ?thesis by simp
  next
    case False
    with x have xR: "x \<in># R" by simp
    with False y have "y = a \<or> y \<in># R - {#x#}"
      by (metis add_mset_diff_bothsides add_mset_remove_trivial_eq diff_add_mset_swap insert_iff set_mset_add_mset_insert set_mset_single singletonD)
    then show ?thesis
      using R a(2) xR clash_sym [OF sc] by metis
  qed
qed

lemma table_ok_sub: "table_ok sc t R \<Longrightarrow> S \<subseteq># R \<Longrightarrow> table_ok sc t S"
proof -
  assume "table_ok sc t R" "S \<subseteq># R"
  moreover have "S - {#x#} \<subseteq># R - {#x#}" for x
    using \<open>S \<subseteq># R\<close> by (simp add: subseteq_mset_def diff_le_mono)
  ultimately show ?thesis
    unfolding table_ok_def by (meson mset_subset_eqD)
qed

text \<open>One change, replayed on rows that the source had.\<close>

lemma replay_one_exact:
  assumes step: "source_step sc c D D'" and sc: "schema_ok sc (ch_table c)"
    and ok: "table_ok sc (ch_table c) (D (ch_table c))" and db: "\<forall>t. mset (db t) = D t"
  shows "\<exists>db'. replay_one sc c db = Some db' \<and> (\<forall>t. mset (db' t) = D' t) \<and>
    table_ok sc (ch_table c) (D' (ch_table c)) \<and> plan_dml c (sc_cols sc (ch_table c)) \<noteq> None"
  using step
proof cases
  case (inserted t cols a)
  note i = inserted(3,5,7)
  have fill: "sc_fill sc t (map_of (pick_cols cols (ch_after c) (plain_idx cols))) = a"
    using filled_row [of sc t cols "ch_after c" Map.empty] sc inserted by simp
  have "plan_dml c cols = Some (InsertStmt (ch_table c) (pick_cols cols (ch_after c) (plain_idx cols))
      (map (\<lambda>i. ci_name (cols ! i)) (filter (\<lambda>i. \<not> ci_pk (cols ! i)) (plain_idx cols))))"
    using sc inserted by (simp add: plan_dml_def schema_ok_def)
  moreover have "\<not> list_ex (clash sc t a) (db t)"
    using inserted(8) db by (auto simp: list_ex_iff simp flip: set_mset_mset)
  ultimately have "replay_one sc c db = Some (db(t := db t @ [a]))"
    using inserted(3,4) fill by (simp add: replay_one_def Let_def)
  moreover have "table_ok sc t (add_mset a (D t))"
    using ok inserted sc by (intro table_ok_add) auto
  ultimately show ?thesis
    using inserted db \<open>plan_dml c cols = _\<close> by simp
next
  case (updated t cols a b)
  have bset: "b \<in> set (db t)" using updated(10) db by (metis set_mset_mset)
  have ok': "table_ok sc t (mset (db t))" using ok updated(3) db by simp
  obtain xs ys where rows: "db t = xs @ b # ys"
    "matches sc t (pick_cols cols (ch_before c) (where_idx cols)) b"
    "\<forall>x \<in> set xs. \<not> matches sc t (pick_cols cols (ch_before c) (where_idx cols)) x"
    "has_pk cols \<longrightarrow> (\<forall>x \<in> set ys. \<not> matches sc t (pick_cols cols (ch_before c) (where_idx cols)) x)"
    using the_row_found [OF sc [folded updated(3)] updated(4) updated(8) updated(6) ok' bset refl] by metis
  let ?f = "\<lambda>r. sc_fill sc t (r ++ map_of (pick_cols cols (ch_after c) (plain_idx cols)))"
  have fill: "?f b = a"
    using filled_row [OF sc [folded updated(3)] updated(4) updated(7)] updated(5,9) by simp
  have plan: "plan_dml c cols = Some (UpdateStmt (ch_table c) (pick_cols cols (ch_after c) (plain_idx cols))
      (pick_cols cols (ch_before c) (where_idx cols)) (\<not> has_pk cols))"
    using sc updated by (simp add: plan_dml_def schema_ok_def)
  have rest: "D t - {#b#} = mset (xs @ ys)"
    using db rows(1) by (metis add_mset_remove_trivial mset.simps(2) mset_append union_mset_add_mset_right)
  have "\<forall>x \<in> set ([] @ xs @ ys). \<not> clash sc t (?f b) x"
    using updated(11) unfolding fill rest set_mset_mset by simp
  moreover have "\<forall>x \<in> set ys. \<not> has_pk cols \<or> \<not> matches sc t (pick_cols cols (ch_before c) (where_idx cols)) x"
    using rows(4) by blast
  ultimately have "update_rows (clash sc t) (\<not> has_pk cols)
      (matches sc t (pick_cols cols (ch_before c) (where_idx cols))) ?f [] (xs @ b # ys) = Some ([] @ xs @ ?f b # ys)"
    using rows(2,3) by (intro update_rows_one)
  then have "update_rows (clash sc t) (\<not> has_pk cols)
      (matches sc t (pick_cols cols (ch_before c) (where_idx cols))) ?f [] (db t) = Some (xs @ a # ys)"
    unfolding rows(1) fill by simp
  then have one: "replay_one sc c db = Some (db(t := xs @ a # ys))"
    using plan by (simp add: replay_one_def updated(4) [symmetric] updated(3) [symmetric])
  have tok: "table_ok sc t (add_mset a (D t - {#b#}))"
    by (rule table_ok_add [OF sc [folded updated(3)] table_ok_sub [OF ok [folded updated(3)] diff_subset_eq_self] updated(9,11)])
  have "\<forall>s. mset ((db(t := xs @ a # ys)) s) = (D(t := add_mset a (D t - {#b#}))) s"
    using db rest by simp
  moreover have "table_ok sc t ((D(t := add_mset a (D t - {#b#}))) t)"
    unfolding fun_upd_same by (rule tok)
  moreover have "plan_dml c (sc_cols sc (ch_table c)) \<noteq> None"
    unfolding updated(3) [symmetric] updated(4) [symmetric] plan by simp
  ultimately show ?thesis
    using one tok unfolding updated(1) updated(3) [symmetric]
    by (intro exI [of _ "db(t := xs @ a # ys)"] conjI) assumption+
next
  case (deleted t cols b)
  have bset: "b \<in> set (db t)" using deleted(7) db by (metis set_mset_mset)
  have ok': "table_ok sc t (mset (db t))" using ok deleted(3) db by simp
  let ?p = "matches sc t (pick_cols cols (ch_before c) (where_idx cols))"
  obtain xs ys where rows: "db t = xs @ b # ys" "?p b" "\<forall>x \<in> set xs. \<not> ?p x"
    "has_pk cols \<longrightarrow> (\<forall>x \<in> set ys. \<not> ?p x)"
    using the_row_found [OF sc [folded deleted(3)] deleted(4) deleted(6) deleted(5) ok' bset refl] by metis
  have plan: "plan_dml c cols = Some (DeleteStmt (ch_table c)
      (pick_cols cols (ch_before c) (where_idx cols)) (\<not> has_pk cols))"
    using deleted by (simp add: plan_dml_def)
  have rest: "D t - {#b#} = mset (xs @ ys)"
    using db rows(1) by (metis add_mset_remove_trivial mset.simps(2) mset_append union_mset_add_mset_right)
  have "(if \<not> has_pk cols then delete_first ?p (db t) else filter (\<lambda>r. \<not> ?p r) (db t)) = xs @ ys"
    using rows delete_first_one [of xs ?p b ys] by (auto simp: filter_id_conv)
  then have one: "replay_one sc c db = Some (db(t := xs @ ys))"
    using plan by (simp add: replay_one_def deleted(4) [symmetric] deleted(3) [symmetric])
  have tok: "table_ok sc t (D t - {#b#})"
    by (rule table_ok_sub [OF ok [folded deleted(3)] diff_subset_eq_self])
  have "\<forall>s. mset ((db(t := xs @ ys)) s) = (D(t := D t - {#b#})) s"
    using db rest by simp
  moreover have "table_ok sc t ((D(t := D t - {#b#})) t)"
    unfolding fun_upd_same by (rule tok)
  moreover have "plan_dml c (sc_cols sc (ch_table c)) \<noteq> None"
    unfolding deleted(3) [symmetric] deleted(4) [symmetric] plan by simp
  ultimately show ?thesis
    using one tok unfolding deleted(1) deleted(3) [symmetric]
    by (intro exI [of _ "db(t := xs @ ys)"] conjI) assumption+
qed

text \<open>A sequence of changes, over all tables. No change is passed over.\<close>

definition db_ok :: "schema \<Rightarrow> string set \<Rightarrow> (string \<Rightarrow> row multiset) \<Rightarrow> bool" where
  "db_ok sc T D \<longleftrightarrow> (\<forall>t \<in> T. schema_ok sc t \<and> table_ok sc t (D t))"

lemma source_step_frame: "source_step sc c D D' \<Longrightarrow> t \<noteq> ch_table c \<Longrightarrow> D' t = D t"
  by (cases rule: source_step.cases) auto

lemma replay_exact:
  assumes "source_steps sc cs D D'" and "ch_table ` set cs \<subseteq> T" and "db_ok sc T D"
    and "\<forall>t. mset (db t) = D t"
  shows "(\<forall>c \<in> set cs. plan_dml c (sc_cols sc (ch_table c)) \<noteq> None) \<and> db_ok sc T D' \<and>
    (\<exists>db'. replay_rows sc cs db = Some db' \<and> (\<forall>t. mset (db' t) = D' t))"
  using assms
proof (induction arbitrary: db rule: source_steps.induct)
  case (source_more c D D1 cs D2)
  have c: "schema_ok sc (ch_table c)" "table_ok sc (ch_table c) (D (ch_table c))"
    using source_more.prems(1,2) by (auto simp: db_ok_def)
  obtain db1 where db1: "replay_one sc c db = Some db1" "\<forall>t. mset (db1 t) = D1 t"
    "table_ok sc (ch_table c) (D1 (ch_table c))" "plan_dml c (sc_cols sc (ch_table c)) \<noteq> None"
    using replay_one_exact [OF source_more.hyps(1) c source_more.prems(3)] by metis
  have "db_ok sc T D1"
    using source_more.prems(2) db1(3) source_step_frame [OF source_more.hyps(1)]
    unfolding db_ok_def by metis
  with source_more.IH [of db1] source_more.prems(1) db1 show ?case by simp
qed simp

end
