(* ===== verification/XB_Binlog.thy ===== *)
theory XB_Binlog
  imports XB_Backup XB_Oplog_Apply XB_Mysql_Dml
begin

text \<open>
  The slices of MySQL (\<open>engine/mysql/incremental.rs\<close>): the capture reads the binlog from a position
  and writes the row changes of the profile's database into an archive of frames, a transaction at a
  time; the replay reads the frames back and sends the statements of \<open>XB_Mysql_Dml\<close>. The driver's
  events, the BSON form of a document and the target server are parameters. The lemmas show that a
  capture ends at the end of a transaction and holds exactly the changes before it, that captures
  from one end to the next tile the binlog, and that the replay of an archive executes its changes in
  order, up to the time limit.
\<close>

section \<open>Documents\<close>

datatype bson_value =
    BvString string
  | BvInt64 int
  | BvBool bool
  | BvNull
  | BvArray "bson_value list"

type_synonym document = "(string \<times> bson_value) list"

text \<open>\<open>bson::Document\<close> as the code uses it: typed getters, \<open>to_writer\<close> and \<open>from_reader\<close>.\<close>

definition get_str :: "document \<Rightarrow> string \<Rightarrow> string option" where
  "get_str d k = (case map_of d k of Some (BvString s) \<Rightarrow> Some s | _ \<Rightarrow> None)"

definition get_i64 :: "document \<Rightarrow> string \<Rightarrow> int option" where
  "get_i64 d k = (case map_of d k of Some (BvInt64 n) \<Rightarrow> Some n | _ \<Rightarrow> None)"

definition get_array :: "document \<Rightarrow> string \<Rightarrow> bson_value list option" where
  "get_array d k = (case map_of d k of Some (BvArray a) \<Rightarrow> Some a | _ \<Rightarrow> None)"

definition as_str :: "bson_value \<Rightarrow> string option" where
  "as_str b = (case b of BvString s \<Rightarrow> Some s | _ \<Rightarrow> None)"

record bson_lib =
  bl_write :: "document \<Rightarrow> bytes"
  bl_read :: "bytes \<Rightarrow> document option"

text \<open>A document reads back, and its first four bytes are its length.\<close>

definition bson_laws :: "bson_lib \<Rightarrow> bool" where
  "bson_laws b \<longleftrightarrow> (\<forall>d. bl_read b (bl_write b d) = Some d \<and> 5 \<le> length (bl_write b d) \<and>
     (length (bl_write b d) < 2 ^ 31 \<longrightarrow> le_u32 (take 4 (bl_write b d)) = word_of_nat (length (bl_write b d))))"

section \<open>Frames\<close>

datatype slice_error =
    ConnectFailed
  | StreamRefused
  | EventUnread
  | EventUndecoded
  | RowUndecoded
  | TagUnread
  | BadTag u8
  | LengthUnread
  | BadLength u32
  | BodyUnread
  | DocUnparsed
  | BadOp string
  | FormatMismatch string
  | HeaderMissing
  | DuplicateHeader
  | ColumnsUnread string
  | StatementFailed string
  | LogsUnread

definition INCR_FORMAT_ID :: string where
  "INCR_FORMAT_ID = ''xb-mysql-incr-v1''"

definition MAX_CHANGES_PER_CAPTURE :: nat where
  "MAX_CHANGES_PER_CAPTURE = 200000"

definition TAG_HEADER :: u8 where "TAG_HEADER = 0x48"
definition TAG_CHANGE :: u8 where "TAG_CHANGE = 0x43"
definition TAG_END :: u8 where "TAG_END = 0x45"

lemmas tag_defs = TAG_HEADER_def TAG_CHANGE_def TAG_END_def

definition change_to_doc :: "Change \<Rightarrow> document" where
  "change_to_doc c =
     [(''op'', BvString (case ch_op c of Insert \<Rightarrow> ''I'' | Update \<Rightarrow> ''U'' | Delete \<Rightarrow> ''D'')),
      (''db'', BvString (ch_db c)), (''table'', BvString (ch_table c)),
      (''before'', BvArray (map BvString (ch_before c))), (''after'', BvArray (map BvString (ch_after c))),
      (''ts'', BvInt64 (ch_commit c))]"

definition doc_strs :: "document \<Rightarrow> string \<Rightarrow> string list" where
  "doc_strs d k = List.map_filter as_str (unwrap_or (get_array d k) [])"

definition doc_to_change :: "document \<Rightarrow> slice_error + Change" where
  "doc_to_change d =
     (let mk = (\<lambda>op. Inr \<lparr>ch_op = op, ch_db = unwrap_or (get_str d ''db'') [],
            ch_table = unwrap_or (get_str d ''table'') [], ch_before = doc_strs d ''before'',
            ch_after = doc_strs d ''after'', ch_commit = unwrap_or (get_i64 d ''ts'') 0\<rparr>);
          o1 = unwrap_or (get_str d ''op'') []
      in if o1 = ''I'' then mk Insert else if o1 = ''U'' then mk Update else if o1 = ''D'' then mk Delete
         else Inl (BadOp o1))"

definition header_doc :: "string \<Rightarrow> document" where
  "header_doc now = [(''format'', BvString INCR_FORMAT_ID), (''created_at'', BvString now)]"

definition write_doc :: "bson_lib \<Rightarrow> u8 \<Rightarrow> document \<Rightarrow> bytes" where
  "write_doc b tag d = tag # bl_write b d"

definition write_header :: "bson_lib \<Rightarrow> string \<Rightarrow> bytes" where
  "write_header b now = write_doc b TAG_HEADER (header_doc now)"

definition write_change :: "bson_lib \<Rightarrow> Change \<Rightarrow> bytes" where
  "write_change b c = write_doc b TAG_CHANGE (change_to_doc c)"

definition write_end :: bytes where
  "write_end = [TAG_END]"

section \<open>Reading frames\<close>

text \<open>
  A reader is what it still yields and whether it then ends without an error. \<open>read_exact\<close> fails with
  \<open>UnexpectedEof\<close> (\<open>Inl True\<close>) at a clean end and with the error of the stream otherwise.
\<close>

type_synonym slice_reader = "bytes \<times> bool"

definition take_exact :: "nat \<Rightarrow> slice_reader \<Rightarrow> bool + (bytes \<times> slice_reader)" where
  "take_exact n r = (if n \<le> length (fst r) then Inr (take n (fst r), drop n (fst r), snd r) else Inl (snd r))"

datatype IncrFrame = HeaderFrame document | ChangeFrame Change | EndFrame

definition read_doc_upto :: "u32 \<Rightarrow> bson_lib \<Rightarrow> slice_reader \<Rightarrow> slice_error + (document \<times> slice_reader)" where
  "read_doc_upto limit b r = (case take_exact 4 r of
     Inl _ \<Rightarrow> Inl LengthUnread
   | Inr (len_buf, r1) \<Rightarrow>
       (let len = le_u32 len_buf in
        if \<not> (5 \<le> len \<and> len \<le> limit) then Inl (BadLength len)
        else case take_exact (unat len - 4) r1 of
          Inl _ \<Rightarrow> Inl BodyUnread
        | Inr (body, r2) \<Rightarrow> (case bl_read b (len_buf @ body) of
            None \<Rightarrow> Inl DocUnparsed | Some d \<Rightarrow> Inr (d, r2))))"

definition MAX_FRAME_BYTES :: u32 where
  "MAX_FRAME_BYTES = 256 * 1024 * 1024"

definition read_doc :: "bson_lib \<Rightarrow> slice_reader \<Rightarrow> slice_error + (document \<times> slice_reader)" where
  "read_doc = read_doc_upto MAX_FRAME_BYTES"

definition read_frame :: "bson_lib \<Rightarrow> slice_reader \<Rightarrow> slice_error + (IncrFrame \<times> slice_reader)" where
  "read_frame b r = (case take_exact 1 r of
     Inl True \<Rightarrow> Inr (EndFrame, r)
   | Inl False \<Rightarrow> Inl TagUnread
   | Inr (tag, r1) \<Rightarrow>
       (if hd tag = TAG_END then Inr (EndFrame, r1)
        else if hd tag = TAG_HEADER then bind_res (read_doc b r1) (\<lambda>(d, r2). Inr (HeaderFrame d, r2))
        else if hd tag = TAG_CHANGE then
          bind_res (read_doc b r1) (\<lambda>(d, r2). bind_res (doc_to_change d) (\<lambda>c. Inr (ChangeFrame c, r2)))
        else Inl (BadTag (hd tag))))"

section \<open>The target\<close>

text \<open>
  What the replay asks of the server: the columns of a table of the current database, as name, extra
  and key, and the execution of a statement. \<open>None\<close> is an error of the server.
\<close>

record 'db target =
  tg_columns :: "'db \<Rightarrow> string \<Rightarrow> (string \<times> string \<times> string) list option"
  tg_exec :: "string \<Rightarrow> 'db \<Rightarrow> 'db option"

definition ascii_upper :: "char \<Rightarrow> char" where
  "ascii_upper ch = (if 97 \<le> (of_char ch :: nat) \<and> (of_char ch :: nat) \<le> 122 then char_of (of_char ch - 32 :: nat) else ch)"

fun str_contains :: "string \<Rightarrow> string \<Rightarrow> bool" where
  "str_contains p [] \<longleftrightarrow> p = []"
| "str_contains p (ch # s) \<longleftrightarrow> starts_with p (ch # s) \<or> str_contains p s"

definition target_columns :: "'db target \<Rightarrow> 'db \<Rightarrow> string \<Rightarrow> slice_error + ColInfo list" where
  "target_columns tg db t = (case tg_columns tg db t of
     None \<Rightarrow> Inl (ColumnsUnread t)
   | Some rows \<Rightarrow> Inr (List.map_filter (\<lambda>(name, extra, key).
       if str_contains ''VIRTUAL GENERATED'' (map ascii_upper extra) then None
       else Some \<lparr>ci_name = name, ci_generated = str_contains ''STORED GENERATED'' (map ascii_upper extra),
              ci_pk = (key = ''PRI'')\<rparr>) rows))"

definition SESSION_SETUP :: "string list" where
  "SESSION_SETUP = [''SET FOREIGN_KEY_CHECKS = 0'', ''SET UNIQUE_CHECKS = 0'',
     ''SET SQL_MODE = '' @ [CHR 0x27] @ ''NO_AUTO_VALUE_ON_ZERO'' @ [CHR 0x27],
     ''SET SESSION time_zone = '' @ [CHR 0x27] @ ''+00:00'' @ [CHR 0x27], ''SET NAMES utf8mb4'']"

definition exec_ignore :: "'db target \<Rightarrow> string \<Rightarrow> 'db \<Rightarrow> 'db" where
  "exec_ignore tg s db = (case tg_exec tg s db of Some db' \<Rightarrow> db' | None \<Rightarrow> db)"

definition too_late :: "int option \<Rightarrow> Change \<Rightarrow> bool" where
  "too_late limit c \<longleftrightarrow> (case limit of Some mx \<Rightarrow> mx < ch_commit c | None \<Rightarrow> False)"

text \<open>One change of the loop of \<open>apply\<close>: the columns are asked once per table.\<close>

definition apply_change ::
  "'db target \<Rightarrow> int option \<Rightarrow> Change \<Rightarrow> (string \<rightharpoonup> ColInfo list) \<times> nat \<times> 'db \<Rightarrow>
   (slice_error + unit) \<times> (string \<rightharpoonup> ColInfo list) \<times> nat \<times> 'db" where
  "apply_change tg limit c st = (case st of (cache, n, db) \<Rightarrow>
     if too_late limit c then (Inr (), st)
     else case (case cache (ch_table c) of
                  Some cols \<Rightarrow> Inr cols | None \<Rightarrow> target_columns tg db (ch_table c)) of
       Inl e \<Rightarrow> (Inl e, st)
     | Inr cols \<Rightarrow>
         (let cache' = cache(ch_table c \<mapsto> cols) in
          case build_dml c cols of
            None \<Rightarrow> (Inr (), cache', n, db)
          | Some sql \<Rightarrow> (case tg_exec tg sql db of
              None \<Rightarrow> (Inl (StatementFailed sql), cache', n, db)
            | Some db' \<Rightarrow> (Inr (), cache', Suc n, db'))))"

lemma take_exact_len: "take_exact n r = Inr (bs, r1) \<Longrightarrow> length (fst r) = n + length (fst r1)"
  by (auto simp: take_exact_def split: if_splits)

lemma read_doc_len: "read_doc b r = Inr (d, r1) \<Longrightarrow> length (fst r1) < length (fst r)"
  by (auto simp: read_doc_def read_doc_upto_def Let_def split: sum.splits prod.splits if_splits option.splits
      dest!: take_exact_len)

lemma read_frame_len:
  "read_frame b r = Inr (fr, r1) \<Longrightarrow> fr = EndFrame \<or> length (fst r1) < length (fst r)"
proof -
  assume a: "read_frame b r = Inr (fr, r1)"
  show ?thesis
  proof (cases "take_exact 1 r")
    case (Inl e)
    with a show ?thesis by (cases e) (auto simp: read_frame_def)
  next
    case (Inr p)
    obtain tag r0 where p: "take_exact 1 r = Inr (tag, r0)" using Inr by (cases p) auto
    from take_exact_len [OF p] have l: "length (fst r0) < length (fst r)" by simp
    have d: "length (fst r2) < length (fst r0)" if "read_doc b r0 = Inr (d, r2)" for d r2
      using read_doc_len [OF that] .
    from a show ?thesis
      unfolding read_frame_def p
      using l less_trans [OF d l] by (auto simp: bind_res_Inr_iff split: if_splits)
  qed
qed

function apply_frames ::
  "bson_lib \<Rightarrow> 'db target \<Rightarrow> int option \<Rightarrow> slice_reader \<Rightarrow> (string \<rightharpoonup> ColInfo list) \<times> nat \<times> 'db \<Rightarrow>
   (slice_error + nat) \<times> 'db" where
  "apply_frames b tg limit r st = (case read_frame b r of
     Inl e \<Rightarrow> (Inl e, snd (snd st))
   | Inr (fr, r1) \<Rightarrow> (case fr of
       HeaderFrame _ \<Rightarrow> (Inl DuplicateHeader, snd (snd st))
     | EndFrame \<Rightarrow> (Inr (fst (snd st)), snd (snd st))
     | ChangeFrame c \<Rightarrow> (case apply_change tg limit c st of
         (Inl e, st') \<Rightarrow> (Inl e, snd (snd st'))
       | (Inr _, st') \<Rightarrow> apply_frames b tg limit r1 st')))"
  by pat_completeness auto
termination
  by (relation "measure (\<lambda>(b, tg, limit, r, st). length (fst r))") (auto dest: read_frame_len)

declare apply_frames.simps [simp del]

definition mysql_apply ::
  "bson_lib \<Rightarrow> 'db target \<Rightarrow> int option \<Rightarrow> slice_reader \<Rightarrow> 'db \<Rightarrow> (slice_error + nat) \<times> 'db" where
  "mysql_apply b tg limit r db = (case read_frame b r of
     Inl e \<Rightarrow> (Inl e, db)
   | Inr (fr, r1) \<Rightarrow> (case fr of
       HeaderFrame h \<Rightarrow>
         (let fmt = unwrap_or (get_str h ''format'') [] in
          if fmt \<noteq> INCR_FORMAT_ID then (Inl (FormatMismatch fmt), db)
          else apply_frames b tg limit r1 (Map.empty, 0, fold (exec_ignore tg) SESSION_SETUP db))
     | _ \<Rightarrow> (Inl HeaderMissing, db)))"

section \<open>Capture\<close>

text \<open>
  The events of the driver. \<open>None\<close> of a stream item is an error of the stream; of \<open>ev_data\<close>, the outer
  \<open>None\<close> is an event that cannot be decoded and the inner one an event without data. An image may be
  absent, or fail to convert. A rows event comes with its table, if the stream knows it.
\<close>

datatype 'v row_image = NoImage | BadImage | Image "'v list"

datatype rows_kind = WriteRows | UpdateRows | DeleteRows | PartialUpdateRows

record 'c table_map =
  tm_db :: string
  tm_table :: string
  tm_types :: "'c option list"

datatype ('v, 'c) event_data =
    RotateEvent string
  | GtidEvent u64
  | RowsEvent rows_kind "'c table_map option" "('v row_image \<times> 'v row_image) option list"
  | XidEvent
  | OtherEvent

record ('v, 'c) binlog_event =
  ev_timestamp :: u32
  ev_log_pos :: u32
  ev_data :: "('v, 'c) event_data option option"

record CaptureOutcome =
  co_archive :: bytes
  co_end :: MysqlBinlogCoords
  co_count :: nat
  co_more_pending :: bool

text \<open>\<open>render_binlog_row\<close>; \<open>render\<close> is \<open>render_binlog_value\<close>.\<close>

definition render_binlog_row ::
  "('v \<Rightarrow> 'c option \<Rightarrow> string) \<Rightarrow> 'c option list \<Rightarrow> 'v row_image \<Rightarrow> slice_error + string list" where
  "render_binlog_row render types img = (case img of
     NoImage \<Rightarrow> Inr []
   | BadImage \<Rightarrow> Inl RowUndecoded
   | Image vs \<Rightarrow> Inr (map (\<lambda>i. render (vs ! i) (if i < length types then types ! i else None)) [0 ..< length vs]))"

definition row_change ::
  "('v \<Rightarrow> 'c option \<Rightarrow> string) \<Rightarrow> dml_op \<Rightarrow> 'c table_map \<Rightarrow> int \<Rightarrow> ('v row_image \<times> 'v row_image) option \<Rightarrow>
   slice_error + Change" where
  "row_change render op tm micros row = (case row of
     None \<Rightarrow> Inl RowUndecoded
   | Some (before, after) \<Rightarrow>
       bind_res (render_binlog_row render (tm_types tm) before) (\<lambda>bs.
       bind_res (render_binlog_row render (tm_types tm) after) (\<lambda>as.
         Inr \<lparr>ch_op = op, ch_db = tm_db tm, ch_table = tm_table tm, ch_before = bs, ch_after = as,
           ch_commit = micros\<rparr>)))"

text \<open>The changes of one rows event; the partial update of JSON, a table that is not known and another database give none.\<close>

definition rows_changes ::
  "('v \<Rightarrow> 'c option \<Rightarrow> string) \<Rightarrow> string \<Rightarrow> int \<Rightarrow> u32 \<Rightarrow> rows_kind \<Rightarrow> 'c table_map option \<Rightarrow>
   ('v row_image \<times> 'v row_image) option list \<Rightarrow> slice_error + Change list" where
  "rows_changes render source_db cur_commit ts kind tme rows =
     (let go = (\<lambda>op. case tme of
            None \<Rightarrow> Inr []
          | Some tm \<Rightarrow>
              (if source_db \<noteq> [] \<and> tm_db tm \<noteq> source_db then Inr []
               else collect_res (row_change render op tm
                 (if 0 < cur_commit then cur_commit else uint ts * 1000000)) rows))
      in case kind of
           WriteRows \<Rightarrow> go Insert | UpdateRows \<Rightarrow> go Update | DeleteRows \<Rightarrow> go Delete
         | PartialUpdateRows \<Rightarrow> Inr [])"

record capture_state =
  cp_cur_file :: string
  cp_boundary_file :: string
  cp_boundary_pos :: u64
  cp_tx_buf :: "Change list"
  cp_commit :: int
  cp_archive :: bytes
  cp_count :: nat

text \<open>One event; the flag says that the limit was reached at the end of a transaction.\<close>

definition capture_event ::
  "bson_lib \<Rightarrow> ('v \<Rightarrow> 'c option \<Rightarrow> string) \<Rightarrow> string \<Rightarrow> ('v, 'c) binlog_event \<Rightarrow> capture_state \<Rightarrow>
   slice_error + capture_state \<times> bool" where
  "capture_event b render source_db ev st = (case ev_data ev of
     None \<Rightarrow> Inl EventUndecoded
   | Some None \<Rightarrow> Inr (st, False)
   | Some (Some d) \<Rightarrow> (case d of
       RotateEvent name \<Rightarrow> Inr (st\<lparr>cp_cur_file := name\<rparr>, False)
     | GtidEvent g \<Rightarrow> Inr (st\<lparr>cp_commit := sint g\<rparr>, False)
     | RowsEvent kind tme rows \<Rightarrow>
         bind_res (rows_changes render source_db (cp_commit st) (ev_timestamp ev) kind tme rows)
           (\<lambda>cs. Inr (st\<lparr>cp_tx_buf := cp_tx_buf st @ cs\<rparr>, False))
     | XidEvent \<Rightarrow>
         (let n = cp_count st + length (cp_tx_buf st) in
          Inr (st\<lparr>cp_archive := cp_archive st @ concat (map (write_change b) (cp_tx_buf st)),
                 cp_count := n, cp_tx_buf := [], cp_boundary_file := cp_cur_file st,
                 cp_boundary_pos := ucast (ev_log_pos ev), cp_commit := 0\<rparr>,
               MAX_CHANGES_PER_CAPTURE \<le> n))
     | OtherEvent \<Rightarrow> Inr (st, False)))"

fun capture_loop ::
  "bson_lib \<Rightarrow> ('v \<Rightarrow> 'c option \<Rightarrow> string) \<Rightarrow> string \<Rightarrow> ('v, 'c) binlog_event option list \<Rightarrow> capture_state \<Rightarrow>
   slice_error + capture_state \<times> bool" where
  "capture_loop b render source_db [] st = Inr (st, False)"
| "capture_loop b render source_db (None # evs) st = Inl EventUnread"
| "capture_loop b render source_db (Some ev # evs) st =
     (case capture_event b render source_db ev st of
        Inl e \<Rightarrow> Inl e
      | Inr (st', stop) \<Rightarrow> (if stop then Inr (st', True) else capture_loop b render source_db evs st'))"

text \<open>The server: connection, current database, and the stream from a position (by replica id).\<close>

record ('v, 'c) binlog_server =
  bs_connects :: bool
  bs_database :: "string option"
  bs_stream :: "u32 \<Rightarrow> string \<Rightarrow> u64 \<Rightarrow> ('v, 'c) binlog_event option list option"

definition start_state :: "bson_lib \<Rightarrow> string \<Rightarrow> MysqlBinlogCoords \<Rightarrow> capture_state" where
  "start_state b now start = \<lparr>cp_cur_file = binlog_file start, cp_boundary_file = binlog_file start,
     cp_boundary_pos = binlog_position start, cp_tx_buf = [], cp_commit = 0,
     cp_archive = write_header b now, cp_count = 0\<rparr>"

definition mysql_capture ::
  "bson_lib \<Rightarrow> ('v \<Rightarrow> 'c option \<Rightarrow> string) \<Rightarrow> ('v, 'c) binlog_server \<Rightarrow> string \<Rightarrow> MysqlBinlogCoords \<Rightarrow> u32 \<Rightarrow>
   slice_error + CaptureOutcome" where
  "mysql_capture b render srv now start server_id =
     (if \<not> bs_connects srv then Inl ConnectFailed
      else case bs_stream srv server_id (binlog_file start) (max (binlog_position start) 4) of
        None \<Rightarrow> Inl StreamRefused
      | Some evs \<Rightarrow>
          bind_res (capture_loop b render (unwrap_or (bs_database srv) []) evs (start_state b now start))
            (\<lambda>(st, stop). Inr \<lparr>co_archive = cp_archive st @ write_end,
               co_end = \<lparr>binlog_file = cp_boundary_file st, binlog_position = cp_boundary_pos st,
                         gtid_executed = []\<rparr>,
               co_count = cp_count st, co_more_pending = stop\<rparr>))"

section \<open>What a capture holds\<close>

text \<open>The changes of a run of events, without buffering, and the file the run ends in.\<close>

fun seg_changes ::
  "('v \<Rightarrow> 'c option \<Rightarrow> string) \<Rightarrow> string \<Rightarrow> int \<Rightarrow> ('v, 'c) binlog_event list \<Rightarrow> Change list" where
  "seg_changes render source_db commit [] = []"
| "seg_changes render source_db commit (ev # evs) = (case ev_data ev of
     Some (Some (GtidEvent g)) \<Rightarrow> seg_changes render source_db (sint g) evs
   | Some (Some XidEvent) \<Rightarrow> seg_changes render source_db 0 evs
   | Some (Some (RowsEvent kind tme rows)) \<Rightarrow>
       (case rows_changes render source_db commit (ev_timestamp ev) kind tme rows of
          Inl _ \<Rightarrow> [] | Inr cs \<Rightarrow> cs) @ seg_changes render source_db commit evs
   | _ \<Rightarrow> seg_changes render source_db commit evs)"

definition is_xid :: "('v, 'c) binlog_event \<Rightarrow> bool" where
  "is_xid ev \<longleftrightarrow> ev_data ev = Some (Some XidEvent)"

definition next_file :: "string \<Rightarrow> ('v, 'c) binlog_event \<Rightarrow> string" where
  "next_file f ev = (case ev_data ev of Some (Some (RotateEvent n)) \<Rightarrow> n | _ \<Rightarrow> f)"

definition file_after :: "string \<Rightarrow> ('v, 'c) binlog_event list \<Rightarrow> string" where
  "file_after f evs = foldl next_file f evs"

definition whole_tx :: "('v, 'c) binlog_event list \<Rightarrow> bool" where
  "whole_tx seg \<longleftrightarrow> seg = [] \<or> is_xid (last seg)"

lemma whole_tx_simps [simp]: "whole_tx []" "whole_tx (ev # seg) \<longleftrightarrow> (if seg = [] then is_xid ev else whole_tx seg)"
  by (auto simp: whole_tx_def)

lemma whole_tx_append: "whole_tx xs \<Longrightarrow> whole_tx ys \<Longrightarrow> whole_tx (xs @ ys)"
  by (cases "ys = []") (simp_all add: whole_tx_def)

lemma file_after_simps [simp]:
  "file_after f [] = f" "file_after f (ev # evs) = file_after (next_file f ev) evs"
  "file_after f (xs @ ys) = file_after (file_after f xs) ys"
  by (simp_all add: file_after_def)

text \<open>A whole run of transactions leaves no commit time behind.\<close>

lemma seg_changes_append:
  "seg \<noteq> [] \<Longrightarrow> whole_tx seg \<Longrightarrow>
     seg_changes render db k (seg @ evs) = seg_changes render db k seg @ seg_changes render db 0 evs"
proof (induction seg arbitrary: k)
  case (Cons ev seg)
  show ?case
  proof (cases "seg = []")
    case True
    with Cons.prems(2) show ?thesis by (simp add: is_xid_def)
  next
    case False
    with Cons.prems(2) have IH: "seg_changes render db k (seg @ evs) =
        seg_changes render db k seg @ seg_changes render db 0 evs" for k
      using Cons.IH by simp
    show ?thesis
      by (auto simp: IH split: option.split event_data.split)
  qed
qed simp

lemma seg_changes_append0:
  "whole_tx seg \<Longrightarrow> seg_changes render db 0 (seg @ evs) = seg_changes render db 0 seg @ seg_changes render db 0 evs"
  by (cases "seg = []") (simp_all add: seg_changes_append)

lemma capture_loop_spec:
  assumes "capture_loop b render db evs st = Inr (st', stop)"
  shows "\<exists>seg tl rest. evs = map Some seg @ map Some tl @ rest \<and> whole_tx seg \<and>
    (\<forall>ev \<in> set tl. \<not> is_xid ev) \<and>
    (stop \<longrightarrow> tl = [] \<and> MAX_CHANGES_PER_CAPTURE \<le> cp_count st') \<and> (\<not> stop \<longrightarrow> rest = []) \<and>
    (if seg = [] then cp_archive st' = cp_archive st \<and> cp_count st' = cp_count st \<and>
        cp_boundary_file st' = cp_boundary_file st \<and> cp_boundary_pos st' = cp_boundary_pos st
     else let cs = cp_tx_buf st @ seg_changes render db (cp_commit st) seg in
        cp_archive st' = cp_archive st @ concat (map (write_change b) cs) \<and>
        cp_count st' = cp_count st + length cs \<and>
        cp_boundary_file st' = file_after (cp_cur_file st) seg \<and>
        cp_boundary_pos st' = ucast (ev_log_pos (last seg)))"
  using assms
proof (induction b render db evs st arbitrary: st' stop rule: capture_loop.induct)
  case (1 b render db st)
  then show ?case
    by (intro exI [of _ "[]"]) simp
next
  case (2 b render db evs st)
  then show ?case by simp
next
  case (3 b render db ev evs st)
  from "3.prems" obtain st1 m1 where one: "capture_event b render db ev st = Inr (st1, m1)"
    by (auto split: sum.splits)
  show ?case
  proof (cases "is_xid ev")
    case True
    then have st1: "cp_archive st1 = cp_archive st @ concat (map (write_change b) (cp_tx_buf st))"
      "cp_count st1 = cp_count st + length (cp_tx_buf st)" "cp_tx_buf st1 = []"
      "cp_boundary_file st1 = cp_cur_file st" "cp_boundary_pos st1 = ucast (ev_log_pos ev)"
      "cp_commit st1 = 0" "cp_cur_file st1 = cp_cur_file st" "m1 \<longleftrightarrow> MAX_CHANGES_PER_CAPTURE \<le> cp_count st1"
      using one by (auto simp: capture_event_def is_xid_def Let_def)
    have ev: "next_file f ev = f" "seg_changes render db k (ev # seg) = seg_changes render db 0 seg" for f k seg
      using True by (simp_all add: next_file_def is_xid_def)
    show ?thesis
    proof (cases m1)
      case True
      with "3.prems" one have "st' = st1" "stop" by auto
      then show ?thesis
        using st1 True ev \<open>is_xid ev\<close>
        by (intro exI [of _ "[ev]"] exI [of _ "[]"] exI [of _ evs]) (simp add: Let_def)
    next
      case False
      with "3.prems" one have "capture_loop b render db evs st1 = Inr (st', stop)" by simp
      from "3.IH" [OF one refl False this] obtain seg tl rest where
        s: "evs = map Some seg @ map Some tl @ rest" "whole_tx seg" "\<forall>ev \<in> set tl. \<not> is_xid ev"
          "stop \<longrightarrow> tl = [] \<and> MAX_CHANGES_PER_CAPTURE \<le> cp_count st'" "\<not> stop \<longrightarrow> rest = []"
          "if seg = [] then cp_archive st' = cp_archive st1 \<and> cp_count st' = cp_count st1 \<and>
            cp_boundary_file st' = cp_boundary_file st1 \<and> cp_boundary_pos st' = cp_boundary_pos st1
           else let cs = cp_tx_buf st1 @ seg_changes render db (cp_commit st1) seg in
            cp_archive st' = cp_archive st1 @ concat (map (write_change b) cs) \<and>
            cp_count st' = cp_count st1 + length cs \<and>
            cp_boundary_file st' = file_after (cp_cur_file st1) seg \<and>
            cp_boundary_pos st' = ucast (ev_log_pos (last seg))"
        by metis
      show ?thesis
        using s st1 ev \<open>is_xid ev\<close>
        by (intro exI [of _ "ev # seg"] exI [of _ tl] exI [of _ rest])
          (cases "seg = []"; simp add: Let_def)
    qed
  next
    case False
    then have m1: "\<not> m1" and st1: "cp_archive st1 = cp_archive st" "cp_count st1 = cp_count st"
      "cp_boundary_file st1 = cp_boundary_file st" "cp_boundary_pos st1 = cp_boundary_pos st"
      "cp_cur_file st1 = next_file (cp_cur_file st) ev"
      and cs: "cp_tx_buf st1 @ seg_changes render db (cp_commit st1) seg =
        cp_tx_buf st @ seg_changes render db (cp_commit st) (ev # seg)" for seg
      using one by (auto simp: capture_event_def is_xid_def next_file_def Let_def bind_res_Inr_iff
          split: option.splits event_data.splits)
    with "3.prems" one have "capture_loop b render db evs st1 = Inr (st', stop)" by simp
    from "3.IH" [OF one refl m1 this] obtain seg tl rest where
      s: "evs = map Some seg @ map Some tl @ rest" "whole_tx seg" "\<forall>ev \<in> set tl. \<not> is_xid ev"
        "stop \<longrightarrow> tl = [] \<and> MAX_CHANGES_PER_CAPTURE \<le> cp_count st'" "\<not> stop \<longrightarrow> rest = []"
        "if seg = [] then cp_archive st' = cp_archive st1 \<and> cp_count st' = cp_count st1 \<and>
          cp_boundary_file st' = cp_boundary_file st1 \<and> cp_boundary_pos st' = cp_boundary_pos st1
         else let cs = cp_tx_buf st1 @ seg_changes render db (cp_commit st1) seg in
          cp_archive st' = cp_archive st1 @ concat (map (write_change b) cs) \<and>
          cp_count st' = cp_count st1 + length cs \<and>
          cp_boundary_file st' = file_after (cp_cur_file st1) seg \<and>
          cp_boundary_pos st' = ucast (ev_log_pos (last seg))"
      by metis
    show ?thesis
    proof (cases "seg = []")
      case True
      show ?thesis
      proof (cases stop)
        case stop: True
        with s(4) have "tl = []" by blast
        have "cp_count st' = cp_count st" using s(6) True st1 by simp
        show ?thesis
          using s True st1 False stop \<open>tl = []\<close>
          by (intro exI [of _ "[]"] exI [of _ "[]"] exI [of _ "Some ev # evs"]) simp
      next
        case stop: False
        with s True st1 False show ?thesis
          by (intro exI [of _ "[]"] exI [of _ "ev # tl"] exI [of _ "[]"]) simp
      qed
    next
      case seg: False
      then show ?thesis
        using s st1 cs [of seg]
        by (intro exI [of _ "ev # seg"] exI [of _ tl] exI [of _ rest]) (simp add: Let_def)
    qed
  qed
qed

section \<open>Positions of the binlog\<close>

text \<open>
  \<open>log\<close> is the binlog from the start of the file \<open>f0\<close>, over all files. A position is what the code
  records: the file and the end of the last event.
\<close>

definition pos_after :: "('v, 'c) binlog_event list \<Rightarrow> u64" where
  "pos_after evs = (if evs = [] \<or> next_file [] (last evs) \<noteq> [] then 4 else ucast (ev_log_pos (last evs)))"

definition coords_at :: "string \<Rightarrow> ('v, 'c) binlog_event list \<Rightarrow> MysqlBinlogCoords \<Rightarrow> bool" where
  "coords_at f0 pre co \<longleftrightarrow> binlog_file co = file_after f0 pre \<and> binlog_position co = pos_after pre"

text \<open>
  The stream from a position of the log announces the file and then yields the events behind the
  position; with \<open>non_blocking\<close> it ends at the end of the log. It can be refused, and it can break off with
  an error. Nothing is said of a file that the server has purged: \<open>kept\<close> are the files it still lists.
\<close>

definition announces :: "string \<Rightarrow> ('v, 'c) binlog_event list \<Rightarrow> bool" where
  "announces f evs \<longleftrightarrow> (\<forall>ev \<in> set evs. ev_data ev \<in> {Some (Some (RotateEvent f)), Some (Some OtherEvent)})"

definition stream_of :: "('v, 'c) binlog_event list \<Rightarrow> ('v, 'c) binlog_event option list \<Rightarrow> bool" where
  "stream_of evs str \<longleftrightarrow> str = map Some evs \<or> (\<exists>k after. str = map Some (take k evs) @ None # after)"

definition serves ::
  "('v, 'c) binlog_server \<Rightarrow> string set \<Rightarrow> string \<Rightarrow> ('v, 'c) binlog_event list \<Rightarrow> bool" where
  "serves srv kept f0 log \<longleftrightarrow> (\<forall>pre post i co str. log = pre @ post \<longrightarrow> coords_at f0 pre co \<longrightarrow>
     binlog_file co \<in> kept \<longrightarrow> bs_stream srv i (binlog_file co) (max (binlog_position co) 4) = Some str \<longrightarrow>
     (\<exists>intro. announces (binlog_file co) intro \<and> stream_of (intro @ post) str))"

lemma announces_simps [simp]:
  "announces f []"
  "announces f (ev # evs) \<longleftrightarrow> announces f evs \<and> ev_data ev \<in> {Some (Some (RotateEvent f)), Some (Some OtherEvent)}"
  by (auto simp: announces_def)

text \<open>The announcement changes nothing but the name of the file, to what it is.\<close>

lemma capture_loop_announced:
  "announces f intro \<Longrightarrow> cp_cur_file st = f \<Longrightarrow>
     capture_loop b render db (map Some intro @ evs) st = capture_loop b render db evs st"
proof (induction intro arbitrary: st)
  case (Cons ev intro)
  have "st\<lparr>cp_cur_file := f\<rparr> = st" using Cons.prems(2) by (cases st) simp
  with Cons show ?case by (auto simp: capture_event_def)
qed simp

lemma announces_take: "announces f intro \<Longrightarrow> announces f (take k intro)"
  by (auto simp: announces_def dest: in_set_takeD)

text \<open>What a capture from \<open>st\<close> has made of the events \<open>seg\<close>.\<close>

definition captured_to ::
  "bson_lib \<Rightarrow> ('v \<Rightarrow> 'c option \<Rightarrow> string) \<Rightarrow> string \<Rightarrow> capture_state \<Rightarrow> ('v, 'c) binlog_event list \<Rightarrow> capture_state \<Rightarrow> bool"
  where
  "captured_to b render db st seg st' \<longleftrightarrow> (if seg = [] then cp_archive st' = cp_archive st \<and> cp_count st' = cp_count st \<and>
        cp_boundary_file st' = cp_boundary_file st \<and> cp_boundary_pos st' = cp_boundary_pos st
     else let cs = cp_tx_buf st @ seg_changes render db (cp_commit st) seg in
        cp_archive st' = cp_archive st @ concat (map (write_change b) cs) \<and>
        cp_count st' = cp_count st + length cs \<and>
        cp_boundary_file st' = file_after (cp_cur_file st) seg \<and>
        cp_boundary_pos st' = ucast (ev_log_pos (last seg)))"

text \<open>A stream that breaks off ends the capture with an error, unless it had stopped before.\<close>

lemma prefix_of_somes:
  assumes "map Some q @ after = map Some seg @ rest" and "after = [] \<or> (\<exists>x. after = None # x)"
  shows "\<exists>q'. q = seg @ q' \<and> rest = map Some q' @ after"
  using assms by (induction q arbitrary: seg) (case_tac [!] seg, auto)

lemma capture_loop_cut:
  assumes loop: "capture_loop b render db (map Some q @ after) st = Inr (st', m)"
    and after: "after = [] \<and> r = [] \<or> (\<exists>x. after = None # x)"
  shows "\<exists>seg tl rest. q @ r = seg @ tl @ rest \<and> whole_tx seg \<and> (\<forall>ev \<in> set tl. \<not> is_xid ev) \<and>
    (m \<longrightarrow> tl = [] \<and> MAX_CHANGES_PER_CAPTURE \<le> cp_count st') \<and> (\<not> m \<longrightarrow> rest = []) \<and>
    captured_to b render db st seg st'"
proof -
  obtain seg tl rest where s: "map Some q @ after = map Some (seg @ tl) @ rest" "whole_tx seg"
    "\<forall>ev \<in> set tl. \<not> is_xid ev" "m \<longrightarrow> tl = [] \<and> MAX_CHANGES_PER_CAPTURE \<le> cp_count st'" "\<not> m \<longrightarrow> rest = []"
    "captured_to b render db st seg st'"
    using capture_loop_spec [OF loop] unfolding captured_to_def by auto
  have "after = [] \<or> (\<exists>x. after = None # x)" using after by blast
  from prefix_of_somes [OF s(1) this] obtain q' where q: "q = (seg @ tl) @ q'" "rest = map Some q' @ after"
    by blast
  have "\<not> m \<longrightarrow> q' @ r = []" using s(5) q(2) after by auto
  with s q(1) show ?thesis by (intro exI [of _ seg] exI [of _ tl] exI [of _ "q' @ r"]) simp
qed

lemma capture_loop_stream:
  assumes loop: "capture_loop b render db str st = Inr (st', m)" and str: "stream_of (intro @ post) str"
    and i: "announces (cp_cur_file st) intro"
  shows "\<exists>seg tl rest. post = seg @ tl @ rest \<and> whole_tx seg \<and> (\<forall>ev \<in> set tl. \<not> is_xid ev) \<and>
    (m \<longrightarrow> tl = [] \<and> MAX_CHANGES_PER_CAPTURE \<le> cp_count st') \<and> (\<not> m \<longrightarrow> rest = []) \<and>
    captured_to b render db st seg st'"
proof -
  note skip = capture_loop_announced [OF _ refl, of st _ b render db]
  from str consider (whole) "str = map Some intro @ map Some post @ []"
    | (early) k x where "k \<le> length intro" "str = map Some (take k intro) @ None # x"
    | (late) k x where "str = map Some intro @ map Some (take k post) @ None # x"
  proof (cases "str = map Some (intro @ post)")
    case True
    then show ?thesis by (intro whole) simp
  next
    case False
    with str obtain k x where k: "str = map Some (take k (intro @ post)) @ None # x"
      unfolding stream_of_def by blast
    show ?thesis
    proof (cases "k \<le> length intro")
      case True
      with k show ?thesis by (intro early) simp_all
    next
      case False
      with k show ?thesis by (intro late [of "k - length intro"]) simp
    qed
  qed
  then show ?thesis
  proof cases
    case whole
    then have "capture_loop b render db (map Some post @ []) st = Inr (st', m)"
      using loop skip [OF i] by simp
    from capture_loop_cut [OF this, of "[]"] show ?thesis by simp
  next
    case early
    then have "capture_loop b render db (None # x) st = Inr (st', m)"
      using loop skip [OF announces_take [OF i, of k]] by simp
    then show ?thesis by simp
  next
    case late
    then have "capture_loop b render db (map Some (take k post) @ None # x) st = Inr (st', m)"
      using loop skip [OF i] by simp
    from capture_loop_cut [OF this, of "drop k post"] show ?thesis by simp
  qed
qed

text \<open>
  A capture from a position ends at a position: between the two lie whole transactions, and the archive
  holds exactly their changes. Below the limit no transaction is left.
\<close>

lemma capture_tile:
  assumes cap: "mysql_capture b render srv now start i = Inr out"
    and srv: "serves srv kept f0 (pre @ post)" and at: "coords_at f0 pre start" "binlog_file start \<in> kept"
  shows "\<exists>seg rest. post = seg @ rest \<and> whole_tx seg \<and>
    co_archive out = write_header b now @
      concat (map (write_change b) (seg_changes render (unwrap_or (bs_database srv) []) 0 seg)) @ write_end \<and>
    co_count out = length (seg_changes render (unwrap_or (bs_database srv) []) 0 seg) \<and>
    coords_at f0 (pre @ seg) (co_end out) \<and>
    (co_more_pending out \<or> (\<forall>ev \<in> set rest. \<not> is_xid ev)) \<and>
    (co_more_pending out \<longrightarrow> MAX_CHANGES_PER_CAPTURE \<le> co_count out)"
proof -
  let ?db = "unwrap_or (bs_database srv) []"
  from cap obtain str st m where str: "bs_stream srv i (binlog_file start) (max (binlog_position start) 4) = Some str"
    and loop: "capture_loop b render ?db str (start_state b now start) = Inr (st, m)"
    and out: "out = \<lparr>co_archive = cp_archive st @ write_end,
      co_end = \<lparr>binlog_file = cp_boundary_file st, binlog_position = cp_boundary_pos st, gtid_executed = []\<rparr>,
      co_count = cp_count st, co_more_pending = m\<rparr>"
    unfolding mysql_capture_def by (auto simp: bind_res_Inr_iff split: if_splits option.splits)
  obtain intro where intro: "announces (binlog_file start) intro" "stream_of (intro @ post) str"
    using srv at str unfolding serves_def by blast
  have "announces (cp_cur_file (start_state b now start)) intro" using intro(1) by (simp add: start_state_def)
  from capture_loop_stream [OF loop intro(2) this] obtain seg tl left where
    s: "post = seg @ tl @ left" "whole_tx seg" "\<forall>ev \<in> set tl. \<not> is_xid ev"
      "m \<longrightarrow> tl = [] \<and> MAX_CHANGES_PER_CAPTURE \<le> cp_count st" "\<not> m \<longrightarrow> left = []"
    and st0: "captured_to b render ?db (start_state b now start) seg st"
    by blast
  have st: "if seg = [] then cp_archive st = write_header b now \<and> cp_count st = 0 \<and>
        cp_boundary_file st = binlog_file start \<and> cp_boundary_pos st = binlog_position start
     else cp_archive st = write_header b now @ concat (map (write_change b) (seg_changes render ?db 0 seg)) \<and>
        cp_count st = length (seg_changes render ?db 0 seg) \<and>
        cp_boundary_file st = file_after (binlog_file start) seg \<and>
        cp_boundary_pos st = ucast (ev_log_pos (last seg))"
    using st0 by (cases "seg = []") (simp_all add: captured_to_def start_state_def Let_def)
  have left: "m \<or> (\<forall>ev \<in> set (tl @ left). \<not> is_xid ev)"
    using s(3,5) by auto
  have "coords_at f0 (pre @ seg) (co_end out)"
  proof (cases "seg = []")
    case True
    with st at out show ?thesis by (simp add: coords_at_def)
  next
    case False
    then have "is_xid (last seg)" using s(2) by (simp add: whole_tx_def)
    then have "next_file [] (last seg) = []" by (simp add: next_file_def is_xid_def)
    with False st at out show ?thesis by (simp add: coords_at_def pos_after_def)
  qed
  with left s(1,2,4) st out show ?thesis
    by (intro exI [of _ seg] exI [of _ "tl @ left"]) (auto split: if_splits)
qed

section \<open>The replay of an archive\<close>

text \<open>The changes one after another, until one fails.\<close>

fun apply_changes ::
  "'db target \<Rightarrow> int option \<Rightarrow> Change list \<Rightarrow> (string \<rightharpoonup> ColInfo list) \<times> nat \<times> 'db \<Rightarrow> (slice_error + nat) \<times> 'db" where
  "apply_changes tg limit [] st = (Inr (fst (snd st)), snd (snd st))"
| "apply_changes tg limit (c # cs) st = (case apply_change tg limit c st of
     (Inl e, st') \<Rightarrow> (Inl e, snd (snd st'))
   | (Inr _, st') \<Rightarrow> apply_changes tg limit cs st')"

definition frame_fits :: "bson_lib \<Rightarrow> document \<Rightarrow> bool" where
  "frame_fits b d \<longleftrightarrow> length (bl_write b d) \<le> unat MAX_FRAME_BYTES"

definition archive_of :: "bson_lib \<Rightarrow> string \<Rightarrow> Change list \<Rightarrow> bytes" where
  "archive_of b now cs = write_header b now @ concat (map (write_change b) cs) @ write_end"

lemma doc_strs_map: "List.map_filter as_str (map BvString xs) = xs"
  by (induction xs) (simp_all add: map_filter_simps as_str_def)

lemma doc_change [simp]: "doc_to_change (change_to_doc c) = Inr c"
  by (cases "ch_op c")
    (simp_all add: doc_to_change_def change_to_doc_def get_str_def get_array_def get_i64_def doc_strs_def
      unwrap_or_def doc_strs_map)

lemma read_doc_written:
  assumes "bson_laws b" and "frame_fits b d"
  shows "read_doc b (bl_write b d @ rest, ok) = Inr (d, rest, ok)"
proof -
  let ?w = "bl_write b d"
  have w: "bl_read b ?w = Some d" "5 \<le> length ?w"
    using assms(1) by (auto simp: bson_laws_def)
  have "length ?w < 2 ^ 31"
    using assms(2) by (simp add: frame_fits_def MAX_FRAME_BYTES_def)
  then have le: "le_u32 (take 4 ?w) = word_of_nat (length ?w)" and small: "length ?w < 2 ^ 32"
    using assms(1) by (auto simp: bson_laws_def)
  have un: "unat (word_of_nat (length ?w) :: u32) = length ?w"
    using small by (simp add: unsigned_of_nat take_bit_nat_eq_self)
  have "5 \<le> (word_of_nat (length ?w) :: u32)" "(word_of_nat (length ?w) :: u32) \<le> MAX_FRAME_BYTES"
    using w(2) assms(2) by (simp_all add: word_le_nat_alt un frame_fits_def)
  moreover have "take 4 (?w @ rest) = take 4 ?w" "length ?w - 4 \<le> length ?w + length rest - 4"
    "take (length ?w - 4) (drop 4 (?w @ rest)) = drop 4 ?w" "drop (length ?w - 4) (drop 4 (?w @ rest)) = rest"
    using w(2) by simp_all
  ultimately show ?thesis
    using w by (simp add: read_doc_def read_doc_upto_def take_exact_def Let_def le un del: take_append drop_append)
qed

lemma read_change_written:
  "bson_laws b \<Longrightarrow> frame_fits b (change_to_doc c) \<Longrightarrow>
     read_frame b (write_change b c @ rest, ok) = Inr (ChangeFrame c, rest, ok)"
  by (simp add: read_frame_def take_exact_def write_change_def write_doc_def read_doc_written tag_defs)

lemma read_header_written:
  "bson_laws b \<Longrightarrow> frame_fits b (header_doc now) \<Longrightarrow>
     read_frame b (write_header b now @ rest, ok) = Inr (HeaderFrame (header_doc now), rest, ok)"
  by (simp add: read_frame_def take_exact_def write_header_def write_doc_def read_doc_written tag_defs)

lemma apply_frames_written:
  assumes "bson_laws b"
  shows "\<forall>c \<in> set cs. frame_fits b (change_to_doc c) \<Longrightarrow>
    apply_frames b tg limit (concat (map (write_change b) cs) @ write_end @ rest, ok) st =
    apply_changes tg limit cs st"
proof (induction cs arbitrary: st)
  case Nil
  show ?case
    by (subst apply_frames.simps) (simp add: read_frame_def take_exact_def write_end_def)
next
  case (Cons c cs)
  have "read_frame b (concat (map (write_change b) (c # cs)) @ write_end @ rest, ok) =
      Inr (ChangeFrame c, concat (map (write_change b) cs) @ write_end @ rest, ok)"
    using read_change_written [OF assms, of c] Cons.prems by simp
  with Cons show ?case
    by (subst apply_frames.simps) (simp split: prod.split sum.split)
qed

lemma mysql_apply_archive:
  assumes "bson_laws b" and "frame_fits b (header_doc now)" and "\<forall>c \<in> set cs. frame_fits b (change_to_doc c)"
  shows "mysql_apply b tg limit (archive_of b now cs, ok) db =
    apply_changes tg limit cs (Map.empty, 0, fold (exec_ignore tg) SESSION_SETUP db)"
  using read_header_written [OF assms(1,2)] apply_frames_written [OF assms(1,3), of tg limit "[]"]
  by (simp add: mysql_apply_def archive_of_def header_doc_def get_str_def unwrap_or_def)

text \<open>
  The target executes the statements of the changes as \<open>XB_Mysql_Dml\<close> describes them on the rows that
  \<open>view\<close> reads off it; its columns stay, and the session settings leave the rows alone.
\<close>

definition executes :: "'db target \<Rightarrow> ('db \<Rightarrow> string \<Rightarrow> row list) \<Rightarrow> schema \<Rightarrow> Change \<Rightarrow> bool" where
  "executes tg view sc c \<longleftrightarrow>
     (\<forall>db. target_columns tg db (ch_table c) = Inr (sc_cols sc (ch_table c))) \<and>
     (\<forall>s db. plan_dml c (sc_cols sc (ch_table c)) = Some s \<longrightarrow>
        (case run_stmt sc s (view db (ch_table c)) of
           None \<Rightarrow> tg_exec tg (sql_text s) db = None
         | Some rows \<Rightarrow> (\<exists>db'. tg_exec tg (sql_text s) db = Some db' \<and> view db' = (view db)(ch_table c := rows))))"

definition target_laws ::
  "'db target \<Rightarrow> ('db \<Rightarrow> string \<Rightarrow> row list) \<Rightarrow> schema \<Rightarrow> Change list \<Rightarrow> bool" where
  "target_laws tg view sc cs \<longleftrightarrow>
     (\<forall>db. \<forall>s \<in> set SESSION_SETUP. view (exec_ignore tg s db) = view db) \<and>
     (\<forall>c \<in> set cs. executes tg view sc c)"

lemma view_setup: "(\<forall>s \<in> set ss. \<forall>db. view (exec_ignore tg s db) = view db) \<Longrightarrow> view (fold (exec_ignore tg) ss db) = view db"
  by (induction ss arbitrary: db) auto

definition cache_ok :: "schema \<Rightarrow> (string \<rightharpoonup> ColInfo list) \<Rightarrow> bool" where
  "cache_ok sc cache \<longleftrightarrow> (\<forall>t cols. cache t = Some cols \<longrightarrow> cols = sc_cols sc t)"

lemma apply_change_exact:
  assumes laws: "target_laws tg view sc [c]" and cache: "cache_ok sc cache"
    and one: "replay_one sc c (view db) = Some rows" "plan_dml c (sc_cols sc (ch_table c)) \<noteq> None"
    and late: "\<not> too_late limit c"
  shows "\<exists>cache' db'. apply_change tg limit c (cache, n, db) = (Inr (), cache', Suc n, db') \<and>
    cache_ok sc cache' \<and> view db' = rows"
proof -
  obtain s where s: "plan_dml c (sc_cols sc (ch_table c)) = Some s" using one(2) by blast
  with one(1) obtain rs where rs: "rows = (view db)(ch_table c := rs)"
    "run_stmt sc s (view db (ch_table c)) = Some rs"
    by (auto simp: replay_one_def)
  have "case run_stmt sc s (view db (ch_table c)) of
      None \<Rightarrow> tg_exec tg (sql_text s) db = None
    | Some rows \<Rightarrow> \<exists>db'. tg_exec tg (sql_text s) db = Some db' \<and> view db' = (view db)(ch_table c := rows)"
    using laws s unfolding target_laws_def executes_def by simp
  then obtain db' where db': "tg_exec tg (sql_text s) db = Some db'" "view db' = rows"
    unfolding rs by auto
  have "target_columns tg db (ch_table c) = Inr (sc_cols sc (ch_table c))"
    using laws by (simp add: target_laws_def executes_def)
  with cache have cols: "(case cache (ch_table c) of Some cols \<Rightarrow> Inr cols | None \<Rightarrow> target_columns tg db (ch_table c)) =
      (Inr (sc_cols sc (ch_table c)) :: slice_error + ColInfo list)"
    by (auto simp: cache_ok_def split: option.split)
  have "build_dml c (sc_cols sc (ch_table c)) = Some (sql_text s)"
    by (simp add: build_dml_plan s)
  moreover have "cache_ok sc (cache(ch_table c \<mapsto> sc_cols sc (ch_table c)))"
    using cache by (simp add: cache_ok_def)
  ultimately show ?thesis
    using db' late by (simp add: apply_change_def cols Let_def)
qed

lemma apply_changes_exact:
  assumes "source_steps sc cs D D'" and "ch_table ` set cs \<subseteq> T" and "db_ok sc T D"
    and "\<forall>t. mset (view db t) = D t" and "target_laws tg view sc cs" and "cache_ok sc cache"
    and "\<forall>c \<in> set cs. \<not> too_late limit c"
  shows "\<exists>db'. apply_changes tg limit cs (cache, n, db) = (Inr (n + length cs), db') \<and>
    (\<forall>t. mset (view db' t) = D' t) \<and> db_ok sc T D'"
  using assms
proof (induction arbitrary: db cache n rule: source_steps.induct)
  case (source_more c D D1 cs D2)
  have c: "schema_ok sc (ch_table c)" "table_ok sc (ch_table c) (D (ch_table c))"
    using source_more.prems(1,2) by (auto simp: db_ok_def)
  obtain rows where rows: "replay_one sc c (view db) = Some rows" "\<forall>t. mset (rows t) = D1 t"
    "table_ok sc (ch_table c) (D1 (ch_table c))" "plan_dml c (sc_cols sc (ch_table c)) \<noteq> None"
    using replay_one_exact [OF source_more.hyps(1) c source_more.prems(3)] by metis
  have laws: "target_laws tg view sc [c]" "target_laws tg view sc cs"
    using source_more.prems(4) by (simp_all add: target_laws_def)
  obtain cache' db' where one: "apply_change tg limit c (cache, n, db) = (Inr (), cache', Suc n, db')"
    "cache_ok sc cache'" "view db' = rows"
    using apply_change_exact [OF laws(1) source_more.prems(5) rows(1,4)] source_more.prems(6)
    by (metis list.set_intros(1))
  have "db_ok sc T D1"
    using source_more.prems(2) rows(3) source_step_frame [OF source_more.hyps(1)]
    unfolding db_ok_def by metis
  from source_more.IH [OF _ this _ laws(2) one(2), of db' "Suc n"] source_more.prems(1,6) one rows(2)
  show ?case by simp
qed simp

text \<open>Changes behind the limit are passed over.\<close>

lemma apply_changes_late:
  "apply_changes tg limit cs st = apply_changes tg limit (filter (\<lambda>c. \<not> too_late limit c) cs) st"
proof (induction cs arbitrary: st)
  case (Cons c cs)
  show ?case
  proof (cases "too_late limit c")
    case True
    obtain cache n db where "st = (cache, n, db)" by (metis prod_cases3)
    with True Cons show ?thesis by (simp add: apply_change_def)
  next
    case False
    with Cons show ?thesis by (simp split: prod.split sum.split)
  qed
qed simp

text \<open>
  The replay of one slice: if the changes up to the limit are true of the rows of the target, all of
  them are executed and the target has the rows the source had after them.
\<close>

lemma slice_replay:
  assumes "bson_laws b" and "frame_fits b (header_doc now)" and "\<forall>c \<in> set cs. frame_fits b (change_to_doc c)"
    and cs: "cs' = filter (\<lambda>c. \<not> too_late limit c) cs"
    and "source_steps sc cs' D D'" and "ch_table ` set cs' \<subseteq> T" and "db_ok sc T D"
    and "\<forall>t. mset (view db t) = D t" and laws: "target_laws tg view sc cs'"
  shows "\<exists>db'. mysql_apply b tg limit (archive_of b now cs, ok) db = (Inr (length cs'), db') \<and>
    (\<forall>t. mset (view db' t) = D' t) \<and> db_ok sc T D'"
proof -
  have prepared: "view (fold (exec_ignore tg) SESSION_SETUP db) = view db"
    using laws by (intro view_setup) (simp add: target_laws_def)
  have "\<forall>t. mset (view (fold (exec_ignore tg) SESSION_SETUP db) t) = D t"
    using assms(8) unfolding prepared .
  from apply_changes_exact [OF assms(5-7) this laws, of Map.empty limit 0]
  show ?thesis
    unfolding mysql_apply_archive [OF assms(1-3)] apply_changes_late [of tg limit cs] cs
    by (simp add: cache_ok_def)
qed

section \<open>Changes that the replay loses or refuses\<close>

text \<open>
  A change whose image has another length than the table of the target, as after \<open>ALTER TABLE\<close>, has no
  statement: the replay counts nothing, reports nothing and goes on.
\<close>

theorem altered_table_skipped:
  assumes "length (ch_after c) \<noteq> length cols" and "ch_op c \<noteq> Delete"
    and "target_columns tg db (ch_table c) = Inr cols"
  shows "apply_change tg None c (Map.empty, n, db) = (Inr (), [ch_table c \<mapsto> cols], n, db)"
  using assms by (cases "ch_op c")
    (simp_all add: apply_change_def too_late_def Let_def build_dml_def build_insert_def build_update_def)

text \<open>
  The writer puts a change of any size into the archive; the reader refuses a frame above its limit.
\<close>

theorem oversized_change_unreadable:
  assumes "bson_laws b" and "unat MAX_FRAME_BYTES < length (bl_write b (change_to_doc c))"
    and "length (bl_write b (change_to_doc c)) < 2 ^ 31"
  shows "read_frame b (write_change b c @ rest, ok) =
    Inl (BadLength (word_of_nat (length (bl_write b (change_to_doc c)))))"
proof -
  let ?w = "bl_write b (change_to_doc c)"
  have le: "le_u32 (take 4 ?w) = word_of_nat (length ?w)" "5 \<le> length ?w"
    using assms(1,3) by (auto simp: bson_laws_def)
  have "unat (word_of_nat (length ?w) :: u32) = length ?w"
    using assms(3) by (simp add: unsigned_of_nat take_bit_nat_eq_self)
  then have "\<not> (word_of_nat (length ?w) :: u32) \<le> MAX_FRAME_BYTES"
    using assms(2) by (simp add: word_le_nat_alt)
  moreover have "take 4 (?w @ rest) = take 4 ?w" using le(2) by simp
  ultimately show ?thesis
    using le by (simp add: read_frame_def take_exact_def write_change_def write_doc_def tag_defs read_doc_def
        read_doc_upto_def Let_def bind_res_def del: take_append drop_append)
qed

section \<open>What the pipeline asks of the server\<close>

unbundle bit_operations_syntax

text \<open>\<open>server_id_for\<close>: a hash of the profile name, in a range of its own.\<close>

definition server_id_for :: "string \<Rightarrow> u32" where
  "server_id_for profile =
     (let h = fold (\<lambda>x h. (h * 16777619) XOR ucast x) (to_bytes profile) (2166136261 :: u32)
      in 100000 + h mod 1000000)"

lemma server_id_range: "100000 \<le> server_id_for p \<and> server_id_for p < 1100000"
proof -
  obtain h :: u32 where id: "server_id_for p = 100000 + h mod 1000000"
    by (simp add: server_id_for_def Let_def)
  have h: "unat (h mod 1000000) < 1000000"
    by (simp add: unat_mod)
  then have "unat (100000 + h mod 1000000) = 100000 + unat (h mod 1000000)"
    by (simp add: unat_word_ariths)
  with h show ?thesis
    by (simp add: id word_le_nat_alt word_less_nat_alt)
qed

definition no_coords :: MysqlBinlogCoords where
  "no_coords = \<lparr>binlog_file = [], binlog_position = 0, gtid_executed = []\<rparr>"

text \<open>\<open>current_coords\<close>: the first of the two statements that the server answers; a row gives its columns 0, 1 and 4.\<close>

fun current_coords_loop ::
  "(string \<Rightarrow> (string option \<times> u64 option \<times> string option) list option) \<Rightarrow> string list \<Rightarrow> MysqlBinlogCoords" where
  "current_coords_loop query [] = no_coords"
| "current_coords_loop query (s # ss) = (case query s of
     None \<Rightarrow> current_coords_loop query ss
   | Some [] \<Rightarrow> no_coords
   | Some ((f, p, g) # _) \<Rightarrow> \<lparr>binlog_file = unwrap_or f [], binlog_position = unwrap_or p 0,
       gtid_executed = unwrap_or g []\<rparr>)"

definition current_coords ::
  "(string \<Rightarrow> (string option \<times> u64 option \<times> string option) list option) \<Rightarrow> MysqlBinlogCoords" where
  "current_coords query = current_coords_loop query [''SHOW MASTER STATUS'', ''SHOW BINARY LOG STATUS'']"

text \<open>\<open>binlog_available\<close>: the names the server lists.\<close>

definition binlog_available :: "string option list option \<Rightarrow> MysqlBinlogCoords \<Rightarrow> slice_error + bool" where
  "binlog_available logs base =
     (if binlog_file base = [] then Inr False
      else case logs of
        None \<Rightarrow> Inl LogsUnread
      | Some listed \<Rightarrow> Inr (Some (binlog_file base) \<in> set listed))"

end
