(* ===== verification/XB_Mysql.thy ===== *)
theory XB_Mysql
  imports XB_Catalogue XB_Binlog
begin

text \<open>
  Backup and recovery of MySQL (\<open>pipeline/backup.rs\<close>, \<open>pipeline/mysql_pitr.rs\<close>): the full backup with
  its binlog position, the increments that continue where the last slice of the newest full backup
  ended, the promotion when the binlog is gone, and the recovery that restores a base and replays its
  slices up to a time. The lemmas show that any history of runs, failed ones included, leaves the
  slices of every base as a tiling of the binlog from the position of the base on, and that a recovery
  then ends with the rows the source had after the last transaction before the target.
\<close>

section \<open>Selecting the base and its slices\<close>

definition MYSQL_FORMAT_ID :: string where
  "MYSQL_FORMAT_ID = ''xb-mysql-v1''"

definition MYSQL_DIGEST_ALGORITHM :: string where
  "MYSQL_DIGEST_ALGORITHM = ''sha256-sum128-v1''"

datatype mysql_error =
    MyBackup backup_error
  | MySlice slice_error
  | NoMysqlFull
  | NoBinlogCoords
  | NotAMysqlFull string
  | BadTarget string
  | ManifestGone string
  | RestoreCancelled
  | OverwriteRefused nat
  | TargetNotPrepared
  | StackFailed string
  | DataGone string
  | RestoreFailed

definition is_mysql_full :: "BackupManifest \<Rightarrow> bool" where
  "is_mysql_full m \<longleftrightarrow> m_backup_type m = Full \<and> m_status m = Complete \<and> \<not> m_selective m \<and>
     archive_format (m_tool_versions m) = Some MYSQL_FORMAT_ID"

definition is_mysql_incr :: "string \<Rightarrow> BackupManifest \<Rightarrow> bool" where
  "is_mysql_incr base m \<longleftrightarrow> m_backup_type m = Incremental \<and> m_status m = Complete \<and>
     m_base_id m = Some base \<and> archive_format (m_tool_versions m) = Some INCR_FORMAT_ID"

text \<open>The ids are sorted, then reversed; a manifest that cannot be read is passed over.\<close>

fun first_full :: "codec \<Rightarrow> store \<Rightarrow> string list \<Rightarrow> mysql_error + string" where
  "first_full c s [] = Inl NoMysqlFull"
| "first_full c s (i # ids) = (case store_read c s i of
     Some m \<Rightarrow> (if is_mysql_full m then Inr (m_id m) else first_full c s ids)
   | None \<Rightarrow> first_full c s ids)"

definition latest_mysql_full :: "codec \<Rightarrow> store \<Rightarrow> mysql_error + string" where
  "latest_mysql_full c s = first_full c s (rev (sort (collect_manifest_ids s)))"

definition collect_mysql_increments :: "codec \<Rightarrow> store \<Rightarrow> string \<Rightarrow> string list" where
  "collect_mysql_increments c s base = List.map_filter
     (\<lambda>i. case store_read c s i of
        Some m \<Rightarrow> (if is_mysql_incr base m then Some (m_id m) else None) | None \<Rightarrow> None)
     (sort (collect_manifest_ids s))"

fun last_coords :: "codec \<Rightarrow> store \<Rightarrow> string list \<Rightarrow> MysqlBinlogCoords option" where
  "last_coords c s [] = None"
| "last_coords c s (i # ids) = (case store_read c s i of
     Some m \<Rightarrow> (case m_mysql_binlog m of Some co \<Rightarrow> Some co | None \<Rightarrow> last_coords c s ids)
   | None \<Rightarrow> last_coords c s ids)"

definition chain_start_coords :: "codec \<Rightarrow> store \<Rightarrow> string \<Rightarrow> mysql_error + MysqlBinlogCoords" where
  "chain_start_coords c s base = (case last_coords c s (rev (collect_mysql_increments c s base)) of
     Some co \<Rightarrow> Inr co
   | None \<Rightarrow> (case store_read c s base of
       None \<Rightarrow> Inl (ManifestGone base)
     | Some m \<Rightarrow> (case m_mysql_binlog m of None \<Rightarrow> Inl NoBinlogCoords | Some co \<Rightarrow> Inr co)))"

section \<open>Full backup\<close>

text \<open>What the dump returns besides its bytes, and what the server says.\<close>

record mysql_dump_out =
  md_binlog :: "MysqlBinlogCoords option"
  md_table_rows :: "(string \<times> u64) list"
  md_table_digests :: "(string \<times> string) list"

record mysql_full_env =
  mf_connects :: bool
  mf_version :: "string option"
  mf_dump :: "mysql_dump_out dump"

definition server_name :: "string option \<Rightarrow> string" where
  "server_name v = (case v of Some x \<Rightarrow> ''mysql '' @ x | None \<Rightarrow> ''mysql'')"

definition mysql_full_manifest ::
  "string \<Rightarrow> mysql_full_env \<Rightarrow> string option \<Rightarrow> bool \<Rightarrow> bool \<Rightarrow> BackupMeta \<Rightarrow> mysql_dump_out StoredDump \<Rightarrow> BackupManifest"
  where
  "mysql_full_manifest now env table_filter digest promoted meta sd =
     full_manifest (sd_backup_id sd) now Standalone (server_name (mf_version env)) MYSQL_FORMAT_ID
       (table_filter \<noteq> None) sd None meta promoted (md_binlog (sd_output sd))
       (Some (md_table_rows (sd_output sd)))
       (if digest then Some \<lparr>d_algorithm = MYSQL_DIGEST_ALGORITHM, d_tables = md_table_digests (sd_output sd)\<rparr>
        else None)"

definition run_mysql_full_backup_with_rows ::
  "codec \<Rightarrow> mysql_full_env \<Rightarrow> string option \<Rightarrow> (bytes \<Rightarrow> bytes option) \<Rightarrow> BackupMeta \<Rightarrow> bool \<Rightarrow> bool \<Rightarrow> string \<Rightarrow>
   world \<Rightarrow> (backup_error + BackupOutcome) \<times> world" where
  "run_mysql_full_backup_with_rows c env table_filter stages meta digest promoted now w =
     (if \<not> mf_connects env then (Inl ServerFailed, w)
      else case store_dump_stream c stages (mf_dump env) w of
        (Inl e, w1) \<Rightarrow> (Inl e, w1)
      | (Inr sd, w1) \<Rightarrow> publish c (mysql_full_manifest now env table_filter digest promoted meta sd) w1)"

definition run_mysql_full_backup ::
  "codec \<Rightarrow> mysql_full_env \<Rightarrow> string option \<Rightarrow> (bytes \<Rightarrow> bytes option) \<Rightarrow> BackupMeta \<Rightarrow> bool \<Rightarrow> string \<Rightarrow>
   world \<Rightarrow> (backup_error + BackupOutcome) \<times> world" where
  "run_mysql_full_backup c env table_filter stages meta promoted now w =
     run_mysql_full_backup_with_rows c env table_filter stages meta True promoted now w"

section \<open>Incremental backup\<close>

record MysqlIncrementalOutcome =
  mi_backup_id :: string
  mi_base_id :: string
  mi_change_count :: nat
  mi_stored_size :: u64
  mi_promoted :: bool

text \<open>
  The server as the run meets it: the admin connection, the list of its binlogs, the stream of the
  capture, and the server that a promotion dumps.
\<close>

record ('v, 'c) mysql_env =
  my_connects :: bool
  my_version :: "string option"
  my_logs :: "string option list option"
  my_binlog :: "('v, 'c) binlog_server"
  my_render :: "'v \<Rightarrow> 'c option \<Rightarrow> string"
  my_full :: mysql_full_env

definition mysql_incremental_manifest ::
  "string \<Rightarrow> string \<Rightarrow> string \<Rightarrow> string \<Rightarrow> u64 \<Rightarrow> string \<Rightarrow> nat \<Rightarrow> BackupMeta \<Rightarrow> MysqlBinlogCoords option \<Rightarrow> BackupManifest"
  where
  "mysql_incremental_manifest now i base version stored checksum changes meta coords = \<lparr>
     m_format_version = FORMAT_VERSION, m_id = i, m_created_at = now, m_backup_type = Incremental,
     m_base_id = Some base, m_topology = Standalone, m_server_version = version,
     m_tool_versions = \<lparr>mongodump = None, archive_format = Some INCR_FORMAT_ID\<rparr>, m_selective = False,
     m_original_size_bytes = stored, m_stored_size_bytes = stored,
     m_compression = bm_compression meta, m_encryption = bm_encryption meta,
     m_checksum_sha256 = checksum, m_oplog_range = None, m_oplog_count = Some (word_of_nat changes),
     m_promoted_from_gap = False, m_mysql_binlog = coords, m_table_rows = None, m_table_digests = None,
     m_status = Complete\<rparr>"

text \<open>No changes: a manifest without data, and no clean-up should its write fail.\<close>

definition mysql_empty_slice ::
  "codec \<Rightarrow> string \<Rightarrow> string \<Rightarrow> string \<Rightarrow> CaptureOutcome \<Rightarrow> world \<Rightarrow> (mysql_error + MysqlIncrementalOutcome) \<times> world"
  where
  "mysql_empty_slice c now base version captured w =
     (let (i, w1) = new_id w;
          m = mysql_incremental_manifest now i base version 0 (sha256_hex c []) 0 no_meta (Some (co_end captured))
      in case manifest_write c m w1 of
           (Inl e, w2) \<Rightarrow> (Inl (MyBackup e), w2)
         | (Inr _, w2) \<Rightarrow> (Inr \<lparr>mi_backup_id = i, mi_base_id = base, mi_change_count = 0, mi_stored_size = 0,
             mi_promoted = False\<rparr>, w2))"

definition mysql_store_slice ::
  "codec \<Rightarrow> string \<Rightarrow> string \<Rightarrow> string \<Rightarrow> (bytes \<Rightarrow> bytes option) \<Rightarrow> BackupMeta \<Rightarrow> CaptureOutcome \<Rightarrow> world \<Rightarrow>
   (mysql_error + MysqlIncrementalOutcome) \<times> world" where
  "mysql_store_slice c now base version stages meta captured w =
     (let (i, w1) = new_id w
      in case stages (co_archive captured) of
           None \<Rightarrow> (Inl (MyBackup (UploadFailed (data_path i))), cleanup i (ignore_fault w1))
         | Some bs \<Rightarrow>
             (case io_put (data_path i) bs w1 of
                (False, w2) \<Rightarrow> (Inl (MyBackup (UploadFailed (data_path i))), cleanup i w2)
              | (True, w2) \<Rightarrow>
                  (let m = mysql_incremental_manifest now i base version (word_of_nat (length bs))
                         (sha256_hex c bs) (co_count captured) meta (Some (co_end captured))
                   in case write_manifest_or_cleanup c m w2 of
                        (Inl e, w3) \<Rightarrow> (Inl (MyBackup e), w3)
                      | (Inr _, w3) \<Rightarrow> (Inr \<lparr>mi_backup_id = i, mi_base_id = base,
                          mi_change_count = co_count captured, mi_stored_size = word_of_nat (length bs),
                          mi_promoted = False\<rparr>, w3))))"

definition mysql_promote ::
  "codec \<Rightarrow> ('v, 'c) mysql_env \<Rightarrow> string \<Rightarrow> string \<Rightarrow> (bytes \<Rightarrow> bytes option) \<Rightarrow> BackupMeta \<Rightarrow> world \<Rightarrow>
   (mysql_error + MysqlIncrementalOutcome) \<times> world" where
  "mysql_promote c env now base stages meta w =
     (case run_mysql_full_backup c (my_full env) None stages meta True now w of
        (Inl e, w1) \<Rightarrow> (Inl (MyBackup e), w1)
      | (Inr out, w1) \<Rightarrow> (Inr \<lparr>mi_backup_id = bo_backup_id out, mi_base_id = base, mi_change_count = 0,
          mi_stored_size = bo_stored_size out, mi_promoted = True\<rparr>, w1))"

definition run_mysql_incremental_backup ::
  "codec \<Rightarrow> bson_lib \<Rightarrow> ('v, 'c) mysql_env \<Rightarrow> string \<Rightarrow> (bytes \<Rightarrow> bytes option) \<Rightarrow> BackupMeta \<Rightarrow> string \<Rightarrow> world \<Rightarrow>
   (mysql_error + MysqlIncrementalOutcome) \<times> world" where
  "run_mysql_incremental_backup c b env profile stages meta now w =
     (case latest_mysql_full c (w_store w) of
        Inl e \<Rightarrow> (Inl e, w)
      | Inr base \<Rightarrow> (case chain_start_coords c (w_store w) base of
          Inl e \<Rightarrow> (Inl e, w)
        | Inr start \<Rightarrow>
            (if \<not> my_connects env then (Inl (MySlice ConnectFailed), w)
             else case binlog_available (my_logs env) start of
               Inl e \<Rightarrow> (Inl (MySlice e), w)
             | Inr False \<Rightarrow> mysql_promote c env now base stages meta w
             | Inr True \<Rightarrow>
                 (case mysql_capture b (my_render env) (my_binlog env) now start (server_id_for profile) of
                    Inl e \<Rightarrow> (Inl (MySlice e), w)
                  | Inr captured \<Rightarrow>
                      (if co_count captured = 0
                       then mysql_empty_slice c now base (server_name (my_version env)) captured w
                       else mysql_store_slice c now base (server_name (my_version env)) stages meta captured w)))))"

section \<open>Recovery to a point in time\<close>












section \<open>Slices that tile the binlog\<close>

text \<open>
  The source: its binlog from the file \<open>so_file\<close> on, how values are rendered, and the database of the
  profile.
\<close>

record ('v, 'c) source =
  so_file :: string
  so_render :: "'v \<Rightarrow> 'c option \<Rightarrow> string"
  so_db :: string

abbreviation src_changes :: "('v, 'c) source \<Rightarrow> ('v, 'c) binlog_event list \<Rightarrow> Change list" where
  "src_changes so seg \<equiv> seg_changes (so_render so) (so_db so) 0 seg"

text \<open>The slice \<open>i\<close> holds the changes of \<open>seg\<close>, which begins behind \<open>pre\<close>.\<close>

definition slice_holds ::
  "codec \<Rightarrow> bson_lib \<Rightarrow> unstage \<Rightarrow> ('v, 'c) source \<Rightarrow> store \<Rightarrow> ('v, 'c) binlog_event list \<Rightarrow> string \<Rightarrow>
   ('v, 'c) binlog_event list \<Rightarrow> bool" where
  "slice_holds c b unst so s pre i seg \<longleftrightarrow> whole_tx seg \<and> (\<exists>m co. store_read c s i = Some m \<and>
     m_mysql_binlog m = Some co \<and> coords_at (so_file so) (pre @ seg) co \<and>
     m_oplog_count m = Some (word_of_nat (length (src_changes so seg))) \<and>
     (src_changes so seg \<noteq> [] \<longrightarrow> (\<exists>now f data. frame_fits b (header_doc now) \<and> unst m = Some f \<and>
        sto_get s (data_path i) = Some data \<and> f data = (archive_of b now (src_changes so seg), True))))"

fun tiled ::
  "codec \<Rightarrow> bson_lib \<Rightarrow> unstage \<Rightarrow> ('v, 'c) source \<Rightarrow> store \<Rightarrow> ('v, 'c) binlog_event list \<Rightarrow> string list \<Rightarrow>
   ('v, 'c) binlog_event list list \<Rightarrow> bool" where
  "tiled c b unst so s pre [] [] \<longleftrightarrow> True"
| "tiled c b unst so s pre (i # ids) (seg # segs) \<longleftrightarrow>
     slice_holds c b unst so s pre i seg \<and> tiled c b unst so s (pre @ seg) ids segs"
| "tiled c b unst so s pre _ _ \<longleftrightarrow> False"

text \<open>A base and its slices: they tile the log from the position of the base on.\<close>

definition base_tiled ::
  "codec \<Rightarrow> bson_lib \<Rightarrow> unstage \<Rightarrow> ('v, 'c) source \<Rightarrow> store \<Rightarrow> ('v, 'c) binlog_event list \<Rightarrow> BackupManifest \<Rightarrow> bool"
  where
  "base_tiled c b unst so s log m \<longleftrightarrow> (case m_mysql_binlog m of
     None \<Rightarrow> collect_mysql_increments c s (m_id m) = []
   | Some co \<Rightarrow> (\<exists>pre segs post. log = pre @ concat segs @ post \<and> coords_at (so_file so) pre co \<and>
       tiled c b unst so s pre (collect_mysql_increments c s (m_id m)) segs))"

definition slices_tile ::
  "codec \<Rightarrow> bson_lib \<Rightarrow> unstage \<Rightarrow> ('v, 'c) source \<Rightarrow> store \<Rightarrow> ('v, 'c) binlog_event list \<Rightarrow> bool" where
  "slices_tile c b unst so s log \<longleftrightarrow>
     (\<forall>i m. store_read c s i = Some m \<longrightarrow> is_mysql_full m \<longrightarrow> base_tiled c b unst so s log m)"

lemma tiled_append:
  "length ids = length segs \<Longrightarrow> tiled c b unst so s pre (ids @ ids') (segs @ segs') \<longleftrightarrow>
     tiled c b unst so s pre ids segs \<and> tiled c b unst so s (pre @ concat segs) ids' segs'"
  by (induction ids segs arbitrary: pre rule: list_induct2) auto

lemma tiled_length: "tiled c b unst so s pre ids segs \<Longrightarrow> length ids = length segs"
  by (induction c b unst so s pre ids segs rule: tiled.induct) auto

text \<open>The position the next increment starts at is the end of the tiling.\<close>

lemma tiled_last_coords:
  assumes "tiled c b unst so s pre ids segs"
  shows "case last_coords c s (rev ids) of
      Some co \<Rightarrow> coords_at (so_file so) (pre @ concat segs) co
    | None \<Rightarrow> ids = []"
proof (cases ids rule: rev_cases)
  case (snoc js i)
  then obtain segs' seg where segs: "segs = segs' @ [seg]"
    using tiled_length [OF assms] by (metis length_0_conv rev_exhaust snoc_eq_iff_butlast)
  then have "length js = length segs'"
    using tiled_length [OF assms] snoc by simp
  then have "slice_holds c b unst so s (pre @ concat segs') i seg"
    using assms snoc segs by (simp add: tiled_append)
  then show ?thesis
    using snoc segs by (auto simp: slice_holds_def)
qed simp

section \<open>The slices of a base after one more manifest\<close>

lemma increments_set:
  assumes "store_ok c s"
  shows "sorted (collect_mysql_increments c s base) \<and> distinct (collect_mysql_increments c s base) \<and>
    set (collect_mysql_increments c s base) = {j. \<exists>m. store_read c s j = Some m \<and> is_mysql_incr base m}"
proof -
  let ?P = "\<lambda>j. \<exists>m. store_read c s j = Some m \<and> is_mysql_incr base m"
  have ids: "sorted (collect_manifest_ids s)" "distinct (collect_manifest_ids s)"
    by (simp_all add: collect_manifest_ids_def)
  have "(case store_read c s j of Some m \<Rightarrow> if is_mysql_incr base m then Some (m_id m) else None | None \<Rightarrow> None) =
      (if ?P j then Some j else None)" for j
    using assms by (auto simp: store_ok_def split: option.split)
  then have "collect_mysql_increments c s base = filter ?P (collect_manifest_ids s)"
    unfolding collect_mysql_increments_def sorted_sort_id [OF ids(1)]
    by (simp add: List.map_filter_def comp_def, intro map_idI) simp
  moreover have "j \<in> set (collect_manifest_ids s)" if "store_read c s j \<noteq> None" for j
    using assms that by (auto simp: set_collect_manifest_ids store_ok_def valid_id_def store_read_def
        split: option.splits)
  ultimately show ?thesis
    using ids by (auto simp: sorted_filter [of id, simplified] sorted_wrt_filter)
qed

lemma increments_mem:
  "store_ok c s \<Longrightarrow> j \<in> set (collect_mysql_increments c s base) \<longleftrightarrow>
     (\<exists>m. store_read c s j = Some m \<and> is_mysql_incr base m)"
  using increments_set by blast

lemma increments_cong:
  assumes "store_ok c s" and "store_ok c s'"
    and "\<forall>j m. is_mysql_incr base m \<longrightarrow> store_read c s' j = Some m \<longleftrightarrow> store_read c s j = Some m"
  shows "collect_mysql_increments c s' base = collect_mysql_increments c s base"
  using increments_set [OF assms(1), of base] increments_set [OF assms(2), of base] assms(3)
  by (intro sorted_distinct_set_unique) auto

lemma increments_add:
  assumes "store_ok c s" and "store_ok c s'" and "store_read c s' i = Some m" and "is_mysql_incr base m"
    and "store_read c s i = None" and "\<forall>j. j \<noteq> i \<longrightarrow> store_read c s' j = store_read c s j"
    and "\<forall>j. store_read c s j \<noteq> None \<longrightarrow> j < i"
  shows "collect_mysql_increments c s' base = collect_mysql_increments c s base @ [i]"
proof (rule sorted_distinct_set_unique)
  have less: "\<forall>j \<in> set (collect_mysql_increments c s base). j < i"
    using assms(7) by (auto simp: increments_mem [OF assms(1)])
  then show "sorted (collect_mysql_increments c s base @ [i])"
    "distinct (collect_mysql_increments c s base @ [i])"
    using increments_set [OF assms(1), of base] by (auto simp: sorted_append less_imp_le)
  show "set (collect_mysql_increments c s' base) = set (collect_mysql_increments c s base @ [i])"
  proof (rule set_eqI)
    fix j
    show "j \<in> set (collect_mysql_increments c s' base) \<longleftrightarrow> j \<in> set (collect_mysql_increments c s base @ [i])"
      using assms(3-6) by (cases "j = i") (simp_all add: increments_mem [OF assms(1)] increments_mem [OF assms(2)])
  qed
qed (use increments_set [OF assms(2), of base] in auto)

lemma slice_holds_cong:
  "store_read c s' i = store_read c s i \<Longrightarrow> sto_get s' (data_path i) = sto_get s (data_path i) \<Longrightarrow>
     slice_holds c b unst so s' pre i seg = slice_holds c b unst so s pre i seg"
  by (simp add: slice_holds_def)

lemma tiled_cong:
  "\<forall>i \<in> set ids. store_read c s' i = store_read c s i \<and> sto_get s' (data_path i) = sto_get s (data_path i) \<Longrightarrow>
     tiled c b unst so s' pre ids segs = tiled c b unst so s pre ids segs"
proof (induction ids arbitrary: pre segs)
  case Nil
  show ?case by (cases segs) simp_all
next
  case (Cons i ids)
  show ?case
  proof (cases segs)
    case (Cons seg segs')
    have "slice_holds c b unst so s' pre i seg = slice_holds c b unst so s pre i seg"
      using Cons.prems by (intro slice_holds_cong) simp_all
    with Cons Cons.IH [of "pre @ seg" segs'] Cons.prems show ?thesis by simp
  qed simp
qed

section \<open>The invariant of the runs\<close>

text \<open>No manifest names an id that is still to be drawn as its base.\<close>

definition bases_drawn :: "codec \<Rightarrow> world \<Rightarrow> bool" where
  "bases_drawn c w \<longleftrightarrow> (\<forall>i m k. store_read c (w_store w) i = Some m \<longrightarrow> w_drawn w \<le> k \<longrightarrow>
     m_base_id m \<noteq> Some (w_uuid w k))"

definition mysql_inv ::
  "codec \<Rightarrow> bson_lib \<Rightarrow> unstage \<Rightarrow> ('v, 'c) source \<Rightarrow> world \<Rightarrow> ('v, 'c) binlog_event list \<Rightarrow> bool" where
  "mysql_inv c b unst so w log \<longleftrightarrow> store_ok c (w_store w) \<and> ids_ahead c w \<and> bases_drawn c w \<and>
     slices_tile c b unst so (w_store w) log"

text \<open>What the new manifest of a step must be.\<close>

definition sound_addition ::
  "codec \<Rightarrow> bson_lib \<Rightarrow> unstage \<Rightarrow> ('v, 'c) source \<Rightarrow> world \<Rightarrow> store \<Rightarrow> ('v, 'c) binlog_event list \<Rightarrow> BackupManifest \<Rightarrow> bool"
  where
  "sound_addition c b unst so w s' log m \<longleftrightarrow>
     (\<forall>co. is_mysql_full m \<longrightarrow> m_mysql_binlog m = Some co \<longrightarrow>
        (\<exists>pre post. log = pre @ post \<and> coords_at (so_file so) pre co)) \<and>
     (is_mysql_full m \<longrightarrow> m_base_id m = None) \<and>
     (\<forall>base. m_base_id m = Some base \<longrightarrow> (\<exists>bm co. store_read c (w_store w) base = Some bm \<and>
        m_mysql_binlog bm = Some co \<and>
        (\<forall>pre segs post. log = pre @ concat segs @ post \<longrightarrow> coords_at (so_file so) pre co \<longrightarrow>
           tiled c b unst so (w_store w) pre (collect_mysql_increments c (w_store w) base) segs \<longrightarrow>
           (\<exists>seg rest. post = seg @ rest \<and> slice_holds c b unst so s' (pre @ concat segs) (m_id m) seg))))"

lemma ids_ahead_read:
  "ids_ahead c w \<Longrightarrow> store_ok c (w_store w) \<Longrightarrow> store_read c (w_store w) j \<noteq> None \<Longrightarrow> w_drawn w \<le> k \<Longrightarrow>
     j < w_uuid w k"
  unfolding ids_ahead_def using set_catalogue [of c "w_store w"]
  by (metis (no_types, lifting) from_manifest_simps(1) not_None_eq store_ok_def)

lemma store_ok_new:
  assumes "store_ok c s" and "valid_id i" and "\<forall>j. j \<noteq> i \<longrightarrow> sto_get s' (manifest_path j) = sto_get s (manifest_path j)"
    and "\<forall>m. store_read c s' i = Some m \<longrightarrow> m_id m = i"
  shows "store_ok c s'"
  unfolding store_ok_def
proof (intro conjI allI impI)
  fix j
  show "sto_get s' (manifest_path j) \<noteq> None \<Longrightarrow> valid_id j"
    using assms(1-3) unfolding store_ok_def by metis
  show "m_id m = j" if "store_read c s' j = Some m" for m
    using assms that unfolding store_ok_def by (metis store_read_cong)
qed

lemma mysql_inv_step:
  assumes inv: "mysql_inv c b unst so w log" and or: "same_oracle w w'"
    and i: "i = w_uuid w (w_drawn w)" "w_drawn w' = Suc (w_drawn w)" and only: "only_touches i w w'"
    and new: "store_read c (w_store w') i = None \<or>
      (\<exists>m. store_read c (w_store w') i = Some m \<and> m_id m = i \<and> sound_addition c b unst so w (w_store w') log m)"
  shows "mysql_inv c b unst so w' log"
proof -
  have ok: "store_ok c (w_store w)" and ahead: "ids_ahead c w" and drawn: "bases_drawn c w"
    and tile: "slices_tile c b unst so (w_store w) log"
    using inv by (auto simp: mysql_inv_def)
  have vi: "valid_id i" "look w (manifest_path i) = None" "fresh i w"
    using ahead i(1) by (auto simp: ids_ahead_def fresh_def)
  have old: "store_read c (w_store w) i = None"
    using vi(2) by (simp add: store_read_def)
  have same: "look w' (manifest_path j) = look w (manifest_path j)" "look w' (data_path j) = look w (data_path j)"
    "store_read c (w_store w') j = store_read c (w_store w) j" if "j \<noteq> i" for j
  proof -
    show "look w' (manifest_path j) = look w (manifest_path j)" "look w' (data_path j) = look w (data_path j)"
      using only that unfolding only_touches_def by (auto simp: backup_paths_def)
    then show "store_read c (w_store w') j = store_read c (w_store w) j"
      by (simp add: store_read_def)
  qed
  have ok': "store_ok c (w_store w')"
    using new same(1) by (intro store_ok_new [OF ok vi(1)]) auto
  have t: "touches_drawn w w'"
    using only i by (intro touches_drawn_only [where k = "w_drawn w"]) auto
  have "n \<in> set (catalogue c (w_store w)) \<or> (\<exists>k. w_drawn w \<le> k \<and> k < w_drawn w' \<and> cn_id n = w_uuid w k)"
    if "n \<in> set (catalogue c (w_store w'))" for n
  proof -
    from set_catalogue [OF ok', THEN iffD1, OF that]
    obtain j m where n: "store_read c (w_store w') j = Some m" "n = from_manifest m"
      by blast
    show ?thesis
    proof (cases "j = i")
      case True
      then have "cn_id n = i" using n ok' by (simp add: store_ok_def)
      with i show ?thesis by auto
    next
      case False
      with n same(3) have "store_read c (w_store w) j = Some m" by simp
      then have "n \<in> set (catalogue c (w_store w))"
        using n(2) by (intro set_catalogue [OF ok, THEN iffD2] exI conjI)
      then show ?thesis ..
    qed
  qed
  then have ahead': "ids_ahead c w'"
    by (intro ids_ahead_step [OF ahead or t]) blast
  have u: "w_uuid w' = w_uuid w" using or by (simp add: same_oracle_def)
  have less: "\<forall>j. store_read c (w_store w) j \<noteq> None \<longrightarrow> j < i"
    using ids_ahead_read [OF ahead ok] i(1) by blast
  have no_i: "m_base_id m \<noteq> Some (w_uuid w k)" if "store_read c (w_store w) j = Some m" "w_drawn w \<le> k" for j m k
    using drawn that by (auto simp: bases_drawn_def)
  have drawn': "bases_drawn c w'"
    unfolding bases_drawn_def u
  proof (intro allI impI)
    fix j m k
    assume m: "store_read c (w_store w') j = Some m" and k: "w_drawn w' \<le> k"
    show "m_base_id m \<noteq> Some (w_uuid w k)"
    proof (cases "j = i")
      case True
      with new m have s: "sound_addition c b unst so w (w_store w') log m" by auto
      show ?thesis
      proof
        assume "m_base_id m = Some (w_uuid w k)"
        with s have "store_read c (w_store w) (w_uuid w k) \<noteq> None"
          unfolding sound_addition_def by blast
        moreover have "w_drawn w \<le> k" using i(2) k by simp
        ultimately have "w_uuid w k < w_uuid w k"
          by (rule ids_ahead_read [OF ahead ok])
        then show False by simp
      qed
    next
      case False
      with m same(3) no_i i(2) k show ?thesis by auto
    qed
  qed
  have "base_tiled c b unst so (w_store w') log bm"
    if bm: "store_read c (w_store w') j = Some bm" "is_mysql_full bm" for j bm
  proof -
    have idj: "m_id bm = j" using bm(1) ok' by (simp add: store_ok_def)
    show ?thesis
    proof (cases "j = i")
      case True
      with new bm have s: "sound_addition c b unst so w (w_store w') log bm" by auto
      have "\<not> is_mysql_incr i m" if "store_read c (w_store w') k = Some m" for k m
      proof (cases "k = i")
        case True
        then have "m = bm" using that bm(1) \<open>j = i\<close> by simp
        with s bm(2) show ?thesis by (auto simp: sound_addition_def is_mysql_incr_def)
      next
        case False
        then show ?thesis
          using that same(3) no_i [of k m "w_drawn w"] i(1) by (auto simp: is_mysql_incr_def)
      qed
      then have "{k. \<exists>m. store_read c (w_store w') k = Some m \<and> is_mysql_incr i m} = {}"
        by blast
      then have "set (collect_mysql_increments c (w_store w') i) = {}"
        using increments_set [OF ok', of i] by simp
      then have none: "collect_mysql_increments c (w_store w') (m_id bm) = []"
        using idj \<open>j = i\<close> by simp
      show ?thesis
      proof (cases "m_mysql_binlog bm")
        case None
        with none show ?thesis by (simp add: base_tiled_def)
      next
        case (Some co)
        with s bm(2) obtain pre post where "log = pre @ concat [] @ post" "coords_at (so_file so) pre co"
          unfolding sound_addition_def by auto
        moreover have "tiled c b unst so (w_store w') pre [] []" by simp
        ultimately show ?thesis
          unfolding base_tiled_def none Some option.case by blast
      qed
    next
      case False
      then have bm0: "store_read c (w_store w) j = Some bm" using bm(1) same(3) by simp
      with tile bm(2) have bt: "base_tiled c b unst so (w_store w) log bm"
        by (auto simp: slices_tile_def)
      let ?inc = "collect_mysql_increments c (w_store w) j"
      have notin: "i \<notin> set ?inc"
        using old by (simp add: increments_mem [OF ok])
      have cong: "tiled c b unst so (w_store w') pre ?inc segs = tiled c b unst so (w_store w) pre ?inc segs" for pre segs
      proof (rule tiled_cong, rule ballI)
        fix k
        assume "k \<in> set ?inc"
        with notin have "k \<noteq> i" by blast
        with same(2,3) show "store_read c (w_store w') k = store_read c (w_store w) k \<and>
            look w' (data_path k) = look w (data_path k)" by blast
      qed
      show ?thesis
      proof (cases "\<exists>m. store_read c (w_store w') i = Some m \<and> is_mysql_incr j m")
        case True
        then obtain m where m: "store_read c (w_store w') i = Some m" "is_mysql_incr j m" by blast
        with new have s: "sound_addition c b unst so w (w_store w') log m" and idm: "m_id m = i" by auto
        have inc: "collect_mysql_increments c (w_store w') j = ?inc @ [i]"
          using increments_add [OF ok ok' m old _ less] same(3) by blast
        obtain co where co: "m_mysql_binlog bm = Some co" and ext: "\<And>pre segs post.
            log = pre @ concat segs @ post \<Longrightarrow> coords_at (so_file so) pre co \<Longrightarrow>
            tiled c b unst so (w_store w) pre ?inc segs \<Longrightarrow>
            \<exists>seg rest. post = seg @ rest \<and> slice_holds c b unst so (w_store w') (pre @ concat segs) i seg"
          using s m(2) bm0 idm unfolding sound_addition_def is_mysql_incr_def by (metis option.inject)
        from bt co idj obtain pre segs post where
          p: "log = pre @ concat segs @ post" "coords_at (so_file so) pre co"
            "tiled c b unst so (w_store w) pre ?inc segs"
          by (auto simp: base_tiled_def)
        from ext [OF p] obtain seg rest where
          e: "post = seg @ rest" "slice_holds c b unst so (w_store w') (pre @ concat segs) i seg"
          by blast
        have "tiled c b unst so (w_store w') pre (?inc @ [i]) (segs @ [seg])"
          using p(3) e(2) tiled_length [OF p(3)] by (simp add: tiled_append cong)
        moreover have "log = pre @ concat (segs @ [seg]) @ rest" using p(1) e(1) by simp
        ultimately show ?thesis
          using p(2) unfolding base_tiled_def co idj inc option.case by blast
      next
        case False
        have "collect_mysql_increments c (w_store w') j = ?inc"
        proof (rule increments_cong [OF ok ok'], intro allI impI)
          fix k m
          assume "is_mysql_incr j m"
          with False old same(3) show "store_read c (w_store w') k = Some m \<longleftrightarrow> store_read c (w_store w) k = Some m"
            by (cases "k = i") auto
        qed
        with bt idj show ?thesis by (simp add: base_tiled_def cong split: option.splits)
      qed
    qed
  qed
  with ok' ahead' drawn' show ?thesis
    by (auto simp: mysql_inv_def slices_tile_def)
qed

section \<open>Every run keeps the invariant\<close>

lemma mysql_inv_same_look:
  assumes inv: "mysql_inv c b unst so w log" and or: "same_oracle w w'" and look: "look w' = look w"
  shows "mysql_inv c b unst so w' log"
proof -
  have ok: "store_ok c (w_store w)" and ahead: "ids_ahead c w" and drawn: "bases_drawn c w"
    and tile: "slices_tile c b unst so (w_store w) log"
    using inv by (auto simp: mysql_inv_def)
  have read: "store_read c (w_store w') j = store_read c (w_store w) j" for j
    using look by (simp add: store_read_def)
  have ok': "store_ok c (w_store w')"
    using ok look by (simp add: store_ok_def read)
  have "catalogue c (w_store w') = catalogue c (w_store w)"
    using look by (intro catalogue_cong) simp
  then have "ids_ahead c w'"
    using look by (intro ids_ahead_step [OF ahead or]) (auto simp: touches_drawn_def)
  moreover have "bases_drawn c w'"
    using drawn or by (auto simp: bases_drawn_def read same_oracle_def)
  moreover have inc: "collect_mysql_increments c (w_store w') j = collect_mysql_increments c (w_store w) j" for j
    by (intro increments_cong [OF ok ok']) (simp add: read)
  have tl: "tiled c b unst so (w_store w') pre ids segs = tiled c b unst so (w_store w) pre ids segs" for pre ids segs
    using look by (intro tiled_cong) (simp add: read)
  have "slices_tile c b unst so (w_store w') log"
    using tile unfolding slices_tile_def base_tiled_def read inc tl .
  ultimately show ?thesis
    using ok' by (simp add: mysql_inv_def)
qed

lemma mysql_inv_fresh: "mysql_inv c b unst so w log \<Longrightarrow> fresh (w_uuid w (w_drawn w)) w"
  by (simp add: mysql_inv_def ids_ahead_def)

lemma mysql_inv_failed:
  assumes "mysql_inv c b unst so w log" and "failed_clean (w_uuid w (w_drawn w)) w w'" and "reliable_deletes w"
  shows "mysql_inv c b unst so w' log \<and> reliable_deletes w'"
  using assms mysql_inv_fresh [OF assms(1)] mysql_inv_same_look [OF assms(1)] same_oracle_reliable
  unfolding failed_clean_def by metis

text \<open>The log only grows: what was tiled stays tiled.\<close>

lemma mysql_inv_grows: "mysql_inv c b unst so w log \<Longrightarrow> mysql_inv c b unst so w (log @ more_evs)"
  unfolding mysql_inv_def slices_tile_def base_tiled_def
  by (fastforce split: option.split)

text \<open>The position a dump reports is a position of the log.\<close>

definition dump_positioned ::
  "('v, 'c) source \<Rightarrow> ('v, 'c) binlog_event list \<Rightarrow> mysql_full_env \<Rightarrow> bool" where
  "dump_positioned so log env \<longleftrightarrow> (\<forall>out co. d_result (mf_dump env) = Some out \<longrightarrow> md_binlog out = Some co \<longrightarrow>
     (\<exists>pre post. log = pre @ post \<and> coords_at (so_file so) pre co))"

lemma mysql_full_keeps:
  assumes inv: "mysql_inv c b unst so w log" and rel: "reliable_deletes w" and codec: "codec_laws c"
    and pos: "dump_positioned so log env"
    and run: "run_mysql_full_backup_with_rows c env tf stages meta digest promoted now w = (r, w')"
  shows "mysql_inv c b unst so w' log \<and> reliable_deletes w'"
proof (cases "mf_connects env")
  case False
  with run inv rel show ?thesis by (simp add: run_mysql_full_backup_with_rows_def)
next
  case True
  obtain r1 w1 where core: "store_dump_stream c stages (mf_dump env) w = (r1, w1)" by fastforce
  show ?thesis
  proof (cases r1)
    case (Inl e)
    with run True core have "w' = w1" by (simp add: run_mysql_full_backup_with_rows_def)
    with store_dump_stream_Inl [OF core [unfolded Inl]] show ?thesis
      using mysql_inv_failed [OF inv _ rel] by simp
  next
    case (Inr sd)
    define m where "m = mysql_full_manifest now env tf digest promoted meta sd"
    have m: "m_id m = sd_backup_id sd" "m_checksum_sha256 m = sd_checksum sd" "m_base_id m = None"
      "m_mysql_binlog m = md_binlog (sd_output sd)"
      by (simp_all add: m_def mysql_full_manifest_def full_manifest_def)
    have pub: "publish c m w1 = (r, w')"
      using run True core Inr by (simp add: run_mysql_full_backup_with_rows_def m_def)
    show ?thesis
    proof (cases r)
      case (Inl e)
      with full_run_Inl [OF core [unfolded Inr] pub [unfolded Inl] m(1)] show ?thesis
        using mysql_inv_failed [OF inv _ rel] by simp
    next
      case (Inr out)
      note f = full_run_Inr [OF core [unfolded \<open>r1 = Inr sd\<close>] pub [unfolded Inr] m(1,2)]
      have d: "d_result (mf_dump env) = Some (sd_output sd)"
        using store_dump_stream_Inr [OF core [unfolded \<open>r1 = Inr sd\<close>]] by metis
      obtain bs where p: "published c w' m (Some bs)" using f by blast
      have "sound_addition c b unst so w (w_store w') log m"
        using pos d m(3,4) by (simp add: sound_addition_def dump_positioned_def)
      then have "mysql_inv c b unst so w' log"
        using f published_read [OF p codec] by (intro mysql_inv_step [OF inv, of w' "m_id m"]) auto
      with f rel show ?thesis using same_oracle_reliable by blast
    qed
  qed
qed

text \<open>
  The server of an incremental run serves the log of the source, from every file that it lists.
\<close>

definition kept_logs :: "('v, 'c) mysql_env \<Rightarrow> string set" where
  "kept_logs env = {f. \<exists>listed. my_logs env = Some listed \<and> Some f \<in> set listed}"

definition env_serves ::
  "('v, 'c) source \<Rightarrow> ('v, 'c) binlog_event list \<Rightarrow> ('v, 'c) mysql_env \<Rightarrow> bool" where
  "env_serves so log env \<longleftrightarrow> serves (my_binlog env) (kept_logs env) (so_file so) log \<and> my_render env = so_render so \<and>
     unwrap_or (bs_database (my_binlog env)) [] = so_db so \<and> dump_positioned so log (my_full env)"

lemma latest_full_read:
  "latest_mysql_full c s = Inr base \<Longrightarrow> store_ok c s \<Longrightarrow>
     \<exists>m. store_read c s base = Some m \<and> is_mysql_full m \<and> m_id m = base"
proof -
  have "first_full c s ids = Inr base \<Longrightarrow> \<exists>i m. store_read c s i = Some m \<and> is_mysql_full m \<and> m_id m = base" for ids
    by (induction ids) (auto split: option.splits if_splits)
  then show "latest_mysql_full c s = Inr base \<Longrightarrow> store_ok c s \<Longrightarrow>
     \<exists>m. store_read c s base = Some m \<and> is_mysql_full m \<and> m_id m = base"
    unfolding latest_mysql_full_def store_ok_def by metis
qed

text \<open>The increment continues at the end of the tiling.\<close>

lemma start_at_end:
  assumes start: "chain_start_coords c s base = Inr co" and bm: "store_read c s base = Some bm"
    and t: "tiled c b unst so s pre (collect_mysql_increments c s base) segs"
    and at: "\<forall>co. m_mysql_binlog bm = Some co \<longrightarrow> coords_at (so_file so) pre co"
  shows "coords_at (so_file so) (pre @ concat segs) co"
proof (cases "last_coords c s (rev (collect_mysql_increments c s base))")
  case None
  with tiled_last_coords [OF t] have "collect_mysql_increments c s base = []" by simp
  then have "segs = []" using tiled_length [OF t] by simp
  with start bm at None show ?thesis
    by (auto simp: chain_start_coords_def split: option.splits)
next
  case (Some co')
  with start tiled_last_coords [OF t] show ?thesis by (simp add: chain_start_coords_def)
qed

text \<open>What a capture from the end of the chain makes of the chain.\<close>

lemma available_kept: "binlog_available (my_logs env) start = Inr True \<Longrightarrow> binlog_file start \<in> kept_logs env"
  by (auto simp: binlog_available_def kept_logs_def split: if_splits option.splits)

lemma capture_extends:
  assumes inv: "mysql_inv c b unst so w log" and srv: "env_serves so log env"
    and base: "latest_mysql_full c (w_store w) = Inr base"
    and start: "chain_start_coords c (w_store w) base = Inr start"
    and avail: "binlog_available (my_logs env) start = Inr True"
    and cap: "mysql_capture b (my_render env) (my_binlog env) now start sid = Inr out"
    and m: "m_base_id m = Some base" "m_backup_type m = Incremental" "m_mysql_binlog m = Some (co_end out)"
      "m_oplog_count m = Some (word_of_nat (co_count out))" "store_read c s' (m_id m) = Some m"
    and fits: "frame_fits b (header_doc now)"
    and data: "co_count out \<noteq> 0 \<Longrightarrow> \<exists>f bs. unst m = Some f \<and> sto_get s' (data_path (m_id m)) = Some bs \<and>
      f bs = (co_archive out, True)"
  shows "sound_addition c b unst so w s' log m"
proof -
  have ok: "store_ok c (w_store w)" and tile: "slices_tile c b unst so (w_store w) log"
    using inv by (auto simp: mysql_inv_def)
  obtain bm where bm: "store_read c (w_store w) base = Some bm" "is_mysql_full bm" "m_id bm = base"
    using latest_full_read [OF base ok] by blast
  have bt: "base_tiled c b unst so (w_store w) log bm"
    using tile bm by (auto simp: slices_tile_def)
  obtain co where co: "m_mysql_binlog bm = Some co"
  proof (cases "m_mysql_binlog bm")
    case None
    with bt bm(3) have "collect_mysql_increments c (w_store w) base = []" by (simp add: base_tiled_def)
    with start bm(1) None show ?thesis by (simp add: chain_start_coords_def)
  qed
  have "\<exists>seg rest. post = seg @ rest \<and> slice_holds c b unst so s' (pre @ concat segs) (m_id m) seg"
    if p: "log = pre @ concat segs @ post" "coords_at (so_file so) pre co"
      "tiled c b unst so (w_store w) pre (collect_mysql_increments c (w_store w) base) segs"
    for pre segs post
  proof -
    have "coords_at (so_file so) (pre @ concat segs) start"
      using start_at_end [OF start bm(1) p(3)] co p(2) by simp
    moreover have "serves (my_binlog env) (kept_logs env) (so_file so) ((pre @ concat segs) @ post)"
      using srv p(1) by (simp add: env_serves_def)
    moreover have "binlog_file start \<in> kept_logs env"
      by (rule available_kept [OF avail])
    ultimately obtain seg rest where s: "post = seg @ rest" "whole_tx seg"
      "co_archive out = archive_of b now (src_changes so seg)" "co_count out = length (src_changes so seg)"
      "coords_at (so_file so) ((pre @ concat segs) @ seg) (co_end out)"
      using capture_tile [OF cap] srv unfolding env_serves_def archive_of_def by metis
    have n: "m_oplog_count m = Some (word_of_nat (length (src_changes so seg)))"
      using m(4) s(4) by simp
    have "src_changes so seg \<noteq> [] \<longrightarrow> (\<exists>now f data. frame_fits b (header_doc now) \<and> unst m = Some f \<and>
        sto_get s' (data_path (m_id m)) = Some data \<and> f data = (archive_of b now (src_changes so seg), True))"
      using data s(4) fits unfolding s(3) by auto
    with s(2,5) m(3,5) n have "slice_holds c b unst so s' (pre @ concat segs) (m_id m) seg"
      unfolding slice_holds_def by blast
    with s(1) show ?thesis by blast
  qed
  with bm(1) co m(1,2) show ?thesis
    by (auto simp: sound_addition_def is_mysql_full_def)
qed

lemma incr_manifest_simps [simp]:
  "m_id (mysql_incremental_manifest now i base v st ck n meta co) = i"
  "m_base_id (mysql_incremental_manifest now i base v st ck n meta co) = Some base"
  "m_backup_type (mysql_incremental_manifest now i base v st ck n meta co) = Incremental"
  "m_mysql_binlog (mysql_incremental_manifest now i base v st ck n meta co) = co"
  "m_oplog_count (mysql_incremental_manifest now i base v st ck n meta co) = Some (word_of_nat n)"
  "m_compression (mysql_incremental_manifest now i base v st ck n meta co) = bm_compression meta"
  "m_encryption (mysql_incremental_manifest now i base v st ck n meta co) = bm_encryption meta"
  "m_checksum_sha256 (mysql_incremental_manifest now i base v st ck n meta co) = ck"
  by (simp_all add: mysql_incremental_manifest_def)

lemma new_id_steps:
  "new_id w = (i, w1) \<Longrightarrow> i = w_uuid w (w_drawn w) \<and> same_oracle w w1 \<and> look w1 = look w \<and> w_drawn w1 = Suc (w_drawn w)"
  by (auto simp: new_id_def same_oracle_def)

lemma empty_slice_keeps:
  assumes inv: "mysql_inv c b unst so w log" and rel: "reliable_deletes w" and codec: "codec_laws c"
    and srv: "env_serves so log env" and base: "latest_mysql_full c (w_store w) = Inr base"
    and start: "chain_start_coords c (w_store w) base = Inr start"
    and avail: "binlog_available (my_logs env) start = Inr True"
    and fits: "frame_fits b (header_doc now)"
    and cap: "mysql_capture b (my_render env) (my_binlog env) now start sid = Inr out"
    and none: "co_count out = 0" and run: "mysql_empty_slice c now base v out w = (r, w')"
  shows "mysql_inv c b unst so w' log \<and> reliable_deletes w'"
proof -
  obtain i w1 where n: "new_id w = (i, w1)" by fastforce
  note i = new_id_steps [OF n]
  define m where "m = mysql_incremental_manifest now i base v 0 (sha256_hex c []) 0 no_meta (Some (co_end out))"
  obtain r0 where wr: "manifest_write c m w1 = (r0, w')"
    using run n by (auto simp: mysql_empty_slice_def m_def Let_def split: prod.splits sum.splits)
  have mid: "m_id m = i" by (simp add: m_def)
  note wc = manifest_write_cases [OF wr]
  have or: "same_oracle w w'" using i wc same_oracle_trans by blast
  have only: "only_touches i w w'"
    using wc i unfolding mid by (simp add: only_touches_def)
  have "look w' (manifest_path i) = look w1 (manifest_path i) \<or> look w' (manifest_path i) = Some (to_json c m)"
    using wr mid by (auto simp: manifest_write_def io_put_def split: if_splits)
  moreover have "look w1 (manifest_path i) = None"
    using i mysql_inv_fresh [OF inv] by (simp add: fresh_def)
  ultimately have "store_read c (w_store w') i = None \<or> store_read c (w_store w') i = Some m"
    using codec by (auto simp: store_read_def codec_laws_def codec_ok_def)
  moreover have "sound_addition c b unst so w (w_store w') log m" if "store_read c (w_store w') i = Some m"
    by (rule capture_extends [OF inv srv base start avail cap _ _ _ _ _ fits]) (use that none in \<open>simp_all add: m_def\<close>)
  ultimately have "mysql_inv c b unst so w' log"
    using i wc mid by (intro mysql_inv_step [OF inv or _ _ only]) auto
  with or rel show ?thesis using same_oracle_reliable by blast
qed

lemma store_slice_keeps:
  assumes inv: "mysql_inv c b unst so w log" and rel: "reliable_deletes w" and codec: "codec_laws c"
    and st: "stages_undone stages meta unst"
    and srv: "env_serves so log env" and base: "latest_mysql_full c (w_store w) = Inr base"
    and start: "chain_start_coords c (w_store w) base = Inr start"
    and avail: "binlog_available (my_logs env) start = Inr True"
    and fits: "frame_fits b (header_doc now)"
    and cap: "mysql_capture b (my_render env) (my_binlog env) now start sid = Inr out"
    and run: "mysql_store_slice c now base v stages meta out w = (r, w')"
  shows "mysql_inv c b unst so w' log \<and> reliable_deletes w'"
proof -
  obtain i w1 where n: "new_id w = (i, w1)" by fastforce
  note i = new_id_steps [OF n]
  consider (stage) "w' = cleanup i (ignore_fault w1)"
    | (put) bs w2 where "io_put (data_path i) bs w1 = (False, w2)" "w' = cleanup i w2"
    | (stored) bs w2 r2 m where "stages (co_archive out) = Some bs" "io_put (data_path i) bs w1 = (True, w2)"
      "m = mysql_incremental_manifest now i base v (word_of_nat (length bs)) (sha256_hex c bs) (co_count out)
         meta (Some (co_end out))"
      "write_manifest_or_cleanup c m w2 = (r2, w')"
    using run n unfolding mysql_store_slice_def Let_def
    by (auto split: option.splits prod.splits bool.splits sum.splits)
  then show ?thesis
  proof cases
    case stage
    have "same_oracle w (ignore_fault w1)" "only_touches i w (ignore_fault w1)"
      using i by (auto simp: ignore_fault_def same_oracle_def only_touches_def)
    from failed_clean_cleanup [OF this] i stage show ?thesis
      using mysql_inv_failed [OF inv _ rel] by simp
  next
    case put
    from io_put_cases [OF put(1)] i have "same_oracle w w2" "only_touches i w w2"
      using same_oracle_trans by (auto simp: only_touches_def)
    from failed_clean_cleanup [OF this] i put(2) show ?thesis
      using mysql_inv_failed [OF inv _ rel] by simp
  next
    case stored
    have mid: "m_id m = i" using stored(3) by simp
    have w2: "same_oracle w w2" "look w2 = (look w)(data_path i \<mapsto> bs)" "w_drawn w2 = Suc (w_drawn w)"
      using io_put_cases [OF stored(2)] i same_oracle_trans by auto
    have only2: "only_touches i w w2" using w2(2) by (intro only_touches_put) auto
    show ?thesis
    proof (cases r2)
      case (Inl e)
      from write_or_cleanup_Inl [OF stored(4) [unfolded Inl] w2(1)] only2 mid i show ?thesis
        using mysql_inv_failed [OF inv _ rel] by simp
    next
      case (Inr u)
      note wr = write_or_cleanup_Inr [OF stored(4) [unfolded Inr]]
      have look: "look w' (manifest_path i) = Some (to_json c m)" "look w' (data_path i) = Some bs"
        using wr w2(2) mid by auto
      have read: "store_read c (w_store w') i = Some m"
        using look(1) codec by (simp add: store_read_def codec_laws_def codec_ok_def)
      have or: "same_oracle w w'" using wr w2(1) same_oracle_trans by blast
      have only: "only_touches i w w'"
        using wr only2 mid by (auto simp: only_touches_def)
      obtain f where f: "unst m = Some f" "f bs = (co_archive out, True)"
        using st stored(1,3) unfolding stages_undone_def by (metis incr_manifest_simps(6,7))
      have "sound_addition c b unst so w (w_store w') log m"
        by (rule capture_extends [OF inv srv base start avail cap _ _ _ _ _ fits]) (use read f look(2) mid in \<open>simp_all add: stored(3)\<close>)
      then have "mysql_inv c b unst so w' log"
        using i wr w2(3) read mid by (intro mysql_inv_step [OF inv or _ _ only]) auto
      with or rel show ?thesis using same_oracle_reliable by blast
    qed
  qed
qed

lemma mysql_incremental_keeps:
  assumes inv: "mysql_inv c b unst so w log" and rel: "reliable_deletes w" and codec: "codec_laws c"
    and st: "stages_undone stages meta unst" and srv: "env_serves so log env"
    and fits: "frame_fits b (header_doc now)"
    and run: "run_mysql_incremental_backup c b env profile stages meta now w = (r, w')"
  shows "mysql_inv c b unst so w' log \<and> reliable_deletes w'"
proof -
  consider (same) "w' = w"
    | (promoted) base where "mysql_promote c env now base stages meta w = (r, w')"
    | (captured) base start out where "latest_mysql_full c (w_store w) = Inr base"
      "chain_start_coords c (w_store w) base = Inr start" "binlog_available (my_logs env) start = Inr True"
      "mysql_capture b (my_render env) (my_binlog env) now start (server_id_for profile) = Inr out"
      "(if co_count out = 0 then mysql_empty_slice c now base (server_name (my_version env)) out w
        else mysql_store_slice c now base (server_name (my_version env)) stages meta out w) = (r, w')"
    using run unfolding run_mysql_incremental_backup_def
    by (auto split: sum.splits if_splits bool.splits)
  then show ?thesis
  proof cases
    case same
    with inv rel show ?thesis by simp
  next
    case promoted
    then obtain r1 where "run_mysql_full_backup_with_rows c (my_full env) None stages meta True True now w = (r1, w')"
      by (auto simp: mysql_promote_def run_mysql_full_backup_def split: prod.splits sum.splits)
    moreover have "dump_positioned so log (my_full env)"
      using srv by (simp add: env_serves_def)
    ultimately show ?thesis
      using mysql_full_keeps [OF inv rel codec] by blast
  next
    case captured
    then show ?thesis
      using empty_slice_keeps [OF inv rel codec srv captured(1,2,3) fits captured(4)]
        store_slice_keeps [OF inv rel codec st srv captured(1,2,3) fits captured(4)] by (auto split: if_splits)
  qed
qed

section \<open>Histories\<close>

text \<open>
  A history of the destination and of the binlog: the source writes, a full backup runs, an increment
  runs. Runs end with any result.
\<close>

inductive mysql_history ::
  "codec \<Rightarrow> bson_lib \<Rightarrow> unstage \<Rightarrow> ('v, 'c) source \<Rightarrow> world \<times> ('v, 'c) binlog_event list \<Rightarrow>
   world \<times> ('v, 'c) binlog_event list \<Rightarrow> bool" for c b unst so where
  h_start: "mysql_history c b unst so s s"
| h_write: "mysql_history c b unst so s (w, log) \<Longrightarrow> mysql_history c b unst so s (w, log @ evs)"
| h_full: "mysql_history c b unst so s (w, log) \<Longrightarrow> dump_positioned so log env \<Longrightarrow>
    run_mysql_full_backup_with_rows c env tf stages meta digest promoted now w = (r, w') \<Longrightarrow>
    mysql_history c b unst so s (w', log)"
| h_incr: "mysql_history c b unst so s (w, log) \<Longrightarrow> env_serves so log ienv \<Longrightarrow> stages_undone stages meta unst \<Longrightarrow>
    frame_fits b (header_doc now) \<Longrightarrow>
    run_mysql_incremental_backup c b ienv profile stages meta now w = (r', w') \<Longrightarrow>
    mysql_history c b unst so s (w', log)"

lemma history_keeps:
  assumes "mysql_history c b unst so s s'" and "mysql_inv c b unst so (fst s) (snd s)"
    and "reliable_deletes (fst s)" and "codec_laws c"
  shows "mysql_inv c b unst so (fst s') (snd s') \<and> reliable_deletes (fst s')"
  using assms
proof (induction rule: mysql_history.induct)
  case (h_write s w log evs)
  then have "mysql_inv c b unst so w log" "reliable_deletes w" by simp_all
  then show ?case by (simp add: mysql_inv_grows)
next
  case (h_full s w log env tf stages meta digest promoted now r w')
  then have "mysql_inv c b unst so w log" "reliable_deletes w" by simp_all
  from mysql_full_keeps [OF this h_full.prems(3) h_full.hyps(2,3)] show ?case by simp
next
  case (h_incr s w log ienv stages meta profile now r' w')
  then have "mysql_inv c b unst so w log" "reliable_deletes w" by simp_all
  from mysql_incremental_keeps [OF this h_incr.prems(3) h_incr.hyps(3,2,4,5)] show ?case by simp
qed simp

section \<open>What a recovery restores\<close>

















section \<open>The properties\<close>

text \<open>C8: MySQL backups lose no change between them. Whatever sequence of full and incremental runs a
  destination has seen, while the source kept writing and purged binlogs, and runs failed or were
  promoted, the increments of every full backup with a binlog position tile the binlog from there on:
  each holds the row changes of whole transactions, in order, each begins where the one before it ends,
  and the next increment starts where the last ended. Assumed: the deletes with which a failed run
  cleans up succeed (\<open>reliable_deletes\<close>; any write may fail); the stream of a file that the server lists
  has no hole, but may be refused or break off (\<open>serves\<close>); nothing about a file it does not list.\<close>

theorem mysql_slices_tile:
  assumes "mysql_history c b unst so (w0, log0) (w, log)" and "mysql_inv c b unst so w0 log0"
    and "reliable_deletes w0" and "codec_laws c"
    and "store_read c (w_store w) base = Some m" and "is_mysql_full m" and "m_mysql_binlog m = Some co"
  shows "\<exists>pre segs rest next. log = pre @ concat segs @ rest \<and> coords_at (so_file so) pre co \<and>
    tiled c b unst so (w_store w) pre (collect_mysql_increments c (w_store w) base) segs \<and>
    chain_start_coords c (w_store w) base = Inr next \<and> coords_at (so_file so) (pre @ concat segs) next"
proof -
  have inv: "mysql_inv c b unst so w log"
    using history_keeps [OF assms(1)] assms(2-4) by simp
  then have "m_id m = base" using assms(5) by (simp add: mysql_inv_def store_ok_def)
  with inv assms(5-7) obtain pre segs rest where
    t: "log = pre @ concat segs @ rest" "coords_at (so_file so) pre co"
      "tiled c b unst so (w_store w) pre (collect_mysql_increments c (w_store w) base) segs"
    unfolding mysql_inv_def slices_tile_def base_tiled_def by fastforce
  obtain next' where n: "chain_start_coords c (w_store w) base = Inr next'"
    using assms(5,7) by (cases "last_coords c (w_store w) (rev (collect_mysql_increments c (w_store w) base))")
      (auto simp: chain_start_coords_def)
  from start_at_end [OF n assms(5) t(3)] t(2) assms(7)
  have "coords_at (so_file so) (pre @ concat segs) next'" by simp
  with t n show ?thesis by blast
qed


section \<open>A concrete history\<close>



definition my_change :: Change where
  "my_change = \<lparr>ch_op = Insert, ch_db = ''app'', ch_table = ''t'', ch_before = [], ch_after = [''7''], ch_commit = 5\<rparr>"

definition my_events :: "(string, unit) binlog_event list" where
  "my_events = [\<lparr>ev_timestamp = 1, ev_log_pos = 100, ev_data = Some (Some (GtidEvent 5))\<rparr>,
     \<lparr>ev_timestamp = 1, ev_log_pos = 200, ev_data = Some (Some (RowsEvent WriteRows
        (Some \<lparr>tm_db = ''app'', tm_table = ''t'', tm_types = []\<rparr>) [Some (NoImage, Image [''7''])]))\<rparr>,
     \<lparr>ev_timestamp = 1, ev_log_pos = 300, ev_data = Some (Some XidEvent)\<rparr>]"

definition my_source :: "(string, unit) source" where
  "my_source = \<lparr>so_file = ''b.1'', so_render = (\<lambda>v _. v), so_db = ''app''\<rparr>"

definition my_server :: "(string, unit) binlog_server" where
  "my_server = \<lparr>bs_connects = True, bs_database = Some ''app'',
     bs_stream = (\<lambda>i f p. Some (map Some
       (if p = 4 then my_events else if p = 100 then drop 1 my_events else if p = 200 then drop 2 my_events else [])))\<rparr>"

instance bson_value :: countable
  by countable_datatype

text \<open>The two documents of the history have short forms, every other one its number.\<close>

definition my_bytes :: "nat \<Rightarrow> bytes" where
  "my_bytes n = map (\<lambda>k. word_of_nat ((n + 5) div 256 ^ k mod 256)) [0, 1, 2, 3] @ replicate (Suc n) 0"

definition my_bson :: bson_lib where
  "my_bson = \<lparr>bl_write = (\<lambda>d. my_bytes (if d = header_doc ''t'' then 0 else if d = change_to_doc my_change then 1
       else to_nat d + 2)),
     bl_read = (\<lambda>bs. Some (if length bs = 5 then header_doc ''t'' else if length bs = 6 then change_to_doc my_change
       else from_nat (length bs - 7)))\<rparr>"



lemma my_fits: "frame_fits my_bson (header_doc ''t'')" "frame_fits my_bson (change_to_doc my_change)"
  by (simp_all add: frame_fits_def my_bson_def my_bytes_def MAX_FRAME_BYTES_def header_doc_def change_to_doc_def)

lemma my_serves: "serves my_server kept ''b.1'' my_events"
  unfolding serves_def
proof (intro allI impI)
  fix pre post i co str
  assume split: "my_events = pre @ post" and at: "coords_at ''b.1'' pre co"
    and str: "bs_stream my_server i (binlog_file co) (max (binlog_position co) 4) = Some str"
  have "length pre \<le> 3" using arg_cong [OF split, of length] by (simp add: my_events_def)
  then consider "length pre = 0" | "length pre = 1" | "length pre = 2" | "length pre = 3" by linarith
  moreover have "pre = take (length pre) my_events" "post = drop (length pre) my_events"
    unfolding split by simp_all
  ultimately have "bs_stream my_server i (binlog_file co) (max (binlog_position co) 4) = Some (map Some post)"
    using at by cases (simp_all add: my_server_def coords_at_def pos_after_def my_events_def next_file_def)
  with str show "\<exists>intro. announces (binlog_file co) intro \<and> stream_of (intro @ post) str"
    by (intro exI [of _ "[]"]) (simp add: stream_of_def)
qed

definition my_full_env :: mysql_full_env where
  "my_full_env = \<lparr>mf_connects = True, mf_version = Some ''8.4'', mf_dump = \<lparr>d_bytes = [1],
     d_result = Some \<lparr>md_binlog = Some \<lparr>binlog_file = ''b.1'', binlog_position = 4, gtid_executed = []\<rparr>,
       md_table_rows = [], md_table_digests = []\<rparr>\<rparr>\<rparr>"

definition my_env :: "(string, unit) mysql_env" where
  "my_env = \<lparr>my_connects = True, my_version = Some ''8.4'', my_logs = Some [Some ''b.1''],
     my_binlog = my_server, my_render = (\<lambda>v _. v), my_full = my_full_env\<rparr>"

definition my_world :: world where
  "my_world = \<lparr>w_store = [], w_calls = 0, w_put_fails = (\<lambda>_. False), w_del_fails = (\<lambda>_. False),
     w_uuid = (\<lambda>k. replicate (Suc k) (CHR ''b'')), w_drawn = 0\<rparr>"

definition my_unstage :: unstage where
  "my_unstage m = Some (\<lambda>bs. (bs, True))"

abbreviation my_run_full :: "world \<Rightarrow> (backup_error + BackupOutcome) \<times> world" where
  "my_run_full w \<equiv> run_mysql_full_backup_with_rows number_codec my_full_env None Some no_meta False False ''t'' w"

abbreviation my_run_incr :: "world \<Rightarrow> (mysql_error + MysqlIncrementalOutcome) \<times> world" where
  "my_run_incr w \<equiv> run_mysql_incremental_backup number_codec my_bson my_env ''p'' Some no_meta ''t'' w"

definition my_world1 :: world where
  "my_world1 = snd (my_run_full my_world)"

definition my_world2 :: world where
  "my_world2 = snd (my_run_incr my_world1)"

lemma my_inv: "mysql_inv number_codec b unst so my_world log"
proof -
  have none: "store_read number_codec (w_store my_world) i = None" for i
    by (simp add: store_read_def my_world_def sto_get_def)
  then have ok: "store_ok number_codec (w_store my_world)"
    by (simp add: store_ok_def) (simp add: my_world_def sto_get_def)
  have "fresh i my_world" for i
    by (simp add: fresh_def my_world_def sto_get_def)
  moreover have "n \<notin> set (catalogue number_codec (w_store my_world))" for n
    using set_catalogue [OF ok] none by simp
  ultimately have "ids_ahead number_codec my_world"
    using replicate_b_less unfolding ids_ahead_def Ball_def
    by (simp add: my_world_def valid_id_def)
  with ok none show ?thesis
    by (simp add: mysql_inv_def bases_drawn_def slices_tile_def)
qed

lemma my_history:
  "mysql_history number_codec my_bson my_unstage my_source (my_world, []) (my_world2, my_events)"
proof -
  have undone: "stages_undone Some no_meta my_unstage"
    by (simp add: stages_undone_def my_unstage_def)
  have pos: "dump_positioned my_source log my_full_env" for log
    by (simp add: dump_positioned_def my_full_env_def coords_at_def my_source_def, intro exI [of _ "[]"])
      (simp add: pos_after_def)
  have "mysql_history number_codec my_bson my_unstage my_source (my_world, []) (my_world1, [])"
    by (rule h_full [OF h_start pos, where w' = my_world1 and r = "fst (my_run_full my_world)"])
      (simp add: my_world1_def)
  from h_write [OF this, of my_events]
  have "mysql_history number_codec my_bson my_unstage my_source (my_world, []) (my_world1, my_events)" by simp
  moreover have "env_serves my_source my_events my_env"
    using my_serves pos by (simp add: env_serves_def my_env_def my_source_def my_server_def unwrap_or_def)
  ultimately show ?thesis
    by (rule h_incr [OF _ _ undone my_fits(1), where w' = my_world2 and r' = "fst (my_run_incr my_world1)"])
      (simp add: my_world2_def)
qed

text \<open>The manifest of the full backup, and the destination after it.\<close>

definition my_base :: BackupManifest where
  "my_base = mysql_full_manifest ''t'' my_full_env None False False no_meta \<lparr>sd_backup_id = ''b'', sd_stored_size = 1,
     sd_original_size = 1, sd_checksum = ''s'',
     sd_output = the (d_result (mf_dump my_full_env))\<rparr>"

definition my_slice :: BackupManifest where
  "my_slice = mysql_incremental_manifest ''t'' ''bb'' ''b'' ''mysql 8.4''
     (word_of_nat (length (archive_of my_bson ''t'' [my_change]))) ''s'' 1 no_meta
     (Some \<lparr>binlog_file = ''b.1'', binlog_position = 300, gtid_executed = []\<rparr>)"

lemma my_base_simps [simp]:
  "m_id my_base = ''b''" "is_mysql_full my_base" "m_base_id my_base = None" "\<not> is_mysql_incr j my_base"
  "m_mysql_binlog my_base = Some \<lparr>binlog_file = ''b.1'', binlog_position = 4, gtid_executed = []\<rparr>"
  by (simp_all add: my_base_def mysql_full_manifest_def full_manifest_def is_mysql_full_def is_mysql_incr_def my_full_env_def)

lemma my_world1_look: "look my_world1 = [data_path ''b'' \<mapsto> [1], manifest_path ''b'' \<mapsto> to_json number_codec my_base,
    manifest_sha_path ''b'' \<mapsto> to_bytes (sidecar_checksum number_codec (to_json number_codec my_base))]"
  "w_put_fails my_world1 = (\<lambda>_. False)" "w_drawn my_world1 = 1" "w_uuid my_world1 = w_uuid my_world"
proof -
  have sha: "sha256_hex number_codec [1] = ''s''" by (simp add: number_codec_def)
  have core: "store_dump_stream number_codec Some (mf_dump my_full_env) my_world =
      (Inr \<lparr>sd_backup_id = ''b'', sd_stored_size = 1, sd_original_size = 1, sd_checksum = ''s'',
         sd_output = the (d_result (mf_dump my_full_env))\<rparr>,
       my_world\<lparr>w_drawn := 1, w_calls := 1, w_store := sto_put (data_path ''b'') [1] []\<rparr>)"
    by (simp add: store_dump_stream_def new_id_def io_put_def my_world_def my_full_env_def sha)
  then have w1: "my_world1 = snd (publish number_codec my_base
      (my_world\<lparr>w_drawn := 1, w_calls := 1, w_store := sto_put (data_path ''b'') [1] []\<rparr>))"
    by (simp add: my_world1_def run_mysql_full_backup_with_rows_def my_base_def) (simp add: my_full_env_def)
  show "look my_world1 = [data_path ''b'' \<mapsto> [1], manifest_path ''b'' \<mapsto> to_json number_codec my_base,
      manifest_sha_path ''b'' \<mapsto> to_bytes (sidecar_checksum number_codec (to_json number_codec my_base))]"
    unfolding w1 publish_def write_manifest_or_cleanup_def manifest_write_def
    by (intro ext) (simp add: io_put_def my_world_def sto_get_def [of "[]"])
  show "w_put_fails my_world1 = (\<lambda>_. False)" "w_drawn my_world1 = 1" "w_uuid my_world1 = w_uuid my_world"
    unfolding w1 publish_def write_manifest_or_cleanup_def manifest_write_def
    by (simp_all add: io_put_def my_world_def)
qed

lemma my_inv1: "mysql_inv number_codec my_bson my_unstage my_source my_world1 my_events"
  "mysql_inv number_codec my_bson my_unstage my_source my_world2 my_events"
proof -
  have rel: "reliable_deletes my_world"
    by (simp add: reliable_deletes_def my_world_def)
  have pos: "dump_positioned my_source my_events my_full_env"
    by (simp add: dump_positioned_def my_full_env_def coords_at_def my_source_def, intro exI [of _ "[]"])
      (simp add: pos_after_def)
  show "mysql_inv number_codec my_bson my_unstage my_source my_world1 my_events"
    using mysql_full_keeps [OF my_inv rel number_codec_laws pos, where r = "fst (my_run_full my_world)"]
    unfolding my_world1_def by simp
  show "mysql_inv number_codec my_bson my_unstage my_source my_world2 my_events"
    using history_keeps [OF my_history] my_inv [of my_bson my_unstage my_source "[]"] rel number_codec_laws by simp
qed

lemma my_read1: "store_read number_codec (w_store my_world1) i = (if i = ''b'' then Some my_base else None)"
  by (simp add: store_read_def my_world1_look)

lemma my_ok1: "store_ok number_codec (w_store my_world1)"
  using my_inv1(1) by (simp add: mysql_inv_def)

lemma my_incr1: "collect_mysql_increments number_codec (w_store my_world1) ''b'' = []"
proof -
  have "j \<notin> set (collect_mysql_increments number_codec (w_store my_world1) ''b'')" for j
    by (simp add: increments_mem [OF my_ok1] my_read1)
  then show ?thesis by (metis list.set_intros(1) neq_Nil_conv)
qed

lemma my_latest1: "latest_mysql_full number_codec (w_store my_world1) = Inr ''b''"
proof -
  have "i \<in> set (collect_manifest_ids (w_store my_world1)) \<longleftrightarrow> i = ''b''" for i
    by (auto simp: set_collect_manifest_ids my_world1_look split: if_splits)
  then have "set (collect_manifest_ids (w_store my_world1)) = {''b''}" by blast
  then have "collect_manifest_ids (w_store my_world1) = [''b'']"
    by (intro sorted_distinct_set_unique) (simp_all add: collect_manifest_ids_def)
  then show ?thesis
    by (simp add: latest_mysql_full_def my_read1)
qed

lemma my_captured: "mysql_capture my_bson (\<lambda>v _. v) my_server ''t''
    \<lparr>binlog_file = ''b.1'', binlog_position = 4, gtid_executed = []\<rparr> i =
  Inr \<lparr>co_archive = archive_of my_bson ''t'' [my_change],
    co_end = \<lparr>binlog_file = ''b.1'', binlog_position = 300, gtid_executed = []\<rparr>, co_count = 1, co_more_pending = False\<rparr>"
  by (simp add: mysql_capture_def my_server_def my_events_def capture_event_def rows_changes_def row_change_def
      render_binlog_row_def start_state_def unwrap_or_def Let_def MAX_CHANGES_PER_CAPTURE_def archive_of_def my_change_def)

lemma my_world2_look: "fst (my_run_incr my_world1) \<noteq> Inl e"
  "look my_world2 = (look my_world1)(data_path ''bb'' \<mapsto> archive_of my_bson ''t'' [my_change],
     manifest_path ''bb'' \<mapsto> to_json number_codec my_slice,
     manifest_sha_path ''bb'' \<mapsto> to_bytes (sidecar_checksum number_codec (to_json number_codec my_slice)))"
proof -
  let ?a = "archive_of my_bson ''t'' [my_change]"
  have start: "chain_start_coords number_codec (w_store my_world1) ''b'' =
      Inr \<lparr>binlog_file = ''b.1'', binlog_position = 4, gtid_executed = []\<rparr>"
    by (simp add: chain_start_coords_def my_incr1 my_read1)
  have avail: "binlog_available (my_logs my_env) \<lparr>binlog_file = ''b.1'', binlog_position = 4, gtid_executed = []\<rparr> = Inr True"
    by (simp add: binlog_available_def my_env_def)
  have run: "my_run_incr my_world1 = mysql_store_slice number_codec ''t'' ''b'' ''mysql 8.4'' Some no_meta
      \<lparr>co_archive = ?a, co_end = \<lparr>binlog_file = ''b.1'', binlog_position = 300, gtid_executed = []\<rparr>, co_count = 1,
       co_more_pending = False\<rparr> my_world1"
    by (simp add: run_mysql_incremental_backup_def my_latest1 start avail) (simp add: my_env_def my_captured server_name_def)
  have id: "new_id my_world1 = (''bb'', my_world1\<lparr>w_drawn := Suc (w_drawn my_world1)\<rparr>)"
    by (simp add: new_id_def my_world1_look my_world_def)
  have "?a \<noteq> []" by (simp add: archive_of_def write_header_def write_doc_def)
  then have sha: "sha256_hex number_codec ?a = ''s''" by (simp add: number_codec_def)
  have "\<exists>out. fst (my_run_incr my_world1) = Inr out"
    unfolding run by (simp add: mysql_store_slice_def id Let_def io_put_def my_world1_look
        write_manifest_or_cleanup_def manifest_write_def)
  then show "fst (my_run_incr my_world1) \<noteq> Inl e" by auto
  show "look my_world2 = (look my_world1)(data_path ''bb'' \<mapsto> ?a, manifest_path ''bb'' \<mapsto> to_json number_codec my_slice,
     manifest_sha_path ''bb'' \<mapsto> to_bytes (sidecar_checksum number_codec (to_json number_codec my_slice)))"
    unfolding my_world2_def run
    by (intro ext) (simp add: mysql_store_slice_def id Let_def io_put_def my_world1_look(2) sha
        write_manifest_or_cleanup_def manifest_write_def my_slice_def [symmetric], simp add: my_slice_def)
qed

lemma my_slice_simps [simp]:
  "m_id my_slice = ''bb''" "m_oplog_count my_slice = Some 1" "is_mysql_incr ''b'' my_slice" "\<not> is_mysql_full my_slice"
  by (simp_all add: my_slice_def) (simp_all add: is_mysql_incr_def is_mysql_full_def mysql_incremental_manifest_def)

lemma my_read2: "store_read number_codec (w_store my_world2) i =
    (if i = ''b'' then Some my_base else if i = ''bb'' then Some my_slice else None)"
  by (simp add: store_read_def my_world2_look(2) my_world1_look(1))

lemma my_incr2: "collect_mysql_increments number_codec (w_store my_world2) ''b'' = [''bb'']"
proof -
  have ok: "store_ok number_codec (w_store my_world2)"
    using my_inv1(2) by (simp add: mysql_inv_def)
  have "j \<in> set (collect_mysql_increments number_codec (w_store my_world2) ''b'') \<longleftrightarrow> j = ''bb''" for j
    by (simp add: increments_mem [OF ok] my_read2)
  then have "set (collect_mysql_increments number_codec (w_store my_world2) ''b'') = {''bb''}" by blast
  with increments_set [OF ok, of "''b''"] show ?thesis
    by (intro sorted_distinct_set_unique) simp_all
qed

theorem mysql_slices_tile_witness:
  "\<exists>pre segs rest next. my_events = pre @ concat segs @ rest \<and>
    tiled number_codec my_bson my_unstage my_source (w_store my_world2) pre [''bb''] segs \<and>
    chain_start_coords number_codec (w_store my_world2) ''b'' = Inr next \<and> coords_at ''b.1'' (pre @ concat segs) next"
proof -
  have rel: "reliable_deletes my_world"
    by (simp add: reliable_deletes_def my_world_def)
  have "store_read number_codec (w_store my_world2) ''b'' = Some my_base" by (simp add: my_read2)
  from mysql_slices_tile [OF my_history my_inv rel number_codec_laws this my_base_simps(2,5)]
  show ?thesis
    unfolding my_incr2 by (auto simp: my_source_def)
qed

















end
