(* ===== verification/Spec2Isabelle.thy ===== *)
theory Spec2Isabelle
  imports XB_Errors XB_Pitr XB_Prune XB_Cron XB_File_Properties XB_File_Uri XB_Lock XB_Jobs XB_Lifecycle XB_Stages XB_Guard XB_Mysql
begin

text \<open>
  x-backup takes backups of databases and directories, verifies and prunes them, restores them to a
  point in time, and runs these operations from the command line, from a schedule or from a web
  console. This library models the logic that decides whether a backup can be restored.

  How the program works. A destination holds one directory per backup with \<open>data.bin\<close>,
  \<open>manifest.json\<close>, \<open>manifest.sha256\<close> and, for file backups, \<open>index.json.zst\<close>. A full backup is the
  base of a chain; an incremental backup stores the oplog entries (MongoDB) or the changed files
  since the end of its chain and names the base. \<open>verify\<close> checks the bytes of a backup and the
  continuity of its chain, \<open>prune\<close> deletes whole chains, \<open>pitr\<close> restores a base and replays the
  slices up to a second. A profile is locked while a run writes. The console starts each run as a child
  process, journals its life in a log file and an index, reads its exit status, cancels it, and
  closes what a dead console left open.

  The theories, from the bottom up (file names are below \<open>src/src\<close>):

  \<^item> \<open>XB_Prelude\<close>: types of machine integers, the result type, the slice operations of the Rust
    library (\<open>sort_by\<close>, \<open>windows\<close>, \<open>split_once\<close>), and the locale \<open>comparator\<close>, whose facts on sorting
    every client of a sort uses; it is interpreted on the comparators of the chains, the retention
    plan and the natural orders.
  \<^item> \<open>XB_Errors\<close>: \<open>error.rs\<close>, \<open>web/job/runner.rs\<close> (\<open>JobOutcome\<close>), \<open>web/job/exit.rs\<close> (levels). The exit code
    of each error and what the console reads back from it.
  \<^item> \<open>XB_Manifest\<close>: \<open>manifest/schema.rs\<close>. The manifest as a record, the order of oplog timestamps
    (an instance of \<open>linorder\<close>), the archive formats of \<open>engine/mod.rs\<close>.
  \<^item> \<open>XB_Chain\<close>, \<open>XB_Extend\<close>: \<open>manifest/chain.rs\<close>. \<open>verify_chain\<close>, the caching \<open>ChainVerifier\<close>, and how a
    good chain grows. The lemmas say that a continuous chain covers each timestamp once, that the
    verdict is independent of the listing order, and that the cache does not change a report.
  \<^item> \<open>XB_Oplog_Apply\<close>: \<open>engine/mongo/apply.rs\<close>. Reading, classifying, batching and sending entries; the
    locale \<open>replayer\<close> states what a loop over entries needs to be exact, and is interpreted on the
    loop of the code.
  \<^item> \<open>XB_Pitr\<close>: \<open>pipeline/pitr.rs\<close>. The plan of a recovery and its run.
  \<^item> \<open>XB_Storage\<close>: \<open>manifest/store.rs\<close>, \<open>storage/mod.rs\<close>, \<open>pipeline/verify.rs\<close>. Layout of a backup,
    verification of one backup, copies to further destinations.
  \<^item> \<open>XB_Prune\<close>: \<open>pipeline/prune.rs\<close>. Retention rules, orphans, deletion and its interruption.
  \<^item> \<open>XB_Cron\<close>: \<open>web/schedule/cron.rs\<close>. The parser of schedules and the search of the next run.
  \<^item> \<open>XB_Backup\<close>: \<open>pipeline/backup.rs\<close>. The state \<open>world\<close> (a destination whose writes and deletes can
    fail), the core that stores a dump, the full backup of MongoDB with its manifest and clean-up, and
    what is left of it when the process stops at any call.
  \<^item> \<open>XB_Catalogue\<close>: the nodes of a destination, \<open>verify_chain_for\<close>, and how the catalogue moves when a
    backup is published or withdrawn.
  \<^item> \<open>XB_Oplog_Capture\<close>, \<open>XB_Incremental\<close>: \<open>engine/mongo/oplog.rs\<close>, \<open>pipeline/incremental.rs\<close>. The gap check,
    the upper bound, the capture, the promotion to a full backup; any sequence of runs keeps every
    chain good.
  \<^item> \<open>XB_File_Engine\<close>, \<open>XB_File_Index\<close>, \<open>XB_File\<close>, \<open>XB_File_Chain\<close>, \<open>XB_File_Properties\<close>: \<open>engine/file\<close>, the file
    parts of \<open>pipeline/backup.rs\<close> and \<open>pipeline/restore.rs\<close>. Index, differences, archives, restore; what
    a history of runs restores. \<open>XB_File_Uri\<close> reads the source of a file backup from its URI.
  \<^item> \<open>XB_Mysql_Dml\<close>, \<open>XB_Binlog\<close>, \<open>XB_Mysql\<close>: \<open>engine/mysql/incremental.rs\<close>, the MySQL parts of
    \<open>pipeline/backup.rs\<close>, \<open>pipeline/mysql_pitr.rs\<close>. The statements of the replay as text and as changes of
    rows, the capture and the frames of a slice, full and incremental backups, recovery. The slices of a
    base tile the binlog, and a recovery ends with the rows of the source.
  \<^item> \<open>XB_Crypto\<close>, \<open>XB_Stages\<close>: \<open>crypto\<close>, \<open>compress/mod.rs\<close>, \<open>pipeline/stage.rs\<close>, \<open>build_stages\<close> of
    \<open>cli/handlers/backup.rs\<close>. The frames of the symmetric encryption under readers that cut the bytes
    anywhere, the choice of the stages, and the reverse stack a manifest asks for.
  \<^item> \<open>XB_Lock\<close>: \<open>lock/file_lock.rs\<close>, \<open>web/routes/lock.rs\<close>. The lock as functions and as a machine with
    one transition per system call, and every call of the code is a run of the machine. The machine is
    exclusive as long as no process is about to take a free lock while another has not finished with the
    file it opened there before; otherwise one reclaiming process is enough to break it
    (\<open>reclaim_race\<close>).
  \<^item> \<open>XB_Journal\<close>, \<open>XB_Jobs\<close>: \<open>web/jsonguard.rs\<close>, \<open>web/audit.rs\<close>, \<open>web/state/jobs.rs\<close>. Files of one record
    per line under torn writes, the gate of the audit log, the history of jobs, rotation, rebuild.
  \<^item> \<open>XB_Lifecycle\<close>: \<open>web/job/lifecycle.rs\<close>, \<open>web/reattach.rs\<close>. Identity of a process, cancellation, the scan
    after a restart.
  \<^item> \<open>XB_Auth\<close>, \<open>XB_Guard\<close>: \<open>web/auth.rs\<close>, \<open>web/guard.rs\<close>. Which requests a session lets through, the delays
    of failed logins, and the tokens that confirm a destructive operation.

  Parameters and their laws. What is not in the repository is an argument of the definitions that use
  it, and what the code relies on is a named hypothesis: \<open>codec_laws\<close> (the JSON text of a manifest
  reads back), \<open>index_laws\<close> (the same for an index), \<open>tar_laws\<close> (an archive yields the entries it was
  built from; entries are unpacked and removed in directories that their owner may write and search, up
  to the times of directories and links), \<open>stages_undone\<close> (decryption and decompression undo the stages of a backup),
  \<open>lock_codec\<close>, \<open>line_codec\<close>, \<open>jobs_laws\<close> (JSON forms of lock files and journal lines),
  \<open>view_agrees\<close> (the lock page reads the fields the lock wrote), \<open>aead_correct\<close> and \<open>unforged\<close> (the cipher
  opens what it sealed, and nothing else), \<open>stage_laws\<close> (compressors and age undo themselves),
  \<open>bson_laws\<close> (a document reads back and begins with its length), \<open>serves\<close> and \<open>env_serves\<close> (the binlog
  stream of a file that the server lists yields the events behind a position, may be refused and may
  break off; nothing is said of a purged file), \<open>dump_positioned\<close> (a dump reports a position between
  transactions), \<open>target_laws\<close> (the server runs the statements of the replay as documented; its rows
  are those of \<open>schema\<close>, which also says how a column compares values), \<open>compares\<close> (what the \<open>WHERE\<close> of
  a replay needs of these comparisons: no \<open>FLOAT\<close> in a primary key, and in a table without one only
  columns where equal means the same value). The documents of the oplog, the server's answers,
  SHA-256, RFC 3339, the calendar, UUIDs and the operating system's answers are functions without laws
  unless a statement names one. Each property with such a hypothesis has a witness on a concrete
  function that satisfies it.

  Failures. A write or delete of a destination fails when the oracle of \<open>world\<close> says so for its number;
  an append to a journal can be torn at any byte; a lock process can crash between any two system
  calls. The statements on sequences of runs assume \<open>reliable_deletes\<close>: the deletes of a clean-up succeed,
  any write may fail (a clean-up whose second delete is lost leaves a listed backup without data,
  \<open>stopped_cleanup_lists_no_data\<close>). Errors are values of a sum or option type, so every early return is a branch.

  Bounds and fuel. The only fuel is that of \<open>step_loop\<close> (70 rounds; \<open>steps_terminate\<close> shows that they
  suffice for every step of a 32-bit field, since each of the at most 64 values is met once before the
  counter wraps past the range). The loop over the frames of a slice ends because each frame takes
  bytes. The search of the next run looks \<open>MAX_DAYS_AHEAD\<close> days ahead as the code does; a batch has at
  most \<open>MAX_BATCH_OPS\<close> entries; a job's end is tried three times; a log
  shows 2000 lines; the waits of a cancellation end by a measure on the time left. Machine integers
  have the width of the source; where a sum can wrap it is a word.

  Not modelled:
  \<^item> the loops of the schedulers (\<open>web/schedule/mod.rs\<close>, \<open>schedule/mod.rs\<close>): threads and clocks around
    \<open>next_after\<close>, which is modelled;
  \<^item> the HTTP server, event streams, routes and pages of the console (\<open>web/server.rs\<close>, \<open>web/routes\<close>,
    \<open>web/view\<close>): framework glue and HTML; of the routes, the lock page's reading is modelled. Of
    \<open>web/auth.rs\<close> the login page, its warnings, the slots of delayed answers and the estimate of entropy
    (floating point) are left out;
  \<^item> the handlers of the command line (\<open>cli\<close>) but for \<open>build_stages\<close>: argument parsing and printing
    around the pipelines;
  \<^item> the drivers (\<open>engine/mongo/dump.rs\<close>, \<open>engine/postgres\<close>, dump and loader of \<open>engine/mysql\<close>):
    conversations with servers;
  \<^item> the pipelines of PostgreSQL and the migration: they follow the pattern of MongoDB and MySQL over other
    drivers;
  \<^item> S3 and local storage, the codecs of compression and age: their contract is a parameter;
  \<^item> hooks, notifications, self-update, translations, the configuration files of the first format.
\<close>

end
